(* ===== verification/Imgjit_Prelude.thy ===== *)
theory Imgjit_Prelude
  imports Complex_Main "HOL-Library.Word"
begin

text \<open>
  Shared vocabulary of the development: names for the C++ integer types, the exceptions
  the code throws and the result type that carries them, decimal printing and reading of
  numbers, and the generic facts on lists, loops and words that the component theories
  use.

  A C++ function that may throw returns a value of type \<open>cpp_exception + 'a\<close>: \<open>Inl\<close> is
  the thrown exception, \<open>Inr\<close> the returned value.
\<close>

named_theorems loop_simps "characterisations of the code's counting loops"
named_theorems word_bytes "little-endian byte facts"

section \<open>Machine integers\<close>

type_synonym u8 = "8 word"
type_synonym u16 = "16 word"
type_synonym u32 = "32 word"
type_synonym u64 = "64 word"

section \<open>Exceptions and results\<close>

datatype cpp_exception =
    Invalid_argument string
  | Logic_error string
  | Out_of_range string
  | Runtime_error string
  | Cuda_error string
  | Nvrtc_error string

type_synonym 'a result = "cpp_exception + 'a"

definition bind_result :: "'e + 'a \<Rightarrow> ('a \<Rightarrow> 'e + 'b) \<Rightarrow> 'e + 'b" where
  "bind_result r f = (case r of Inl e \<Rightarrow> Inl e | Inr x \<Rightarrow> f x)"

lemma bind_result_simps [simp]:
  "bind_result (Inl e) f = Inl e"
  "bind_result (Inr x) f = f x"
  by (simp_all add: bind_result_def)

lemma bind_result_eq_Inr:
  "bind_result r f = Inr y \<longleftrightarrow> (\<exists>x. r = Inr x \<and> f x = Inr y)"
  by (cases r) auto

primrec is_ok :: "'e + 'a \<Rightarrow> bool" where
  "is_ok (Inl e) = False"
| "is_ok (Inr x) = True"

text \<open>Applying a fallible function along a list, stopping at the first failure.\<close>

fun traverse :: "('a \<Rightarrow> 'e + 'b) \<Rightarrow> 'a list \<Rightarrow> 'e + 'b list" where
  "traverse f [] = Inr []"
| "traverse f (x # xs) =
     (case f x of Inl e \<Rightarrow> Inl e
      | Inr y \<Rightarrow> (case traverse f xs of Inl e \<Rightarrow> Inl e | Inr ys \<Rightarrow> Inr (y # ys)))"

lemma traverse_Inr: "traverse f xs = Inr ys \<longleftrightarrow> list_all2 (\<lambda>x y. f x = Inr y) xs ys"
proof (induction xs arbitrary: ys)
  case (Cons x xs)
  show ?case
  proof (cases "traverse f xs")
    case (Inl e)
    with Cons.IH show ?thesis by (cases ys) (auto split: sum.splits)
  next
    case (Inr zs)
    then have "list_all2 (\<lambda>x y. f x = Inr y) xs ws \<longleftrightarrow> ws = zs" for ws
      using Cons.IH [of ws] by (auto simp del: Cons.IH)
    with Inr show ?thesis by (cases ys) (auto split: sum.splits)
  qed
qed auto

section \<open>Decimal numerals\<close>

text \<open>\<open>std::to_string\<close> on integers, and the digit tests of the number scanner.\<close>

definition digit_char :: "nat \<Rightarrow> char" where
  "digit_char d = char_of (48 + d)"

definition is_digit :: "char \<Rightarrow> bool" where
  "is_digit c \<longleftrightarrow> (48::nat) \<le> of_char c \<and> of_char c \<le> (57::nat)"

definition digit_val :: "char \<Rightarrow> nat" where
  "digit_val c = of_char c - 48"

fun show_nat :: "nat \<Rightarrow> string" where
  "show_nat n = (if n < 10 then [digit_char n] else show_nat (n div 10) @ [digit_char (n mod 10)])"

declare show_nat.simps [simp del]

definition show_int :: "int \<Rightarrow> string" where
  "show_int i = (if i < 0 then ''-'' @ show_nat (nat (- i)) else show_nat (nat i))"

definition digits_value :: "string \<Rightarrow> nat" where
  "digits_value = foldl (\<lambda>n c. 10 * n + digit_val c) 0"

lemma is_digit_digit_char [simp]: "d < 10 \<Longrightarrow> is_digit (digit_char d)"
  by (simp add: is_digit_def digit_char_def)

lemma digit_val_digit_char [simp]: "d < 10 \<Longrightarrow> digit_val (digit_char d) = d"
  by (simp add: digit_val_def digit_char_def)

lemma digits_value_snoc [simp]: "digits_value (s @ [c]) = 10 * digits_value s + digit_val c"
  by (simp add: digits_value_def)

lemma digits_value_Nil [simp]: "digits_value [] = 0"
  by (simp add: digits_value_def)

lemma digits_value_single [simp]: "digits_value [c] = digit_val c"
  by (simp add: digits_value_def)

lemma digits_value_append:
  "digits_value (xs @ ys) = digits_value xs * 10 ^ length ys + digits_value ys"
proof (induction ys rule: rev_induct)
  case (snoc y ys)
  then show ?case
    using digits_value_snoc [of "xs @ ys" y] by (simp add: algebra_simps)
qed simp

lemma show_nat_digits: "\<forall>c \<in> set (show_nat n). is_digit c"
proof (induction n rule: show_nat.induct)
  case (1 n)
  then show ?case by (subst show_nat.simps) auto
qed

lemma show_nat_not_Nil [simp]: "show_nat n \<noteq> []"
  by (subst show_nat.simps) simp

lemma digits_value_show_nat [simp]: "digits_value (show_nat n) = n"
proof (induction n rule: show_nat.induct)
  case (1 n)
  then show ?case
    using digits_value_snoc [of "[]" "digit_char n"]
    by (subst show_nat.simps) auto
qed

lemma show_nat_one_digit: "n < 10 \<Longrightarrow> show_nat n = [digit_char n]"
  by (subst show_nat.simps) simp

lemma show_nat_inject [simp]: "show_nat m = show_nat n \<longleftrightarrow> m = n"
  by (metis digits_value_show_nat)

section \<open>Lists\<close>

lemma takeWhile_append_all: "\<forall>x \<in> set xs. P x \<Longrightarrow> takeWhile P (xs @ ys) = xs @ takeWhile P ys"
  by (induction xs) auto

lemma dropWhile_append_all: "\<forall>x \<in> set xs. P x \<Longrightarrow> dropWhile P (xs @ ys) = dropWhile P ys"
  by (induction xs) auto

lemma dropWhile_none: "\<forall>x \<in> set xs. \<not> P x \<Longrightarrow> dropWhile P xs = xs"
  by (cases xs) auto

lemma list_all2_right: "list_all2 P xs ys \<Longrightarrow> y \<in> set ys \<Longrightarrow> \<exists>x \<in> set xs. P x y"
  by (induction rule: list_all2_induct) auto

lemma take_append_exact: "length xs = n \<Longrightarrow> take n (xs @ ys) = xs"
  by simp

lemma drop_append_exact: "length xs = n \<Longrightarrow> drop n (xs @ ys) = ys"
  by simp

lemma fold_invariant_mem:
  assumes "\<And>x s. x \<in> set xs \<Longrightarrow> P s \<Longrightarrow> P (f x s)" and "P s"
  shows "P (fold f xs s)"
  using assms by (induction xs arbitrary: s) auto

text \<open>
  A loop that writes position \<open>p i\<close> with value \<open>g i\<close>, for positions that do not repeat,
  leaves exactly those values.
\<close>

lemma fold_update_length [loop_simps]: "length (fold (\<lambda>i out. out[p i := g i]) is out) = length out"
  by (induction "is" arbitrary: out) auto

lemma fold_update_untouched:
  "j \<notin> p ` set is \<Longrightarrow> fold (\<lambda>i out. out[p i := g i]) is out ! j = out ! j"
  by (induction "is" arbitrary: out) auto

lemma fold_update_written:
  assumes "i \<in> set is" "inj_on p (set is)" "p i < length out"
  shows "fold (\<lambda>i out. out[p i := g i]) is out ! p i = g i"
  using assms
proof (induction "is" arbitrary: out)
  case (Cons k ks)
  show ?case
  proof (cases "i \<in> set ks")
    case True
    with Cons show ?thesis by simp
  next
    case False
    with Cons.prems have "i = k" "p i \<notin> p ` set ks"
      by (auto simp: inj_on_def)
    with Cons.prems show ?thesis by (simp add: fold_update_untouched)
  qed
qed simp

lemma fold_concat_map: "fold (\<lambda>x. fold (f x) (g x)) xs = fold (\<lambda>(x, y). f x y) (concat (map (\<lambda>x. map (Pair x) (g x)) xs))"
proof (induction xs)
  case (Cons a xs)
  have "fold (\<lambda>(x, y). f x y) (map (Pair a) (g a)) = fold (f a) (g a)"
    by (simp add: fold_map comp_def)
  with Cons show ?case by (simp add: fun_eq_iff)
qed (simp add: fun_eq_iff)

section \<open>Row-major positions\<close>

text \<open>Mixed-radix decomposition: a position \<open>a * n + b\<close> with \<open>b < n\<close> determines both.\<close>

lemma mult_add_less:
  assumes "(a::nat) < m" "b < n"
  shows "a * n + b < m * n"
proof -
  have "a * n + b < Suc a * n" using assms(2) by simp
  also have "\<dots> \<le> m * n" using assms(1) by (intro mult_le_mono1) simp
  finally show ?thesis .
qed

lemma mult_add_inject:
  assumes "(b::nat) < n" "b' < n"
  shows "a * n + b = a' * n + b' \<longleftrightarrow> a = a' \<and> b = b'"
proof
  assume eq: "a * n + b = a' * n + b'"
  have "(a * n + b) div n = a" "(a' * n + b') div n = a'" "(a * n + b) mod n = b" "(a' * n + b') mod n = b'"
    using assms by simp_all
  with eq show "a = a' \<and> b = b'" by metis
qed auto

section \<open>Bytes of a word\<close>

unbundle bit_operations_syntax

text \<open>\<open>static_cast<uint8_t>((value >> shift) & 0xFF)\<close>\<close>

definition byte_of :: "'a::len word \<Rightarrow> nat \<Rightarrow> u8" where
  "byte_of w shift = ucast (drop_bit shift w AND 0xFF)"

lemma bit_byte_of [word_bytes]: "bit (byte_of w s) n \<longleftrightarrow> n < 8 \<and> bit w (s + n)"
proof -
  have "(0xFF :: 'a word) = mask 8" by (simp add: mask_eq_exp_minus_1)
  then have "byte_of w s = ucast (take_bit 8 (drop_bit s w))" by (simp only: byte_of_def take_bit_eq_mask)
  then show ?thesis by (auto simp: bit_simps dest: bit_imp_le_length)
qed

lemma join_bytes_32 [word_bytes]:
  "(ucast (byte_of w 0) :: u32) OR push_bit 8 (ucast (byte_of w 8)) OR push_bit 16 (ucast (byte_of w 16))
     OR push_bit 24 (ucast (byte_of w 24)) = (w :: u32)"
proof (rule bit_word_eqI)
  fix n assume "n < LENGTH(32)"
  then have "n < 8 \<or> 8 \<le> n \<and> n < 16 \<or> 16 \<le> n \<and> n < 24 \<or> 24 \<le> n \<and> n < 32" by auto
  then show "bit ((ucast (byte_of w 0) :: u32) OR push_bit 8 (ucast (byte_of w 8)) OR
      push_bit 16 (ucast (byte_of w 16)) OR push_bit 24 (ucast (byte_of w 24))) n = bit w n"
    by (elim disjE conjE; simp add: bit_simps bit_byte_of; auto)
qed

lemma join_bytes_16 [word_bytes]:
  "(ucast (byte_of w 0) :: u16) OR push_bit 8 (ucast (byte_of w 8)) = (w :: u16)"
proof (rule bit_word_eqI)
  fix n assume "n < LENGTH(16)"
  then have "n < 8 \<or> 8 \<le> n \<and> n < 16" by auto
  then show "bit ((ucast (byte_of w 0) :: u16) OR push_bit 8 (ucast (byte_of w 8))) n = bit w n"
    by (auto simp: bit_simps bit_byte_of)
qed

lemma split_join_32 [word_bytes]:
  fixes a b c d :: u8
  defines "w \<equiv> (ucast a :: u32) OR push_bit 8 (ucast b) OR push_bit 16 (ucast c) OR push_bit 24 (ucast d)"
  shows "byte_of w 0 = a" "byte_of w 8 = b" "byte_of w 16 = c" "byte_of w 24 = d"
  unfolding w_def by (rule bit_word_eqI; auto simp: bit_byte_of bit_simps dest: bit_imp_le_length)+

lemma split_join_16 [word_bytes]:
  fixes a b :: u8
  defines "w \<equiv> (ucast a :: u16) OR push_bit 8 (ucast b)"
  shows "byte_of w 0 = a" "byte_of w 8 = b"
  unfolding w_def by (rule bit_word_eqI; auto simp: bit_byte_of bit_simps dest: bit_imp_le_length)+

section \<open>Code that may throw and changes a state\<close>

text \<open>An exception does not undo what happened before it.\<close>

type_synonym ('s, 'a) action = "'s \<Rightarrow> 'a result \<times> 's"

definition return_act :: "'a \<Rightarrow> ('s, 'a) action" where
  "return_act x s = (Inr x, s)"

definition throw_act :: "cpp_exception \<Rightarrow> ('s, 'a) action" where
  "throw_act e s = (Inl e, s)"

definition then_act :: "('s, 'a) action \<Rightarrow> ('a \<Rightarrow> ('s, 'b) action) \<Rightarrow> ('s, 'b) action" where
  "then_act m f s = (case m s of (Inl e, s') \<Rightarrow> (Inl e, s') | (Inr x, s') \<Rightarrow> f x s')"

lemma then_act_simps [simp]:
  "m s = (Inl e, s') \<Longrightarrow> then_act m f s = (Inl e, s')"
  "m s = (Inr x, s') \<Longrightarrow> then_act m f s = f x s'"
  by (simp_all add: then_act_def)

lemma return_act_simp [simp]: "return_act x s = (Inr x, s)"
  by (simp add: return_act_def)

lemma throw_act_simp [simp]: "throw_act e s = (Inl e, s)"
  by (simp add: throw_act_def)

lemma then_act_cases:
  assumes "then_act m f s = (r, s')"
  obtains (throws) e where "m s = (Inl e, s')" "r = Inl e"
    | (continues) x s1 where "m s = (Inr x, s1)" "f x s1 = (r, s')"
  using assms by (auto simp: then_act_def split: prod.splits sum.splits)

text \<open>An invariant that both halves keep is kept, whether or not something is thrown.\<close>

definition keeps :: "('s \<Rightarrow> 's \<Rightarrow> bool) \<Rightarrow> ('s, 'a) action \<Rightarrow> bool" where
  "keeps R m \<longleftrightarrow> (\<forall>s. R s (snd (m s)))"

lemma keeps_then:
  assumes "transp R" "keeps R m" "\<And>x. keeps R (f x)"
  shows "keeps R (then_act m f)"
  unfolding keeps_def
proof
  fix s
  have m: "R s (snd (m s))" using assms(2) by (simp add: keeps_def)
  show "R s (snd (then_act m f s))"
  proof (cases "m s")
    case (Pair r s1)
    show ?thesis
    proof (cases r)
      case (Inl e)
      then show ?thesis using m Pair by simp
    next
      case (Inr x)
      have "R s1 (snd (f x s1))" using assms(3) by (simp add: keeps_def)
      with m Pair Inr show ?thesis using transpD [OF assms(1)] by auto
    qed
  qed
qed

lemma keeps_return: "reflp R \<Longrightarrow> keeps R (return_act x)"
  by (simp add: keeps_def reflp_def)

lemma keeps_throw: "reflp R \<Longrightarrow> keeps R (throw_act e)"
  by (simp add: keeps_def reflp_def)

definition throws_only :: "(cpp_exception \<Rightarrow> bool) \<Rightarrow> ('s, 'a) action \<Rightarrow> bool" where
  "throws_only P m \<longleftrightarrow> (\<forall>s e. fst (m s) = Inl e \<longrightarrow> P e)"

lemma throws_only_then: "throws_only P m \<Longrightarrow> (\<And>x. throws_only P (f x)) \<Longrightarrow> throws_only P (then_act m f)"
  by (auto simp: throws_only_def then_act_def split: prod.splits sum.splits) (metis fst_conv)+

lemma throws_only_return [simp]: "throws_only P (return_act x)"
  by (simp add: throws_only_def)

lemma throws_only_throw [simp]: "throws_only P (throw_act e) \<longleftrightarrow> P e"
  by (simp add: throws_only_def)

lemma throws_onlyD: "throws_only P m \<Longrightarrow> m s = (Inl e, s') \<Longrightarrow> P e"
  unfolding throws_only_def by (metis fst_conv)

end
