(* ===== verification/Cpp_Float.thy ===== *)
theory Cpp_Float
  imports Imgjit_Prelude "HOL-Library.Log_Nat"
begin

text \<open>
  The part of C++ floating point the program uses. A finite \<open>float\<close> or \<open>double\<close> is the
  rational number it denotes; every arithmetic operation is the exact operation followed by
  one rounding to nearest, ties to even, in the format (IEEE 754 binary32 and binary64,
  subnormals included). The sign of zero is not represented: no comparison or rounding of
  the program observes it. Overflow to infinity is represented where it can occur, in
  \<open>strtof\<close>; every other operation of the program stays in range.

  \<open>std::lround\<close> rounds half away from zero; outside the range of \<open>long\<close> the C standard
  leaves its value unspecified, and the model takes the least \<open>long\<close>, as x86-64 does.
\<close>

section \<open>Rounding to a binary format\<close>

definition round_half_even :: "rat \<Rightarrow> int" where
  "round_half_even y =
     (let f = \<lfloor>y\<rfloor>; d = y - of_int f
      in if d < 1 / 2 then f else if 1 / 2 < d then f + 1 else if even f then f else f + 1)"

text \<open>The binary exponent of a non-zero number: \<open>2 ^ e \<le> \<bar>x\<bar> < 2 ^ (e + 1)\<close>.\<close>

definition rat_exp :: "rat \<Rightarrow> int" where
  "rat_exp x =
     (let (a, b) = quotient_of \<bar>x\<bar>; e = bitlen a - bitlen b
      in if \<bar>x\<bar> < 2 powi e then e - 1 else e)"

definition ulp_exp :: "nat \<Rightarrow> int \<Rightarrow> rat \<Rightarrow> int" where
  "ulp_exp p emin x = max emin (rat_exp x - int p + 1)"

definition rnd :: "nat \<Rightarrow> int \<Rightarrow> rat \<Rightarrow> rat" where
  "rnd p emin x =
     (if x = 0 then 0
      else let q = ulp_exp p emin x in of_int (round_half_even (x / 2 powi q)) * 2 powi q)"

definition f32 :: "rat \<Rightarrow> rat" where
  "f32 = rnd 24 (- 149)"

definition f64 :: "rat \<Rightarrow> rat" where
  "f64 = rnd 53 (- 1074)"

definition fadd :: "rat \<Rightarrow> rat \<Rightarrow> rat" where "fadd x y = f32 (x + y)"
definition fsub :: "rat \<Rightarrow> rat \<Rightarrow> rat" where "fsub x y = f32 (x - y)"
definition fmul :: "rat \<Rightarrow> rat \<Rightarrow> rat" where "fmul x y = f32 (x * y)"
definition fdiv :: "rat \<Rightarrow> rat \<Rightarrow> rat" where "fdiv x y = f32 (x / y)"
definition dmul :: "rat \<Rightarrow> rat \<Rightarrow> rat" where "dmul x y = f64 (x * y)"

lemmas float_ops = fadd_def fsub_def fmul_def fdiv_def

text \<open>
  \<open>std::sqrt\<close> on \<open>float\<close> is correctly rounded. The integer square root of the scaled
  argument has at least 26 bits; half a unit stands for a non-zero remainder, which cannot
  change the 24-bit rounding.
\<close>

fun isqrt :: "nat \<Rightarrow> nat" where
  "isqrt n = (if n = 0 then 0 else let r = 2 * isqrt (n div 4) in if (r + 1) * (r + 1) \<le> n then r + 1 else r)"

declare isqrt.simps [simp del]

definition fsqrt :: "rat \<Rightarrow> rat" where
  "fsqrt x =
     (if x \<le> 0 then 0
      else let k = rat_exp x div 2 - 25; s = x / 2 powi (2 * k); m = isqrt (nat \<lfloor>s\<rfloor>)
           in f32 ((of_nat m + (if of_nat (m * m) = s then 0 else 1 / 2)) * 2 powi k))"

definition round_half_away :: "rat \<Rightarrow> int" where
  "round_half_away x = (if 0 \<le> x then \<lfloor>x + 1 / 2\<rfloor> else - \<lfloor>- x + 1 / 2\<rfloor>)"

definition long_min :: int where "long_min = - (2 ^ 63)"
definition long_max :: int where "long_max = 2 ^ 63 - 1"

definition lround :: "rat \<Rightarrow> int" where
  "lround x = (let r = round_half_away x in if long_min \<le> r \<and> r \<le> long_max then r else long_min)"

section \<open>Rounding lemmas\<close>

lemma round_half_even_error: "\<bar>of_int (round_half_even y) - y\<bar> \<le> 1 / 2"
proof -
  have "of_int \<lfloor>y\<rfloor> \<le> y" "y < of_int \<lfloor>y\<rfloor> + 1" by linarith+
  then show ?thesis by (simp add: round_half_even_def Let_def)
qed

lemma round_half_even_of_int [simp]: "round_half_even (of_int k) = k"
  by (simp add: round_half_even_def)

lemma round_half_even_mono:
  assumes "x \<le> y"
  shows "round_half_even x \<le> round_half_even y"
proof (cases "\<lfloor>x\<rfloor> = \<lfloor>y\<rfloor>")
  case True
  with assms show ?thesis by (simp add: round_half_even_def Let_def)
next
  case False
  with assms have less: "\<lfloor>x\<rfloor> + 1 \<le> \<lfloor>y\<rfloor>"
    using floor_mono [of x y] by linarith
  have "round_half_even x \<le> \<lfloor>x\<rfloor> + 1" "\<lfloor>y\<rfloor> \<le> round_half_even y"
    by (simp_all add: round_half_even_def Let_def)
  with less show ?thesis by linarith
qed

lemma round_half_even_nonneg: "0 \<le> y \<Longrightarrow> 0 \<le> round_half_even y"
  using round_half_even_mono [of 0 y] by (simp add: round_half_even_def)

lemma round_half_even_minus: "round_half_even (- y) = - round_half_even y"
proof (cases "y = of_int \<lfloor>y\<rfloor>")
  case True
  then show ?thesis by (metis of_int_minus round_half_even_of_int)
next
  case False
  then have fl: "\<lfloor>- y\<rfloor> = - \<lfloor>y\<rfloor> - 1"
    by (metis add.commute add_diff_cancel_left' add_uminus_conv_diff ceiling_altdef ceiling_def minus_diff_eq minus_minus uminus_add_conv_diff)
  show ?thesis
    by (auto simp: round_half_even_def Let_def fl)
qed

lemma powi_2_pos [simp]: "(0::rat) < 2 powi e"
  by simp

lemma powi_2_mono: "e \<le> e' \<Longrightarrow> (2::rat) powi e \<le> 2 powi e'"
  by (rule power_int_increasing) auto

lemma powi_2_Suc: "(2::rat) powi (e + 1) = 2 * 2 powi e"
  by (simp add: power_int_add)

lemma rat_exp_bounds:
  assumes "x \<noteq> 0"
  shows "2 powi (rat_exp x) \<le> \<bar>x\<bar>" "\<bar>x\<bar> < 2 powi (rat_exp x + 1)"
proof -
  obtain a b where q: "quotient_of \<bar>x\<bar> = (a, b)" by (cases "quotient_of \<bar>x\<bar>")
  have b: "b > 0" using quotient_of_denom_pos [OF q] .
  have xab: "\<bar>x\<bar> = of_int a / of_int b" using quotient_of_div [OF q] .
  have "0 < \<bar>x\<bar>" using assms by simp
  then have a: "a > 0" using b unfolding xab by (simp add: zero_less_divide_iff)
  define e where "e = bitlen a - bitlen b"
  have ab: "2 ^ nat (bitlen a - 1) \<le> a" "a < 2 ^ nat (bitlen a)"
    using bitlen_bounds [OF a] by auto
  have bb: "2 ^ nat (bitlen b - 1) \<le> b" "b < 2 ^ nat (bitlen b)"
    using bitlen_bounds [OF b] by auto
  have posa: "1 \<le> bitlen a" and posb: "1 \<le> bitlen b"
    using a b bitlen_bounds by (metis bitlen_eq_zero_iff bitlen_nonneg int_one_le_iff_zero_less less_le linorder_not_less)+
  have cast: "(2::rat) powi n = of_int (2 ^ nat n)" if "0 \<le> n" for n
    using that by (simp add: power_int_def)
  have a1: "2 powi (bitlen a - 1) \<le> (of_int a :: rat)" "(of_int a :: rat) < 2 powi (bitlen a)"
    using ab posa by (simp_all only: cast [of "bitlen a - 1"] cast [of "bitlen a"] of_int_le_iff of_int_less_iff)
  have b1: "2 powi (bitlen b - 1) \<le> (of_int b :: rat)" "(of_int b :: rat) < 2 powi (bitlen b)"
    using bb posb by (simp_all only: cast [of "bitlen b - 1"] cast [of "bitlen b"] of_int_le_iff of_int_less_iff)
  have "\<bar>x\<bar> < 2 powi (e + 1)"
  proof -
    have "2 powi (e + 1) * (of_int b :: rat) \<ge> 2 powi (e + 1) * 2 powi (bitlen b - 1)"
      using b1 by (intro mult_left_mono) auto
    also have "(2::rat) powi (e + 1) * 2 powi (bitlen b - 1) = 2 powi (bitlen a)"
      by (simp add: e_def flip: power_int_add)
    finally show ?thesis using a1 b unfolding xab by (simp add: divide_less_eq)
  qed
  moreover have "2 powi (e - 1) \<le> \<bar>x\<bar>"
  proof -
    have "2 powi (e - 1) * (of_int b :: rat) \<le> 2 powi (e - 1) * 2 powi (bitlen b)"
      using b1 by (intro mult_left_mono) auto
    also have "(2::rat) powi (e - 1) * 2 powi (bitlen b) = 2 powi (bitlen a - 1)"
      by (simp add: e_def flip: power_int_add)
    finally show ?thesis using a1 b unfolding xab by (simp add: le_divide_eq)
  qed
  ultimately show "2 powi (rat_exp x) \<le> \<bar>x\<bar>" "\<bar>x\<bar> < 2 powi (rat_exp x + 1)"
    by (auto simp: rat_exp_def q Let_def simp flip: e_def)
qed

text \<open>Every rounded value is \<open>m * 2 ^ q\<close> with \<open>\<bar>m\<bar> \<le> 2 ^ p\<close>; such values are fixed points.\<close>

lemma rat_exp_le:
  assumes "x \<noteq> 0" "\<bar>x\<bar> < 2 powi (e + 1)"
  shows "rat_exp x \<le> e"
proof (rule ccontr)
  assume "\<not> rat_exp x \<le> e"
  then have "(2::rat) powi (e + 1) \<le> 2 powi (rat_exp x)" by (intro powi_2_mono) simp
  with assms rat_exp_bounds(1) [of x] show False by simp
qed

lemma rat_exp_mono:
  assumes "x \<noteq> 0" "\<bar>x\<bar> \<le> \<bar>y\<bar>"
  shows "rat_exp x \<le> rat_exp y"
proof -
  have "y \<noteq> 0" using assms by auto
  then show ?thesis using assms rat_exp_bounds(2) [of y] by (intro rat_exp_le) auto
qed

lemma rnd_0 [simp]: "rnd p emin 0 = 0"
  by (simp add: rnd_def)

lemma rnd_error:
  assumes "x \<noteq> 0"
  shows "\<bar>rnd p emin x - x\<bar> \<le> 2 powi (ulp_exp p emin x) / 2"
proof -
  define q where "q = ulp_exp p emin x"
  have "rnd p emin x - x = (of_int (round_half_even (x / 2 powi q)) - x / 2 powi q) * 2 powi q"
    using assms by (simp add: rnd_def Let_def q_def left_diff_distrib)
  then have "\<bar>rnd p emin x - x\<bar> = \<bar>of_int (round_half_even (x / 2 powi q)) - x / 2 powi q\<bar> * 2 powi q"
    by (simp add: abs_mult)
  also have "\<dots> \<le> 1 / 2 * 2 powi q"
    by (intro mult_right_mono round_half_even_error) simp
  finally show ?thesis by (simp add: q_def)
qed

lemma rnd_rel_error:
  "\<bar>rnd p emin x - x\<bar> \<le> \<bar>x\<bar> * 2 powi (- int p) + 2 powi (emin - 1)"
proof (cases "x = 0")
  case False
  have half: "(2::rat) powi e / 2 = 2 powi (e - 1)" for e
    by (simp add: power_int_diff)
  have "(2::rat) powi (rat_exp x - int p + 1) / 2 = 2 powi (rat_exp x) * 2 powi (- int p)"
    by (simp add: half flip: power_int_add)
  also have "\<dots> \<le> \<bar>x\<bar> * 2 powi (- int p)"
    by (intro mult_right_mono rat_exp_bounds(1) False) simp
  finally have "(2::rat) powi (ulp_exp p emin x) / 2 \<le> \<bar>x\<bar> * 2 powi (- int p) + 2 powi (emin - 1)"
    unfolding ulp_exp_def max_def using half [of emin]
    by (auto intro: add_increasing add_increasing2 zero_le_power_int)
  with rnd_error [OF False, of p emin] show ?thesis by linarith
qed simp

lemma rnd_representable:
  assumes "\<bar>m\<bar> < 2 ^ p" "emin \<le> e"
  shows "rnd p emin (of_int m * 2 powi e) = of_int m * 2 powi e"
proof (cases "m = 0")
  case False
  define x :: rat where "x = of_int m * 2 powi e"
  have x0: "x \<noteq> 0" using False by (simp add: x_def)
  have "of_int \<bar>m\<bar> < (of_int (2 ^ p) :: rat)" using assms(1) by (simp only: of_int_less_iff)
  then have "\<bar>x\<bar> < 2 ^ p * 2 powi e" by (simp add: x_def abs_mult)
  also have "\<dots> = 2 powi (e + int p - 1 + 1)" by (simp add: power_int_add)
  finally have "rat_exp x \<le> e + int p - 1" by (intro rat_exp_le x0)
  then have qe: "ulp_exp p emin x \<le> e" using assms(2) by (simp add: ulp_exp_def)
  define n where "n = nat (e - ulp_exp p emin x)"
  have e: "e = ulp_exp p emin x + int n" using qe by (simp add: n_def)
  have "x / 2 powi (ulp_exp p emin x) = of_int (m * 2 ^ n)"
    by (subst x_def, subst e) (simp add: power_int_add)
  then show ?thesis
    using x0 unfolding x_def [symmetric] rnd_def Let_def
    by (simp only: round_half_even_of_int if_False) (metis nonzero_divide_eq_eq powi_2_pos less_irrefl)
qed simp

lemma rnd_shape:
  obtains m where "\<bar>m\<bar> \<le> 2 ^ p" and "rnd p emin x = of_int m * 2 powi (ulp_exp p emin x)"
proof (cases "x = 0")
  case True
  then show ?thesis using that [of 0] by simp
next
  case False
  define q where "q = ulp_exp p emin x"
  have "\<bar>x\<bar> < 2 powi (rat_exp x + 1)" by (rule rat_exp_bounds(2) [OF False])
  also have "\<dots> \<le> 2 powi (q + int p)"
    by (intro powi_2_mono) (simp add: q_def ulp_exp_def)
  finally have "\<bar>x / 2 powi q\<bar> \<le> of_int (2 ^ p)"
    by (simp add: divide_le_eq power_int_add abs_divide mult.commute)
  then have "- of_int (2 ^ p) \<le> x / 2 powi q" "x / 2 powi q \<le> of_int (2 ^ p)"
    by linarith+
  from this [THEN round_half_even_mono] have "\<bar>round_half_even (x / 2 powi q)\<bar> \<le> 2 ^ p"
    by (simp only: round_half_even_of_int round_half_even_minus)
  then show ?thesis
    using that [of "round_half_even (x / 2 powi q)"] False by (simp add: rnd_def Let_def q_def)
qed

lemma rnd_fixes_pow2_multiple:
  assumes "\<bar>m\<bar> \<le> 2 ^ p" "emin \<le> e" "0 < p"
  shows "rnd p emin (of_int m * 2 powi e) = of_int m * 2 powi e"
proof (cases "\<bar>m\<bar> = 2 ^ p")
  case True
  obtain n where n: "p = Suc n" using assms(3) by (cases p) auto
  define h :: int where "h = sgn m * 2 ^ n"
  have m: "m = 2 * h" using True by (simp add: h_def n) (metis mult.assoc mult.commute mult_sgn_abs)
  have "\<bar>h\<bar> < 2 ^ p" using True by (auto simp: h_def n abs_mult abs_sgn_eq)
  then have "rnd p emin (of_int h * 2 powi (e + 1)) = of_int h * 2 powi (e + 1)"
    using assms(2) by (intro rnd_representable) auto
  then show ?thesis by (simp add: m powi_2_Suc mult.assoc mult.left_commute)
next
  case False
  with assms show ?thesis by (intro rnd_representable) auto
qed

lemma rnd_rnd [simp]:
  assumes "0 < p"
  shows "rnd p emin (rnd p emin x) = rnd p emin x"
proof -
  obtain m where "\<bar>m\<bar> \<le> 2 ^ p" "rnd p emin x = of_int m * 2 powi (ulp_exp p emin x)"
    by (rule rnd_shape)
  moreover have "emin \<le> ulp_exp p emin x" by (simp add: ulp_exp_def)
  ultimately show ?thesis using assms by (simp add: rnd_fixes_pow2_multiple)
qed

lemma rat_exp_minus [simp]: "rat_exp (- x) = rat_exp x"
  by (simp add: rat_exp_def)

lemma ulp_exp_minus [simp]: "ulp_exp p emin (- x) = ulp_exp p emin x"
  by (simp add: ulp_exp_def)

lemma rnd_minus: "rnd p emin (- x) = - rnd p emin x"
  by (simp add: rnd_def Let_def round_half_even_minus)

lemma rnd_nonneg: "0 \<le> x \<Longrightarrow> 0 \<le> rnd p emin x"
  by (simp add: rnd_def Let_def round_half_even_nonneg)

lemma rnd_mono_pos:
  assumes "0 < x" "x \<le> y" "0 < p"
  shows "rnd p emin x \<le> rnd p emin y"
proof -
  define qx qy where "qx = ulp_exp p emin x" and "qy = ulp_exp p emin y"
  have le: "qx \<le> qy" using rat_exp_mono [of x y] assms by (simp add: qx_def qy_def ulp_exp_def)
  have y0: "0 < y" using assms by simp
  have rx: "rnd p emin x = of_int (round_half_even (x / 2 powi qx)) * 2 powi qx"
    and ry: "rnd p emin y = of_int (round_half_even (y / 2 powi qy)) * 2 powi qy"
    using assms y0 by (simp_all add: rnd_def Let_def qx_def qy_def)
  show ?thesis
  proof (cases "qx = qy")
    case True
    have "round_half_even (x / 2 powi qx) \<le> round_half_even (y / 2 powi qy)"
      using True assms by (intro round_half_even_mono) (simp add: divide_right_mono)
    with True rx ry show ?thesis by simp
  next
    case False
    with le have lt: "qx + 1 \<le> qy" by simp
    obtain m where m: "\<bar>m\<bar> \<le> 2 ^ p" "rnd p emin x = of_int m * 2 powi qx"
      unfolding qx_def by (rule rnd_shape)
    have "of_int m \<le> (of_int (2 ^ p) :: rat)" using m(1) by (simp only: of_int_le_iff)
    then have "rnd p emin x \<le> 2 ^ p * 2 powi qx" unfolding m(2) by (intro mult_right_mono) auto
    also have "(2::rat) ^ p * 2 powi qx = 2 powi (qx + int p)" by (simp add: power_int_add)
    also have "(2::rat) powi (qx + int p) \<le> 2 powi (qy + int p - 1)"
      using lt by (intro powi_2_mono) simp
    also have "(2::rat) powi (qy + int p - 1) = of_int (2 ^ (p - 1)) * 2 powi qy"
      using assms(3) by (cases p) (simp_all add: power_int_add power_int_diff)
    also have "\<dots> \<le> rnd p emin y"
    proof -
      have "qy = rat_exp y - int p + 1"
        using lt by (auto simp: qx_def qy_def ulp_exp_def max_def split: if_splits)
      then have "(2::rat) powi (qy + int p - 1) \<le> y"
        using rat_exp_bounds(1) [of y] y0 by simp
      then have "of_int (2 ^ (p - 1)) \<le> y / 2 powi qy"
        using assms(3) by (cases p) (simp_all add: le_divide_eq power_int_add power_int_diff mult.commute)
      from round_half_even_mono [OF this] have "2 ^ (p - 1) \<le> round_half_even (y / 2 powi qy)"
        by (simp only: round_half_even_of_int)
      then have "(of_int (2 ^ (p - 1)) :: rat) \<le> of_int (round_half_even (y / 2 powi qy))"
        by (simp only: of_int_le_iff)
      then show ?thesis unfolding ry by (intro mult_right_mono) auto
    qed
    finally show ?thesis .
  qed
qed

lemma rnd_mono:
  assumes "x \<le> y" "0 < p"
  shows "rnd p emin x \<le> rnd p emin y"
proof -
  consider "0 < x" | "x \<le> 0" "0 \<le> y" | "y < 0" by linarith
  then show ?thesis
  proof cases
    case 1
    with assms show ?thesis by (intro rnd_mono_pos)
  next
    case 2
    have "rnd p emin x \<le> 0" using rnd_nonneg [of "- x" p emin] 2 by (simp add: rnd_minus)
    with rnd_nonneg [of y p emin] 2 show ?thesis by simp
  next
    case 3
    have "rnd p emin (- y) \<le> rnd p emin (- x)" using 3 assms by (intro rnd_mono_pos) auto
    then show ?thesis by (simp add: rnd_minus)
  qed
qed

section \<open>binary32\<close>

text \<open>The relative error of one operation, with the subnormal absolute error.\<close>

lemma f32_error: "\<bar>f32 x - x\<bar> \<le> \<bar>x\<bar> / 2 ^ 24 + 1 / 2 ^ 150"
proof -
  have "(2::rat) powi (- int 24) = 1 / 2 ^ 24" "(2::rat) powi (- 149 - 1) = 1 / 2 ^ 150"
    by (simp_all add: power_int_minus field_simps)
  with rnd_rel_error [of 24 "- 149" x] show ?thesis
    by (simp only: f32_def times_divide_eq_right mult_1_right)
qed

text \<open>The same bounds with a plain decimal constant, convenient for linear arithmetic.\<close>

lemma rnd_err_decimal:
  assumes "\<bar>x\<bar> \<le> B" "1 / 1000000 \<le> B" "24 \<le> p" "emin \<le> - 149"
  shows "\<bar>rnd p emin x - x\<bar> \<le> B / 10000000"
proof -
  have "(2::rat) powi (- int p) \<le> 2 powi (- 24)" using assms(3) by (intro powi_2_mono) simp
  also have "\<dots> = 1 / 16777216" by (simp add: power_int_minus)
  finally have "\<bar>x\<bar> * 2 powi (- int p) \<le> B * (1 / 16777216)"
    using assms by (intro mult_mono) auto
  moreover have "(2::rat) powi (emin - 1) \<le> 2 powi (- 50)" using assms(4) by (intro powi_2_mono) simp
  moreover have "(2::rat) powi (- 50) = 1 / 1125899906842624" by (simp add: power_int_minus)
  ultimately show ?thesis using rnd_rel_error [of p emin x] assms(2) by linarith
qed

lemma f32_err: "\<bar>x\<bar> \<le> B \<Longrightarrow> 1 / 1000000 \<le> B \<Longrightarrow> \<bar>f32 x - x\<bar> \<le> B / 10000000"
  unfolding f32_def by (rule rnd_err_decimal) auto

lemma f64_err: "\<bar>x\<bar> \<le> B \<Longrightarrow> 1 / 1000000 \<le> B \<Longrightarrow> \<bar>f64 x - x\<bar> \<le> B / 10000000"
  unfolding f64_def by (rule rnd_err_decimal) auto

lemma f32_0 [simp]: "f32 0 = 0"
  by (simp add: f32_def)

lemma f32_f32 [simp]: "f32 (f32 x) = f32 x"
  by (simp add: f32_def)

lemma f32_mono: "x \<le> y \<Longrightarrow> f32 x \<le> f32 y"
  by (simp add: f32_def rnd_mono)

lemma f32_minus: "f32 (- x) = - f32 x"
  by (simp add: f32_def rnd_minus)

lemma f32_nonneg: "0 \<le> x \<Longrightarrow> 0 \<le> f32 x"
  by (simp add: f32_def rnd_nonneg)

lemma f32_of_int: "\<bar>k\<bar> \<le> 2 ^ 24 \<Longrightarrow> f32 (of_int k) = of_int k"
  using rnd_fixes_pow2_multiple [of k 24 "- 149" 0] by (simp add: f32_def)

lemma f32_of_nat: "n \<le> 2 ^ 24 \<Longrightarrow> f32 (of_nat n) = of_nat n"
  using f32_of_int [of "int n"] by simp

lemma f32_numeral [simp]: "numeral n \<le> (2::int) ^ 24 \<Longrightarrow> f32 (numeral n) = numeral n"
  using f32_of_int [of "numeral n"] by simp

lemma f32_1 [simp]: "f32 1 = 1"
  using f32_of_int [of 1] by simp

lemma f32_unit: "0 \<le> x \<Longrightarrow> x \<le> 1 \<Longrightarrow> 0 \<le> f32 x \<and> f32 x \<le> 1"
  using f32_mono [of 0 x] f32_mono [of x 1] by simp

section \<open>lround\<close>

lemma lround_nearest:
  assumes "\<bar>x - of_int k\<bar> < 1 / 2" "long_min \<le> k" "k \<le> long_max"
  shows "lround x = k"
proof -
  have "round_half_away x = k"
  proof (cases "0 \<le> x")
    case True
    have "\<lfloor>x + 1 / 2\<rfloor> = k" using assms(1) by (intro floor_unique) linarith+
    with True show ?thesis by (simp add: round_half_away_def)
  next
    case False
    have "\<lfloor>- x + 1 / 2\<rfloor> = - k" using assms(1) by (intro floor_unique) (simp_all add: abs_if split: if_splits)
    with False show ?thesis by (simp add: round_half_away_def)
  qed
  with assms show ?thesis by (simp add: lround_def)
qed

lemma lround_of_int [simp]: "long_min \<le> k \<Longrightarrow> k \<le> long_max \<Longrightarrow> lround (of_int k) = k"
  by (rule lround_nearest) auto

lemma round_half_away_mono:
  assumes "x \<le> y"
  shows "round_half_away x \<le> round_half_away y"
proof -
  consider "0 \<le> x" | "x < 0" "0 \<le> y" | "y < 0" by linarith
  then show ?thesis
  proof cases
    case 1
    with assms show ?thesis by (simp add: round_half_away_def floor_mono)
  next
    case 2
    then have "0 \<le> \<lfloor>y + 1 / 2\<rfloor>" "0 \<le> \<lfloor>- x + 1 / 2\<rfloor>" by simp_all
    then have "- \<lfloor>- x + 1 / 2\<rfloor> \<le> \<lfloor>y + 1 / 2\<rfloor>" by linarith
    with 2 show ?thesis by (simp add: round_half_away_def)
  next
    case 3
    with assms have "\<lfloor>- y + 1 / 2\<rfloor> \<le> \<lfloor>- x + 1 / 2\<rfloor>" by (intro floor_mono) simp
    with 3 assms show ?thesis by (simp add: round_half_away_def)
  qed
qed

end
