(* ===== verification/Cpp_Text.thy ===== *)
theory Cpp_Text
  imports Cpp_Float
begin

text \<open>
  The two conversions between text and \<open>float\<close> that the program takes from the C library:
  \<open>std::strtof\<close> in the C locale (decimal and hexadecimal forms, infinities and NaNs,
  the end pointer as the unread rest) and the \<open>%.9g\<close> conversion of \<open>std::snprintf\<close>.
  Their round trip is the text-level fact the op-chain canonicalizer rests on.
\<close>

section \<open>strtof\<close>

datatype fp_value = Fin rat | Infinite | NotANumber

definition c_isspace :: "char \<Rightarrow> bool" where
  "c_isspace c \<longleftrightarrow> of_char c = (32::nat) \<or> (9 \<le> (of_char c :: nat) \<and> (of_char c :: nat) \<le> 13)"

definition to_lower :: "char \<Rightarrow> char" where
  "to_lower c = (if 65 \<le> (of_char c :: nat) \<and> (of_char c :: nat) \<le> 90 then char_of ((of_char c :: nat) + 32) else c)"

definition is_hex_digit :: "char \<Rightarrow> bool" where
  "is_hex_digit c \<longleftrightarrow> is_digit c \<or> to_lower c \<in> set ''abcdef''"

definition hex_val :: "char \<Rightarrow> nat" where
  "hex_val c = (if is_digit c then digit_val c else of_char (to_lower c) - 87)"

definition hex_value :: "string \<Rightarrow> nat" where
  "hex_value = foldl (\<lambda>n c. 16 * n + hex_val c) 0"

definition has_prefix_ci :: "string \<Rightarrow> string \<Rightarrow> bool" where
  "has_prefix_ci p s \<longleftrightarrow> map to_lower (take (length p) s) = p"

definition is_hex_form :: "string \<Rightarrow> bool" where
  "is_hex_form s \<longleftrightarrow> has_prefix_ci ''0x'' s \<and>
     (case drop 2 s of
        [] \<Rightarrow> False
      | c # r \<Rightarrow> is_hex_digit c \<or> (c = CHR ''.'' \<and> (case r of [] \<Rightarrow> False | d # _ \<Rightarrow> is_hex_digit d)))"

text \<open>An optional exponent part: without a digit after the marker it is not consumed.\<close>

definition scan_exponent :: "char \<Rightarrow> string \<Rightarrow> int \<times> string" where
  "scan_exponent marker s =
     (case s of
        [] \<Rightarrow> (0, s)
      | c # t \<Rightarrow>
          if to_lower c \<noteq> marker then (0, s)
          else let neg = (t \<noteq> [] \<and> hd t = CHR ''-'');
                   u = (if t \<noteq> [] \<and> (hd t = CHR ''-'' \<or> hd t = CHR ''+'') then tl t else t);
                   ds = takeWhile is_digit u
               in if ds = [] then (0, s)
                  else ((if neg then - int (digits_value ds) else int (digits_value ds)), dropWhile is_digit u))"

definition scan_fraction :: "(char \<Rightarrow> bool) \<Rightarrow> string \<Rightarrow> string \<times> string" where
  "scan_fraction digit s =
     (case s of
        [] \<Rightarrow> ([], s)
      | c # t \<Rightarrow> if c = CHR ''.'' then (takeWhile digit t, dropWhile digit t) else ([], s))"

definition scan_decimal :: "string \<Rightarrow> (rat \<times> string) option" where
  "scan_decimal s =
     (let ip = takeWhile is_digit s; (fp, r) = scan_fraction is_digit (dropWhile is_digit s)
      in if ip = [] \<and> fp = [] then None
         else let (e, r') = scan_exponent (CHR ''e'') r
              in Some (of_nat (digits_value (ip @ fp)) * 10 powi (e - int (length fp)), r'))"

definition scan_hex :: "string \<Rightarrow> (rat \<times> string) option" where
  "scan_hex s =
     (let u = drop 2 s; ip = takeWhile is_hex_digit u;
          (fp, r) = scan_fraction is_hex_digit (dropWhile is_hex_digit u);
          (e, r') = scan_exponent (CHR ''p'') r
      in Some (of_nat (hex_value (ip @ fp)) * 2 powi (e - 4 * int (length fp)), r'))"

definition round_float :: "rat \<Rightarrow> fp_value" where
  "round_float x = (if \<bar>f32 x\<bar> < 2 ^ 128 then Fin (f32 x) else Infinite)"

definition skip_nan_payload :: "string \<Rightarrow> string" where
  "skip_nan_payload s =
     (case s of
        [] \<Rightarrow> s
      | c # t \<Rightarrow>
          let body = dropWhile (\<lambda>d. is_digit d \<or> d = CHR ''_'' \<or> to_lower d \<in> set ''abcdefghijklmnopqrstuvwxyz'') t
          in if c = CHR ''('' \<and> body \<noteq> [] \<and> hd body = CHR '')'' then tl body else s)"

definition strtof :: "string \<Rightarrow> fp_value \<times> string" where
  "strtof s =
     (let t = dropWhile c_isspace s;
          neg = (t \<noteq> [] \<and> hd t = CHR ''-'');
          u = (if t \<noteq> [] \<and> (hd t = CHR ''-'' \<or> hd t = CHR ''+'') then tl t else t)
      in if has_prefix_ci ''infinity'' u then (Infinite, drop 8 u)
         else if has_prefix_ci ''inf'' u then (Infinite, drop 3 u)
         else if has_prefix_ci ''nan'' u then (NotANumber, skip_nan_payload (drop 3 u))
         else case (if is_hex_form u then scan_hex u else scan_decimal u) of
                None \<Rightarrow> (Fin 0, s)
              | Some (v, r) \<Rightarrow> (round_float (if neg then - v else v), r))"

section \<open>The \<open>%.9g\<close> conversion\<close>

definition dec_exp :: "rat \<Rightarrow> int" where
  "dec_exp x =
     (let (a, b) = quotient_of \<bar>x\<bar>;
          g = int (length (show_nat (nat a))) - int (length (show_nat (nat b)))
      in if \<bar>x\<bar> < 10 powi g then g - 1 else g)"

definition sci9 :: "rat \<Rightarrow> nat \<times> int" where
  "sci9 x =
     (let e = dec_exp x; m = nat (round_half_even (\<bar>x\<bar> / 10 powi (e - 8)))
      in if m = 10 ^ 9 then (10 ^ 8, e + 1) else (m, e))"

definition strip_zeros :: "string \<Rightarrow> string" where
  "strip_zeros s = rev (dropWhile (\<lambda>c. c = CHR ''0'') (rev s))"

definition with_point :: "string \<Rightarrow> string \<Rightarrow> string" where
  "with_point ip fp = (if strip_zeros fp = [] then ip else ip @ ''.'' @ strip_zeros fp)"

definition show_exponent :: "int \<Rightarrow> string" where
  "show_exponent e =
     (if e < 0 then ''e-'' else ''e+'') @ (if \<bar>e\<bar> < 10 then ''0'' else []) @ show_nat (nat \<bar>e\<bar>)"

definition printf_9g :: "rat \<Rightarrow> string" where
  "printf_9g x =
     (if x = 0 then ''0''
      else (let (m, e) = sci9 x; ds = show_nat m
            in (if x < 0 then ''-'' else []) @
               (if e < - 4 \<or> 9 \<le> e then with_point (take 1 ds) (drop 1 ds) @ show_exponent e
                else if 0 \<le> e then with_point (take (nat e + 1) ds) (drop (nat e + 1) ds)
                else with_point ''0'' (replicate (nat (- e) - 1) (CHR ''0'') @ ds))))"

section \<open>Reading back a fixed-point decimal\<close>

lemma digit_char_facts:
  assumes "is_digit c"
  shows "\<not> c_isspace c" "c \<noteq> CHR ''-''" "c \<noteq> CHR ''+''" "to_lower c = c" "c \<noteq> CHR ''.''"
    "c \<noteq> CHR ''i''" "c \<noteq> CHR ''n''" "c \<noteq> CHR ''x''"
  using assms by (auto simp: is_digit_def c_isspace_def to_lower_def)

lemma is_digit_point [simp]: "\<not> is_digit (CHR ''.'')"
  by (simp add: is_digit_def)

lemma scan_decimal_fixed:
  assumes "ip \<noteq> []" "\<forall>c \<in> set ip. is_digit c" "\<forall>c \<in> set fp. is_digit c"
  shows "scan_decimal (ip @ CHR ''.'' # fp) = Some (of_nat (digits_value (ip @ fp)) / 10 ^ length fp, [])"
proof -
  have "takeWhile is_digit (ip @ CHR ''.'' # fp) = ip" "dropWhile is_digit (ip @ CHR ''.'' # fp) = CHR ''.'' # fp"
    using assms(2) by (simp_all add: takeWhile_append_all dropWhile_append_all)
  moreover have fp: "takeWhile is_digit fp = fp" "dropWhile is_digit fp = []"
    using assms(3) by simp_all
  ultimately show ?thesis
    using assms(1) by (simp add: fp scan_decimal_def scan_fraction_def scan_exponent_def power_int_minus divide_inverse)
qed

lemma no_prefix_digit:
  assumes "is_digit c" "p \<noteq> []" "hd p = CHR ''i'' \<or> hd p = CHR ''n''"
  shows "\<not> has_prefix_ci p (c # s)"
  using assms digit_char_facts [of c] by (cases p) (auto simp: has_prefix_ci_def)

lemma fixed_not_hex:
  assumes "is_digit c" "\<forall>d \<in> set ip. is_digit d"
  shows "\<not> is_hex_form (c # ip @ CHR ''.'' # fp)"
proof (cases ip)
  case Nil
  then show ?thesis by (simp add: is_hex_form_def has_prefix_ci_def to_lower_def)
next
  case (Cons d ds)
  with assms have "to_lower d = d" "d \<noteq> CHR ''x''" using digit_char_facts [of d] by auto
  with Cons show ?thesis by (simp add: is_hex_form_def has_prefix_ci_def)
qed

lemma strtof_fixed_unsigned:
  assumes "ip \<noteq> []" "\<forall>c \<in> set ip. is_digit c" "\<forall>c \<in> set fp. is_digit c"
  shows "strtof (ip @ CHR ''.'' # fp) = (round_float (of_nat (digits_value (ip @ fp)) / 10 ^ length fp), [])"
    "strtof (CHR ''-'' # ip @ CHR ''.'' # fp) = (round_float (- (of_nat (digits_value (ip @ fp)) / 10 ^ length fp)), [])"
proof -
  obtain c ds where ip: "ip = c # ds" using assms(1) by (cases ip) auto
  with assms have c: "is_digit c" "\<forall>d \<in> set ds. is_digit d" by auto
  note facts = digit_char_facts [OF c(1)] no_prefix_digit [OF c(1)] fixed_not_hex [OF c]
  have scan: "scan_decimal (c # ds @ CHR ''.'' # fp) = Some (of_nat (digits_value (ip @ fp)) / 10 ^ length fp, [])"
    using scan_decimal_fixed [OF assms] ip by simp
  show "strtof (ip @ CHR ''.'' # fp) = (round_float (of_nat (digits_value (ip @ fp)) / 10 ^ length fp), [])"
    by (simp add: strtof_def ip facts scan [unfolded ip] Let_def)
  show "strtof (CHR ''-'' # ip @ CHR ''.'' # fp) = (round_float (- (of_nat (digits_value (ip @ fp)) / 10 ^ length fp)), [])"
    by (simp add: strtof_def ip facts scan [unfolded ip] Let_def c_isspace_def)
qed

end
