(* ===== verification/Op_Chain.thy ===== *)
theory Op_Chain
  imports Cpp_Text
begin

text \<open>
  The op-chain language (\<open>include/imgjit/core/op_chain.h\<close>, \<open>src/core/op_chain.cpp\<close>): the
  closed set of six ops, their table, the parser and the canonical printer. An \<open>OpChain\<close>
  is the list of its ops. A parse failure is \<open>Inl\<close> of the message the code writes to
  \<open>*error\<close>.
\<close>

section \<open>Ops and their table\<close>

datatype op_kind = kGrayscale | kInvert | kBrightness | kThreshold | kGaussian | kSobel

record chain_op =
  kind :: op_kind
  param :: rat

type_synonym op_chain = "chain_op list"

record op_spec_entry =
  spec_kind :: op_kind
  spec_name :: string
  takes_param :: bool
  is_stencil :: bool
  default_param :: rat
  min_param :: rat
  max_param :: rat

definition kOpSpecs :: "op_spec_entry list" where
  "kOpSpecs =
    [\<lparr>spec_kind = kGrayscale, spec_name = ''grayscale'', takes_param = False, is_stencil = False,
      default_param = 0, min_param = 0, max_param = 0\<rparr>,
     \<lparr>spec_kind = kInvert, spec_name = ''invert'', takes_param = False, is_stencil = False,
      default_param = 0, min_param = 0, max_param = 0\<rparr>,
     \<lparr>spec_kind = kBrightness, spec_name = ''brightness'', takes_param = True, is_stencil = False,
      default_param = 0, min_param = - 1, max_param = 1\<rparr>,
     \<lparr>spec_kind = kThreshold, spec_name = ''threshold'', takes_param = True, is_stencil = False,
      default_param = 1 / 2, min_param = 0, max_param = 1\<rparr>,
     \<lparr>spec_kind = kGaussian, spec_name = ''gaussian'', takes_param = True, is_stencil = True,
      default_param = 1, min_param = f32 (1 / 10), max_param = 4\<rparr>,
     \<lparr>spec_kind = kSobel, spec_name = ''sobel'', takes_param = False, is_stencil = True,
      default_param = 0, min_param = 0, max_param = 0\<rparr>]"

fun kind_index :: "op_kind \<Rightarrow> nat" where
  "kind_index kGrayscale = 0"
| "kind_index kInvert = 1"
| "kind_index kBrightness = 2"
| "kind_index kThreshold = 3"
| "kind_index kGaussian = 4"
| "kind_index kSobel = 5"

definition op_spec :: "op_kind \<Rightarrow> op_spec_entry result" where
  "op_spec k =
     (let index = kind_index k
      in if length kOpSpecs \<le> index \<or> spec_kind (kOpSpecs ! index) \<noteq> k
         then Inl (Invalid_argument ''op_spec: unknown OpKind'')
         else Inr (kOpSpecs ! index))"

text \<open>The entry \<open>op_spec\<close> returns; \<open>op_spec_total\<close> shows it never throws.\<close>

abbreviation spec_of :: "op_kind \<Rightarrow> op_spec_entry" where
  "spec_of k \<equiv> kOpSpecs ! kind_index k"

section \<open>Parsing and printing\<close>

definition is_space :: "char \<Rightarrow> bool" where
  "is_space c \<longleftrightarrow> c = CHR '' '' \<or> c = CHR 0x09 \<or> c = CHR 0x0D \<or> c = CHR 0x0A"

definition trim :: "string \<Rightarrow> string" where
  "trim text = rev (dropWhile is_space (rev (dropWhile is_space text)))"

definition find_spec :: "string \<Rightarrow> op_spec_entry option" where
  "find_spec name = find (\<lambda>spec. spec_name spec = name) kOpSpecs"

definition parse_float :: "string \<Rightarrow> rat option" where
  "parse_float token =
     (if token = [] then None
      else case strtof token of
             (Fin v, []) \<Rightarrow> Some v
           | _ \<Rightarrow> None)"

definition format_param :: "rat \<Rightarrow> string" where
  "format_param value =
     (let scaled = lround (dmul value 100); magnitude = nat \<bar>scaled\<bar>;
          text = (if scaled < 0 then ''-'' else '''') @ show_nat (magnitude div 100) @ ''.'' @
                 show_nat ((magnitude div 10) mod 10);
          hundredths = magnitude mod 10
      in if hundredths \<noteq> 0 then text @ show_nat hundredths else text)"

definition quantize_param :: "rat \<Rightarrow> rat" where
  "quantize_param value = fdiv (f32 (of_int (lround (dmul value 100)))) 100"

abbreviation squote :: string where "squote \<equiv> [CHR 0x27]"

text \<open>The body of the parser's loop: one trimmed, comma-free token.\<close>

definition parse_token :: "string \<Rightarrow> string + chain_op" where
  "parse_token token =
     (if token = [] then Inl ''empty op in chain''
      else let name = trim (takeWhile (\<lambda>c. c \<noteq> CHR '':'') token);
               after = dropWhile (\<lambda>c. c \<noteq> CHR '':'') token
           in case find_spec name of
                None \<Rightarrow> Inl (''unknown op '' @ squote @ name @ squote)
              | Some spec \<Rightarrow>
                  if after = [] then Inr \<lparr>kind = spec_kind spec, param = default_param spec\<rparr>
                  else if \<not> takes_param spec
                  then Inl (''op '' @ squote @ name @ squote @ '' takes no parameter'')
                  else let parameter = trim (tl after)
                       in case parse_float parameter of
                            None \<Rightarrow> Inl (''op '' @ squote @ name @ squote @ '': '' @ squote @ parameter @
                                         squote @ '' is not a number'')
                          | Some parsed \<Rightarrow>
                              let value = quantize_param parsed
                              in if value < min_param spec \<or> max_param spec < value
                                 then Inl (''op '' @ squote @ name @ squote @ '': parameter '' @
                                           format_param value @ '' is outside ['' @
                                           format_param (min_param spec) @ '', '' @
                                           format_param (max_param spec) @ '']'')
                                 else Inr \<lparr>kind = spec_kind spec, param = value\<rparr>)"

text \<open>The loop itself: \<open>rest\<close> is the body from \<open>position\<close> on, \<open>acc\<close> the ops pushed so far.\<close>

function parse_loop :: "string \<Rightarrow> op_chain \<Rightarrow> string + op_chain" where
  "parse_loop rest acc =
     (case parse_token (trim (takeWhile (\<lambda>c. c \<noteq> CHR '','') rest)) of
        Inl e \<Rightarrow> Inl e
      | Inr op \<Rightarrow>
          (case dropWhile (\<lambda>c. c \<noteq> CHR '','') rest of
             [] \<Rightarrow> Inr (acc @ [op])
           | _ # rest' \<Rightarrow> parse_loop rest' (acc @ [op])))"
  by pat_completeness auto
termination
proof (relation "measure (\<lambda>(rest, acc). length rest)", simp)
  fix rest :: string and c rest' and acc :: op_chain and op
  assume "dropWhile (\<lambda>c. c \<noteq> CHR '','') rest = c # rest'"
  then have "Suc (length rest') \<le> length rest"
    by (metis length_Cons length_dropWhile_le)
  then show "((rest', acc @ [op]), (rest, acc)) \<in> measure (\<lambda>(rest, acc). length rest)"
    by simp
qed

declare parse_loop.simps [simp del]

definition parse_op_chain :: "string \<Rightarrow> string + op_chain" where
  "parse_op_chain text = (let body = trim text in if body = [] then Inr [] else parse_loop body [])"

definition op_text :: "chain_op \<Rightarrow> string" where
  "op_text op =
     spec_name (spec_of (kind op)) @
     (if takes_param (spec_of (kind op)) then '':'' @ format_param (param op) else [])"

definition canonical_string :: "op_chain \<Rightarrow> string" where
  "canonical_string chain =
     foldl (\<lambda>text op. (if text \<noteq> [] then text @ '','' else text) @ op_text op) [] chain"

section \<open>The table\<close>

lemma op_spec_total: "op_spec k = Inr (spec_of k)"
  by (cases k) (simp_all add: op_spec_def kOpSpecs_def)

lemma spec_of_simps [simp]:
  "spec_of k \<in> set kOpSpecs" "spec_kind (spec_of k) = k"
  by (cases k; simp add: kOpSpecs_def)+

lemma kOpSpecs_range: "spec \<in> set kOpSpecs \<Longrightarrow> spec = spec_of (spec_kind spec)"
  by (auto simp: kOpSpecs_def)

lemma find_spec_Some: "find_spec name = Some spec \<Longrightarrow> spec = spec_of (spec_kind spec) \<and> spec_name spec = name"
  by (auto simp: find_spec_def find_Some_iff kOpSpecs_range)

lemma find_spec_name [simp]: "find_spec (spec_name (spec_of k)) = Some (spec_of k)"
  by (cases k) (simp_all add: find_spec_def kOpSpecs_def)

section \<open>Quantized parameters\<close>

text \<open>A canonical parameter is the \<open>float\<close> nearest to a whole number of hundredths.\<close>

lemma hundredths_bound:
  assumes "\<bar>k\<bar> \<le> 1000"
  shows "\<bar>of_int k / 100 :: rat\<bar> \<le> 10"
proof -
  have "\<bar>of_int k :: rat\<bar> \<le> 1000" using assms by (metis of_int_abs of_int_le_numeral_iff)
  then show ?thesis by simp
qed

lemma hundredths_readback:
  assumes "\<bar>k\<bar> \<le> 1000"
  shows "lround (dmul (f32 (of_int k / 100)) 100) = k"
proof (rule lround_nearest)
  define x where "x = f32 (of_int k / 100)"
  have k: "\<bar>of_int k / 100 :: rat\<bar> \<le> 10" by (rule hundredths_bound [OF assms])
  then have x: "\<bar>x - of_int k / 100\<bar> \<le> 10 / 10000000"
    unfolding x_def by (rule f32_err) simp
  with k have "\<bar>x * 100\<bar> \<le> 2000" by linarith
  then have "\<bar>f64 (x * 100) - x * 100\<bar> \<le> 2000 / 10000000"
    by (rule f64_err) simp
  with x show "\<bar>dmul (f32 (of_int k / 100)) 100 - of_int k\<bar> < 1 / 2"
    unfolding dmul_def x_def [symmetric] by linarith
qed (use assms in \<open>auto simp: long_min_def long_max_def\<close>)

lemma quantize_hundredths:
  assumes "\<bar>k\<bar> \<le> 1000"
  shows "quantize_param (f32 (of_int k / 100)) = f32 (of_int k / 100)"
  using assms by (simp add: quantize_param_def hundredths_readback fdiv_def f32_of_int)

lemma quantize_in_bounds:
  assumes "- 1 \<le> quantize_param v" "quantize_param v \<le> 4"
  obtains k where "\<bar>k\<bar> \<le> 400" "quantize_param v = f32 (of_int k / 100)"
proof -
  define k where "k = lround (dmul v 100)"
  have q: "quantize_param v = f32 (f32 (of_int k) / 100)"
    by (simp add: quantize_param_def k_def fdiv_def)
  have "k \<le> 400"
  proof (rule ccontr)
    assume "\<not> k \<le> 400"
    then have "of_int 401 \<le> (of_int k :: rat)" by (simp only: of_int_le_iff)
    then have "401 \<le> f32 (of_int k)" using f32_mono [of 401 "of_int k"] by simp
    then have "f32 (401 / 100) \<le> quantize_param v" unfolding q by (intro f32_mono) simp
    moreover have "(4::rat) < f32 (401 / 100)" using f32_err [of "401 / 100" 5] by linarith
    ultimately show False using assms by simp
  qed
  moreover have "- 100 \<le> k"
  proof (rule ccontr)
    assume "\<not> - 100 \<le> k"
    then have "(of_int k :: rat) \<le> of_int (- 101)" by (simp only: of_int_le_iff)
    then have "f32 (of_int k) \<le> - 101" using f32_mono [of "of_int k" "- 101"] f32_of_int [of "- 101"] by simp
    then have "quantize_param v \<le> f32 (- 101 / 100)" unfolding q by (intro f32_mono) simp
    moreover have "f32 (- 101 / 100) < - 1" using f32_err [of "- 101 / 100" 2] by linarith
    ultimately show False using assms by simp
  qed
  ultimately have "\<bar>k\<bar> \<le> 400" by simp
  then show thesis using that [of k] by (simp add: q f32_of_int)
qed

definition canonical_op :: "chain_op \<Rightarrow> bool" where
  "canonical_op op \<longleftrightarrow>
     (let spec = spec_of (kind op)
      in if takes_param spec
         then quantize_param (param op) = param op \<and> min_param spec \<le> param op \<and> param op \<le> max_param spec
         else param op = 0)"

abbreviation canonical_chain :: "op_chain \<Rightarrow> bool" where
  "canonical_chain chain \<equiv> (\<forall>op \<in> set chain. canonical_op op)"

lemma f32_half [simp]: "f32 (1 / 2) = 1 / 2"
  using rnd_representable [of 1 24 "- 149" "- 1"] by (simp add: f32_def power_int_minus)

lemma f32_tenth_nonneg: "0 \<le> f32 (1 / 10)"
  by (rule f32_nonneg) simp

lemma spec_bounds: "- 1 \<le> min_param (spec_of k)" "max_param (spec_of k) \<le> 4"
  using f32_tenth_nonneg by (cases k; simp add: kOpSpecs_def)+

lemma canonical_hundredths:
  assumes "canonical_op op" "takes_param (spec_of (kind op))"
  obtains k where "\<bar>k\<bar> \<le> 400" "param op = f32 (of_int k / 100)"
proof -
  have q: "quantize_param (param op) = param op"
    and b: "min_param (spec_of (kind op)) \<le> param op" "param op \<le> max_param (spec_of (kind op))"
    using assms by (simp_all add: canonical_op_def Let_def)
  from b spec_bounds [of "kind op"] have "- 1 \<le> quantize_param (param op)" "quantize_param (param op) \<le> 4"
    unfolding q by linarith+
  then show thesis using that q quantize_in_bounds by metis
qed

lemma default_canonical: "canonical_op \<lparr>kind = k, param = default_param (spec_of k)\<rparr>"
proof -
  have "f32 (1 / 10) \<le> f32 1" by (rule f32_mono) simp
  then have bound: "f32 (1 / 10) \<le> 1" by simp
  have "quantize_param (1 / 2) = 1 / 2" "quantize_param 1 = 1" "quantize_param 0 = 0"
    using quantize_hundredths [of 50] quantize_hundredths [of 100] quantize_hundredths [of 0] by simp_all
  with bound show ?thesis
    by (cases k) (simp_all add: canonical_op_def kOpSpecs_def)
qed

lemma parse_token_canonical:
  assumes "parse_token token = Inr op"
  shows "canonical_op op"
proof -
  obtain spec where fs: "find_spec (trim (takeWhile (\<lambda>c. c \<noteq> CHR '':'') token)) = Some spec"
    using assms by (simp add: parse_token_def Let_def split: if_splits option.splits)
  then have spec: "spec = spec_of (spec_kind spec)" using find_spec_Some by blast
  have cases: "op = \<lparr>kind = spec_kind spec, param = default_param spec\<rparr> \<or>
       (\<exists>v. takes_param spec \<and> min_param spec \<le> quantize_param v \<and> quantize_param v \<le> max_param spec \<and>
            op = \<lparr>kind = spec_kind spec, param = quantize_param v\<rparr>)"
    using assms by (auto simp: parse_token_def Let_def fs not_less split: if_splits option.splits)
  from cases show ?thesis
  proof (elim disjE exE conjE)
    assume "op = \<lparr>kind = spec_kind spec, param = default_param spec\<rparr>"
    then show ?thesis using default_canonical spec by metis
  next
    fix v
    assume b: "takes_param spec" "min_param spec \<le> quantize_param v" "quantize_param v \<le> max_param spec"
      and op: "op = \<lparr>kind = spec_kind spec, param = quantize_param v\<rparr>"
    have "- 1 \<le> min_param spec" "max_param spec \<le> 4" using spec spec_bounds by metis+
    with b obtain k where "\<bar>k\<bar> \<le> 400" "quantize_param v = f32 (of_int k / 100)"
      using quantize_in_bounds [of v] by auto
    then have "quantize_param (quantize_param v) = quantize_param v"
      using quantize_hundredths [of k] by simp
    with b op spec show ?thesis by (simp add: canonical_op_def)
  qed
qed

section \<open>The parser against its reference: split at commas, then parse every token\<close>

function split_commas :: "string \<Rightarrow> string list" where
  "split_commas s =
     (case dropWhile (\<lambda>c. c \<noteq> CHR '','') s of
        [] \<Rightarrow> [s]
      | _ # s' \<Rightarrow> takeWhile (\<lambda>c. c \<noteq> CHR '','') s # split_commas s')"
  by pat_completeness auto
termination
proof (relation "measure length", simp)
  fix s :: string and c s'
  assume "dropWhile (\<lambda>c. c \<noteq> CHR '','') s = c # s'"
  then have "Suc (length s') \<le> length s" by (metis length_Cons length_dropWhile_le)
  then show "(s', s) \<in> measure length" by simp
qed

declare split_commas.simps [simp del]

lemma parse_loop_traverse:
  "parse_loop rest acc =
     (case traverse parse_token (map trim (split_commas rest)) of Inl e \<Rightarrow> Inl e | Inr ops \<Rightarrow> Inr (acc @ ops))"
proof (induction rest acc rule: parse_loop.induct)
  case (1 rest acc)
  show ?case
  proof (cases "dropWhile (\<lambda>c. c \<noteq> CHR '','') rest")
    case Nil
    then have tw: "takeWhile (\<lambda>c. c \<noteq> CHR '','') rest = rest"
      by (metis append_Nil2 takeWhile_dropWhile_id)
    show ?thesis
      by (subst parse_loop.simps, subst split_commas.simps) (simp add: Nil tw split: sum.splits)
  next
    case (Cons c rest')
    show ?thesis
      by (subst parse_loop.simps, subst split_commas.simps) (auto simp: Cons "1.IH" [OF _ Cons] split: sum.splits)
  qed
qed

lemma parse_op_chain_reference:
  "parse_op_chain text =
     (if trim text = [] then Inr []
      else traverse parse_token (map trim (split_commas (trim text))))"
  by (auto simp: parse_op_chain_def parse_loop_traverse split: sum.splits)

lemma parse_op_chain_canonical:
  assumes "parse_op_chain text = Inr chain"
  shows "canonical_chain chain"
proof (cases "trim text = []")
  case False
  with assms have l2: "list_all2 (\<lambda>x op. parse_token x = Inr op) (map trim (split_commas (trim text))) chain"
    by (simp add: parse_op_chain_reference traverse_Inr)
  show ?thesis
  proof
    fix op
    assume "op \<in> set chain"
    from list_all2_right [OF l2 this] obtain x where "parse_token x = Inr op" by blast
    then show "canonical_op op" by (rule parse_token_canonical)
  qed
qed (use assms in \<open>simp add: parse_op_chain_reference\<close>)

section \<open>Printing and reading back\<close>

definition plain :: "string \<Rightarrow> bool" where
  "plain s \<longleftrightarrow> (\<forall>c \<in> set s. \<not> is_space c \<and> c \<noteq> CHR '','')"

lemma plain_append [simp]: "plain (s @ t) \<longleftrightarrow> plain s \<and> plain t"
  by (auto simp: plain_def)

lemma plain_Cons [simp]: "plain (c # s) \<longleftrightarrow> \<not> is_space c \<and> c \<noteq> CHR '','' \<and> plain s"
  by (auto simp: plain_def)

lemma plain_Nil [simp]: "plain []"
  by (simp add: plain_def)

lemma trim_plain [simp]: "plain s \<Longrightarrow> trim s = s"
  by (simp add: plain_def trim_def dropWhile_none)

lemma is_digit_not_space: "is_digit c \<Longrightarrow> \<not> is_space c \<and> c \<noteq> CHR '','' \<and> c \<noteq> CHR '':''"
  by (auto simp: is_digit_def is_space_def)

lemma plain_show_nat [simp]: "plain (show_nat n)"
  using show_nat_digits [of n] is_digit_not_space by (auto simp: plain_def)

lemma plain_format_param [simp]: "plain (format_param v)"
  by (simp add: format_param_def Let_def is_space_def)

lemma hundred_split: "100 * (m div 100) + 10 * ((m div 10) mod 10) + m mod 10 = (m::nat)"
proof -
  have "m div 100 = (m div 10) div 10" by (simp flip: div_mult2_eq)
  moreover have "10 * ((m div 10) div 10) + (m div 10) mod 10 = m div 10" "10 * (m div 10) + m mod 10 = m"
    by simp_all
  ultimately show ?thesis by linarith
qed

lemma digits_value_pair: "digits_value [c, d] = 10 * digit_val c + digit_val d"
  by (simp add: digits_value_def)

lemma parse_float_format:
  assumes "\<bar>k\<bar> \<le> 1000"
  shows "parse_float (format_param (f32 (of_int k / 100))) = Some (f32 (of_int k / 100))"
proof -
  define m where "m = nat \<bar>k\<bar>"
  define fp where "fp = show_nat ((m div 10) mod 10) @ (if m mod 10 \<noteq> 0 then show_nat (m mod 10) else [])"
  define v :: rat where "v = of_nat (digits_value (show_nat (m div 100) @ fp)) / 10 ^ length fp"
  have printed: "format_param (f32 (of_int k / 100)) =
      (if k < 0 then CHR ''-'' # show_nat (m div 100) @ CHR ''.'' # fp else show_nat (m div 100) @ CHR ''.'' # fp)"
    by (simp add: format_param_def hundredths_readback [OF assms] m_def fp_def Let_def)
  have digits: "\<forall>c \<in> set fp. is_digit c" using show_nat_digits by (auto simp: fp_def)
  have st: "strtof (format_param (f32 (of_int k / 100))) = (round_float (if k < 0 then - v else v), [])"
    unfolding printed v_def
    using strtof_fixed_unsigned [OF show_nat_not_Nil show_nat_digits digits] by simp
  have mk: "of_nat m = (if k < 0 then - of_int k else of_int k :: rat)"
    by (simp add: m_def)
  have "v = of_nat m / 100"
  proof (cases "m mod 10 = 0")
    case True
    then have "10 * (10 * (m div 100) + (m div 10) mod 10) = m" using hundred_split [of m] by simp
    from arg_cong [OF this, of "of_nat :: nat \<Rightarrow> rat"]
    have "of_nat m = (10 * (10 * of_nat (m div 100) + of_nat ((m div 10) mod 10)) :: rat)"
      by (simp only: of_nat_add of_nat_mult of_nat_numeral)
    with True show ?thesis
      by (simp add: v_def fp_def digits_value_append show_nat_one_digit mult.commute)
  next
    case False
    from arg_cong [OF hundred_split [of m], of "of_nat :: nat \<Rightarrow> rat"]
    have "of_nat m = (100 * of_nat (m div 100) + 10 * of_nat ((m div 10) mod 10) + of_nat (m mod 10) :: rat)"
      by (simp only: of_nat_add of_nat_mult of_nat_numeral)
    with False show ?thesis
      by (simp add: v_def fp_def digits_value_append digits_value_pair show_nat_one_digit mult.commute)
  qed
  then have val: "(if k < 0 then - v else v) = of_int k / 100" using mk by auto
  from hundredths_bound [OF assms] have "\<bar>of_int k / 100 :: rat\<bar> \<le> 10" .
  moreover from f32_err [OF this] have "\<bar>f32 (of_int k / 100) - of_int k / 100\<bar> \<le> 1" by simp
  ultimately have "\<bar>f32 (of_int k / 100)\<bar> \<le> 11" by linarith
  also have "(11::rat) < 2 ^ 128" by simp
  finally have "\<bar>f32 (of_int k / 100)\<bar> < 2 ^ 128" .
  with st val show ?thesis by (simp add: parse_float_def round_float_def printed)
qed

lemma spec_name_facts:
  "plain (spec_name (spec_of k))" "spec_name (spec_of k) \<noteq> []"
  "takeWhile (\<lambda>c. c \<noteq> CHR '':'') (spec_name (spec_of k)) = spec_name (spec_of k)"
  "takeWhile (\<lambda>c. c \<noteq> CHR '':'') (spec_name (spec_of k) @ CHR '':'' # s) = spec_name (spec_of k)"
  "dropWhile (\<lambda>c. c \<noteq> CHR '':'') (spec_name (spec_of k)) = []"
  "dropWhile (\<lambda>c. c \<noteq> CHR '':'') (spec_name (spec_of k) @ CHR '':'' # s) = CHR '':'' # s"
  by (cases k; simp add: kOpSpecs_def is_space_def)+

lemma op_text_plain [simp]: "plain (op_text op)" "op_text op \<noteq> []"
  using spec_name_facts [of "kind op"] by (simp_all add: op_text_def is_space_def)

lemma parse_token_op_text:
  assumes "canonical_op op"
  shows "parse_token (op_text op) = Inr op"
proof (cases "takes_param (spec_of (kind op))")
  case True
  obtain k where k: "\<bar>k\<bar> \<le> 400" "param op = f32 (of_int k / 100)"
    by (rule canonical_hundredths [OF assms True])
  then have pf: "parse_float (format_param (param op)) = Some (param op)"
    using parse_float_format [of k] by simp
  have b: "quantize_param (param op) = param op" "min_param (spec_of (kind op)) \<le> param op"
      "param op \<le> max_param (spec_of (kind op))"
    using assms True by (simp_all add: canonical_op_def Let_def)
  have tok: "op_text op = spec_name (spec_of (kind op)) @ CHR '':'' # format_param (param op)"
    using True by (simp add: op_text_def)
  show ?thesis
    using b True by (simp add: tok parse_token_def spec_name_facts pf Let_def)
next
  case False
  then have "op_text op = spec_name (spec_of (kind op))" "param op = 0" "default_param (spec_of (kind op)) = 0"
    using assms by (auto simp: op_text_def canonical_op_def Let_def) (cases "kind op"; simp add: kOpSpecs_def)
  then show ?thesis by (simp add: parse_token_def spec_name_facts)
qed

lemma canonical_string_fold:
  "t \<noteq> [] \<Longrightarrow>
   foldl (\<lambda>text op. (if text \<noteq> [] then text @ '','' else text) @ op_text op) t ops =
   t @ concat (map (\<lambda>op. CHR '','' # op_text op) ops)"
  by (induction ops arbitrary: t) auto

lemma canonical_string_Cons:
  "canonical_string (op # ops) = op_text op @ concat (map (\<lambda>op. CHR '','' # op_text op) ops)"
  by (simp add: canonical_string_def canonical_string_fold)

lemma plain_no_comma:
  assumes "plain s"
  shows "takeWhile (\<lambda>c. c \<noteq> CHR '','') (s @ CHR '','' # t) = s"
    "dropWhile (\<lambda>c. c \<noteq> CHR '','') (s @ CHR '','' # t) = CHR '','' # t"
    "dropWhile (\<lambda>c. c \<noteq> CHR '','') s = []"
  using assms by (auto simp: plain_def takeWhile_append_all dropWhile_append_all)

lemma split_commas_joined:
  "split_commas (op_text op @ concat (map (\<lambda>op. CHR '','' # op_text op) ops)) = map op_text (op # ops)"
proof (induction ops arbitrary: op)
  case Nil
  show ?case by (subst split_commas.simps) (simp add: plain_no_comma)
next
  case (Cons o' ops)
  show ?case by (subst split_commas.simps) (simp add: plain_no_comma Cons.IH)
qed

lemma trim_canonical_string: "trim (canonical_string chain) = canonical_string chain"
proof (cases chain)
  case (Cons op ops)
  have "\<forall>c \<in> set (canonical_string chain). \<not> is_space c"
    using op_text_plain(1) by (auto simp: Cons canonical_string_Cons plain_def is_space_def)
  then show ?thesis by (simp add: trim_def dropWhile_none)
qed (simp add: canonical_string_def trim_def)

lemma parse_canonical_string:
  assumes "canonical_chain chain"
  shows "parse_op_chain (canonical_string chain) = Inr chain"
proof (cases chain)
  case Nil
  then show ?thesis by (simp add: parse_op_chain_def canonical_string_def trim_def)
next
  case (Cons op ops)
  have "split_commas (canonical_string chain) = map op_text chain"
    by (simp only: Cons canonical_string_Cons split_commas_joined)
  then have "map trim (split_commas (canonical_string chain)) = map op_text chain"
    by simp
  moreover have "list_all2 (\<lambda>x op. parse_token x = Inr op) (map op_text chain) chain"
    using assms by (simp add: list_all2_map1 list_all2_same parse_token_op_text)
  moreover have "canonical_string chain \<noteq> []" by (simp add: Cons canonical_string_Cons)
  ultimately show ?thesis
    by (simp add: parse_op_chain_reference trim_canonical_string traverse_Inr)
qed

section \<open>Properties\<close>

text \<open>
  C13: Printing and parsing are inverse on canonical chains: the canonical text of a chain whose
  parameters are quantized and within the bounds of \<open>kOpSpecs\<close> parses, and parses to that chain.
\<close>

theorem parse_print_roundtrip:
  assumes "canonical_chain chain"
  shows "parse_op_chain (canonical_string chain) = Inr chain"
  using assms by (rule parse_canonical_string)

theorem parse_print_roundtrip_witness:
  "parse_op_chain (canonical_string
     [\<lparr>kind = kGrayscale, param = 0\<rparr>, \<lparr>kind = kGaussian, param = 1\<rparr>, \<lparr>kind = kThreshold, param = 1 / 2\<rparr>]) =
   Inr [\<lparr>kind = kGrayscale, param = 0\<rparr>, \<lparr>kind = kGaussian, param = 1\<rparr>, \<lparr>kind = kThreshold, param = 1 / 2\<rparr>]"
proof -
  have "canonical_op \<lparr>kind = kGrayscale, param = 0\<rparr>" "canonical_op \<lparr>kind = kGaussian, param = 1\<rparr>"
    "canonical_op \<lparr>kind = kThreshold, param = 1 / 2\<rparr>"
    using default_canonical [of kGrayscale] default_canonical [of kGaussian] default_canonical [of kThreshold]
    by (simp_all add: kOpSpecs_def)
  then show ?thesis by (intro parse_print_roundtrip) auto
qed

text \<open>
  C14: Whatever text the parser accepts, the chain it returns is canonical: every parameter is a fixed
  point of \<open>quantize_param\<close> within the op's bounds (zero for ops without one), so printing it and
  parsing again yields the same chain.
\<close>

theorem parse_yields_canonical:
  assumes "parse_op_chain input = Inr chain"
  shows "canonical_chain chain \<and> parse_op_chain (canonical_string chain) = Inr chain"
  using parse_op_chain_canonical [OF assms] parse_canonical_string by blast

theorem parse_yields_canonical_witness:
  "\<exists>chain. parse_op_chain '' invert , gaussian'' = Inr chain \<and> canonical_chain chain \<and> chain \<noteq> []"
proof -
  have "parse_op_chain '' invert , gaussian'' =
      Inr [\<lparr>kind = kInvert, param = 0\<rparr>, \<lparr>kind = kGaussian, param = 1\<rparr>]"
    by (simp add: parse_op_chain_reference trim_def is_space_def split_commas.simps parse_token_def
        find_spec_def kOpSpecs_def Let_def)
  from parse_yields_canonical [OF this] this show ?thesis by blast
qed

text \<open>
  C33: The scanning loop of the parser, which cuts the text at each comma as it goes and stops at the
  first bad token, computes the specification: split the trimmed text at commas, trim each
  token, parse the tokens from left to right and report the first failure. The empty text is the
  empty chain.
\<close>

theorem parse_is_split_and_traverse:
  "parse_op_chain input =
     (if trim input = [] then Inr []
      else traverse parse_token (map trim (split_commas (trim input))))"
  by (rule parse_op_chain_reference)

end
