(* ===== verification/Image_Core.thy ===== *)
theory Image_Core
  imports Imgjit_Prelude
begin

text \<open>
  The image type (\<open>include/imgjit/core/image.h\<close>, \<open>src/core/image.cpp\<close>): dimensions, row
  stride and the byte vector, the throwing constructor, the strided copy \<open>from_bytes\<close> and
  the sample accessors. Coordinates are \<open>nat\<close>: every access of the program is at a loop
  counter or a clamped coordinate. Exhaustion of memory is not modelled.
\<close>

record image =
  im_width :: int
  im_height :: int
  im_channels :: int
  im_stride :: nat
  im_pixels :: "u8 list"

definition empty_image :: image where
  "empty_image = \<lparr>im_width = 0, im_height = 0, im_channels = 0, im_stride = 0, im_pixels = []\<rparr>"

definition is_supported_channel_count :: "int \<Rightarrow> bool" where
  "is_supported_channel_count channels \<longleftrightarrow> channels = 1 \<or> channels = 3 \<or> channels = 4"

definition byte_count :: "image \<Rightarrow> nat" where
  "byte_count img = length (im_pixels img)"

definition image_empty :: "image \<Rightarrow> bool" where
  "image_empty img \<longleftrightarrow> im_pixels img = []"

definition new_image :: "int \<Rightarrow> int \<Rightarrow> int \<Rightarrow> image result" where
  "new_image width height channels =
     (if width \<le> 0 \<or> height \<le> 0 \<or> \<not> is_supported_channel_count channels
      then Inl (Invalid_argument (''Image: bad dimensions '' @ show_int width @ ''x'' @ show_int height @
                                  ''x'' @ show_int channels))
      else let stride = nat width * nat channels
           in Inr \<lparr>im_width = width, im_height = height, im_channels = channels, im_stride = stride,
                   im_pixels = replicate (stride * nat height) 0\<rparr>)"

text \<open>\<open>row(y)\<close> is the offset \<open>y * stride\<close>; \<open>at(x, y, c)\<close> adds \<open>x * channels + c\<close>.\<close>

definition pixel_pos :: "image \<Rightarrow> nat \<Rightarrow> nat \<Rightarrow> nat \<Rightarrow> nat" where
  "pixel_pos img x y c = y * im_stride img + (x * nat (im_channels img) + c)"

definition sample_at :: "image \<Rightarrow> nat \<Rightarrow> nat \<Rightarrow> nat \<Rightarrow> u8" where
  "sample_at img x y c = im_pixels img ! pixel_pos img x y c"

definition set_at :: "image \<Rightarrow> nat \<Rightarrow> nat \<Rightarrow> nat \<Rightarrow> u8 \<Rightarrow> image" where
  "set_at img x y c v = img\<lparr>im_pixels := (im_pixels img)[pixel_pos img x y c := v]\<rparr>"

text \<open>\<open>std::memcpy\<close> of \<open>n\<close> bytes of \<open>source\<close> from offset \<open>from\<close> to offset \<open>to\<close>.\<close>

definition memcpy_at :: "nat \<Rightarrow> 'a list \<Rightarrow> nat \<Rightarrow> nat \<Rightarrow> 'a list \<Rightarrow> 'a list" where
  "memcpy_at to source from n buffer =
     fold (\<lambda>i buf. buf[to + i := source ! (from + i)]) [0..<n] buffer"

text \<open>The row loop of \<open>from_bytes\<close>, over the first \<open>n\<close> rows.\<close>

definition copy_rows :: "u8 list \<Rightarrow> nat \<Rightarrow> nat \<Rightarrow> image \<Rightarrow> image" where
  "copy_rows source source_stride n img0 =
     fold (\<lambda>y img. img\<lparr>im_pixels := memcpy_at (y * im_stride img) source (y * source_stride)
                                      (im_stride img) (im_pixels img)\<rparr>) [0..<n] img0"

definition image_from_bytes :: "int \<Rightarrow> int \<Rightarrow> int \<Rightarrow> u8 list \<Rightarrow> nat \<Rightarrow> image result" where
  "image_from_bytes width height channels source source_stride =
     bind_result (new_image width height channels) (\<lambda>image.
       if source_stride < im_stride image
       then Inl (Invalid_argument ''Image::from_bytes: source stride is narrower than a packed row'')
       else Inr (copy_rows source source_stride (nat height) image))"

section \<open>Well-formed images\<close>

abbreviation img_w :: "image \<Rightarrow> nat" where "img_w img \<equiv> nat (im_width img)"
abbreviation img_h :: "image \<Rightarrow> nat" where "img_h img \<equiv> nat (im_height img)"
abbreviation img_c :: "image \<Rightarrow> nat" where "img_c img \<equiv> nat (im_channels img)"

definition image_wf :: "image \<Rightarrow> bool" where
  "image_wf img \<longleftrightarrow> 0 < im_width img \<and> 0 < im_height img \<and> is_supported_channel_count (im_channels img) \<and>
     im_stride img = img_w img * img_c img \<and> length (im_pixels img) = im_stride img * img_h img"

definition same_shape :: "image \<Rightarrow> image \<Rightarrow> bool" where
  "same_shape a b \<longleftrightarrow> im_width a = im_width b \<and> im_height a = im_height b \<and>
     im_channels a = im_channels b \<and> im_stride a = im_stride b"

definition in_range :: "image \<Rightarrow> nat \<Rightarrow> nat \<Rightarrow> nat \<Rightarrow> bool" where
  "in_range img x y c \<longleftrightarrow> x < img_w img \<and> y < img_h img \<and> c < img_c img"

lemma same_shape_refl [simp]: "same_shape a a"
  by (simp add: same_shape_def)

lemma same_shape_sym: "same_shape a b \<Longrightarrow> same_shape b a"
  by (simp add: same_shape_def)

lemma same_shape_trans [trans]: "same_shape a b \<Longrightarrow> same_shape b c \<Longrightarrow> same_shape a c"
  by (simp add: same_shape_def)

lemma same_shape_range: "same_shape a b \<Longrightarrow> in_range a x y c = in_range b x y c"
  by (simp add: same_shape_def in_range_def)

lemma image_wf_channels: "image_wf img \<Longrightarrow> 0 < img_c img"
  by (auto simp: image_wf_def is_supported_channel_count_def)

lemma new_image_ok:
  "0 < w \<Longrightarrow> 0 < h \<Longrightarrow> is_supported_channel_count c \<Longrightarrow> \<exists>img. new_image w h c = Inr img"
  by (simp add: new_image_def Let_def)

lemma new_image_Inr:
  assumes "new_image w h c = Inr img"
  shows "image_wf img" "im_width img = w" "im_height img = h" "im_channels img = c"
    "im_stride img = nat w * nat c" "im_pixels img = replicate (nat w * nat c * nat h) 0"
  using assms by (auto simp: new_image_def image_wf_def Let_def split: if_splits)

lemma pixel_pos_less:
  assumes "image_wf img" "in_range img x y c"
  shows "pixel_pos img x y c < length (im_pixels img)"
proof -
  have "x * img_c img + c < img_w img * img_c img"
    using assms(2) by (intro mult_add_less) (simp_all add: in_range_def)
  then have "y * im_stride img + (x * img_c img + c) < img_h img * im_stride img"
    using assms by (intro mult_add_less) (simp_all add: in_range_def image_wf_def)
  then show ?thesis using assms(1) by (simp add: pixel_pos_def image_wf_def mult.commute)
qed

lemma pixel_pos_inject:
  assumes "image_wf img" "in_range img x y c" "in_range img x' y' c'"
  shows "pixel_pos img x y c = pixel_pos img x' y' c' \<longleftrightarrow> x = x' \<and> y = y' \<and> c = c'"
proof -
  have s: "im_stride img = img_w img * img_c img" using assms(1) by (simp add: image_wf_def)
  have "x * img_c img + c < im_stride img" "x' * img_c img + c' < im_stride img"
    using assms(2,3) unfolding s by (auto intro!: mult_add_less simp: in_range_def)
  then have "pixel_pos img x y c = pixel_pos img x' y' c' \<longleftrightarrow>
      y = y' \<and> x * img_c img + c = x' * img_c img + c'"
    unfolding pixel_pos_def by (rule mult_add_inject)
  also have "\<dots> \<longleftrightarrow> x = x' \<and> y = y' \<and> c = c'"
    using assms(2,3) mult_add_inject [of c "img_c img" c' x x'] by (auto simp: in_range_def)
  finally show ?thesis .
qed

lemma pixel_pos_surj:
  assumes "image_wf img" "i < length (im_pixels img)"
  obtains x y c where "in_range img x y c" "i = pixel_pos img x y c"
proof -
  define s n where "s = im_stride img" and "n = img_c img"
  have n: "0 < n" using image_wf_channels [OF assms(1)] by (simp add: n_def)
  have s: "s = img_w img * n" and len: "length (im_pixels img) = s * img_h img"
    using assms(1) by (simp_all add: image_wf_def s_def n_def)
  have "0 < s" using assms(2) len by (cases s) auto
  define y r where "y = i div s" and "r = i mod s"
  have i: "i = y * s + r" by (simp add: y_def r_def)
  have "y < img_h img" using assms(2) len by (simp add: y_def less_mult_imp_div_less mult.commute)
  moreover have "r div n < img_w img"
    using \<open>0 < s\<close> s by (simp add: r_def less_mult_imp_div_less)
  moreover have "r mod n < n" using n by simp
  ultimately have "in_range img (r div n) y (r mod n)" by (simp add: in_range_def n_def)
  moreover have "i = pixel_pos img (r div n) y (r mod n)"
    unfolding pixel_pos_def s_def [symmetric] n_def [symmetric] by (simp add: i)
  ultimately show thesis by (rule that)
qed

lemma image_eqI:
  assumes "image_wf a" "image_wf b" "same_shape a b"
    and "\<And>x y c. in_range a x y c \<Longrightarrow> sample_at a x y c = sample_at b x y c"
  shows "a = b"
proof -
  have "im_pixels a = im_pixels b"
  proof (rule nth_equalityI)
    show "length (im_pixels a) = length (im_pixels b)"
      using assms by (simp add: image_wf_def same_shape_def)
    fix i
    assume "i < length (im_pixels a)"
    with assms(1) obtain x y c where "in_range a x y c" and i: "i = pixel_pos a x y c"
      by (rule pixel_pos_surj)
    with assms(4) [of x y c] show "im_pixels a ! i = im_pixels b ! i"
      using assms(3) by (simp add: sample_at_def pixel_pos_def same_shape_def)
  qed
  with assms(3) show ?thesis by (simp add: same_shape_def)
qed

lemma set_at_shape [simp]: "same_shape (set_at img x y c v) img"
  by (simp add: set_at_def same_shape_def)

lemma set_at_wf [simp]: "image_wf (set_at img x y c v) = image_wf img"
  by (simp add: set_at_def image_wf_def)

lemma in_range_set_at [simp]: "in_range (set_at img x y c v) = in_range img"
  by (simp add: set_at_def in_range_def fun_eq_iff)

lemma at_set_at:
  assumes "image_wf img" "in_range img x y c" "in_range img x' y' c'"
  shows "sample_at (set_at img x y c v) x' y' c' = (if x = x' \<and> y = y' \<and> c = c' then v else sample_at img x' y' c')"
proof -
  have "pixel_pos (set_at img x y c v) = pixel_pos img"
    by (simp add: set_at_def pixel_pos_def fun_eq_iff)
  then show ?thesis
    using pixel_pos_less [OF assms(1,2)] pixel_pos_inject [OF assms]
    by (simp add: sample_at_def set_at_def nth_list_update)
qed

section \<open>The strided copy\<close>

lemma memcpy_at_length [simp]: "length (memcpy_at to source from n buffer) = length buffer"
  by (simp add: memcpy_at_def fold_update_length)

lemma memcpy_at_nth:
  assumes "to + n \<le> length buffer"
  shows "memcpy_at to source from n buffer ! j =
     (if to \<le> j \<and> j < to + n then source ! (from + (j - to)) else buffer ! j)"
proof (cases "to \<le> j \<and> j < to + n")
  case True
  then have j: "j = to + (j - to)" "j - to \<in> set [0..<n]" by auto
  have "fold (\<lambda>i buf. buf[to + i := source ! (from + i)]) [0..<n] buffer ! (to + (j - to)) = source ! (from + (j - to))"
    using assms True by (intro fold_update_written j(2)) (auto simp: inj_on_def)
  with True j(1) show ?thesis by (simp add: memcpy_at_def)
next
  case False
  then have "j \<notin> (\<lambda>i. to + i) ` set [0..<n]" by auto
  with False show ?thesis by (auto simp: memcpy_at_def fold_update_untouched)
qed

lemma copy_rows_spec:
  assumes "image_wf img" "n \<le> img_h img"
  shows "same_shape (copy_rows source ss n img) img \<and> image_wf (copy_rows source ss n img) \<and>
     (\<forall>x y c. in_range img x y c \<longrightarrow>
        sample_at (copy_rows source ss n img) x y c =
          (if y < n then source ! (y * ss + (x * img_c img + c)) else sample_at img x y c))"
  using assms(2)
proof (induction n)
  case 0
  with assms(1) show ?case by (simp add: copy_rows_def)
next
  case (Suc n)
  define r where "r = copy_rows source ss n img"
  define s where "s = im_stride img"
  have IH: "same_shape r img" "image_wf r"
    "\<And>x y c. in_range img x y c \<Longrightarrow>
        sample_at r x y c = (if y < n then source ! (y * ss + (x * img_c img + c)) else sample_at img x y c)"
    using Suc by (auto simp: r_def)
  have rs: "im_stride r = s" using IH(1) by (simp add: same_shape_def s_def)
  have step: "copy_rows source ss (Suc n) img = r\<lparr>im_pixels := memcpy_at (n * s) source (n * ss) s (im_pixels r)\<rparr>"
    by (simp add: copy_rows_def r_def rs [unfolded r_def copy_rows_def])
  have "n * s + s \<le> length (im_pixels r)"
  proof -
    have "Suc n * s \<le> img_h img * s" using Suc.prems by (intro mult_le_mono1) simp
    then show ?thesis using IH(1,2) by (simp add: image_wf_def same_shape_def s_def mult.commute add.commute)
  qed
  note copied = memcpy_at_nth [OF this, of source "n * ss"]
  have "sample_at (copy_rows source ss (Suc n) img) x y c =
      (if y < Suc n then source ! (y * ss + (x * img_c img + c)) else sample_at img x y c)"
    if "in_range img x y c" for x y c
  proof -
    have o: "x * img_c img + c < s"
      using that assms(1) unfolding s_def by (auto intro!: mult_add_less simp: in_range_def image_wf_def)
    have pos: "pixel_pos (copy_rows source ss (Suc n) img) x y c = y * s + (x * img_c img + c)"
      using IH(1) by (simp add: step pixel_pos_def same_shape_def s_def)
    show ?thesis
    proof (cases "y = n")
      case True
      with o show ?thesis unfolding sample_at_def pos by (simp add: step copied)
    next
      case False
      have "\<not> (n * s \<le> y * s + (x * img_c img + c) \<and> y * s + (x * img_c img + c) < n * s + s)"
      proof (cases "y < n")
        case True
        then have "Suc y * s \<le> n * s" by (intro mult_le_mono1) simp
        with o show ?thesis by simp
      next
        case False
        with \<open>y \<noteq> n\<close> have "Suc n * s \<le> y * s" by (intro mult_le_mono1) simp
        then show ?thesis by simp
      qed
      moreover have "pixel_pos r x y c = y * s + (x * img_c img + c)"
        using IH(1) rs by (simp add: pixel_pos_def same_shape_def)
      ultimately have "sample_at (copy_rows source ss (Suc n) img) x y c = sample_at r x y c"
        unfolding sample_at_def pos by (auto simp: step copied)
      with IH(3) [OF that] False show ?thesis by simp
    qed
  qed
  moreover have "same_shape (copy_rows source ss (Suc n) img) img" "image_wf (copy_rows source ss (Suc n) img)"
    using IH(1,2) by (simp_all add: step same_shape_def image_wf_def)
  ultimately show ?case by blast
qed

lemma image_from_bytes_Inr:
  assumes "image_from_bytes w h c source ss = Inr img"
  shows "image_wf img" "im_width img = w" "im_height img = h" "im_channels img = c"
    "\<And>x y k. in_range img x y k \<Longrightarrow> sample_at img x y k = source ! (y * ss + (x * nat c + k))"
proof -
  obtain i0 where i0: "new_image w h c = Inr i0" and img: "img = copy_rows source ss (nat h) i0"
    using assms by (auto simp: image_from_bytes_def bind_result_eq_Inr split: if_splits)
  note n = new_image_Inr [OF i0]
  have spec: "same_shape img i0" "image_wf img"
    "\<And>x y k. in_range i0 x y k \<Longrightarrow>
       sample_at img x y k = (if y < nat h then source ! (y * ss + (x * nat c + k)) else sample_at i0 x y k)"
    using copy_rows_spec [OF n(1), of "nat h" source ss] n by (auto simp: img)
  from spec(1,2) n show "image_wf img" "im_width img = w" "im_height img = h" "im_channels img = c"
    by (auto simp: same_shape_def)
  fix x y k
  assume "in_range img x y k"
  with spec n show "sample_at img x y k = source ! (y * ss + (x * nat c + k))"
    by (simp add: same_shape_range [OF spec(1)]) (simp add: in_range_def)
qed

lemma image_from_bytes_ok:
  assumes "0 < w" "0 < h" "is_supported_channel_count c" "nat w * nat c \<le> ss"
  shows "\<exists>img. image_from_bytes w h c source ss = Inr img"
  using assms by (simp add: image_from_bytes_def new_image_def Let_def)

text \<open>The product of width and channels as \<open>std::size_t\<close> does not wrap.\<close>

lemma stride_exact:
  assumes "0 < w" "w < 2 ^ 31" "c \<in> {1, 3, 4}"
  shows "unat ((word_of_int w :: u64) * word_of_int c) = nat w * nat c"
proof -
  have "w * c < 2 ^ 64" "0 < w * c" using assms by auto
  then have "uint (word_of_int (w * c) :: u64) = w * c" by (subst uint_word_of_int_eq, intro take_bit_int_eq_self) auto
  then show ?thesis using assms(1) by (simp only: unat_eq_nat_uint wi_hom_mult nat_mult_distrib order_less_imp_le)
qed

text \<open>A packed source is copied byte for byte; bytes behind the frame do not matter.\<close>

lemma image_from_bytes_prefix:
  assumes "image_from_bytes w h c source (nat w * nat c) = Inr img" "nat w * nat c * nat h \<le> length source"
  shows "im_pixels img = take (nat w * nat c * nat h) source"
proof (rule nth_equalityI)
  note f = image_from_bytes_Inr [OF assms(1)]
  have st: "im_stride img = nat w * nat c" using f(1-4) by (simp add: image_wf_def)
  show len: "length (im_pixels img) = length (take (nat w * nat c * nat h) source)"
    using f(1-4) assms(2) by (simp add: image_wf_def)
  fix i
  assume i: "i < length (im_pixels img)"
  with f(1) obtain x y k where "in_range img x y k" "i = pixel_pos img x y k" by (rule pixel_pos_surj)
  with f st i len show "im_pixels img ! i = take (nat w * nat c * nat h) source ! i" by (simp add: sample_at_def pixel_pos_def)
qed

lemma image_from_bytes_packed:
  assumes "image_from_bytes w h c source (nat w * nat c) = Inr img" "length source = nat w * nat c * nat h"
  shows "im_pixels img = source"
  using image_from_bytes_prefix [OF assms(1)] assms(2) by simp

text \<open>The bytes of a well-formed image, with anything behind them, give the image back.\<close>

lemma image_from_bytes_same:
  assumes "image_wf img"
  shows "image_from_bytes (im_width img) (im_height img) (im_channels img) (im_pixels img @ stale) (im_stride img) = Inr img"
proof -
  have shape: "0 < im_width img" "0 < im_height img" "is_supported_channel_count (im_channels img)"
      "im_stride img = img_w img * img_c img"
    using assms by (simp_all add: image_wf_def)
  obtain out where out: "image_from_bytes (im_width img) (im_height img) (im_channels img) (im_pixels img @ stale) (im_stride img) = Inr out"
    using image_from_bytes_ok [OF shape(1-3)] shape(4) by (metis order_refl)
  note f = image_from_bytes_Inr [OF out]
  have same: "same_shape out img" using f(1-4) shape(4) by (simp add: same_shape_def image_wf_def)
  have "out = img"
  proof (rule image_eqI [OF f(1) assms same])
    fix x y k assume r: "in_range out x y k"
    then have "pixel_pos img x y k < length (im_pixels img)"
      using pixel_pos_less [OF assms] same_shape_range [OF same] by blast
    then show "sample_at out x y k = sample_at img x y k"
      using f(5) [OF r] by (simp add: sample_at_def pixel_pos_def nth_append)
  qed
  with out show ?thesis by simp
qed

section \<open>Properties\<close>

text \<open>
  \<open>Image::from_bytes\<close> copies exactly the samples of a padded source: whenever the dimensions are
  positive, the channel count is 1, 3 or 4 and the source rows are at least a packed row apart, it
  returns a well-formed packed image of that shape in which sample \<open>(x, y, k)\<close> is the source byte
  at \<open>y * source_stride + x * channels + k\<close>, and in every other case it throws.
\<close>

lemma from_bytes_copies_rows:
  "(if 0 < w \<and> 0 < h \<and> is_supported_channel_count c \<and> nat w * nat c \<le> ss
    then \<exists>img. image_from_bytes w h c source ss = Inr img \<and> image_wf img \<and>
           im_width img = w \<and> im_height img = h \<and> im_channels img = c \<and>
           (\<forall>x y k. in_range img x y k \<longrightarrow> sample_at img x y k = source ! (y * ss + (x * nat c + k)))
    else \<exists>msg. image_from_bytes w h c source ss = Inl (Invalid_argument msg))"
proof (cases "0 < w \<and> 0 < h \<and> is_supported_channel_count c \<and> nat w * nat c \<le> ss")
  case True
  then obtain img where "image_from_bytes w h c source ss = Inr img" using image_from_bytes_ok by blast
  with True image_from_bytes_Inr [OF this] show ?thesis by auto
qed (auto simp: image_from_bytes_def new_image_def Let_def)

end
