(* ===== verification/Cpu_Ops.thy ===== *)
theory Cpu_Ops
  imports Op_Chain Image_Core
begin

text \<open>
  The scalar CPU implementation of the six ops, the correctness oracle of the program
  (\<open>include/imgjit/backend/cpu/ops.h\<close>, \<open>src/backend/cpu/ops.cpp\<close>). The library function
  \<open>std::exp\<close>, whose rounding the standard leaves to the implementation, is the parameter
  \<open>expf\<close> of every definition that reaches it; all other arithmetic is that of \<open>Cpp_Float\<close>.
\<close>

section \<open>Samples\<close>

definition kLumaRed :: rat where "kLumaRed = f32 (299 / 1000)"
definition kLumaGreen :: rat where "kLumaGreen = f32 (587 / 1000)"
definition kLumaBlue :: rat where "kLumaBlue = f32 (114 / 1000)"

definition color_channels :: "int \<Rightarrow> int" where
  "color_channels channels = (if channels = 4 then 3 else channels)"

text \<open>\<open>std::clamp\<close>\<close>

definition std_clamp :: "'a::linorder \<Rightarrow> 'a \<Rightarrow> 'a \<Rightarrow> 'a" where
  "std_clamp v lo hi = (if v < lo then lo else if hi < v then hi else v)"

text \<open>\<open>static_cast<float>\<close> of a byte.\<close>

definition val8 :: "u8 \<Rightarrow> rat" where
  "val8 value = f32 (of_nat (unat value))"

definition load_sample :: "u8 \<Rightarrow> rat" where
  "load_sample value = fdiv (val8 value) 255"

definition store_sample :: "rat \<Rightarrow> u8" where
  "store_sample value = word_of_int (lround (fmul (std_clamp value 0 1) 255))"

definition clamp_coordinate :: "int \<Rightarrow> int \<Rightarrow> int" where
  "clamp_coordinate value limit = std_clamp value 0 (limit - 1)"

section \<open>Loops over an image\<close>

text \<open>
  The frame every op shares: a fresh output image of the input's shape, the loops
  \<open>for y\<close>, \<open>for x\<close>, \<open>for c < colors\<close> that write sample \<open>g x y c\<close>, then \<open>copy_alpha\<close>.
\<close>

definition copy_alpha :: "image \<Rightarrow> image \<Rightarrow> image" where
  "copy_alpha input output =
     (if im_channels input \<noteq> 4 then output
      else fold (\<lambda>y. fold (\<lambda>x out. set_at out x y 3 (sample_at input x y 3)) [0..<img_w input])
                [0..<img_h input] output)"

definition pixel_loop :: "image \<Rightarrow> (nat \<Rightarrow> nat \<Rightarrow> nat \<Rightarrow> u8) \<Rightarrow> image result" where
  "pixel_loop input g =
     bind_result (new_image (im_width input) (im_height input) (im_channels input)) (\<lambda>output.
       Inr (copy_alpha input
         (fold (\<lambda>y. fold (\<lambda>x. fold (\<lambda>c out. set_at out x y c (g x y c))
                                   [0..<nat (color_channels (im_channels input))])
                         [0..<img_w input])
               [0..<img_h input] output)))"

section \<open>The ops\<close>

definition luma_of :: "rat \<Rightarrow> rat \<Rightarrow> rat \<Rightarrow> rat" where
  "luma_of r g b = fadd (fadd (fmul kLumaRed r) (fmul kLumaGreen g)) (fmul kLumaBlue b)"

definition apply_grayscale :: "image \<Rightarrow> image result" where
  "apply_grayscale input =
     pixel_loop input (\<lambda>x y c.
       if color_channels (im_channels input) = 1 then sample_at input x y 0
       else store_sample (luma_of (load_sample (sample_at input x y 0)) (load_sample (sample_at input x y 1))
                                  (load_sample (sample_at input x y 2))))"

definition apply_invert :: "image \<Rightarrow> image result" where
  "apply_invert input = pixel_loop input (\<lambda>x y c. word_of_int (255 - uint (sample_at input x y c)))"

definition apply_brightness :: "image \<Rightarrow> rat \<Rightarrow> image result" where
  "apply_brightness input delta =
     pixel_loop input (\<lambda>x y c. store_sample (fadd (load_sample (sample_at input x y c)) delta))"

definition apply_threshold :: "image \<Rightarrow> rat \<Rightarrow> image result" where
  "apply_threshold input threshold =
     pixel_loop input (\<lambda>x y c. if threshold \<le> load_sample (sample_at input x y c) then 255 else 0)"

definition gaussian_radius :: "rat \<Rightarrow> int" where
  "gaussian_radius sigma = max 1 \<lceil>fmul 3 sigma\<rceil>"

definition gaussian_weights_1d :: "(rat \<Rightarrow> rat) \<Rightarrow> rat \<Rightarrow> rat list" where
  "gaussian_weights_1d expf sigma =
     (let radius = gaussian_radius sigma;
          values = map (\<lambda>i. expf (fdiv (- f32 (of_int (i * i))) (fmul (fmul 2 sigma) sigma))) [- radius..radius];
          total = foldl fadd 0 values
      in map (\<lambda>weight. fdiv weight total) values)"

text \<open>One clamped (replicate) neighbour: \<open>input.at(sx, sy, c)\<close>.\<close>

definition clamped_sample :: "image \<Rightarrow> int \<Rightarrow> int \<Rightarrow> nat \<Rightarrow> u8" where
  "clamped_sample input x y c =
     sample_at input (nat (clamp_coordinate x (im_width input))) (nat (clamp_coordinate y (im_height input))) c"

definition gaussian_sum :: "rat list \<Rightarrow> int \<Rightarrow> (int \<Rightarrow> int \<Rightarrow> rat) \<Rightarrow> rat" where
  "gaussian_sum weights radius sample =
     foldl (\<lambda>sum dy. foldl (\<lambda>sum dx.
         fadd sum (fmul (fmul (weights ! nat (dy + radius)) (weights ! nat (dx + radius))) (sample dx dy)))
       sum [- radius..radius]) 0 [- radius..radius]"

definition apply_gaussian :: "(rat \<Rightarrow> rat) \<Rightarrow> image \<Rightarrow> rat \<Rightarrow> image result" where
  "apply_gaussian expf input sigma =
     (let weights = gaussian_weights_1d expf sigma; radius = gaussian_radius sigma
      in pixel_loop input (\<lambda>x y c.
           store_sample (gaussian_sum weights radius
             (\<lambda>dx dy. load_sample (clamped_sample input (int x + dx) (int y + dy) c)))))"

definition kGx :: "rat list list" where
  "kGx = [[- 1, 0, 1], [- 2, 0, 2], [- 1, 0, 1]]"

definition kGy :: "rat list list" where
  "kGy = [[- 1, - 2, - 1], [0, 0, 0], [1, 2, 1]]"

definition sobel_gradient :: "(int \<Rightarrow> int \<Rightarrow> rat) \<Rightarrow> rat \<times> rat" where
  "sobel_gradient sample =
     foldl (\<lambda>acc dy. foldl (\<lambda>(gx, gy) dx.
         (fadd gx (fmul (kGx ! nat (dy + 1) ! nat (dx + 1)) (sample dx dy)),
          fadd gy (fmul (kGy ! nat (dy + 1) ! nat (dx + 1)) (sample dx dy))))
       acc [- 1..1]) (0, 0) [- 1..1]"

definition sobel_magnitude :: "rat \<times> rat \<Rightarrow> rat" where
  "sobel_magnitude g = fsqrt (fadd (fmul (fst g) (fst g)) (fmul (snd g) (snd g)))"

definition apply_sobel :: "image \<Rightarrow> image result" where
  "apply_sobel input =
     pixel_loop input (\<lambda>x y c.
       store_sample (sobel_magnitude (sobel_gradient
         (\<lambda>dx dy. load_sample (clamped_sample input (int x + dx) (int y + dy) c)))))"

definition apply_op :: "(rat \<Rightarrow> rat) \<Rightarrow> image \<Rightarrow> chain_op \<Rightarrow> image result" where
  "apply_op expf input op =
     (case kind op of
        kGrayscale \<Rightarrow> apply_grayscale input
      | kInvert \<Rightarrow> apply_invert input
      | kBrightness \<Rightarrow> apply_brightness input (param op)
      | kThreshold \<Rightarrow> apply_threshold input (param op)
      | kGaussian \<Rightarrow> apply_gaussian expf input (param op)
      | kSobel \<Rightarrow> apply_sobel input)"

fun apply_chain :: "(rat \<Rightarrow> rat) \<Rightarrow> image \<Rightarrow> op_chain \<Rightarrow> image result" where
  "apply_chain expf current [] = Inr current"
| "apply_chain expf current (op # ops) =
     bind_result (apply_op expf current op) (\<lambda>next_image. apply_chain expf next_image ops)"

section \<open>What the loops compute\<close>

lemma color_loop_spec:
  assumes "image_wf out" "n \<le> img_c out" "x < img_w out" "y < img_h out"
  shows "image_wf (fold (\<lambda>c out. set_at out x y c (g c)) [0..<n] out) \<and>
     same_shape (fold (\<lambda>c out. set_at out x y c (g c)) [0..<n] out) out \<and>
     (\<forall>x' y' c'. in_range out x' y' c' \<longrightarrow>
        sample_at (fold (\<lambda>c out. set_at out x y c (g c)) [0..<n] out) x' y' c' =
          (if x' = x \<and> y' = y \<and> c' < n then g c' else sample_at out x' y' c'))"
  using assms(2)
proof (induction n)
  case (Suc n)
  define r where "r = fold (\<lambda>c out. set_at out x y c (g c)) [0..<n] out"
  have IH: "image_wf r" "same_shape r out"
    "\<And>x' y' c'. in_range out x' y' c' \<Longrightarrow>
       sample_at r x' y' c' = (if x' = x \<and> y' = y \<and> c' < n then g c' else sample_at out x' y' c')"
    using Suc by (auto simp: r_def)
  have rng: "in_range r x y n" using Suc.prems assms(3,4) IH(2) by (simp add: same_shape_def in_range_def)
  have "sample_at (set_at r x y n (g n)) x' y' c' =
      (if x' = x \<and> y' = y \<and> c' < Suc n then g c' else sample_at out x' y' c')"
    if "in_range out x' y' c'" for x' y' c'
    using at_set_at [OF IH(1) rng, of x' y' c' "g n"] IH(3) [OF that] that same_shape_range [OF IH(2)]
    by auto
  then show ?case
    using IH(1,2) by (simp add: r_def [symmetric]) (metis same_shape_trans set_at_shape)
qed (use assms in auto)

text \<open>One row, then all rows, of a body that writes only pixel \<open>(x, y)\<close>.\<close>

definition writes_pixel :: "(nat \<Rightarrow> nat \<Rightarrow> image \<Rightarrow> image) \<Rightarrow> (nat \<Rightarrow> bool) \<Rightarrow> (nat \<Rightarrow> nat \<Rightarrow> nat \<Rightarrow> u8) \<Rightarrow> image \<Rightarrow> bool" where
  "writes_pixel body P g shape \<longleftrightarrow>
     (\<forall>out x y. image_wf out \<longrightarrow> same_shape out shape \<longrightarrow> x < img_w shape \<longrightarrow> y < img_h shape \<longrightarrow>
        image_wf (body x y out) \<and> same_shape (body x y out) shape \<and>
        (\<forall>x' y' c'. in_range shape x' y' c' \<longrightarrow>
           sample_at (body x y out) x' y' c' =
             (if x' = x \<and> y' = y \<and> P c' then g x y c' else sample_at out x' y' c')))"

lemma row_loop_spec:
  assumes "writes_pixel body P g shape" "image_wf out" "same_shape out shape" "y < img_h shape" "n \<le> img_w shape"
  shows "image_wf (fold (\<lambda>x. body x y) [0..<n] out) \<and> same_shape (fold (\<lambda>x. body x y) [0..<n] out) shape \<and>
     (\<forall>x' y' c'. in_range shape x' y' c' \<longrightarrow>
        sample_at (fold (\<lambda>x. body x y) [0..<n] out) x' y' c' =
          (if x' < n \<and> y' = y \<and> P c' then g x' y c' else sample_at out x' y' c'))"
  using assms(5)
proof (induction n)
  case (Suc n)
  define r where "r = fold (\<lambda>x. body x y) [0..<n] out"
  have IH: "image_wf r" "same_shape r shape"
    "\<And>x' y' c'. in_range shape x' y' c' \<Longrightarrow>
       sample_at r x' y' c' = (if x' < n \<and> y' = y \<and> P c' then g x' y c' else sample_at out x' y' c')"
    using Suc by (auto simp: r_def)
  have "image_wf (body n y r) \<and> same_shape (body n y r) shape \<and>
        (\<forall>x' y' c'. in_range shape x' y' c' \<longrightarrow>
           sample_at (body n y r) x' y' c' =
             (if x' = n \<and> y' = y \<and> P c' then g n y c' else sample_at r x' y' c'))"
    using assms(1,4) Suc.prems IH(1,2) unfolding writes_pixel_def by simp
  with IH(3) show ?case
    by (auto simp: r_def [symmetric] less_Suc_eq)
qed (use assms in auto)

lemma image_loop_spec:
  assumes "writes_pixel body P g shape" "image_wf out" "same_shape out shape" "n \<le> img_h shape"
  shows "image_wf (fold (\<lambda>y. fold (\<lambda>x. body x y) [0..<img_w shape]) [0..<n] out) \<and>
     same_shape (fold (\<lambda>y. fold (\<lambda>x. body x y) [0..<img_w shape]) [0..<n] out) shape \<and>
     (\<forall>x' y' c'. in_range shape x' y' c' \<longrightarrow>
        sample_at (fold (\<lambda>y. fold (\<lambda>x. body x y) [0..<img_w shape]) [0..<n] out) x' y' c' =
          (if y' < n \<and> P c' then g x' y' c' else sample_at out x' y' c'))"
  using assms(4)
proof (induction n)
  case (Suc n)
  define r where "r = fold (\<lambda>y. fold (\<lambda>x. body x y) [0..<img_w shape]) [0..<n] out"
  have IH: "image_wf r" "same_shape r shape"
    "\<And>x' y' c'. in_range shape x' y' c' \<Longrightarrow>
       sample_at r x' y' c' = (if y' < n \<and> P c' then g x' y' c' else sample_at out x' y' c')"
    using Suc by (auto simp: r_def)
  have "n < img_h shape" using Suc.prems by simp
  from row_loop_spec [OF assms(1) IH(1,2) this order.refl] IH(3) show ?case
    by (auto simp: r_def [symmetric] less_Suc_eq in_range_def)
qed (use assms in auto)

lemma copy_alpha_spec:
  assumes "image_wf input" "image_wf out" "same_shape out input"
  shows "image_wf (copy_alpha input out) \<and> same_shape (copy_alpha input out) input \<and>
     (\<forall>x y c. in_range input x y c \<longrightarrow>
        sample_at (copy_alpha input out) x y c =
          (if im_channels input = 4 \<and> c = 3 then sample_at input x y 3 else sample_at out x y c))"
proof (cases "im_channels input = 4")
  case True
  have "writes_pixel (\<lambda>x y out. set_at out x y 3 (sample_at input x y 3)) (\<lambda>c. c = 3)
      (\<lambda>x y c. sample_at input x y 3) input"
    unfolding writes_pixel_def
  proof (intro allI impI)
    fix out' x y
    assume wf: "image_wf out'" "same_shape out' input" and xy: "x < img_w input" "y < img_h input"
    have rng: "in_range out' x y 3" using xy True wf(2) by (simp add: same_shape_def in_range_def)
    have "same_shape (set_at out' x y 3 v) input" for v using wf(2) by (metis same_shape_trans set_at_shape)
    then show "image_wf (set_at out' x y 3 (sample_at input x y 3)) \<and>
        same_shape (set_at out' x y 3 (sample_at input x y 3)) input \<and>
        (\<forall>x' y' c'. in_range input x' y' c' \<longrightarrow>
           sample_at (set_at out' x y 3 (sample_at input x y 3)) x' y' c' =
             (if x' = x \<and> y' = y \<and> c' = 3 then sample_at input x y 3 else sample_at out' x' y' c'))"
      using wf at_set_at [OF wf(1) rng] by (auto simp: same_shape_range [OF wf(2)])
  qed
  from image_loop_spec [OF this assms(2,3) order.refl] True show ?thesis
    by (auto simp: copy_alpha_def in_range_def)
qed (use assms in \<open>auto simp: copy_alpha_def\<close>)

abbreviation colors_of :: "image \<Rightarrow> nat" where
  "colors_of img \<equiv> nat (color_channels (im_channels img))"

lemma colors_le_channels: "image_wf img \<Longrightarrow> colors_of img \<le> img_c img"
  by (auto simp: image_wf_def is_supported_channel_count_def color_channels_def)

lemma not_color_is_alpha:
  "image_wf img \<Longrightarrow> in_range img x y c \<Longrightarrow> \<not> c < colors_of img \<longleftrightarrow> im_channels img = 4 \<and> c = 3"
  by (auto simp: image_wf_def is_supported_channel_count_def color_channels_def in_range_def)

text \<open>The contract of every op: same shape, colour samples by formula, alpha untouched.\<close>

definition pointwise_of :: "image \<Rightarrow> (nat \<Rightarrow> nat \<Rightarrow> nat \<Rightarrow> u8) \<Rightarrow> image \<Rightarrow> bool" where
  "pointwise_of input g out \<longleftrightarrow> image_wf out \<and> same_shape out input \<and>
     (\<forall>x y c. in_range input x y c \<longrightarrow>
        sample_at out x y c = (if c < colors_of input then g x y c else sample_at input x y c))"

lemma pixel_loop_spec:
  assumes "image_wf input"
  shows "\<exists>out. pixel_loop input g = Inr out \<and> pointwise_of input g out"
proof -
  obtain out0 where out0: "new_image (im_width input) (im_height input) (im_channels input) = Inr out0"
    using assms new_image_ok [of "im_width input" "im_height input" "im_channels input"]
    by (auto simp: image_wf_def)
  note n = new_image_Inr [OF out0]
  have shape: "same_shape out0 input" using n assms by (simp add: same_shape_def image_wf_def)
  define body where "body = (\<lambda>x y. fold (\<lambda>c out. set_at out x y c (g x y c)) [0..<colors_of input])"
  have wp: "writes_pixel body (\<lambda>c. c < colors_of input) g input"
    unfolding writes_pixel_def
  proof (intro allI impI)
    fix out x y
    assume wf: "image_wf out" "same_shape out input" and xy: "x < img_w input" "y < img_h input"
    have "colors_of input \<le> img_c out" "x < img_w out" "y < img_h out"
      using colors_le_channels [OF assms] xy wf(2) by (auto simp: same_shape_def)
    from color_loop_spec [OF wf(1) this, of "g x y"] wf(2)
    show "image_wf (body x y out) \<and> same_shape (body x y out) input \<and>
        (\<forall>x' y' c'. in_range input x' y' c' \<longrightarrow>
           sample_at (body x y out) x' y' c' =
             (if x' = x \<and> y' = y \<and> c' < colors_of input then g x y c' else sample_at out x' y' c'))"
      by (auto simp: body_def same_shape_range [OF wf(2)] intro: same_shape_trans)
  qed
  define out1 where "out1 = fold (\<lambda>y. fold (\<lambda>x. body x y) [0..<img_w input]) [0..<img_h input] out0"
  have o1: "image_wf out1" "same_shape out1 input"
    "\<And>x y c. in_range input x y c \<Longrightarrow>
       sample_at out1 x y c = (if c < colors_of input then g x y c else sample_at out0 x y c)"
    using image_loop_spec [OF wp n(1) shape order.refl] by (auto simp: out1_def in_range_def)
  have "pixel_loop input g = Inr (copy_alpha input out1)"
    by (simp add: pixel_loop_def out0 out1_def body_def)
  moreover have "sample_at (copy_alpha input out1) x y c = (if c < colors_of input then g x y c else sample_at input x y c)"
    if "in_range input x y c" for x y c
    using copy_alpha_spec [OF assms o1(1,2)] o1(3) [OF that] not_color_is_alpha [OF assms that] that by auto
  then have "pointwise_of input g (copy_alpha input out1)"
    using copy_alpha_spec [OF assms o1(1,2)] by (simp add: pointwise_of_def)
  ultimately show ?thesis by blast
qed

text \<open>The formula of each op, as a function of the input image and the sample's place.\<close>

definition op_sample :: "(rat \<Rightarrow> rat) \<Rightarrow> image \<Rightarrow> chain_op \<Rightarrow> nat \<Rightarrow> nat \<Rightarrow> nat \<Rightarrow> u8" where
  "op_sample expf input op x y c =
     (let near = (\<lambda>dx dy. load_sample (clamped_sample input (int x + dx) (int y + dy) c));
          here = load_sample (sample_at input x y c)
      in case kind op of
        kGrayscale \<Rightarrow>
          if color_channels (im_channels input) = 1 then sample_at input x y 0
          else store_sample (luma_of (load_sample (sample_at input x y 0)) (load_sample (sample_at input x y 1))
                                     (load_sample (sample_at input x y 2)))
      | kInvert \<Rightarrow> word_of_int (255 - uint (sample_at input x y c))
      | kBrightness \<Rightarrow> store_sample (fadd here (param op))
      | kThreshold \<Rightarrow> if param op \<le> here then 255 else 0
      | kGaussian \<Rightarrow> store_sample (gaussian_sum (gaussian_weights_1d expf (param op)) (gaussian_radius (param op)) near)
      | kSobel \<Rightarrow> store_sample (sobel_magnitude (sobel_gradient near)))"

lemma apply_op_pixel_loop: "apply_op expf input op = pixel_loop input (op_sample expf input op)"
  unfolding apply_op_def op_sample_def apply_grayscale_def apply_invert_def apply_brightness_def
    apply_threshold_def apply_gaussian_def apply_sobel_def
  by (cases "kind op") (simp_all add: Let_def)

lemma apply_op_spec:
  "image_wf input \<Longrightarrow> \<exists>out. apply_op expf input op = Inr out \<and> pointwise_of input (op_sample expf input op) out"
  unfolding apply_op_pixel_loop by (rule pixel_loop_spec)

lemma pointwise_of_unique:
  assumes "pointwise_of input g a" "pointwise_of input g b"
  shows "a = b"
proof (rule image_eqI)
  have shape: "same_shape a input" using assms(1) by (simp add: pointwise_of_def)
  show "same_shape a b" using assms by (metis pointwise_of_def same_shape_sym same_shape_trans)
  fix x y c
  assume "in_range a x y c"
  then have "in_range input x y c" using same_shape_range [OF shape] by simp
  with assms show "sample_at a x y c = sample_at b x y c" by (simp add: pointwise_of_def)
qed (use assms in \<open>simp_all add: pointwise_of_def\<close>)

lemma pointwise_of_self:
  assumes "image_wf input" "\<And>x y c. in_range input x y c \<Longrightarrow> c < colors_of input \<Longrightarrow> g x y c = sample_at input x y c"
  shows "pointwise_of input g input"
  using assms by (simp add: pointwise_of_def)

lemma pixel_loop_eqI:
  assumes "image_wf input" "pointwise_of input g out"
  shows "pixel_loop input g = Inr out"
proof -
  obtain out' where "pixel_loop input g = Inr out'" "pointwise_of input g out'"
    using pixel_loop_spec [OF assms(1)] by blast
  with assms(2) pointwise_of_unique show ?thesis by blast
qed

text \<open>A chain keeps the shape and the alpha plane.\<close>

definition keeps_frame :: "image \<Rightarrow> image \<Rightarrow> bool" where
  "keeps_frame input out \<longleftrightarrow> image_wf out \<and> same_shape out input \<and>
     (im_channels input = 4 \<longrightarrow> (\<forall>x y. in_range input x y 3 \<longrightarrow> sample_at out x y 3 = sample_at input x y 3))"

lemma pointwise_keeps_frame:
  "pointwise_of input g out \<Longrightarrow> keeps_frame input out"
  by (auto simp: pointwise_of_def keeps_frame_def color_channels_def)

lemma keeps_frame_trans:
  assumes "keeps_frame a b" "keeps_frame b c"
  shows "keeps_frame a c"
proof -
  have "same_shape b a" using assms(1) by (simp add: keeps_frame_def)
  then show ?thesis
    using assms same_shape_range [of b a] same_shape_trans [of c b a]
    by (auto simp: keeps_frame_def same_shape_def)
qed

lemma apply_chain_frame:
  "image_wf input \<Longrightarrow> \<exists>out. apply_chain expf input chain = Inr out \<and> keeps_frame input out"
proof (induction chain arbitrary: input)
  case Nil
  then show ?case by (simp add: keeps_frame_def)
next
  case (Cons op ops)
  obtain mid where mid: "apply_op expf input op = Inr mid" "keeps_frame input mid"
    using apply_op_spec [OF Cons.prems] pointwise_keeps_frame by blast
  then have "image_wf mid" by (simp add: keeps_frame_def)
  from Cons.IH [OF this] obtain out where "apply_chain expf mid ops = Inr out" "keeps_frame mid out" by blast
  with mid keeps_frame_trans show ?case by fastforce
qed

lemma apply_chain_append:
  "apply_chain expf img (c1 @ c2) = bind_result (apply_chain expf img c1) (\<lambda>mid. apply_chain expf mid c2)"
proof (induction c1 arbitrary: img)
  case (Cons op ops)
  then show ?case by (cases "apply_op expf img op") simp_all
qed simp

section \<open>Samples round-trip through \<open>float\<close>\<close>

lemma unat_u8: "unat (u::u8) \<le> 255"
  using unsigned_less [of u, where 'a = nat] by simp

lemma val8_eq: "val8 u = of_nat (unat u)"
proof -
  have "unat u \<le> 2 ^ 24" using unat_u8 [of u] by (rule order_trans) simp
  then show ?thesis unfolding val8_def by (rule f32_of_nat)
qed

lemma val8_int: "val8 u = of_int (int (unat u))"
  unfolding val8_eq by (simp only: of_int_of_nat_eq)

lemma val8_range: "0 \<le> val8 u" "val8 u \<le> 255"
proof -
  have "val8 u \<le> of_nat 255" unfolding val8_eq using unat_u8 by (simp only: of_nat_le_iff)
  then show "val8 u \<le> 255" by simp
  show "0 \<le> val8 u" unfolding val8_eq by (rule of_nat_0_le_iff)
qed

lemma val8_mono: "u \<le> v \<Longrightarrow> val8 u \<le> val8 v"
  unfolding val8_eq by (simp only: of_nat_le_iff word_le_nat_alt)

lemma u8_fraction: "0 \<le> val8 u / 255" "val8 u / 255 \<le> 1"
  using val8_range [of u] by simp_all

lemma load_sample_eq: "load_sample u = f32 (val8 u / 255)"
  by (simp add: load_sample_def fdiv_def)

lemma load_sample_unit: "0 \<le> load_sample u" "load_sample u \<le> 1"
  using f32_unit [OF u8_fraction [of u]] by (simp_all add: load_sample_eq)

lemma load_sample_near: "\<bar>load_sample u - val8 u / 255\<bar> \<le> 1 / 10000000"
  unfolding load_sample_eq using u8_fraction [of u] by (intro f32_err) auto

lemma store_near:
  assumes "\<bar>v - val8 u / 255\<bar> \<le> 1 / 600"
  shows "store_sample v = u"
proof -
  define w where "w = std_clamp v 0 (1::rat)"
  have w: "\<bar>w\<bar> \<le> 1" "\<bar>w - val8 u / 255\<bar> \<le> 1 / 600"
    using assms u8_fraction [of u] unfolding w_def std_clamp_def by (auto simp: abs_le_iff)
  have "\<bar>w * 255\<bar> \<le> 255" using w(1) by linarith
  then have "\<bar>f32 (w * 255) - w * 255\<bar> \<le> 255 / 10000000" by (rule f32_err) simp
  with w(2) have near: "\<bar>fmul w 255 - of_int (int (unat u))\<bar> < 1 / 2"
    unfolding fmul_def val8_int [symmetric] by linarith
  have "lround (fmul w 255) = int (unat u)"
  proof (intro lround_nearest near)
    show "long_min \<le> int (unat u)" unfolding long_min_def by (rule order_trans [OF _ of_nat_0_le_iff]) simp
    have "int (unat u) \<le> int 255" using unat_u8 [of u] by (simp only: of_nat_le_iff)
    also have "\<dots> \<le> long_max" by (simp add: long_max_def)
    finally show "int (unat u) \<le> long_max" .
  qed
  then show ?thesis by (simp add: store_sample_def w_def [symmetric])
qed

lemma store_load [simp]: "store_sample (load_sample u) = u"
  using load_sample_near [of u] by (intro store_near) linarith

lemma load_sample_mono: "u \<le> v \<Longrightarrow> load_sample u \<le> load_sample v"
  unfolding load_sample_eq by (intro f32_mono) (simp add: divide_right_mono val8_mono)

lemma store_sample_range: "store_sample v \<le> 255"
  by (simp add: word_le_nat_alt unat_u8)

lemma luma_gray_near: "\<bar>luma_of (load_sample u) (load_sample u) (load_sample u) - load_sample u\<bar> \<le> 1 / 100000"
proof -
  define s where "s = load_sample u"
  have s: "0 \<le> s" "s \<le> 1" using load_sample_unit by (simp_all add: s_def)
  have term_near: "\<bar>fmul (f32 k) s - k * s\<bar> \<le> 3 / 10000000" if k: "0 \<le> k" "k \<le> 1" for k
  proof -
    have e: "\<bar>f32 k - k\<bar> \<le> 1 / 10000000" using k by (intro f32_err) auto
    have "\<bar>f32 k * s - k * s\<bar> = \<bar>f32 k - k\<bar> * s" using s by (simp add: abs_mult flip: left_diff_distrib)
    also have "\<dots> \<le> 1 / 10000000 * 1" using e s by (intro mult_mono) auto
    finally have p: "\<bar>f32 k * s - k * s\<bar> \<le> 1 / 10000000" by simp
    have "\<bar>f32 k * s\<bar> \<le> 1" using f32_unit [OF k] s by (simp add: abs_mult mult_le_one)
    then have "\<bar>f32 (f32 k * s) - f32 k * s\<bar> \<le> 1 / 10000000" by (rule f32_err) simp
    with p show ?thesis unfolding fmul_def by linarith
  qed
  define a b c where "a = fmul kLumaRed s" and "b = fmul kLumaGreen s" and "c = fmul kLumaBlue s"
  have abc: "\<bar>a - 299 / 1000 * s\<bar> \<le> 3 / 10000000" "\<bar>b - 587 / 1000 * s\<bar> \<le> 3 / 10000000"
      "\<bar>c - 114 / 1000 * s\<bar> \<le> 3 / 10000000"
    unfolding a_def b_def c_def kLumaRed_def kLumaGreen_def kLumaBlue_def by (rule term_near; simp)+
  then have "\<bar>a + b\<bar> \<le> 2" using s by linarith
  then have ab: "\<bar>fadd a b - (a + b)\<bar> \<le> 2 / 10000000" unfolding fadd_def by (rule f32_err) simp
  then have "\<bar>fadd a b + c\<bar> \<le> 2" using abc s by linarith
  then have "\<bar>fadd (fadd a b) c - (fadd a b + c)\<bar> \<le> 2 / 10000000"
    unfolding fadd_def [of "fadd a b"] by (rule f32_err) simp
  with ab abc show ?thesis
    unfolding luma_of_def s_def [symmetric] a_def [symmetric] b_def [symmetric] c_def [symmetric] by linarith
qed

lemma gray_of_gray: "store_sample (luma_of (load_sample u) (load_sample u) (load_sample u)) = u"
  using luma_gray_near [of u] load_sample_near [of u] by (intro store_near) linarith

section \<open>Accumulated rounding error\<close>

lemma fsum_error:
  assumes "\<bar>acc\<bar> + (\<Sum>x\<leftarrow>xs. \<bar>x\<bar>) + of_nat (length xs) * (B / 10000000) \<le> B" "1 / 1000000 \<le> B"
  shows "\<bar>foldl fadd acc xs - (acc + sum_list xs)\<bar> \<le> of_nat (length xs) * (B / 10000000)"
  using assms(1)
proof (induction xs arbitrary: acc)
  case (Cons x xs)
  define e where "e = B / 10000000"
  have e: "0 \<le> e" using assms(2) by (simp add: e_def)
  have pos: "0 \<le> (\<Sum>x\<leftarrow>xs. \<bar>x\<bar>)" by (rule sum_list_nonneg) auto
  have len: "0 \<le> of_nat (length xs) * e" using e by simp
  have prem: "\<bar>acc\<bar> + (\<bar>x\<bar> + (\<Sum>x\<leftarrow>xs. \<bar>x\<bar>)) + (e + of_nat (length xs) * e) \<le> B"
    using Cons.prems by (simp add: e_def algebra_simps add_divide_distrib)
  then have "\<bar>acc + x\<bar> \<le> B" using pos len e by linarith
  then have step: "\<bar>fadd acc x - (acc + x)\<bar> \<le> e"
    unfolding fadd_def e_def by (rule f32_err [OF _ assms(2)])
  then have "\<bar>fadd acc x\<bar> + (\<Sum>x\<leftarrow>xs. \<bar>x\<bar>) + of_nat (length xs) * (B / 10000000) \<le> B"
    using prem unfolding e_def [symmetric] by linarith
  from Cons.IH [OF this] step show ?case
    unfolding e_def [symmetric] by (simp add: algebra_simps)
qed simp

lemma foldl_fadd_nested:
  "foldl (\<lambda>s y. foldl (\<lambda>s x. fadd s (g y x)) s xs) a ys = foldl fadd a (concat (map (\<lambda>y. map (g y) xs) ys))"
  by (induction ys arbitrary: a) (simp_all add: foldl_map)

lemma isqrt_le: "isqrt n * isqrt n \<le> n"
proof (induction n rule: isqrt.induct)
  case (1 n)
  show ?case
  proof (cases "n = 0")
    case True
    then show ?thesis by (simp add: isqrt.simps)
  next
    case False
    define r where "r = 2 * isqrt (n div 4)"
    have "r * r = 4 * (isqrt (n div 4) * isqrt (n div 4))" by (simp add: r_def)
    also have "\<dots> \<le> 4 * (n div 4)" using "1.IH" False by simp
    finally have "r * r \<le> n" by linarith
    then show ?thesis using False by (subst isqrt.simps, subst (2) isqrt.simps) (simp add: r_def Let_def)
  qed
qed

lemma fsqrt_nonneg: "0 \<le> fsqrt x"
  by (simp add: fsqrt_def Let_def f32_nonneg)

lemma fsqrt_small:
  assumes "x \<le> 1 / 100000000"
  shows "fsqrt x \<le> 1 / 1000"
proof (cases "x \<le> 0")
  case False
  define k where "k = rat_exp x div 2 - 25"
  define s where "s = x / 2 powi (2 * k)"
  define m where "m = isqrt (nat \<lfloor>s\<rfloor>)"
  define y :: rat where "y = (of_nat m + 1 / 2) * 2 powi k"
  have x: "0 < x" using False by simp
  have "(2::rat) powi (2 * k) \<le> 2 powi (rat_exp x)" by (intro powi_2_mono) (simp add: k_def)
  also have "\<dots> \<le> x" using rat_exp_bounds(1) [of x] x by simp
  finally have s1: "1 \<le> s" by (simp add: s_def le_divide_eq)
  have xs: "x = s * (2 powi k * 2 powi k)"
    by (simp add: s_def flip: power_int_add)
  have "of_nat (m * m) \<le> (of_nat (nat \<lfloor>s\<rfloor>) :: rat)"
    using isqrt_le [of "nat \<lfloor>s\<rfloor>"] unfolding m_def by (simp only: of_nat_le_iff)
  also have "\<dots> \<le> s" using s1 by simp
  finally have mm: "of_nat m * of_nat m \<le> s" by simp
  have "of_nat m \<le> (of_nat (m * m) :: rat)" by (simp only: of_nat_le_iff) simp
  then have "of_nat m \<le> s" using mm by simp
  then have "(of_nat m + 1 / 2) * (of_nat m + 1 / 2) \<le> 3 * s" using mm s1 by (simp add: algebra_simps)
  then have "y * y \<le> 3 * x" unfolding y_def xs by (simp add: mult_ac mult_left_mono)
  then have "y * y < (1 / 2000) * (1 / 2000)" using assms by simp
  then have "y \<le> 1 / 2000" by (meson linorder_not_le mult_strict_mono' order_less_imp_le zero_le_divide_1_iff zero_le_numeral)
  have "fsqrt x = f32 ((of_nat m + (if of_nat (m * m) = s then 0 else 1 / 2)) * 2 powi k)"
    using False by (simp add: fsqrt_def Let_def k_def s_def m_def)
  also have "\<dots> \<le> f32 (1 / 2000)"
  proof (intro f32_mono)
    have "(of_nat m + (if of_nat (m * m) = s then 0 else 1 / 2)) * 2 powi k \<le> y"
      unfolding y_def by (intro mult_right_mono) auto
    with \<open>y \<le> 1 / 2000\<close> show "(of_nat m + (if of_nat (m * m) = s then 0 else 1 / 2)) * 2 powi k \<le> (1 / 2000 :: rat)"
      by linarith
  qed
  also have "f32 (1 / 2000) \<le> 1 / 1000"
  proof -
    have "\<bar>f32 (1 / 2000) - 1 / 2000\<bar> \<le> 1 / 10000000" by (rule f32_err) auto
    then show ?thesis by linarith
  qed
  finally show ?thesis .
qed (simp add: fsqrt_def)

section \<open>Flat neighbourhoods\<close>

lemma fmul_near: "\<bar>k\<bar> \<le> 2 \<Longrightarrow> 0 \<le> s \<Longrightarrow> s \<le> 1 \<Longrightarrow> \<bar>fmul k s - k * s\<bar> \<le> 2 / 10000000"
proof -
  assume k: "\<bar>k\<bar> \<le> 2" and s: "0 \<le> s" "s \<le> 1"
  then have "\<bar>k\<bar> * \<bar>s\<bar> \<le> 2 * 1" by (intro mult_mono) auto
  then have "\<bar>k * s\<bar> \<le> 2" by (simp add: abs_mult)
  then show ?thesis unfolding fmul_def by (rule f32_err) simp
qed

text \<open>A convolution of a constant with coefficients that cancel is tiny.\<close>

lemma cancelling_sum:
  assumes s: "0 \<le> s" "s \<le> 1"
    and ks: "length ks = 9" "\<forall>k \<in> set ks. \<bar>k\<bar> \<le> 2" "sum_list ks = 0" "(\<Sum>k\<leftarrow>ks. \<bar>k\<bar>) \<le> 8"
  shows "\<bar>foldl fadd 0 (map (\<lambda>k. fmul k s) ks)\<bar> \<le> 1 / 50000"
proof -
  define e :: rat where "e = 2 / 10000000"
  have near: "\<bar>fmul k s - k * s\<bar> \<le> e" if "k \<in> set ks" for k
    using fmul_near [of k s] ks(2) that s by (simp add: e_def)
  have sums: "\<bar>(\<Sum>k\<leftarrow>l. fmul k s) - sum_list l * s\<bar> \<le> of_nat (length l) * e \<and>
      (\<Sum>k\<leftarrow>l. \<bar>fmul k s\<bar>) \<le> (\<Sum>k\<leftarrow>l. \<bar>k\<bar>) + of_nat (length l) * e" if "set l \<subseteq> set ks" for l
    using that
  proof (induction l)
    case (Cons k l)
    have "\<bar>k * s\<bar> \<le> \<bar>k\<bar>" using s by (simp add: abs_mult mult_left_le)
    with Cons near [of k] show ?case by (auto simp: algebra_simps)
  qed simp
  define terms where "terms = map (\<lambda>k. fmul k s) ks"
  have bound: "\<bar>0\<bar> + (\<Sum>x\<leftarrow>terms. \<bar>x\<bar>) + of_nat (length terms) * (10 / 10000000) \<le> (10 :: rat)"
    using sums [of ks] ks by (simp add: terms_def e_def comp_def)
  have "\<bar>foldl fadd 0 terms - (0 + sum_list terms)\<bar> \<le> of_nat (length terms) * (10 / 10000000)"
    by (rule fsum_error [OF bound]) simp
  moreover have "\<bar>sum_list terms\<bar> \<le> 9 * e" using sums [of ks] ks by (simp add: terms_def)
  moreover have "of_nat (length terms) = (9 :: rat)" using ks(1) by (simp add: terms_def)
  ultimately have "\<bar>foldl fadd 0 terms\<bar> \<le> 1 / 50000" unfolding e_def by linarith
  then show ?thesis by (simp only: terms_def)
qed

lemma upto_sobel: "[- 1..1] = [- 1, 0, 1 :: int]"
  by (simp add: upto.simps)

lemma sobel_gradient_flat:
  assumes "0 \<le> s" "s \<le> 1"
  shows "\<bar>fst (sobel_gradient (\<lambda>dx dy. s))\<bar> \<le> 1 / 50000" "\<bar>snd (sobel_gradient (\<lambda>dx dy. s))\<bar> \<le> 1 / 50000"
proof -
  have "fst (sobel_gradient (\<lambda>dx dy. s)) = foldl fadd 0 (map (\<lambda>k. fmul k s) [- 1, 0, 1, - 2, 0, 2, - 1, 0, 1])"
    "snd (sobel_gradient (\<lambda>dx dy. s)) = foldl fadd 0 (map (\<lambda>k. fmul k s) [- 1, - 2, - 1, 0, 0, 0, 1, 2, 1])"
    by (simp_all add: sobel_gradient_def upto_sobel kGx_def kGy_def)
  then show "\<bar>fst (sobel_gradient (\<lambda>dx dy. s))\<bar> \<le> 1 / 50000" "\<bar>snd (sobel_gradient (\<lambda>dx dy. s))\<bar> \<le> 1 / 50000"
    using cancelling_sum [OF assms, of "[- 1, 0, 1, - 2, 0, 2, - 1, 0, 1]"]
      cancelling_sum [OF assms, of "[- 1, - 2, - 1, 0, 0, 0, 1, 2, 1]"] by simp_all
qed

lemma sobel_flat: "store_sample (sobel_magnitude (sobel_gradient (\<lambda>dx dy. load_sample u))) = 0"
proof -
  define g where "g = sobel_gradient (\<lambda>dx dy. load_sample u)"
  have g: "\<bar>fst g\<bar> \<le> 1 / 50000" "\<bar>snd g\<bar> \<le> 1 / 50000"
    unfolding g_def by (rule sobel_gradient_flat [OF load_sample_unit])+
  have sq: "\<bar>fmul a a\<bar> \<le> 1 / 1000000000" if "\<bar>a\<bar> \<le> 1 / 50000" for a
  proof -
    have "\<bar>a\<bar> * \<bar>a\<bar> \<le> 1 / 50000 * (1 / 50000)" using that by (intro mult_mono) auto
    then have a: "\<bar>a * a\<bar> \<le> 1 / 2500000000" by (simp add: abs_mult)
    then have "\<bar>f32 (a * a) - a * a\<bar> \<le> 1 / 1000000 / 10000000" by (intro f32_err) auto
    with a show ?thesis unfolding fmul_def by linarith
  qed
  define q where "q = fmul (fst g) (fst g) + fmul (snd g) (snd g)"
  have q: "\<bar>q\<bar> \<le> 2 / 1000000000" using sq [OF g(1)] sq [OF g(2)] unfolding q_def by linarith
  then have "\<bar>f32 q - q\<bar> \<le> 1 / 1000000 / 10000000" by (intro f32_err) auto
  with q have "f32 q \<le> 1 / 100000000" by linarith
  then have "fsqrt (f32 q) \<le> 1 / 1000" by (rule fsqrt_small)
  with fsqrt_nonneg [of "f32 q"] have "\<bar>sobel_magnitude g\<bar> \<le> 1 / 1000"
    by (simp add: sobel_magnitude_def fadd_def q_def)
  moreover have "val8 0 = 0" by (simp add: val8_eq)
  ultimately show ?thesis unfolding g_def [symmetric] by (intro store_near) simp
qed

text \<open>
  A Gaussian of bounded width leaves a flat neighbourhood alone. What is needed of
  \<open>std::exp\<close> is its value at zero and its range on the non-positive numbers.
\<close>

definition exp_like :: "(rat \<Rightarrow> rat) \<Rightarrow> bool" where
  "exp_like expf \<longleftrightarrow> expf 0 = 1 \<and> (\<forall>x \<le> 0. 0 \<le> expf x \<and> expf x \<le> 1)"

lemma gaussian_radius_bounds:
  assumes "0 \<le> sigma" "sigma \<le> 4"
  shows "1 \<le> gaussian_radius sigma" "gaussian_radius sigma \<le> 12"
proof -
  have "fmul 3 sigma \<le> f32 12" unfolding fmul_def using assms by (intro f32_mono) simp
  then have "fmul 3 sigma \<le> of_int 12" by simp
  then have "\<lceil>fmul 3 sigma\<rceil> \<le> 12" by (simp only: ceiling_le_iff)
  then show "1 \<le> gaussian_radius sigma" "gaussian_radius sigma \<le> 12" by (simp_all add: gaussian_radius_def)
qed

lemma sum_list_error:
  assumes "\<And>x. x \<in> set xs \<Longrightarrow> \<bar>f x - g x\<bar> \<le> (e :: rat)"
  shows "\<bar>(\<Sum>x\<leftarrow>xs. f x) - (\<Sum>x\<leftarrow>xs. g x)\<bar> \<le> of_nat (length xs) * e"
  using assms
proof (induction xs)
  case (Cons x xs)
  then have "\<bar>(\<Sum>x\<leftarrow>xs. f x) - (\<Sum>x\<leftarrow>xs. g x)\<bar> \<le> of_nat (length xs) * e" by simp
  moreover have "\<bar>f x - g x\<bar> \<le> e" using Cons.prems by simp
  ultimately have "\<bar>(f x + (\<Sum>x\<leftarrow>xs. f x)) - (g x + (\<Sum>x\<leftarrow>xs. g x))\<bar> \<le> e + of_nat (length xs) * e"
    by linarith
  then show ?case by (simp add: algebra_simps)
qed simp

lemma sum_list_bounds:
  assumes "\<And>x. x \<in> set xs \<Longrightarrow> a \<le> x \<and> x \<le> (b :: rat)"
  shows "of_nat (length xs) * a \<le> sum_list xs" "sum_list xs \<le> of_nat (length xs) * b"
  using assms by (induction xs) (force simp: algebra_simps)+

lemma sum_list_member:
  "\<forall>x \<in> set xs. 0 \<le> (x :: rat) \<Longrightarrow> v \<in> set xs \<Longrightarrow> v \<le> sum_list xs"
proof (induction xs)
  case (Cons x xs)
  have "0 \<le> sum_list xs" using Cons.prems by (intro sum_list_nonneg) auto
  with Cons show ?case by force
qed simp

text \<open>Normalised weights: non-negative and summing to nearly one.\<close>

lemma normalised_weights:
  fixes vs :: "rat list" and norm :: rat
  defines "norm \<equiv> foldl fadd 0 vs"
  defines "ws \<equiv> map (\<lambda>v. fdiv v norm) vs"
  assumes range: "\<forall>v \<in> set vs. 0 \<le> v \<and> v \<le> 1" and one: "1 \<in> set vs" and len: "length vs \<le> 25"
  shows "\<bar>sum_list ws - 1\<bar> \<le> 1 / 10000" "\<forall>w \<in> set ws. 0 \<le> w \<and> w \<le> 11 / 10"
proof -
  define n :: rat where "n = of_nat (length vs)"
  define T where "T = sum_list vs"
  have n: "0 \<le> n" "n \<le> 25" unfolding n_def using len of_nat_mono [of "length vs" 25, where 'a = rat] by simp_all
  have T: "1 \<le> T" "T \<le> n"
    using sum_list_member [of vs 1] sum_list_bounds(2) [of vs 0 1] range one by (auto simp: T_def n_def)
  have abs: "(\<Sum>v\<leftarrow>vs. \<bar>v\<bar>) = T" unfolding T_def using range by (metis (no_types) abs_of_nonneg map_idI)
  have "\<bar>norm - (0 + sum_list vs)\<bar> \<le> of_nat (length vs) * (26 / 10000000)"
    unfolding norm_def
  proof (rule fsum_error)
    show "\<bar>0\<bar> + (\<Sum>v\<leftarrow>vs. \<bar>v\<bar>) + of_nat (length vs) * (26 / 10000000) \<le> (26 :: rat)"
      unfolding abs n_def [symmetric] using T n by linarith
  qed simp
  then have err: "\<bar>norm - T\<bar> \<le> 25 * (26 / 10000000)" using n unfolding T_def n_def by linarith
  then have tot: "99 / 100 \<le> norm" using T by linarith
  have quot: "0 \<le> v / norm" "v / norm \<le> 105 / 100" if "v \<in> set vs" for v
    using range that tot by (auto simp: divide_le_eq)
  have near: "\<bar>fdiv v norm - v / norm\<bar> \<le> 2 / 10000000" if "v \<in> set vs" for v
    unfolding fdiv_def
  proof (rule f32_err)
    show "\<bar>v / norm\<bar> \<le> 2" using quot [OF that] by linarith
  qed simp
  show "\<forall>w \<in> set ws. 0 \<le> w \<and> w \<le> 11 / 10"
  proof
    fix w assume "w \<in> set ws"
    then obtain v where v: "v \<in> set vs" "w = fdiv v norm" by (auto simp: ws_def)
    have "0 \<le> fdiv v norm" unfolding fdiv_def using quot(1) [OF v(1)] by (rule f32_nonneg)
    with near [OF v(1)] quot(2) [OF v(1)] v(2) show "0 \<le> w \<and> w \<le> 11 / 10" by linarith
  qed
  have "\<bar>(\<Sum>v\<leftarrow>vs. fdiv v norm) - (\<Sum>v\<leftarrow>vs. v / norm)\<bar> \<le> n * (2 / 10000000)"
    unfolding n_def by (rule sum_list_error [OF near])
  moreover have "(\<Sum>v\<leftarrow>vs. v / norm) = T / norm"
    unfolding T_def by (induction vs) (simp_all add: add_divide_distrib)
  moreover have "\<bar>T / norm - 1\<bar> \<le> 7 / 100000"
  proof -
    have "\<bar>T / norm - 1\<bar> = \<bar>T - norm\<bar> / norm" using tot by (simp add: field_simps)
    also have "\<dots> \<le> (25 * (26 / 10000000)) / (99 / 100)" using err tot by (intro frac_le) (auto simp: abs_minus_commute)
    finally show ?thesis by simp
  qed
  ultimately show "\<bar>sum_list ws - 1\<bar> \<le> 1 / 10000" using n unfolding ws_def by linarith
qed

text \<open>The two-dimensional sum of a constant.\<close>

lemma gaussian_sum_nested:
  assumes "length ws = nat (2 * radius + 1)" "0 \<le> radius"
  shows "gaussian_sum ws radius (\<lambda>dx dy. s) =
           foldl fadd 0 (concat (map (\<lambda>w. map (\<lambda>v. fmul (fmul w v) s) ws) ws))"
proof -
  have idx: "map (\<lambda>d. ws ! nat (d + radius)) [- radius..radius] = ws"
    using assms by (intro nth_equalityI) (auto simp: nth_upto)
  have "concat (map (\<lambda>dy. map (\<lambda>dx. fmul (fmul (ws ! nat (dy + radius)) (ws ! nat (dx + radius))) s) [- radius..radius])
         [- radius..radius])
      = concat (map (\<lambda>w. map (\<lambda>v. fmul (fmul w v) s) (map (\<lambda>d. ws ! nat (d + radius)) [- radius..radius]))
         (map (\<lambda>d. ws ! nat (d + radius)) [- radius..radius]))"
    by (simp add: comp_def)
  then show ?thesis unfolding gaussian_sum_def foldl_fadd_nested idx by simp
qed

lemma weighted_term_near:
  assumes "0 \<le> w" "w \<le> 11 / 10" "0 \<le> v" "v \<le> 11 / 10" "0 \<le> s" "s \<le> 1"
  shows "\<bar>fmul (fmul w v) s - w * v * s\<bar> \<le> 4 / 10000000" "0 \<le> fmul (fmul w v) s"
proof -
  have "w * v \<le> 11 / 10 * (11 / 10)" using assms by (intro mult_mono) auto
  moreover have "0 \<le> w * v" using assms by simp
  ultimately have wv: "\<bar>w * v\<bar> \<le> 19 / 10" "0 \<le> w * v" by simp_all
  have e: "\<bar>fmul w v - w * v\<bar> \<le> (19 / 10) / 10000000" "0 \<le> fmul w v"
    unfolding fmul_def by (rule f32_err [OF wv(1)], simp) (rule f32_nonneg [OF wv(2)])
  then have p: "\<bar>fmul w v\<bar> \<le> 2" using wv by linarith
  have "\<bar>fmul w v * s\<bar> \<le> 2 * 1" unfolding abs_mult using p assms(5,6) by (intro mult_mono) auto
  then have f: "\<bar>fmul (fmul w v) s - fmul w v * s\<bar> \<le> 2 / 10000000"
    unfolding fmul_def [of "fmul w v"] by (intro f32_err) auto
  have "\<bar>fmul w v * s - w * v * s\<bar> = \<bar>fmul w v - w * v\<bar> * s"
    using assms(5) by (simp add: abs_mult flip: left_diff_distrib)
  also have "\<dots> \<le> (19 / 10) / 10000000 * 1" using e assms(5,6) by (intro mult_mono) auto
  finally show "\<bar>fmul (fmul w v) s - w * v * s\<bar> \<le> 4 / 10000000" using f by linarith
  show "0 \<le> fmul (fmul w v) s" unfolding fmul_def [of "fmul w v"] using e(2) assms(5) by (intro f32_nonneg) simp
qed

lemma sum_list_nested: "sum_list (concat (map (\<lambda>w. map (g w) xs) ys)) = (\<Sum>w\<leftarrow>ys. \<Sum>v\<leftarrow>xs. g w v)"
  by (induction ys) simp_all

lemma sum_list_product:
  "(\<Sum>w\<leftarrow>ws. \<Sum>v\<leftarrow>vs. w * v * (s::rat)) = sum_list ws * sum_list vs * s"
proof (induction ws)
  case (Cons w ws)
  have "(\<Sum>v\<leftarrow>vs. w * v * s) = w * sum_list vs * s" by (induction vs) (simp_all add: algebra_simps)
  with Cons show ?case by (simp add: algebra_simps)
qed simp

lemma gaussian_sum_flat:
  assumes sum: "\<bar>sum_list ws - 1\<bar> \<le> 1 / 10000" and range: "\<forall>w \<in> set ws. 0 \<le> w \<and> w \<le> 11 / 10"
    and len: "length ws = nat (2 * radius + 1)" "1 \<le> radius" "radius \<le> 12" and s: "0 \<le> s" "s \<le> 1"
  shows "\<bar>gaussian_sum ws radius (\<lambda>dx dy. s) - s\<bar> \<le> 1 / 1000"
proof -
  define terms where "terms = concat (map (\<lambda>w. map (\<lambda>v. fmul (fmul w v) s) ws) ws)"
  define S where "S = sum_list ws"
  define n :: rat where "n = of_nat (length ws)"
  have n: "0 \<le> n" "n \<le> 25" unfolding n_def using len of_nat_mono [of "length ws" 25, where 'a = rat] by simp_all
  have N: "of_nat (length terms) = n * n" by (simp add: terms_def n_def length_concat comp_def sum_list_triv)
  have nn: "n * n \<le> 625" using mult_mono [of n 25 n 25] n by simp
  have pos: "0 \<le> t" if "t \<in> set terms" for t
    using that range weighted_term_near(2) [OF _ _ _ _ s] by (auto simp: terms_def)
  have inner: "\<bar>(\<Sum>v\<leftarrow>ws. fmul (fmul w v) s) - (\<Sum>v\<leftarrow>ws. w * v * s)\<bar> \<le> n * (4 / 10000000)" if "w \<in> set ws" for w
    unfolding n_def using range that weighted_term_near(1) [OF _ _ _ _ s] by (intro sum_list_error) auto
  have "\<bar>(\<Sum>w\<leftarrow>ws. \<Sum>v\<leftarrow>ws. fmul (fmul w v) s) - (\<Sum>w\<leftarrow>ws. \<Sum>v\<leftarrow>ws. w * v * s)\<bar> \<le> n * (n * (4 / 10000000))"
    using sum_list_error [of ws _ _ "n * (4 / 10000000)", OF inner] by (simp only: n_def [symmetric])
  moreover have "sum_list terms = (\<Sum>w\<leftarrow>ws. \<Sum>v\<leftarrow>ws. fmul (fmul w v) s)"
    unfolding terms_def sum_list_nested ..
  ultimately have outer: "\<bar>sum_list terms - S * S * s\<bar> \<le> 625 * (4 / 10000000)"
    using nn unfolding S_def sum_list_product by (simp add: mult.assoc [symmetric])
  have SS: "\<bar>S * S - 1\<bar> \<le> 3 / 10000"
  proof -
    have "\<bar>S * S - 1\<bar> = \<bar>S - 1\<bar> * \<bar>S + 1\<bar>" by (simp add: abs_mult [symmetric] algebra_simps)
    also have "\<dots> \<le> 1 / 10000 * 3" using sum unfolding S_def by (intro mult_mono) (linarith | simp)+
    finally show ?thesis by simp
  qed
  have "S * S * s - s = (S * S - 1) * s" by (simp add: left_diff_distrib)
  then have "\<bar>S * S * s - s\<bar> = \<bar>S * S - 1\<bar> * s" using s(1) by (simp only: abs_mult abs_of_nonneg)
  also have "\<dots> \<le> 3 / 10000 * 1" using SS s by (intro mult_mono) auto
  finally have exact: "\<bar>S * S * s - s\<bar> \<le> 3 / 10000" by simp
  have "(\<Sum>t\<leftarrow>terms. \<bar>t\<bar>) = sum_list terms" using pos by (metis (no_types) abs_of_nonneg map_idI)
  then have bound: "\<bar>0\<bar> + (\<Sum>t\<leftarrow>terms. \<bar>t\<bar>) + of_nat (length terms) * (2 / 10000000) \<le> (2 :: rat)"
    using outer exact s nn unfolding N by linarith
  have "\<bar>foldl fadd 0 terms - (0 + sum_list terms)\<bar> \<le> n * n * (2 / 10000000)"
    using fsum_error [OF bound] unfolding N by simp
  then have "\<bar>foldl fadd 0 terms - s\<bar> \<le> 1 / 1000" using outer exact nn by linarith
  then show ?thesis using gaussian_sum_nested [OF len(1)] len(2) by (simp add: terms_def)
qed

lemma gaussian_weights_sound:
  assumes "exp_like expf" "0 \<le> sigma" "sigma \<le> 4"
  shows "\<bar>sum_list (gaussian_weights_1d expf sigma) - 1\<bar> \<le> 1 / 10000"
    "\<forall>w \<in> set (gaussian_weights_1d expf sigma). 0 \<le> w \<and> w \<le> 11 / 10"
proof -
  define radius where "radius = gaussian_radius sigma"
  note r = gaussian_radius_bounds [OF assms(2,3), folded radius_def]
  define val where "val i = expf (fdiv (- f32 (of_int (i * i))) (fmul (fmul 2 sigma) sigma))" for i
  have arg: "fdiv (- f32 (of_int (i * i))) (fmul (fmul 2 sigma) sigma) \<le> 0" for i :: int
  proof -
    have "0 \<le> f32 (of_int (i * i))" by (rule f32_nonneg) simp
    moreover have "0 \<le> fmul (fmul 2 sigma) sigma" using assms(2) by (simp add: fmul_def f32_nonneg)
    ultimately have "- f32 (of_int (i * i)) / fmul (fmul 2 sigma) sigma \<le> 0" by (simp add: divide_nonpos_nonneg)
    from f32_mono [OF this] show ?thesis by (simp add: fdiv_def)
  qed
  have range: "\<forall>v \<in> set (map val [- radius..radius]). 0 \<le> v \<and> v \<le> 1"
    using assms(1) arg by (auto simp: val_def exp_like_def)
  have "val 0 = 1" using assms(1) by (simp add: val_def fdiv_def exp_like_def)
  then have one: "1 \<in> set (map val [- radius..radius])" using r(1) by (auto simp: image_iff intro!: bexI [of _ 0])
  have len: "length (map val [- radius..radius]) \<le> 25" using r by simp
  have eq: "gaussian_weights_1d expf sigma =
      map (\<lambda>v. fdiv v (foldl fadd 0 (map val [- radius..radius]))) (map val [- radius..radius])"
    by (simp only: gaussian_weights_1d_def Let_def val_def [abs_def] radius_def)
  show "\<bar>sum_list (gaussian_weights_1d expf sigma) - 1\<bar> \<le> 1 / 10000"
    "\<forall>w \<in> set (gaussian_weights_1d expf sigma). 0 \<le> w \<and> w \<le> 11 / 10"
    unfolding eq using normalised_weights [OF range one len] by blast+
qed

lemma length_gaussian_weights:
  "length (gaussian_weights_1d expf sigma) = nat (2 * gaussian_radius sigma + 1)"
  by (simp add: gaussian_weights_1d_def Let_def)

lemma gaussian_flat:
  assumes "exp_like expf" "0 \<le> sigma" "sigma \<le> 4"
  shows "store_sample (gaussian_sum (gaussian_weights_1d expf sigma) (gaussian_radius sigma)
           (\<lambda>dx dy. load_sample u)) = u"
proof -
  have "\<bar>gaussian_sum (gaussian_weights_1d expf sigma) (gaussian_radius sigma) (\<lambda>dx dy. load_sample u)
          - load_sample u\<bar> \<le> 1 / 1000"
    by (rule gaussian_sum_flat [OF gaussian_weights_sound [OF assms] length_gaussian_weights
          gaussian_radius_bounds [OF assms(2,3)] load_sample_unit])
  with load_sample_near [of u] show ?thesis by (intro store_near) linarith
qed

section \<open>Laws of the ops\<close>

lemma apply_op_eqI:
  "image_wf input \<Longrightarrow> pointwise_of input (op_sample expf input op) out \<Longrightarrow> apply_op expf input op = Inr out"
  by (simp add: apply_op_pixel_loop pixel_loop_eqI)

lemma color_in_range:
  assumes "in_range img x y c" "c < colors_of img" "color_channels (im_channels img) \<noteq> 1" "image_wf img"
  shows "in_range img x y 0 \<and> in_range img x y 1 \<and> in_range img x y 2 \<and> 2 < colors_of img"
  using assms by (auto simp: image_wf_def is_supported_channel_count_def color_channels_def in_range_def split: if_splits)

text \<open>Applying an op to the output of an op, sample by sample.\<close>

lemma apply_op_twice:
  assumes wf: "image_wf input" and first: "apply_op expf input op = Inr mid"
    and again: "\<And>x y c. in_range input x y c \<Longrightarrow> c < colors_of input \<Longrightarrow> op_sample expf mid op x y c = g x y c"
  shows "\<exists>out. apply_op expf mid op = Inr out \<and> pointwise_of input g out"
proof -
  have mid: "pointwise_of input (op_sample expf input op) mid" using apply_op_spec [OF wf, of expf op] first by auto
  then have m: "image_wf mid" "same_shape mid input" by (simp_all add: pointwise_of_def)
  obtain out where out: "apply_op expf mid op = Inr out" "pointwise_of mid (op_sample expf mid op) out"
    using apply_op_spec [OF m(1)] by blast
  have "sample_at out x y c = (if c < colors_of input then g x y c else sample_at input x y c)"
    if "in_range input x y c" for x y c
    using out(2) mid m(2) again [OF that] that same_shape_range [OF m(2)]
    by (auto simp: pointwise_of_def same_shape_def)
  moreover have "same_shape out input" using out(2) m(2) same_shape_trans by (auto simp: pointwise_of_def)
  ultimately show ?thesis using out by (auto simp: pointwise_of_def)
qed

lemma apply_op_sample:
  assumes "image_wf input" "apply_op expf input op = Inr out" "in_range input x y c" "c < colors_of input"
  shows "sample_at out x y c = op_sample expf input op x y c"
  using apply_op_spec [OF assms(1), of expf op] assms(2-4) by (auto simp: pointwise_of_def)

lemma apply_op_shape:
  assumes "image_wf input" "apply_op expf input op = Inr out"
  shows "image_wf out" "same_shape out input" "im_channels out = im_channels input"
  using apply_op_spec [OF assms(1), of expf op] assms(2) by (auto simp: pointwise_of_def same_shape_def)

lemma gaussian_sum_cong:
  assumes "\<And>dx dy. dx \<in> {- r..r} \<Longrightarrow> dy \<in> {- r..r} \<Longrightarrow> f dx dy = g dx dy"
  shows "gaussian_sum ws r f = gaussian_sum ws r g"
  unfolding gaussian_sum_def by (intro foldl_cong refl) (use assms in simp_all)

lemma sobel_gradient_cong:
  assumes "\<And>dx dy. dx \<in> {- 1..1} \<Longrightarrow> dy \<in> {- 1..1} \<Longrightarrow> f dx dy = g dx dy"
  shows "sobel_gradient f = sobel_gradient g"
  unfolding sobel_gradient_def by (intro foldl_cong refl) (use assms in \<open>auto simp: split_def\<close>)

lemma invert_invert: "word_of_int (255 - uint (word_of_int (255 - uint u) :: u8)) = (u :: u8)"
  by simp

lemma load_255: "load_sample 255 = 1" and load_0: "load_sample 0 = 0"
  by (simp_all add: load_sample_eq val8_eq)

section \<open>Properties\<close>

text \<open>
  C18: A chain never fails on a well-formed image, and keeps what the op-chain contract says it keeps:
  the result is well formed, has the shape of the input (the channel count too), and the alpha plane of a
  4-channel image passes through every op untouched.
\<close>

theorem chain_keeps_shape_and_alpha:
  assumes "image_wf input"
  shows "\<exists>out. apply_chain expf input chain = Inr out \<and> image_wf out \<and> same_shape out input \<and>
           (im_channels input = 4 \<longrightarrow>
              (\<forall>x y. in_range input x y 3 \<longrightarrow> sample_at out x y 3 = sample_at input x y 3))"
  using apply_chain_frame [OF assms] by (simp add: keeps_frame_def)

abbreviation one_pixel :: image where
  "one_pixel \<equiv> \<lparr>im_width = 1, im_height = 1, im_channels = 4, im_stride = 4, im_pixels = [10, 20, 30, 77]\<rparr>"

theorem chain_keeps_shape_and_alpha_witness:
  "\<exists>out. apply_chain (\<lambda>x. 1) one_pixel [\<lparr>kind = kGrayscale, param = 0\<rparr>, \<lparr>kind = kSobel, param = 0\<rparr>] = Inr out \<and>
     sample_at out 0 0 3 = 77"
proof -
  have "image_wf one_pixel" by (simp add: image_wf_def is_supported_channel_count_def)
  from chain_keeps_shape_and_alpha [OF this, of "\<lambda>x. 1" "[\<lparr>kind = kGrayscale, param = 0\<rparr>, \<lparr>kind = kSobel, param = 0\<rparr>]"]
  show ?thesis by (auto simp: in_range_def sample_at_def [of one_pixel] pixel_pos_def)
qed

text \<open>
  Loading a byte as a normalised \<open>float\<close> and storing it again is the identity for every one of
  the 256 samples, although the division by 255 and the multiplication by 255 both round; the store
  also undoes any perturbation of the loaded value by at most 1/700.
\<close>

lemma store_undoes_load:
  assumes "\<bar>noise\<bar> \<le> 1 / 700"
  shows "store_sample (load_sample u + noise) = u"
  using assms load_sample_near [of u] by (intro store_near) linarith

text \<open>
  \<open>invert\<close> is an involution: applying it twice gives back the image, bit for bit.
\<close>

lemma invert_involutive:
  assumes "image_wf input" "kind op = kInvert"
  shows "apply_chain expf input [op, op] = Inr input"
proof -
  obtain mid where mid: "apply_op expf input op = Inr mid" using apply_op_spec [OF assms(1)] by blast
  have "\<exists>out. apply_op expf mid op = Inr out \<and> pointwise_of input (\<lambda>x y c. sample_at input x y c) out"
  proof (rule apply_op_twice [OF assms(1) mid])
    fix x y c
    assume "in_range input x y c" "c < colors_of input"
    from apply_op_sample [OF assms(1) mid this] show "op_sample expf mid op x y c = sample_at input x y c"
      using assms(2) invert_invert by (simp add: op_sample_def)
  qed
  with pointwise_of_unique [OF pointwise_of_self [OF assms(1)]] mid show ?thesis by fastforce
qed

text \<open>
  \<open>grayscale\<close> writes one and the same luminance into all colour channels, and is idempotent: a
  second pass changes nothing, because the three rounded luma weights reproduce a grey sample exactly
  after the store.
\<close>

lemma grayscale_idempotent:
  assumes "image_wf input" "kind op = kGrayscale" "apply_op expf input op = Inr gray"
  shows "apply_op expf gray op = Inr gray \<and>
    (\<forall>x y c c'. in_range input x y c \<longrightarrow> c < colors_of input \<longrightarrow> c' < colors_of input \<longrightarrow>
       sample_at gray x y c = sample_at gray x y c')"
proof -
  note s = apply_op_shape [OF assms(1,3)]
  have samples: "sample_at gray x y c = op_sample expf input op x y 0"
    if "in_range input x y c" "c < colors_of input" for x y c
    using apply_op_sample [OF assms(1,3) that] that(2) assms(2) by (auto simp: op_sample_def)
  have same: "sample_at gray x y c = sample_at gray x y c'"
    if "in_range input x y c" "c < colors_of input" "c' < colors_of input" for x y c c'
  proof -
    have "in_range input x y c'" using that colors_le_channels [OF assms(1)] by (simp add: in_range_def)
    with samples that show ?thesis by metis
  qed
  have "op_sample expf gray op x y c = sample_at gray x y c"
    if r: "in_range gray x y c" "c < colors_of gray" for x y c
  proof (cases "color_channels (im_channels gray) = 1")
    case True
    with assms(2) r(2) show ?thesis by (simp add: op_sample_def)
  next
    case False
    note k = color_in_range [OF r False s(1)]
    have "sample_at gray x y i = sample_at gray x y c" if "i < 3" for i
      using same [of x y c i] r k that s(3) same_shape_range [OF s(2)] by simp
    with False assms(2) show ?thesis by (simp add: op_sample_def gray_of_gray)
  qed
  then have "apply_op expf gray op = Inr gray"
    by (intro apply_op_eqI [OF s(1)] pointwise_of_self [OF s(1)])
  with same show ?thesis by blast
qed

text \<open>
  \<open>threshold\<close> at any positive level produces only the samples 0 and 255, keeps a sample at 255
  exactly when its normalised value reaches the level, and applying it again changes nothing.
\<close>

lemma threshold_binary:
  assumes "image_wf input" "kind op = kThreshold" "0 < param op" "param op \<le> 1" "apply_op expf input op = Inr out"
  shows "apply_op expf out op = Inr out \<and>
    (\<forall>x y c. in_range input x y c \<longrightarrow> c < colors_of input \<longrightarrow>
       sample_at out x y c = (if param op \<le> load_sample (sample_at input x y c) then 255 else 0))"
proof -
  note s = apply_op_shape [OF assms(1,5)]
  have val: "sample_at out x y c = (if param op \<le> load_sample (sample_at input x y c) then 255 else 0)"
    if "in_range input x y c" "c < colors_of input" for x y c
    using apply_op_sample [OF assms(1,5) that] assms(2) by (simp add: op_sample_def)
  have "op_sample expf out op x y c = sample_at out x y c" if "in_range out x y c" "c < colors_of out" for x y c
    using val [of x y c] that same_shape_range [OF s(2)] assms(2-4) s(3)
    by (auto simp: op_sample_def load_255 load_0)
  then have "apply_op expf out op = Inr out"
    by (intro apply_op_eqI [OF s(1)] pointwise_of_self [OF s(1)])
  with val show ?thesis by blast
qed

text \<open>
  \<open>brightness\<close> with its default parameter 0 is the identity on images.
\<close>

lemma brightness_zero_identity:
  assumes "image_wf input"
  shows "apply_op expf input \<lparr>kind = kBrightness, param = default_param (spec_of kBrightness)\<rparr> = Inr input"
proof (rule apply_op_eqI [OF assms pointwise_of_self [OF assms]])
  fix x y c
  define u where "u = sample_at input x y c"
  have "\<bar>fadd (load_sample u) 0 - load_sample u\<bar> \<le> 1 / 10000000"
    unfolding fadd_def add_0_right using load_sample_unit [of u] by (intro f32_err) auto
  with load_sample_near [of u] have "store_sample (fadd (load_sample u) 0) = u" by (intro store_near) linarith
  then show "op_sample expf input \<lparr>kind = kBrightness, param = default_param (spec_of kBrightness)\<rparr> x y c = sample_at input x y c"
    by (simp add: op_sample_def u_def kOpSpecs_def)
qed

text \<open>
  Where the 3x3 neighbourhood of a sample (with replicate edge addressing) is flat, \<open>sobel\<close> writes 0:
  the rounding of the nine products and sums never amounts to a visible edge.
\<close>

lemma sobel_flat_is_black:
  assumes "image_wf input" "kind op = kSobel" "apply_op expf input op = Inr out"
    and "in_range input x y c" "c < colors_of input"
    and flat: "\<And>dx dy. dx \<in> {- 1..1} \<Longrightarrow> dy \<in> {- 1..1} \<Longrightarrow> clamped_sample input (int x + dx) (int y + dy) c = u"
  shows "sample_at out x y c = 0"
proof -
  have "sobel_gradient (\<lambda>dx dy. load_sample (clamped_sample input (int x + dx) (int y + dy) c)) =
      sobel_gradient (\<lambda>dx dy. load_sample u)"
    by (rule sobel_gradient_cong) (simp only: flat)
  with apply_op_sample [OF assms(1,3-5)] assms(2) sobel_flat show ?thesis by (simp add: op_sample_def)
qed

lemma one_pixel_clamped: "clamped_sample one_pixel x y c = sample_at one_pixel 0 0 c"
  by (simp add: clamped_sample_def clamp_coordinate_def std_clamp_def)

text \<open>
  C39: Where every sample a \<open>gaussian\<close> of canonical width reads is the same, the blur returns that sample
  exactly: the weights (at most 25 per axis, normalised in \<open>float\<close>) and the up to 625 rounded products
  lose less than half a grey level. Of \<open>std::exp\<close> this needs only its value 1 at 0 and its range on
  the non-positive numbers.
\<close>

theorem gaussian_flat_is_kept:
  assumes "exp_like expf" "image_wf input" "kind op = kGaussian" "canonical_op op"
    and "apply_op expf input op = Inr out" "in_range input x y c" "c < colors_of input"
    and flat: "\<And>dx dy. \<bar>dx\<bar> \<le> gaussian_radius (param op) \<Longrightarrow> \<bar>dy\<bar> \<le> gaussian_radius (param op) \<Longrightarrow>
                 clamped_sample input (int x + dx) (int y + dy) c = u"
  shows "sample_at out x y c = u"
proof -
  have "f32 (1 / 10) \<le> param op" "param op \<le> 4"
    using assms(3,4) by (simp_all add: canonical_op_def kOpSpecs_def)
  then have b: "0 \<le> param op" "param op \<le> 4" using f32_tenth_nonneg by linarith+
  have "gaussian_sum (gaussian_weights_1d expf (param op)) (gaussian_radius (param op))
          (\<lambda>dx dy. load_sample (clamped_sample input (int x + dx) (int y + dy) c)) =
        gaussian_sum (gaussian_weights_1d expf (param op)) (gaussian_radius (param op)) (\<lambda>dx dy. load_sample u)"
    by (rule gaussian_sum_cong) (simp add: flat abs_le_iff)
  with apply_op_sample [OF assms(2,5-7)] assms(3) gaussian_flat [OF assms(1) b] show ?thesis
    by (simp add: op_sample_def)
qed

theorem gaussian_flat_is_kept_witness:
  "\<exists>out. apply_op (\<lambda>x. if x = 0 then 1 else 1 / 8) one_pixel \<lparr>kind = kGaussian, param = 1\<rparr> = Inr out \<and>
     sample_at out 0 0 1 = 20"
proof -
  have wf: "image_wf one_pixel" by (simp add: image_wf_def is_supported_channel_count_def)
  have e: "exp_like (\<lambda>x. if x = 0 then 1 else 1 / 8)" by (simp add: exp_like_def)
  have c: "canonical_op \<lparr>kind = kGaussian, param = 1\<rparr>"
    using default_canonical [of kGaussian] by (simp add: kOpSpecs_def)
  obtain out where o: "apply_op (\<lambda>x. if x = 0 then 1 else 1 / 8) one_pixel \<lparr>kind = kGaussian, param = 1\<rparr> = Inr out"
    using apply_op_spec [OF wf] by blast
  from gaussian_flat_is_kept [OF e wf _ c o, of 0 0 1 20] o show ?thesis
    by (auto simp: one_pixel_clamped in_range_def color_channels_def sample_at_def [of one_pixel] pixel_pos_def)
qed

end
