(* ===== verification/Kernel_Key.thy ===== *)
theory Kernel_Key
  imports Op_Chain
begin

text \<open>
  The identity of a generated kernel (\<open>include/imgjit/core/kernel_key.h\<close>,
  \<open>src/core/kernel_key.cpp\<close>): the key, its equality and its hash. An \<open>int32_t\<close> is an \<open>int\<close>
  and is read as a 32-bit pattern where the code casts it. The locale \<open>hashed_key\<close> is what
  a hash table asks of its key type; it is interpreted on \<open>operator==\<close> and
  \<open>hash_kernel_key\<close>.
\<close>

datatype tile_variant = kNaive | kTiled

datatype constants_mode = kBaked | kParameterized

record kernel_key =
  key_chain :: op_chain
  key_channels :: int
  key_tile :: tile_variant
  key_tile_size :: int
  key_constants :: constants_mode

section \<open>The hash\<close>

definition kFnvOffsetBasis :: u64 where "kFnvOffsetBasis = 1469598103934665603"
definition kFnvPrime :: u64 where "kFnvPrime = 1099511628211"

definition hash_byte :: "u64 \<Rightarrow> u8 \<Rightarrow> u64" where
  "hash_byte state byte = (state XOR ucast byte) * kFnvPrime"

definition hash_i32 :: "u64 \<Rightarrow> int \<Rightarrow> u64" where
  "hash_i32 state value =
     (let bits = (word_of_int value :: u32)
      in foldl (\<lambda>state shift. hash_byte state (byte_of bits shift)) state [0, 8, 16, 24])"

definition param_hundredths :: "rat \<Rightarrow> int" where
  "param_hundredths value = sint (word_of_int (lround (dmul value 100)) :: u32)"

definition tile_code :: "tile_variant \<Rightarrow> u8" where
  "tile_code t = (case t of kNaive \<Rightarrow> 0 | kTiled \<Rightarrow> 1)"

definition constants_code :: "constants_mode \<Rightarrow> u8" where
  "constants_code m = (case m of kBaked \<Rightarrow> 0 | kParameterized \<Rightarrow> 1)"

text \<open>\<open>operator==\<close>: the guards, then the loop over the ops.\<close>

fun ops_eq :: "bool \<Rightarrow> op_chain \<Rightarrow> op_chain \<Rightarrow> bool" where
  "ops_eq keyed_by_params (left # ls) (right # rs) =
     (if kind left \<noteq> kind right \<or>
         keyed_by_params \<and> param_hundredths (param left) \<noteq> param_hundredths (param right)
      then False else ops_eq keyed_by_params ls rs)"
| "ops_eq keyed_by_params ls rs = True"

definition key_eq :: "kernel_key \<Rightarrow> kernel_key \<Rightarrow> bool" where
  "key_eq lhs rhs =
     (if key_channels lhs \<noteq> key_channels rhs \<or> key_tile lhs \<noteq> key_tile rhs \<or>
         key_tile_size lhs \<noteq> key_tile_size rhs \<or> key_constants lhs \<noteq> key_constants rhs \<or>
         length (key_chain lhs) \<noteq> length (key_chain rhs)
      then False
      else ops_eq (key_constants lhs = kBaked) (key_chain lhs) (key_chain rhs))"

definition hash_kernel_key :: "kernel_key \<Rightarrow> u64" where
  "hash_kernel_key key =
     (let keyed_by_params = (key_constants key = kBaked);
          state = hash_i32 kFnvOffsetBasis (int (length (key_chain key)));
          state = foldl (\<lambda>state op.
            let state = hash_byte state (word_of_nat (kind_index (kind op)))
            in if keyed_by_params then hash_i32 state (param_hundredths (param op)) else state)
            state (key_chain key);
          state = hash_i32 state (key_channels key);
          state = hash_byte state (tile_code (key_tile key));
          state = hash_i32 state (key_tile_size key)
      in hash_byte state (constants_code (key_constants key)))"

section \<open>The hash as a fold over a byte encoding\<close>

definition i32_bytes :: "int \<Rightarrow> u8 list" where
  "i32_bytes value = map (byte_of (word_of_int value :: u32)) [0, 8, 16, 24]"

definition op_key_bytes :: "bool \<Rightarrow> chain_op \<Rightarrow> u8 list" where
  "op_key_bytes keyed op =
     word_of_nat (kind_index (kind op)) # (if keyed then i32_bytes (param_hundredths (param op)) else [])"

definition key_bytes :: "kernel_key \<Rightarrow> u8 list" where
  "key_bytes key =
     i32_bytes (int (length (key_chain key))) @
     concat (map (op_key_bytes (key_constants key = kBaked)) (key_chain key)) @
     i32_bytes (key_channels key) @ [tile_code (key_tile key)] @
     i32_bytes (key_tile_size key) @ [constants_code (key_constants key)]"

lemma hash_i32_bytes: "hash_i32 state value = foldl hash_byte state (i32_bytes value)"
  by (simp add: hash_i32_def i32_bytes_def Let_def)

lemma hash_ops_bytes:
  "foldl (\<lambda>state op.
       let state = hash_byte state (word_of_nat (kind_index (kind op)))
       in if keyed then hash_i32 state (param_hundredths (param op)) else state) state ops =
   foldl hash_byte state (concat (map (op_key_bytes keyed) ops))"
proof (induction ops arbitrary: state)
  case (Cons op ops)
  show ?case unfolding foldl_Cons list.map concat.simps foldl_append Cons.IH
    by (simp add: op_key_bytes_def Let_def hash_i32_bytes)
qed simp

lemma hash_is_fold: "hash_kernel_key key = foldl hash_byte kFnvOffsetBasis (key_bytes key)"
  unfolding hash_kernel_key_def key_bytes_def Let_def hash_i32_bytes
    hash_ops_bytes [unfolded Let_def hash_i32_bytes]
  by simp

lemma i32_bytes_length [simp]: "length (i32_bytes v) = 4"
  by (simp add: i32_bytes_def)

lemma i32_bytes_inj: "i32_bytes v = i32_bytes w \<longleftrightarrow> (word_of_int v :: u32) = word_of_int w"
proof
  assume "i32_bytes v = i32_bytes w"
  then show "(word_of_int v :: u32) = word_of_int w"
    unfolding i32_bytes_def by (simp del: word_of_int_eq_iff) (metis join_bytes_32)
qed (simp add: i32_bytes_def)

definition int32_range :: "int \<Rightarrow> bool" where
  "int32_range v \<longleftrightarrow> - (2 ^ 31) \<le> v \<and> v < 2 ^ 31"

lemma word_of_int32_inj: "int32_range v \<Longrightarrow> int32_range w \<Longrightarrow> (word_of_int v :: u32) = word_of_int w \<longleftrightarrow> v = w"
proof -
  have "sint (word_of_int v :: u32) = v" if "int32_range v" for v
    using that by (simp add: int32_range_def signed_of_int signed_take_bit_int_eq_self)
  then show "int32_range v \<Longrightarrow> int32_range w \<Longrightarrow> (word_of_int v :: u32) = word_of_int w \<longleftrightarrow> v = w" by metis
qed

lemma param_hundredths_range: "int32_range (param_hundredths p)"
  using sint_range_size [of "word_of_int (lround (dmul p 100)) :: u32"]
  by (simp add: int32_range_def param_hundredths_def word_size)

lemma op_key_bytes_length [simp]: "length (op_key_bytes keyed op) = (if keyed then 5 else 1)"
  by (simp add: op_key_bytes_def)

lemma kind_code_inj: "(word_of_nat (kind_index k) :: u8) = word_of_nat (kind_index k') \<longleftrightarrow> k = k'"
  by (cases k; cases k'; simp)

lemma op_key_bytes_inj:
  "op_key_bytes keyed a = op_key_bytes keyed b \<longleftrightarrow>
     kind a = kind b \<and> (keyed \<longrightarrow> param_hundredths (param a) = param_hundredths (param b))"
  by (auto simp: op_key_bytes_def kind_code_inj i32_bytes_inj word_of_int32_inj param_hundredths_range
      simp del: word_of_int_eq_iff)

lemma ops_eq_all2:
  "length ls = length rs \<Longrightarrow>
   ops_eq keyed ls rs \<longleftrightarrow> list_all2 (\<lambda>a b. op_key_bytes keyed a = op_key_bytes keyed b) ls rs"
  by (induction keyed ls rs rule: ops_eq.induct) (auto simp: op_key_bytes_inj)

lemma concat_op_bytes_inj:
  "length ls = length rs \<Longrightarrow>
   concat (map (op_key_bytes keyed) ls) = concat (map (op_key_bytes keyed) rs) \<longleftrightarrow>
   list_all2 (\<lambda>a b. op_key_bytes keyed a = op_key_bytes keyed b) ls rs"
  by (induction ls rs rule: list_induct2) auto

lemma concat_op_bytes_length:
  "length (concat (map (op_key_bytes keyed) ops)) = (if keyed then 5 else 1) * length ops"
  by (induction ops) auto

lemma key_eq_iff:
  "key_eq a b \<longleftrightarrow>
     key_channels a = key_channels b \<and> key_tile a = key_tile b \<and> key_tile_size a = key_tile_size b \<and>
     key_constants a = key_constants b \<and>
     list_all2 (\<lambda>l r. op_key_bytes (key_constants a = kBaked) l = op_key_bytes (key_constants a = kBaked) r)
       (key_chain a) (key_chain b)"
  using ops_eq_all2 [of "key_chain a" "key_chain b"] list_all2_lengthD by (auto simp: key_eq_def)

lemma key_eq_bytes:
  assumes "key_eq a b"
  shows "key_bytes a = key_bytes b"
proof -
  have e: "list_all2 (\<lambda>l r. op_key_bytes (key_constants a = kBaked) l = op_key_bytes (key_constants a = kBaked) r)
       (key_chain a) (key_chain b)" using assms unfolding key_eq_iff by blast
  note len = list_all2_lengthD [OF e]
  with e concat_op_bytes_inj [OF len] assms show ?thesis by (simp add: key_eq_iff key_bytes_def)
qed

text \<open>
  No two different keys share an encoding. The sizes the program stores in an \<open>int32_t\<close> are
  assumed to fit.
\<close>

definition key_fits :: "kernel_key \<Rightarrow> bool" where
  "key_fits key \<longleftrightarrow> length (key_chain key) < 2 ^ 31 \<and> int32_range (key_channels key) \<and>
     int32_range (key_tile_size key)"

lemma tile_code_inj: "tile_code s = tile_code t \<longleftrightarrow> s = t"
  by (cases s; cases t; simp add: tile_code_def)

lemma constants_code_inj: "constants_code s = constants_code t \<longleftrightarrow> s = t"
  by (cases s; cases t; simp add: constants_code_def)

lemma i32_bytes_eq: "int32_range v \<Longrightarrow> int32_range w \<Longrightarrow> i32_bytes v = i32_bytes w \<longleftrightarrow> v = w"
  by (simp only: i32_bytes_inj word_of_int32_inj)

lemma key_bytes_eq:
  assumes "key_fits a" "key_fits b" "key_bytes a = key_bytes b"
  shows "key_eq a b"
proof -
  define opsa where "opsa = concat (map (op_key_bytes (key_constants a = kBaked)) (key_chain a))"
  define opsb where "opsb = concat (map (op_key_bytes (key_constants b = kBaked)) (key_chain b))"
  have eq: "i32_bytes (int (length (key_chain a))) = i32_bytes (int (length (key_chain b)))"
    "opsa @ i32_bytes (key_channels a) @ [tile_code (key_tile a)] @ i32_bytes (key_tile_size a) @
       [constants_code (key_constants a)] =
     opsb @ i32_bytes (key_channels b) @ [tile_code (key_tile b)] @ i32_bytes (key_tile_size b) @
       [constants_code (key_constants b)]"
    using assms(3) unfolding key_bytes_def opsa_def opsb_def by simp_all
  have "int32_range (int (length (key_chain a)))" "int32_range (int (length (key_chain b)))"
    using assms(1,2) by (simp_all add: key_fits_def int32_range_def)
  with eq(1) have len: "length (key_chain a) = length (key_chain b)" by (simp add: i32_bytes_eq)
  have "last (opsa @ i32_bytes (key_channels a) @ [tile_code (key_tile a)] @ i32_bytes (key_tile_size a) @
       [constants_code (key_constants a)]) = constants_code (key_constants a)" by simp
  then have const: "key_constants a = key_constants b"
    unfolding eq(2) by (simp add: constants_code_inj)
  then have "length opsa = length opsb" unfolding opsa_def opsb_def concat_op_bytes_length len by simp
  with eq(2) have "opsa = opsb" and rest: "i32_bytes (key_channels a) = i32_bytes (key_channels b)"
      "tile_code (key_tile a) = tile_code (key_tile b)" "i32_bytes (key_tile_size a) = i32_bytes (key_tile_size b)"
    by simp_all
  then have "list_all2 (\<lambda>l r. op_key_bytes (key_constants a = kBaked) l = op_key_bytes (key_constants a = kBaked) r)
       (key_chain a) (key_chain b)"
    unfolding opsa_def opsb_def using concat_op_bytes_inj [OF len] const by simp
  with rest const assms(1,2) show ?thesis
    by (simp add: key_eq_iff i32_bytes_eq key_fits_def tile_code_inj)
qed

section \<open>Keys in a hash table\<close>

locale hashed_key =
  fixes eq :: "'k \<Rightarrow> 'k \<Rightarrow> bool" and hash :: "'k \<Rightarrow> 'h"
  assumes eq_refl: "eq a a"
    and eq_sym: "eq a b \<Longrightarrow> eq b a"
    and eq_trans: "eq a b \<Longrightarrow> eq b c \<Longrightarrow> eq a c"
    and eq_hash: "eq a b \<Longrightarrow> hash a = hash b"
begin

text \<open>Searching only the bucket of the key finds what a search of all entries finds.\<close>

lemma bucket_search:
  "find (\<lambda>(k, v). hash k = hash key \<and> eq k key) entries = find (\<lambda>(k, v). eq k key) entries"
  by (induction entries) (auto dest: eq_hash)

text \<open>Equal keys find the same entry.\<close>

lemma lookup_eq: "eq a b \<Longrightarrow> find (\<lambda>(k, v). eq k a) entries = find (\<lambda>(k, v). eq k b) entries"
  by (rule find_cong) (auto dest: eq_trans eq_sym)

text \<open>Inserting under a key that was not found changes the lookup of exactly the equal keys.\<close>

lemma lookup_insert:
  assumes "find (\<lambda>(k, v). eq k key) entries = None"
  shows "find (\<lambda>(k, v). eq k q) (entries @ [(key, e)]) =
     (if eq key q then Some (key, e) else find (\<lambda>(k, v). eq k q) entries)"
proof (cases "eq key q")
  case True
  then have "find (\<lambda>(k, v). eq k q) entries = None" using assms lookup_eq by metis
  with True show ?thesis by (induction entries) (auto split: if_splits)
next
  case False
  then show ?thesis by (induction entries) auto
qed

end

lemma key_eq_refl: "key_eq a a"
  by (simp add: key_eq_iff list_all2_refl)

lemma key_eq_sym: "key_eq a b \<Longrightarrow> key_eq b a"
  by (auto simp: key_eq_iff list_all2_conv_all_nth)

lemma key_eq_trans: "key_eq a b \<Longrightarrow> key_eq b c \<Longrightarrow> key_eq a c"
  by (auto simp: key_eq_iff list_all2_conv_all_nth)

lemma key_eq_hash: "key_eq a b \<Longrightarrow> hash_kernel_key a = hash_kernel_key b"
  by (simp add: hash_is_fold key_eq_bytes)

interpretation kernel_keys: hashed_key key_eq hash_kernel_key
  by unfold_locales (blast intro: key_eq_refl key_eq_sym key_eq_trans key_eq_hash)+

section \<open>Keys of canonical chains\<close>

lemma param_hundredths_canonical:
  assumes "canonical_op a" "canonical_op b" "kind a = kind b"
    "param_hundredths (param a) = param_hundredths (param b)"
  shows "a = b"
proof (cases "takes_param (spec_of (kind a))")
  case True
  obtain j where j: "\<bar>j\<bar> \<le> 400" "param a = f32 (of_int j / 100)"
    using canonical_hundredths [OF assms(1) True] .
  obtain k where k: "\<bar>k\<bar> \<le> 400" "param b = f32 (of_int k / 100)"
    using canonical_hundredths [OF assms(2)] True assms(3) by auto
  have "int32_range j" "int32_range k" using j(1) k(1) by (auto simp: int32_range_def)
  moreover have "(word_of_int j :: u32) = word_of_int k"
    using assms(4) j k by (simp add: param_hundredths_def hundredths_readback signed_word_eqI)
  ultimately have "j = k" by (simp only: word_of_int32_inj)
  with j k assms(3) show ?thesis by simp
next
  case False
  with assms(1-3) show ?thesis by (simp add: canonical_op_def Let_def)
qed

section \<open>Properties\<close>

text \<open>
  C36: Equality and hash of kernel keys agree, and the hash loses nothing before mixing:
  \<open>operator==\<close> is an equivalence, the hash is an FNV-style fold over a byte encoding of the key,
  and two keys whose sizes fit an \<open>int32_t\<close> are equal exactly when their encodings are. So equal keys
  hash alike, and a collision can only come from the 64-bit mixing.
\<close>

theorem key_hash_contract:
  shows "equivp key_eq \<and> hash_kernel_key a = foldl hash_byte kFnvOffsetBasis (key_bytes a) \<and>
    (key_eq a b \<longrightarrow> hash_kernel_key a = hash_kernel_key b) \<and>
    (key_fits a \<longrightarrow> key_fits b \<longrightarrow> (key_bytes a = key_bytes b \<longleftrightarrow> key_eq a b))"
proof (intro conjI impI)
  show "equivp key_eq"
    by (intro equivpI reflpI sympI transpI) (blast intro: key_eq_refl key_eq_sym key_eq_trans)+
qed (blast intro: hash_is_fold key_eq_hash key_eq_bytes key_bytes_eq)+

abbreviation sample_key :: "rat \<Rightarrow> constants_mode \<Rightarrow> kernel_key" where
  "sample_key p m \<equiv> \<lparr>key_chain = [\<lparr>kind = kGaussian, param = p\<rparr>], key_channels = 3, key_tile = kNaive,
     key_tile_size = 0, key_constants = m\<rparr>"

theorem key_hash_contract_witness:
  "hash_kernel_key (sample_key 1 kParameterized) = hash_kernel_key (sample_key 3 kParameterized)"
proof -
  have "key_eq (sample_key 1 kParameterized) (sample_key 3 kParameterized)" by (simp add: key_eq_def)
  with key_hash_contract [of "sample_key 1 kParameterized" "sample_key 3 kParameterized"] show ?thesis by blast
qed

text \<open>
  On canonical chains the key says exactly what the generated kernel may depend on: baked keys are
  equal only when the whole chain is (parameters included), parameterized keys exactly when the op
  kinds agree in order.
\<close>

lemma key_eq_on_canonical_chains:
  assumes "canonical_chain (key_chain a)" "canonical_chain (key_chain b)"
  shows "key_eq a b \<longleftrightarrow>
     key_channels a = key_channels b \<and> key_tile a = key_tile b \<and> key_tile_size a = key_tile_size b \<and>
     key_constants a = key_constants b \<and>
     (case key_constants a of kBaked \<Rightarrow> key_chain a = key_chain b
      | kParameterized \<Rightarrow> map kind (key_chain a) = map kind (key_chain b))"
proof (cases "key_constants a")
  case kBaked
  have "list_all2 (\<lambda>l r. op_key_bytes True l = op_key_bytes True r) (key_chain a) (key_chain b) \<longleftrightarrow>
      key_chain a = key_chain b" (is "?L \<longleftrightarrow> ?R")
  proof
    assume ?L
    then have "list_all2 (=) (key_chain a) (key_chain b)"
      by (rule list.rel_mono_strong) (use assms in \<open>auto simp: op_key_bytes_inj intro: param_hundredths_canonical\<close>)
    then show ?R by (simp add: list.rel_eq)
  qed (simp add: list_all2_refl)
  with kBaked show ?thesis by (auto simp: key_eq_iff)
next
  case kParameterized
  have "list_all2 (\<lambda>l r. op_key_bytes False l = op_key_bytes False r) xs ys \<longleftrightarrow> map kind xs = map kind ys" for xs ys
    by (induction xs ys rule: list_induct2') (auto simp: op_key_bytes_inj)
  with kParameterized show ?thesis by (auto simp: key_eq_iff)
qed

end
