(* ===== verification/Protocol.thy ===== *)
theory Protocol
  imports Image_Core
begin

text \<open>
  The wire protocol as pure functions (\<open>include/imgjit/net/protocol.h\<close>,
  \<open>src/net/protocol.cpp\<close>): little-endian packing of the two headers, unpacking, validation
  of a request header and the disposition of every status. The locale \<open>wire_codec\<close> states
  what a reader and a writer of fixed-size headers rely on; both headers interpret it.
\<close>

section \<open>Constants, statuses and headers\<close>

definition kMagic :: u32 where "kMagic = 0xDEADBEEF"
definition kVersion :: u8 where "kVersion = 1"
definition kRequestHeaderBytes :: nat where "kRequestHeaderBytes = 25"
definition kResponseHeaderBytes :: nat where "kResponseHeaderBytes = 23"
definition kMaxPayloadBytes :: u32 where "kMaxPayloadBytes = 64 * 1024 * 1024"
definition kMaxChainLen :: u16 where "kMaxChainLen = 256"
definition kFlagEcho :: u8 where "kFlagEcho = push_bit 0 1"
definition kFlagServerWrite :: u8 where "kFlagServerWrite = push_bit 1 1"

text \<open>
  \<open>enum class Status : uint8_t\<close> holds any byte a peer sends, so a status is a byte and the
  enumerators are names for seven of them.
\<close>

type_synonym status = u8

definition kOk :: status where "kOk = 0"
definition kBadMagic :: status where "kBadMagic = 1"
definition kUnsupportedVersion :: status where "kUnsupportedVersion = 2"
definition kPayloadTooLarge :: status where "kPayloadTooLarge = 3"
definition kBadChain :: status where "kBadChain = 4"
definition kLengthMismatch :: status where "kLengthMismatch = 5"
definition kInternalError :: status where "kInternalError = 6"

lemmas status_defs = kOk_def kBadMagic_def kUnsupportedVersion_def kPayloadTooLarge_def
  kBadChain_def kLengthMismatch_def kInternalError_def

datatype disposition = kContinue | kDrain | kClose

record request_header =
  rq_magic :: u32
  rq_version :: u8
  rq_flags :: u8
  rq_seq_num :: u32
  rq_width :: u32
  rq_height :: u32
  rq_channels :: u8
  rq_payload_len :: u32
  rq_chain_len :: u16

record response_header =
  rs_magic :: u32
  rs_version :: u8
  rs_status :: status
  rs_seq_num :: u32
  rs_width :: u32
  rs_height :: u32
  rs_channels :: u8
  rs_payload_len :: u32

record limits =
  max_payload_bytes :: u32
  max_chain_len :: u16

definition default_limits :: limits where
  "default_limits = \<lparr>max_payload_bytes = kMaxPayloadBytes, max_chain_len = kMaxChainLen\<rparr>"

section \<open>Packing and unpacking\<close>

text \<open>\<open>put_*(out.data() + offset, value)\<close> on the array \<open>out\<close>.\<close>

definition put_u8 :: "nat \<Rightarrow> u8 \<Rightarrow> u8 list \<Rightarrow> u8 list" where
  "put_u8 offset value out = out[offset := value]"

definition put_u16 :: "nat \<Rightarrow> u16 \<Rightarrow> u8 list \<Rightarrow> u8 list" where
  "put_u16 offset value out = out[offset := byte_of value 0, offset + 1 := byte_of value 8]"

definition put_u32 :: "nat \<Rightarrow> u32 \<Rightarrow> u8 list \<Rightarrow> u8 list" where
  "put_u32 offset value out =
     out[offset := byte_of value 0, offset + 1 := byte_of value 8,
         offset + 2 := byte_of value 16, offset + 3 := byte_of value 24]"

definition get_u8 :: "u8 list \<Rightarrow> nat \<Rightarrow> u8" where
  "get_u8 bytes offset = bytes ! offset"

definition get_u16 :: "u8 list \<Rightarrow> nat \<Rightarrow> u16" where
  "get_u16 bytes offset = ucast (get_u8 bytes offset) OR push_bit 8 (ucast (get_u8 bytes (offset + 1)))"

definition get_u32 :: "u8 list \<Rightarrow> nat \<Rightarrow> u32" where
  "get_u32 bytes offset =
     ucast (get_u8 bytes offset) OR push_bit 8 (ucast (get_u8 bytes (offset + 1))) OR
     push_bit 16 (ucast (get_u8 bytes (offset + 2))) OR push_bit 24 (ucast (get_u8 bytes (offset + 3)))"

definition disposition_for :: "status \<Rightarrow> disposition" where
  "disposition_for status =
     (if status = kOk \<or> status = kInternalError then kContinue
      else if status = kBadChain \<or> status = kLengthMismatch then kDrain
      else kClose)"

definition status_message :: "status \<Rightarrow> string" where
  "status_message status =
     (if status = kOk then ''ok''
      else if status = kBadMagic then ''bad magic''
      else if status = kUnsupportedVersion then ''unsupported version''
      else if status = kPayloadTooLarge then ''payload exceeds the configured maximum''
      else if status = kBadChain then ''op chain too long or malformed''
      else if status = kLengthMismatch then ''payload length does not match width * height * channels''
      else if status = kInternalError then ''internal error''
      else ''unknown status'')"

definition encode_request_header :: "request_header \<Rightarrow> u8 list" where
  "encode_request_header header =
     (let out = replicate kRequestHeaderBytes 0;
          out = put_u32 0 (rq_magic header) out;
          out = put_u8 4 (rq_version header) out;
          out = put_u8 5 (rq_flags header) out;
          out = put_u32 6 (rq_seq_num header) out;
          out = put_u32 10 (rq_width header) out;
          out = put_u32 14 (rq_height header) out;
          out = put_u8 18 (rq_channels header) out;
          out = put_u32 19 (rq_payload_len header) out
      in put_u16 23 (rq_chain_len header) out)"

definition encode_response_header :: "response_header \<Rightarrow> u8 list" where
  "encode_response_header header =
     (let out = replicate kResponseHeaderBytes 0;
          out = put_u32 0 (rs_magic header) out;
          out = put_u8 4 (rs_version header) out;
          out = put_u8 5 (rs_status header) out;
          out = put_u32 6 (rs_seq_num header) out;
          out = put_u32 10 (rs_width header) out;
          out = put_u32 14 (rs_height header) out;
          out = put_u8 18 (rs_channels header) out
      in put_u32 19 (rs_payload_len header) out)"

text \<open>\<open>None\<close> as the byte pointer is \<open>nullptr\<close>.\<close>

definition decode_request_header :: "u8 list option \<Rightarrow> nat \<Rightarrow> request_header option" where
  "decode_request_header pointer n =
     (case pointer of
        None \<Rightarrow> None
      | Some bytes \<Rightarrow>
          if n \<noteq> kRequestHeaderBytes then None
          else Some \<lparr>rq_magic = get_u32 bytes 0, rq_version = get_u8 bytes 4, rq_flags = get_u8 bytes 5,
                     rq_seq_num = get_u32 bytes 6, rq_width = get_u32 bytes 10, rq_height = get_u32 bytes 14,
                     rq_channels = get_u8 bytes 18, rq_payload_len = get_u32 bytes 19,
                     rq_chain_len = get_u16 bytes 23\<rparr>)"

definition decode_response_header :: "u8 list option \<Rightarrow> nat \<Rightarrow> response_header option" where
  "decode_response_header pointer n =
     (case pointer of
        None \<Rightarrow> None
      | Some bytes \<Rightarrow>
          if n \<noteq> kResponseHeaderBytes then None
          else Some \<lparr>rs_magic = get_u32 bytes 0, rs_version = get_u8 bytes 4, rs_status = get_u8 bytes 5,
                     rs_seq_num = get_u32 bytes 6, rs_width = get_u32 bytes 10, rs_height = get_u32 bytes 14,
                     rs_channels = get_u8 bytes 18, rs_payload_len = get_u32 bytes 19\<rparr>)"

definition dimension_product :: "request_header \<Rightarrow> u64" where
  "dimension_product header = ucast (rq_width header) * ucast (rq_height header) * ucast (rq_channels header)"

definition validate_request_header :: "request_header \<Rightarrow> limits \<Rightarrow> status" where
  "validate_request_header header limits =
     (if rq_magic header \<noteq> kMagic then kBadMagic
      else if rq_version header \<noteq> kVersion then kUnsupportedVersion
      else if rq_payload_len header > max_payload_bytes limits then kPayloadTooLarge
      else if rq_chain_len header > max_chain_len limits then kBadChain
      else if \<not> is_supported_channel_count (uint (rq_channels header)) \<or> rq_width header = 0 \<or> rq_height header = 0
      then kLengthMismatch
      else if dimension_product header \<noteq> ucast (rq_payload_len header) then kLengthMismatch
      else kOk)"

section \<open>Fixed-size header codecs\<close>

locale wire_codec =
  fixes encode :: "'h \<Rightarrow> u8 list" and decode :: "u8 list \<Rightarrow> 'h option" and hsize :: nat
  assumes encode_size: "length (encode h) = hsize"
    and decode_encode: "decode (encode h) = Some h"
    and decode_size: "decode bytes = None \<longleftrightarrow> length bytes \<noteq> hsize"
    and encode_decode: "decode bytes = Some h \<Longrightarrow> encode h = bytes"
begin

lemma encode_inject: "encode g = encode h \<longleftrightarrow> g = h"
  using decode_encode by (metis option.inject)

text \<open>A stream that starts with an encoded header yields that header and the rest of the stream.\<close>

lemma decode_prefix:
  "decode (take hsize (encode h @ rest)) = Some h" "drop hsize (encode h @ rest) = rest"
  using encode_size [of h] decode_encode by simp_all

text \<open>Every block of the right size is the encoding of exactly one header.\<close>

lemma decode_bijective:
  assumes "length bytes = hsize"
  shows "\<exists>!h. decode bytes = Some h \<and> encode h = bytes"
proof -
  obtain h where "decode bytes = Some h" using decode_size [of bytes] assms by (cases "decode bytes") auto
  with encode_decode show ?thesis by (intro ex1I [of _ h]) auto
qed

end

lemmas put_defs = put_u8_def put_u16_def put_u32_def
lemmas get_defs = get_u8_def get_u16_def get_u32_def

lemma encode_request_bytes:
  "encode_request_header h =
     map (byte_of (rq_magic h)) [0, 8, 16, 24] @ [rq_version h, rq_flags h] @
     map (byte_of (rq_seq_num h)) [0, 8, 16, 24] @ map (byte_of (rq_width h)) [0, 8, 16, 24] @
     map (byte_of (rq_height h)) [0, 8, 16, 24] @ [rq_channels h] @
     map (byte_of (rq_payload_len h)) [0, 8, 16, 24] @ map (byte_of (rq_chain_len h)) [0, 8]"
  by (simp add: encode_request_header_def Let_def put_defs kRequestHeaderBytes_def eval_nat_numeral)

lemma encode_response_bytes:
  "encode_response_header h =
     map (byte_of (rs_magic h)) [0, 8, 16, 24] @ [rs_version h, rs_status h] @
     map (byte_of (rs_seq_num h)) [0, 8, 16, 24] @ map (byte_of (rs_width h)) [0, 8, 16, 24] @
     map (byte_of (rs_height h)) [0, 8, 16, 24] @ [rs_channels h] @
     map (byte_of (rs_payload_len h)) [0, 8, 16, 24]"
  by (simp add: encode_response_header_def Let_def put_defs kResponseHeaderBytes_def eval_nat_numeral)

abbreviation decode_request :: "u8 list \<Rightarrow> request_header option" where
  "decode_request bytes \<equiv> decode_request_header (Some bytes) (length bytes)"

abbreviation decode_response :: "u8 list \<Rightarrow> response_header option" where
  "decode_response bytes \<equiv> decode_response_header (Some bytes) (length bytes)"

lemma get_u32_join:
  "bs ! k = byte_of v 0 \<Longrightarrow> bs ! (k + 1) = byte_of v 8 \<Longrightarrow> bs ! (k + 2) = byte_of v 16 \<Longrightarrow>
   bs ! (k + 3) = byte_of v 24 \<Longrightarrow> get_u32 bs k = v"
  by (simp only: get_u32_def get_u8_def join_bytes_32)

lemma get_u16_join: "bs ! k = byte_of v 0 \<Longrightarrow> bs ! (k + 1) = byte_of v 8 \<Longrightarrow> get_u16 bs k = v"
  by (simp only: get_u16_def get_u8_def join_bytes_16)

lemma bytes_get_u32:
  "map (byte_of (get_u32 bs k)) [0, 8, 16, 24] = [bs ! k, bs ! (k + 1), bs ! (k + 2), bs ! (k + 3)]"
  by (simp only: get_u32_def get_u8_def split_join_32 list.map)

lemma bytes_get_u16: "map (byte_of (get_u16 bs k)) [0, 8] = [bs ! k, bs ! (k + 1)]"
  by (simp only: get_u16_def get_u8_def split_join_16 list.map)

lemma request_decode_encode: "decode_request (encode_request_header h) = Some h"
proof -
  define bs where "bs = encode_request_header h"
  have "length bs = kRequestHeaderBytes" by (simp add: bs_def encode_request_bytes kRequestHeaderBytes_def)
  moreover have "get_u32 bs 0 = rq_magic h" "get_u32 bs 6 = rq_seq_num h" "get_u32 bs 10 = rq_width h"
    "get_u32 bs 14 = rq_height h" "get_u32 bs 19 = rq_payload_len h" "get_u16 bs 23 = rq_chain_len h"
    by (rule get_u32_join get_u16_join; simp add: bs_def encode_request_bytes)+
  moreover have "get_u8 bs 4 = rq_version h" "get_u8 bs 5 = rq_flags h" "get_u8 bs 18 = rq_channels h"
    by (simp_all add: get_u8_def bs_def encode_request_bytes)
  ultimately show ?thesis unfolding bs_def [symmetric] by (simp add: decode_request_header_def)
qed

lemma response_decode_encode: "decode_response (encode_response_header h) = Some h"
proof -
  define bs where "bs = encode_response_header h"
  have "length bs = kResponseHeaderBytes" by (simp add: bs_def encode_response_bytes kResponseHeaderBytes_def)
  moreover have "get_u32 bs 0 = rs_magic h" "get_u32 bs 6 = rs_seq_num h" "get_u32 bs 10 = rs_width h"
    "get_u32 bs 14 = rs_height h" "get_u32 bs 19 = rs_payload_len h"
    by (rule get_u32_join; simp add: bs_def encode_response_bytes)+
  moreover have "get_u8 bs 4 = rs_version h" "get_u8 bs 5 = rs_status h" "get_u8 bs 18 = rs_channels h"
    by (simp_all add: get_u8_def bs_def encode_response_bytes)
  ultimately show ?thesis unfolding bs_def [symmetric] by (simp add: decode_response_header_def)
qed

lemma request_encode_decode:
  assumes "decode_request bs = Some h"
  shows "encode_request_header h = bs"
proof -
  have len: "length bs = 25"
    using assms by (auto simp: decode_request_header_def kRequestHeaderBytes_def split: if_splits)
  have "bs = map ((!) bs) [0..<25]" using map_nth [of bs] len by simp
  moreover have "encode_request_header h = map ((!) bs) [0..<25]"
    using assms len unfolding encode_request_bytes decode_request_header_def
    by (auto simp del: list.map simp: bytes_get_u32 bytes_get_u16 kRequestHeaderBytes_def get_u8_def) (simp add: upt_rec eval_nat_numeral)
  ultimately show ?thesis by simp
qed

lemma response_encode_decode:
  assumes "decode_response bs = Some h"
  shows "encode_response_header h = bs"
proof -
  have len: "length bs = 23"
    using assms by (auto simp: decode_response_header_def kResponseHeaderBytes_def split: if_splits)
  have "bs = map ((!) bs) [0..<23]" using map_nth [of bs] len by simp
  moreover have "encode_response_header h = map ((!) bs) [0..<23]"
    using assms len unfolding encode_response_bytes decode_response_header_def
    by (auto simp del: list.map simp: bytes_get_u32 kResponseHeaderBytes_def get_u8_def) (simp add: upt_rec eval_nat_numeral)
  ultimately show ?thesis by simp
qed

interpretation request_codec: wire_codec encode_request_header decode_request kRequestHeaderBytes
  by unfold_locales
    (simp_all add: request_decode_encode request_encode_decode,
     auto simp: encode_request_bytes decode_request_header_def kRequestHeaderBytes_def)

interpretation response_codec: wire_codec encode_response_header decode_response kResponseHeaderBytes
  by unfold_locales
    (simp_all add: response_decode_encode response_encode_decode,
     auto simp: encode_response_bytes decode_response_header_def kResponseHeaderBytes_def)

section \<open>Validation\<close>

lemma unat_ucast_up: "LENGTH('a::len) \<le> LENGTH('b::len) \<Longrightarrow> unat (ucast (w :: 'a word) :: 'b word) = unat w"
  by (simp add: unsigned_ucast_eq take_bit_nat_eq_self_iff) (meson order_less_le_trans power_increasing one_le_numeral unsigned_less)

lemma dimension_product_mod:
  "unat (dimension_product h) =
     (unat (rq_width h) * unat (rq_height h) * unat (rq_channels h)) mod 2 ^ 64"
  by (simp add: dimension_product_def unat_word_ariths unat_ucast_up mod_mult_left_eq)

lemma dimension_product_exact:
  assumes "unat (rq_width h) < 2 ^ 31" "unat (rq_height h) < 2 ^ 31" "unat (rq_channels h) \<le> 4"
  shows "unat (dimension_product h) = unat (rq_width h) * unat (rq_height h) * unat (rq_channels h)"
proof -
  have "unat (rq_width h) * unat (rq_height h) \<le> (2 ^ 31 - 1) * (2 ^ 31 - 1)"
    using assms(1,2) by (intro mult_le_mono) auto
  then have "unat (rq_width h) * unat (rq_height h) * unat (rq_channels h) \<le> (2 ^ 31 - 1) * (2 ^ 31 - 1) * 4"
    using assms(3) by (rule mult_le_mono)
  then show ?thesis unfolding dimension_product_mod by (intro mod_less) simp
qed

lemma supported_channels: "is_supported_channel_count (uint (c :: u8)) \<longleftrightarrow> c \<in> {1, 3, 4}"
  by (simp add: is_supported_channel_count_def word_uint_eq_iff)

lemma supported_channels_small: "is_supported_channel_count (uint (c :: u8)) \<Longrightarrow> unat c \<le> 4"
  by (auto simp: supported_channels)

lemma validate_ok_iff:
  "validate_request_header h l = kOk \<longleftrightarrow>
     rq_magic h = kMagic \<and> rq_version h = kVersion \<and>
     rq_payload_len h \<le> max_payload_bytes l \<and> rq_chain_len h \<le> max_chain_len l \<and>
     is_supported_channel_count (uint (rq_channels h)) \<and> rq_width h \<noteq> 0 \<and> rq_height h \<noteq> 0 \<and>
     dimension_product h = ucast (rq_payload_len h)"
  unfolding validate_request_header_def status_defs not_less [symmetric] by simp

lemma product_matches:
  "dimension_product h = ucast (rq_payload_len h) \<longleftrightarrow>
     (unat (rq_width h) * unat (rq_height h) * unat (rq_channels h)) mod 2 ^ 64 = unat (rq_payload_len h)"
proof -
  have "unat (ucast (rq_payload_len h) :: u64) = unat (rq_payload_len h)" by (simp add: unat_ucast_up)
  then show ?thesis using dimension_product_mod [of h] by (simp add: word_eq_iff_unsigned [where 'a = nat])
qed

section \<open>Properties\<close>



text \<open>
  C29: A header is accepted exactly when its magic and version match, its two lengths are within the
  limits, its shape is legal and its 64-bit dimension product equals \<open>payload_len\<close>; when both
  dimensions are below 2 to the 31, the range of the \<open>int\<close> they are stored in, that product is the
  true number of bytes of the image.
\<close>

theorem validate_accepts:
  "validate_request_header h l = kOk \<longleftrightarrow>
     rq_magic h = kMagic \<and> rq_version h = kVersion \<and>
     rq_payload_len h \<le> max_payload_bytes l \<and> rq_chain_len h \<le> max_chain_len l \<and>
     rq_channels h \<in> {1, 3, 4} \<and> rq_width h \<noteq> 0 \<and> rq_height h \<noteq> 0 \<and>
     (if unat (rq_width h) < 2 ^ 31 \<and> unat (rq_height h) < 2 ^ 31
      then unat (rq_width h) * unat (rq_height h) * unat (rq_channels h) = unat (rq_payload_len h)
      else (unat (rq_width h) * unat (rq_height h) * unat (rq_channels h)) mod 2 ^ 64 = unat (rq_payload_len h))"
proof (cases "rq_channels h \<in> {1, 3, 4}")
  case True
  then have "dimension_product h = ucast (rq_payload_len h) \<longleftrightarrow>
      (if unat (rq_width h) < 2 ^ 31 \<and> unat (rq_height h) < 2 ^ 31
       then unat (rq_width h) * unat (rq_height h) * unat (rq_channels h) = unat (rq_payload_len h)
       else (unat (rq_width h) * unat (rq_height h) * unat (rq_channels h)) mod 2 ^ 64 = unat (rq_payload_len h))"
    using dimension_product_exact [of h] dimension_product_mod [of h] product_matches [of h]
      supported_channels_small [of "rq_channels h"] supported_channels by auto
  with True show ?thesis by (simp only: validate_ok_iff supported_channels simp_thms)
qed (simp only: validate_ok_iff supported_channels simp_thms)

text \<open>
  The 64-bit product can still wrap. A request for a 2147483648 x 2147483648 RGBA image with an
  empty payload has the true product 2 to the 66, which is 0 modulo 2 to the 64, and passes validation
  under the default limits although its payload does not match its dimensions.
\<close>

lemma validate_accepts_wrapped_product:
  "let h = \<lparr>rq_magic = kMagic, rq_version = kVersion, rq_flags = 0, rq_seq_num = 1,
            rq_width = 2147483648, rq_height = 2147483648, rq_channels = 4, rq_payload_len = 0, rq_chain_len = 0\<rparr>
   in validate_request_header h default_limits = kOk \<and>
      unat (rq_width h) * unat (rq_height h) * unat (rq_channels h) \<noteq> unat (rq_payload_len h)"
  by (simp add: validate_request_header_def dimension_product_def default_limits_def kMaxPayloadBytes_def
      is_supported_channel_count_def status_defs)


end
