(* ===== verification/Slot_Pool.thy ===== *)
theory Slot_Pool
  imports Imgjit_Prelude
begin

text \<open>
  The frame-slot free list (\<open>include/imgjit/util/slot_pool.h\<close>, \<open>src/util/slot_pool.cpp\<close>).
  Every public operation runs under one mutex, so it is an atomic function of the pool's
  state. A call that parks on the condition variable returns \<open>Waits\<close>; the waiter's
  predicate and the code behind the wait run again as \<open>claim_resume\<close> when it is notified.
\<close>

datatype 'a blocking = Waits | Returns 'a

section \<open>State and operations\<close>

definition kNoOwner :: u64 where "kNoOwner = NOT 0"

record slot_pool =
  sp_base :: nat
  sp_count :: nat
  sp_bytes :: nat
  sp_per_owner_cap :: nat
  sp_free_list :: "nat list"
  sp_owner_of :: "u64 list"
  sp_held :: "u64 \<rightharpoonup> nat"
  sp_blocked_claims :: u64
  sp_closed :: bool

text \<open>The constructor; a base of \<open>None\<close> is \<open>nullptr\<close>. The free list is used from the back.\<close>

definition new_slot_pool :: "nat option \<Rightarrow> nat \<Rightarrow> nat \<Rightarrow> nat \<Rightarrow> slot_pool result" where
  "new_slot_pool base n bytes per_owner_cap =
     (case base of
        None \<Rightarrow> Inl (Invalid_argument ''SlotPool: needs a non-empty block of backing storage'')
      | Some b \<Rightarrow>
          if n = 0 \<or> bytes = 0
          then Inl (Invalid_argument ''SlotPool: needs a non-empty block of backing storage'')
          else Inr \<lparr>sp_base = b, sp_count = n, sp_bytes = bytes,
                    sp_per_owner_cap = (if per_owner_cap = 0 then n else per_owner_cap),
                    sp_free_list = rev [0..<n], sp_owner_of = replicate n kNoOwner,
                    sp_held = Map.empty, sp_blocked_claims = 0, sp_closed = False\<rparr>)"

definition can_claim :: "slot_pool \<Rightarrow> u64 \<Rightarrow> bool" where
  "can_claim pool owner \<longleftrightarrow>
     (if sp_free_list pool = [] then False
      else case sp_held pool owner of None \<Rightarrow> True | Some held \<Rightarrow> held < sp_per_owner_cap pool)"

text \<open>The part of \<open>claim\<close> after the wait.\<close>

definition claim_take :: "slot_pool \<Rightarrow> u64 \<Rightarrow> nat option \<times> slot_pool" where
  "claim_take pool owner =
     (if sp_closed pool then (None, pool)
      else let index = last (sp_free_list pool)
           in (Some index,
               pool\<lparr>sp_free_list := butlast (sp_free_list pool),
                    sp_owner_of := (sp_owner_of pool)[index := owner],
                    sp_held := (sp_held pool)(owner \<mapsto> (case sp_held pool owner of None \<Rightarrow> 0 | Some h \<Rightarrow> h) + 1)\<rparr>))"

definition claim :: "slot_pool \<Rightarrow> u64 \<Rightarrow> nat option blocking \<times> slot_pool" where
  "claim pool owner =
     (if \<not> sp_closed pool \<and> \<not> can_claim pool owner
      then (Waits, pool\<lparr>sp_blocked_claims := sp_blocked_claims pool + 1\<rparr>)
      else let (r, pool') = claim_take pool owner in (Returns r, pool'))"

definition claim_resume :: "slot_pool \<Rightarrow> u64 \<Rightarrow> nat option blocking \<times> slot_pool" where
  "claim_resume pool owner =
     (if sp_closed pool \<or> can_claim pool owner
      then let (r, pool') = claim_take pool owner in (Returns r, pool')
      else (Waits, pool))"

definition release :: "slot_pool \<Rightarrow> nat \<Rightarrow> slot_pool result" where
  "release pool index =
     (if sp_count pool \<le> index \<or> sp_owner_of pool ! index = kNoOwner
      then Inl (Logic_error ''SlotPool::release: slot is not currently claimed'')
      else let owner = sp_owner_of pool ! index;
               held = (case sp_held pool owner of
                         None \<Rightarrow> sp_held pool
                       | Some h \<Rightarrow> if h - 1 = 0 then (sp_held pool)(owner := None) else (sp_held pool)(owner \<mapsto> h - 1))
           in Inr (pool\<lparr>sp_held := held, sp_owner_of := (sp_owner_of pool)[index := kNoOwner],
                        sp_free_list := sp_free_list pool @ [index]\<rparr>))"

definition slot :: "slot_pool \<Rightarrow> nat \<Rightarrow> nat result" where
  "slot pool index =
     (if sp_count pool \<le> index
      then Inl (Out_of_range ''SlotPool::slot: index past the end of the pool'')
      else Inr (sp_base pool + index * sp_bytes pool))"

definition pool_close :: "slot_pool \<Rightarrow> slot_pool" where
  "pool_close pool = pool\<lparr>sp_closed := True\<rparr>"

definition pool_available :: "slot_pool \<Rightarrow> nat" where
  "pool_available pool = length (sp_free_list pool)"

section \<open>The invariant\<close>

definition held_of :: "slot_pool \<Rightarrow> u64 \<Rightarrow> nat" where
  "held_of pool owner = count_list (sp_owner_of pool) owner"

definition pool_inv :: "slot_pool \<Rightarrow> bool" where
  "pool_inv pool \<longleftrightarrow>
     length (sp_owner_of pool) = sp_count pool \<and> 0 < sp_count pool \<and> 0 < sp_bytes pool \<and>
     0 < sp_per_owner_cap pool \<and> distinct (sp_free_list pool) \<and>
     set (sp_free_list pool) = {i. i < sp_count pool \<and> sp_owner_of pool ! i = kNoOwner} \<and>
     (\<forall>owner. owner \<noteq> kNoOwner \<longrightarrow>
        held_of pool owner \<le> sp_per_owner_cap pool \<and>
        sp_held pool owner = (if held_of pool owner = 0 then None else Some (held_of pool owner)))"

lemma count_list_update:
  "i < length xs \<Longrightarrow>
   count_list (xs[i := v]) y + (if xs ! i = y then 1 else 0) = count_list xs y + (if v = y then 1 else 0)"
proof (induction xs arbitrary: i)
  case (Cons x xs)
  show ?case
  proof (cases i)
    case (Suc n)
    with Cons.IH [of n] Cons.prems show ?thesis by (simp split: if_splits)
  qed simp
qed simp

lemma count_list_pos: "i < length xs \<Longrightarrow> 0 < count_list xs (xs ! i)"
  by (metis count_list_0_iff nth_mem gr0I)

lemma new_pool_inv:
  assumes "new_slot_pool base n bytes cap = Inr pool"
  shows "pool_inv pool"
proof -
  have "count_list (replicate n kNoOwner) owner = 0" if "owner \<noteq> kNoOwner" for owner
    using that by (simp add: count_list_0_iff)
  with assms show ?thesis
    by (auto simp: new_slot_pool_def pool_inv_def held_of_def split: option.splits if_splits)
qed

lemma claim_take_spec:
  assumes inv: "pool_inv pool" and opn: "\<not> sp_closed pool" "can_claim pool owner" and owner: "owner \<noteq> kNoOwner"
  obtains index where "claim_take pool owner =
      (Some index, pool\<lparr>sp_free_list := butlast (sp_free_list pool), sp_owner_of := (sp_owner_of pool)[index := owner],
                        sp_held := (sp_held pool)(owner \<mapsto> held_of pool owner + 1)\<rparr>)"
    "index < sp_count pool" "sp_owner_of pool ! index = kNoOwner" "sp_free_list pool = butlast (sp_free_list pool) @ [index]"
    "held_of pool owner < sp_per_owner_cap pool"
proof -
  define index where "index = last (sp_free_list pool)"
  have ne: "sp_free_list pool \<noteq> []" using opn(2) by (auto simp: can_claim_def split: if_splits)
  then have mem: "index \<in> set (sp_free_list pool)" by (simp add: index_def)
  have held: "sp_held pool owner = (if held_of pool owner = 0 then None else Some (held_of pool owner))"
    using inv owner by (simp add: pool_inv_def)
  have lt: "held_of pool owner < sp_per_owner_cap pool"
    using opn(2) inv held by (auto simp: can_claim_def pool_inv_def split: if_splits)
  have cnt: "(case sp_held pool owner of None \<Rightarrow> 0 | Some h \<Rightarrow> h) = held_of pool owner" by (simp add: held)
  show thesis
  proof (rule that [of index])
    show "claim_take pool owner =
      (Some index, pool\<lparr>sp_free_list := butlast (sp_free_list pool), sp_owner_of := (sp_owner_of pool)[index := owner],
                        sp_held := (sp_held pool)(owner \<mapsto> held_of pool owner + 1)\<rparr>)"
      using opn(1) unfolding claim_take_def cnt by (simp add: index_def Let_def)
  qed (use mem inv ne lt in \<open>auto simp: pool_inv_def index_def\<close>)
qed

lemma claim_take_inv:
  assumes inv: "pool_inv pool" and opn: "\<not> sp_closed pool" "can_claim pool owner" and owner: "owner \<noteq> kNoOwner"
  shows "pool_inv (snd (claim_take pool owner))"
proof -
  obtain index where c: "claim_take pool owner =
      (Some index, pool\<lparr>sp_free_list := butlast (sp_free_list pool), sp_owner_of := (sp_owner_of pool)[index := owner],
                        sp_held := (sp_held pool)(owner \<mapsto> held_of pool owner + 1)\<rparr>)"
    and i: "index < sp_count pool" "sp_owner_of pool ! index = kNoOwner"
    and fl: "sp_free_list pool = butlast (sp_free_list pool) @ [index]" and lt: "held_of pool owner < sp_per_owner_cap pool"
    by (rule claim_take_spec [OF assms])
  define pool' where "pool' = snd (claim_take pool owner)"
  have len: "length (sp_owner_of pool) = sp_count pool" using inv by (simp add: pool_inv_def)
  have held': "held_of pool' o' = held_of pool o' + (if o' = owner then 1 else 0)" if "o' \<noteq> kNoOwner" for o'
    using count_list_update [of index "sp_owner_of pool" owner o'] i len that by (auto simp: pool'_def c held_of_def)
  have d: "distinct (butlast (sp_free_list pool)) \<and> index \<notin> set (butlast (sp_free_list pool))"
    using inv fl by (metis distinct_append distinct_singleton disjoint_iff list.set_intros(1) pool_inv_def)
  have "set (sp_free_list pool) = insert index (set (butlast (sp_free_list pool)))"
    by (subst fl) auto
  moreover have "set (sp_free_list pool) = {i. i < sp_count pool \<and> sp_owner_of pool ! i = kNoOwner}"
    using inv by (simp add: pool_inv_def)
  ultimately have "set (butlast (sp_free_list pool)) =
      {i. i < sp_count pool \<and> sp_owner_of pool ! i = kNoOwner} - {index}" using d by auto
  also have "\<dots> = {j. j < sp_count pool \<and> (sp_owner_of pool)[index := owner] ! j = kNoOwner}"
    using owner len i by (auto simp: nth_list_update split: if_splits)
  finally show ?thesis
    using inv held' d lt owner i unfolding pool'_def [symmetric] pool_inv_def by (auto simp: pool'_def c)
qed

lemma release_spec:
  assumes inv: "pool_inv pool" and rel: "release pool index = Inr pool'"
  shows "index < sp_count pool" "sp_owner_of pool ! index \<noteq> kNoOwner"
    "sp_owner_of pool' = (sp_owner_of pool)[index := kNoOwner]" "sp_free_list pool' = sp_free_list pool @ [index]"
    "sp_count pool' = sp_count pool" "sp_closed pool' = sp_closed pool" "pool_inv pool'"
proof -
  define owner where "owner = sp_owner_of pool ! index"
  show i: "index < sp_count pool" and o: "sp_owner_of pool ! index \<noteq> kNoOwner"
    using rel by (auto simp: release_def split: if_splits)
  have len: "length (sp_owner_of pool) = sp_count pool" using inv by (simp add: pool_inv_def)
  have pos: "0 < held_of pool owner" unfolding held_of_def owner_def using i len by (intro count_list_pos) simp
  then have h: "sp_held pool owner = Some (held_of pool owner)" using inv o by (simp add: pool_inv_def owner_def)
  have p': "pool' = pool\<lparr>sp_held := (if held_of pool owner - 1 = 0 then (sp_held pool)(owner := None)
                                    else (sp_held pool)(owner \<mapsto> held_of pool owner - 1)),
                        sp_owner_of := (sp_owner_of pool)[index := kNoOwner],
                        sp_free_list := sp_free_list pool @ [index]\<rparr>"
    using rel i o h unfolding release_def owner_def [symmetric] by (simp add: Let_def)
  then show ow: "sp_owner_of pool' = (sp_owner_of pool)[index := kNoOwner]"
    and "sp_free_list pool' = sp_free_list pool @ [index]" "sp_count pool' = sp_count pool" "sp_closed pool' = sp_closed pool"
    by simp_all
  have held': "held_of pool' o' = held_of pool o' - (if o' = owner then 1 else 0)" if "o' \<noteq> kNoOwner" for o'
    using count_list_update [of index "sp_owner_of pool" kNoOwner o'] i len that
    by (auto simp: ow held_of_def owner_def)
  have fl: "set (sp_free_list pool) = {i. i < sp_count pool \<and> sp_owner_of pool ! i = kNoOwner}"
    using inv by (simp add: pool_inv_def)
  have notfree: "index \<notin> set (sp_free_list pool)" using fl o by simp
  have "insert index (set (sp_free_list pool)) =
      {j. j < sp_count pool \<and> (sp_owner_of pool)[index := kNoOwner] ! j = kNoOwner}"
    unfolding fl using i len by (auto simp: nth_list_update)
  moreover have "held_of pool o' \<le> sp_per_owner_cap pool" if "o' \<noteq> kNoOwner" for o'
    using inv that by (simp add: pool_inv_def)
  ultimately show "pool_inv pool'"
    using inv held' notfree pos h unfolding pool_inv_def by (auto simp: p' le_diff_conv trans_le_add1)
qed

lemma close_inv: "pool_inv pool \<Longrightarrow> pool_inv (pool_close pool)"
  by (simp add: pool_inv_def pool_close_def held_of_def)

lemma claim_inv:
  assumes "pool_inv pool" "owner \<noteq> kNoOwner"
  shows "pool_inv (snd (claim pool owner))" "pool_inv (snd (claim_resume pool owner))"
proof -
  have closed: "claim_take pool owner = (None, pool)" if "sp_closed pool" using that by (simp add: claim_take_def)
  have "pool_inv (pool\<lparr>sp_blocked_claims := b\<rparr>)" for b using assms(1) by (simp add: pool_inv_def held_of_def)
  then show "pool_inv (snd (claim pool owner))" "pool_inv (snd (claim_resume pool owner))"
    using claim_take_inv [OF assms(1) _ _ assms(2)] assms(1) closed
    by (cases "sp_closed pool"; simp add: claim_def claim_resume_def split_def Let_def)+
qed

section \<open>Sequences of operations\<close>

text \<open>
  One step is one critical section of one thread: a claim by a connection (which may park
  it), the retry of a parked claim, a release or the close.
\<close>

inductive pool_step :: "slot_pool \<Rightarrow> slot_pool \<Rightarrow> bool" where
  step_claim: "owner \<noteq> kNoOwner \<Longrightarrow> claim pool owner = (r, pool') \<Longrightarrow> pool_step pool pool'"
| step_resume: "owner \<noteq> kNoOwner \<Longrightarrow> claim_resume pool owner = (r, pool') \<Longrightarrow> pool_step pool pool'"
| step_release: "release pool index = Inr pool' \<Longrightarrow> pool_step pool pool'"
| step_close: "pool_step pool (pool_close pool)"

inductive pool_reachable :: "slot_pool \<Rightarrow> bool" where
  reach_new: "new_slot_pool base n bytes cap = Inr pool \<Longrightarrow> pool_reachable pool"
| reach_step: "pool_reachable pool \<Longrightarrow> pool_step pool pool' \<Longrightarrow> pool_reachable pool'"

inductive_cases pool_stepE: "pool_step pool pool'"

lemma pool_step_inv: "pool_step pool pool' \<Longrightarrow> pool_inv pool \<Longrightarrow> pool_inv pool'"
proof (induction rule: pool_step.induct)
  case (step_claim owner pool r pool')
  then show ?case using claim_inv(1) [of pool owner] by simp
next
  case (step_resume owner pool r pool')
  then show ?case using claim_inv(2) [of pool owner] by simp
qed (auto intro: release_spec(7) close_inv)

lemma pool_reachable_inv: "pool_reachable pool \<Longrightarrow> pool_inv pool"
  by (induction rule: pool_reachable.induct) (auto intro: new_pool_inv pool_step_inv)

section \<open>What a client of the pool relies on\<close>

text \<open>
  The abstract pool is the map from claimed slots to their owners. A claim that succeeds
  adds a slot that was not in it, a release removes one that was.
\<close>

locale slot_allocator =
  fixes ok :: "'p \<Rightarrow> bool" and holds :: "'p \<Rightarrow> nat \<rightharpoonup> u64"
    and claim_op :: "'p \<Rightarrow> u64 \<Rightarrow> nat option blocking \<times> 'p" and release_op :: "'p \<Rightarrow> nat \<Rightarrow> 'p result"
  assumes claim_ok: "ok p \<Longrightarrow> owner \<noteq> kNoOwner \<Longrightarrow> claim_op p owner = (r, p') \<Longrightarrow> ok p'"
    and claim_some: "ok p \<Longrightarrow> owner \<noteq> kNoOwner \<Longrightarrow> claim_op p owner = (Returns (Some i), p') \<Longrightarrow>
           holds p i = None \<and> holds p' = (holds p)(i \<mapsto> owner)"
    and claim_other: "claim_op p owner = (r, p') \<Longrightarrow> (\<And>i. r \<noteq> Returns (Some i)) \<Longrightarrow> holds p' = holds p"
    and release_ok: "ok p \<Longrightarrow> release_op p i = Inr p' \<Longrightarrow> ok p'"
    and release_holds: "ok p \<Longrightarrow> release_op p i = Inr p' \<Longrightarrow> holds p i \<noteq> None \<and> holds p' = (holds p)(i := None)"
    and release_claimed: "ok p \<Longrightarrow> holds p i \<noteq> None \<Longrightarrow> \<exists>p'. release_op p i = Inr p'"
begin

text \<open>Two claims never yield one slot; a slot once released is rejected by a second release.\<close>

lemma claims_distinct:
  assumes "ok p" "a \<noteq> kNoOwner" "b \<noteq> kNoOwner"
    and "claim_op p a = (Returns (Some i), p')" "claim_op p' b = (Returns (Some j), p'')"
  shows "i \<noteq> j" "holds p'' = (holds p)(i \<mapsto> a, j \<mapsto> b)"
  using claim_some [OF assms(1,2,4)] claim_some [OF claim_ok [OF assms(1,2,4)] assms(3,5)] by auto

lemma claim_release:
  assumes "ok p" "owner \<noteq> kNoOwner" "claim_op p owner = (Returns (Some i), p')"
  shows "\<exists>p''. release_op p' i = Inr p'' \<and> holds p'' = holds p \<and> ok p''"
proof -
  note c = claim_some [OF assms] and ok' = claim_ok [OF assms]
  then obtain p'' where "release_op p' i = Inr p''" using release_claimed [of p' i] by auto
  with release_holds [OF ok' this] release_ok [OF ok' this] c show ?thesis by (auto simp: fun_upd_idem)
qed

lemma double_release:
  assumes "ok p" "release_op p i = Inr p'"
  shows "\<not> is_ok (release_op p' i)"
  using release_holds [OF assms] release_holds [OF release_ok [OF assms], of i]
  by (cases "release_op p' i") auto

end

definition pool_holds :: "slot_pool \<Rightarrow> nat \<rightharpoonup> u64" where
  "pool_holds pool i = (if i < sp_count pool \<and> sp_owner_of pool ! i \<noteq> kNoOwner then Some (sp_owner_of pool ! i) else None)"

lemma claim_cases:
  assumes "claim_take pool owner = (Some i, pool')" "pool_inv pool" "owner \<noteq> kNoOwner" "can_claim pool owner"
  shows "pool_holds pool i = None \<and> pool_holds pool' = (pool_holds pool)(i \<mapsto> owner)"
proof -
  have "\<not> sp_closed pool" using assms(1) by (auto simp: claim_take_def)
  from claim_take_spec [OF assms(2) this assms(4,3)] obtain index where
    "claim_take pool owner =
      (Some index, pool\<lparr>sp_free_list := butlast (sp_free_list pool), sp_owner_of := (sp_owner_of pool)[index := owner],
                        sp_held := (sp_held pool)(owner \<mapsto> held_of pool owner + 1)\<rparr>)"
    "index < sp_count pool" "sp_owner_of pool ! index = kNoOwner" by metis
  moreover have "length (sp_owner_of pool) = sp_count pool" using assms(2) by (simp add: pool_inv_def)
  ultimately show ?thesis
    using assms(1,3) by (auto simp: pool_holds_def fun_eq_iff nth_list_update)
qed

lemma claim_Returns_Some:
  assumes "claim pool owner = (Returns (Some i), pool') \<or> claim_resume pool owner = (Returns (Some i), pool')"
  shows "claim_take pool owner = (Some i, pool')" "can_claim pool owner"
  using assms by (auto simp: claim_def claim_resume_def claim_take_def Let_def split: if_splits)

lemma claim_not_some:
  assumes "claim pool owner = (r, pool') \<or> claim_resume pool owner = (r, pool')" "\<And>i. r \<noteq> Returns (Some i)"
  shows "pool_holds pool' = pool_holds pool"
  using assms by (auto simp: claim_def claim_resume_def claim_take_def pool_holds_def Let_def fun_eq_iff split: if_splits)

lemma release_pool_holds:
  assumes "pool_inv pool" "release pool i = Inr pool'"
  shows "pool_holds pool i \<noteq> None \<and> pool_holds pool' = (pool_holds pool)(i := None)"
proof -
  have "length (sp_owner_of pool) = sp_count pool" using assms(1) by (simp add: pool_inv_def)
  with release_spec [OF assms] show ?thesis by (auto simp: pool_holds_def fun_eq_iff nth_list_update)
qed

lemma release_total: "pool_holds pool i \<noteq> None \<Longrightarrow> \<exists>pool'. release pool i = Inr pool'"
  by (auto simp: pool_holds_def release_def Let_def split: if_splits)

interpretation pool_claim: slot_allocator pool_inv pool_holds claim release
proof unfold_locales
  fix p r p' owner assume "pool_inv p" "owner \<noteq> kNoOwner" "claim p owner = (r, p')"
  then show "pool_inv p'" using claim_inv(1) [of p owner] by simp
next
  fix p i p' owner assume "pool_inv p" "owner \<noteq> kNoOwner" "claim p owner = (Returns (Some i), p')"
  then show "pool_holds p i = None \<and> pool_holds p' = (pool_holds p)(i \<mapsto> owner)"
    using claim_cases claim_Returns_Some by blast
qed (use claim_not_some release_spec(7) release_pool_holds release_total in blast)+

interpretation pool_resume: slot_allocator pool_inv pool_holds claim_resume release
proof unfold_locales
  fix p r p' owner assume "pool_inv p" "owner \<noteq> kNoOwner" "claim_resume p owner = (r, p')"
  then show "pool_inv p'" using claim_inv(2) [of p owner] by simp
next
  fix p i p' owner assume "pool_inv p" "owner \<noteq> kNoOwner" "claim_resume p owner = (Returns (Some i), p')"
  then show "pool_holds p i = None \<and> pool_holds p' = (pool_holds p)(i \<mapsto> owner)"
    using claim_cases claim_Returns_Some by blast
qed (use claim_not_some release_spec(7) release_pool_holds release_total in blast)+

section \<open>Properties\<close>

lemma pool_partition:
  assumes "pool_inv pool"
  shows "pool_available pool + length (filter (\<lambda>owner. owner \<noteq> kNoOwner) (sp_owner_of pool)) = sp_count pool"
proof -
  have "pool_available pool = card {i. i < sp_count pool \<and> sp_owner_of pool ! i = kNoOwner}"
    using assms distinct_card [of "sp_free_list pool"] by (simp add: pool_inv_def pool_available_def)
  also have "\<dots> = length (filter (\<lambda>owner. owner = kNoOwner) (sp_owner_of pool))"
    using assms by (simp add: length_filter_conv_card pool_inv_def)
  finally show ?thesis
    using sum_length_filter_compl [of "\<lambda>owner. owner = kNoOwner" "sp_owner_of pool"] assms
    by (simp add: pool_inv_def)
qed

text \<open>
  C20: In every state the pool can reach by any interleaving of claims, retries of parked claims, releases
  and a close, every slot is either on the free list exactly once or held by exactly one owner, no
  owner holds more than the per-owner cap, the stored counts are the real ones, and free and held
  slots add up to the fixed size: slots are never lost, duplicated or added.
\<close>

theorem pool_never_loses_slots:
  assumes "pool_reachable pool"
  shows "distinct (sp_free_list pool) \<and>
    (\<forall>i < sp_count pool. i \<in> set (sp_free_list pool) \<longleftrightarrow> pool_holds pool i = None) \<and>
    (\<forall>owner. owner \<noteq> kNoOwner \<longrightarrow> held_of pool owner \<le> sp_per_owner_cap pool \<and>
       (case sp_held pool owner of None \<Rightarrow> 0 | Some h \<Rightarrow> h) = held_of pool owner) \<and>
    pool_available pool + length (filter (\<lambda>owner. owner \<noteq> kNoOwner) (sp_owner_of pool)) = sp_count pool"
proof -
  have inv: "pool_inv pool" by (rule pool_reachable_inv [OF assms])
  then show ?thesis using pool_partition [OF inv] by (auto simp: pool_inv_def pool_holds_def)
qed

abbreviation two_slots :: slot_pool where
  "two_slots \<equiv> \<lparr>sp_base = 4096, sp_count = 2, sp_bytes = 64, sp_per_owner_cap = 1, sp_free_list = [1, 0],
     sp_owner_of = [kNoOwner, kNoOwner], sp_held = Map.empty, sp_blocked_claims = 0, sp_closed = False\<rparr>"

lemma two_slots_new: "new_slot_pool (Some 4096) 2 64 1 = Inr two_slots"
  by (simp add: new_slot_pool_def numeral_2_eq_2)

lemma two_slots_inv: "pool_inv two_slots"
  using two_slots_new by (rule new_pool_inv)

theorem pool_never_loses_slots_witness: "pool_available (snd (claim two_slots 7)) = 1"
proof -
  define p where "p = snd (claim two_slots 7)"
  have "pool_step two_slots p"
    unfolding p_def by (rule step_claim [of 7 _ "fst (claim two_slots 7)"]) (auto simp: kNoOwner_def)
  then have "pool_reachable p" using reach_new [OF two_slots_new] reach_step by blast
  from pool_never_loses_slots [OF this]
  have "pool_available p + length (filter (\<lambda>owner. owner \<noteq> kNoOwner) (sp_owner_of p)) = sp_count p" by blast
  moreover have "sp_owner_of p = [7, kNoOwner]" "sp_count p = 2"
    by (simp_all add: p_def claim_def can_claim_def claim_take_def Let_def)
  ultimately show ?thesis unfolding p_def [symmetric] by (simp add: kNoOwner_def)
qed

text \<open>
  C19: The free list implements the abstract pool, a map from claimed slots to owners: a claim that returns
  an index adds a slot that was not claimed, a claim that parks or reports the close changes nothing,
  and a release succeeds exactly for a claimed slot and removes it, so a slot belongs to one connection
  until it is released and a second release is refused.
\<close>

theorem pool_refines_ownership_map:
  assumes "pool_inv pool" "owner \<noteq> kNoOwner"
  shows "(case claim pool owner of
            (Returns (Some i), pool') \<Rightarrow> pool_holds pool i = None \<and> pool_holds pool' = (pool_holds pool)(i \<mapsto> owner)
          | (_, pool') \<Rightarrow> pool_holds pool' = pool_holds pool) \<and>
         (case release pool i of
            Inr pool' \<Rightarrow> pool_holds pool i \<noteq> None \<and> pool_holds pool' = (pool_holds pool)(i := None) \<and>
                         \<not> is_ok (release pool' i)
          | Inl _ \<Rightarrow> pool_holds pool i = None)"
proof (rule conjI)
  obtain r pool' where c: "claim pool owner = (r, pool')" by (cases "claim pool owner")
  show "case claim pool owner of
            (Returns (Some i), pool') \<Rightarrow> pool_holds pool i = None \<and> pool_holds pool' = (pool_holds pool)(i \<mapsto> owner)
          | (_, pool') \<Rightarrow> pool_holds pool' = pool_holds pool"
    using c pool_claim.claim_some [OF assms] pool_claim.claim_other [OF c]
    by (auto split: blocking.splits option.splits)
  show "case release pool i of
            Inr pool' \<Rightarrow> pool_holds pool i \<noteq> None \<and> pool_holds pool' = (pool_holds pool)(i := None) \<and>
                         \<not> is_ok (release pool' i)
          | Inl _ \<Rightarrow> pool_holds pool i = None"
    using release_pool_holds [OF assms(1), of i] pool_claim.double_release [OF assms(1), of i]
      release_total [of pool i] by (cases "pool_holds pool i") (auto split: sum.splits)
qed

theorem pool_refines_ownership_map_witness: "pool_holds (snd (claim two_slots 7)) 0 = Some 7"
proof -
  have c: "fst (claim two_slots 7) = Returns (Some 0)"
    by (simp add: claim_def can_claim_def claim_take_def Let_def)
  have "(7 :: u64) \<noteq> kNoOwner" by (simp add: kNoOwner_def)
  from pool_refines_ownership_map [OF two_slots_inv this] c show ?thesis
    by (cases "claim two_slots 7") auto
qed

text \<open>
  No lost wakeup and no parking past the close: once a slot is released, any waiter below its cap that
  is woken gets a slot, namely the one just released; a closed pool answers every claim at once; and
  a claim parks only when the pool is open and either exhausted or the owner is at its cap.
\<close>

lemma claim_parks_only_when_it_must:
  assumes "pool_inv pool" "owner \<noteq> kNoOwner"
  shows "(fst (claim pool owner) = Waits \<longleftrightarrow>
            \<not> sp_closed pool \<and> (pool_available pool = 0 \<or> held_of pool owner = sp_per_owner_cap pool)) \<and>
         (sp_closed pool \<longrightarrow> claim pool owner = (Returns None, pool) \<and> claim_resume pool owner = (Returns None, pool)) \<and>
         (\<forall>i pool'. release pool i = Inr pool' \<longrightarrow> \<not> sp_closed pool \<longrightarrow> held_of pool' owner < sp_per_owner_cap pool' \<longrightarrow>
            fst (claim_resume pool' owner) = Returns (Some i))"
proof (intro conjI allI impI)
  have held: "sp_held p owner = (if held_of p owner = 0 then None else Some (held_of p owner))"
    "held_of p owner \<le> sp_per_owner_cap p" "0 < sp_per_owner_cap p" if "pool_inv p" for p
    using that assms(2) by (simp_all add: pool_inv_def)
  have can: "can_claim p owner \<longleftrightarrow> pool_available p \<noteq> 0 \<and> held_of p owner < sp_per_owner_cap p" if "pool_inv p" for p
    using held [OF that] by (auto simp: can_claim_def pool_available_def)
  show "fst (claim pool owner) = Waits \<longleftrightarrow>
      \<not> sp_closed pool \<and> (pool_available pool = 0 \<or> held_of pool owner = sp_per_owner_cap pool)"
    using can [OF assms(1)] held(2) [OF assms(1)] by (auto simp: claim_def split_def Let_def)
  fix i pool'
  assume rel: "release pool i = Inr pool'" and opn: "\<not> sp_closed pool" and lt: "held_of pool' owner < sp_per_owner_cap pool'"
  note s = release_spec [OF assms(1) rel]
  have "can_claim pool' owner" using can [OF s(7)] s(4) lt by (simp add: pool_available_def)
  then show "fst (claim_resume pool' owner) = Returns (Some i)"
    using s(4,6) opn by (simp add: claim_resume_def claim_take_def Let_def)
qed (simp_all add: claim_def claim_resume_def claim_take_def)

text \<open>
  The byte ranges of different slots are disjoint and lie inside the backing block, and \<open>slot\<close>
  refuses an index past the end.
\<close>

lemma slots_are_disjoint:
  assumes "pool_inv pool" "i \<noteq> j" "slot pool i = Inr a" "slot pool j = Inr b"
  shows "{a..<a + sp_bytes pool} \<inter> {b..<b + sp_bytes pool} = {} \<and>
         {a..<a + sp_bytes pool} \<subseteq> {sp_base pool..<sp_base pool + sp_count pool * sp_bytes pool} \<and>
         \<not> is_ok (slot pool (sp_count pool))"
proof -
  have i: "i < sp_count pool" "a = sp_base pool + i * sp_bytes pool" and j: "b = sp_base pool + j * sp_bytes pool"
    using assms(3,4) by (auto simp: slot_def split: if_splits)
  have "Suc i * sp_bytes pool \<le> sp_count pool * sp_bytes pool" using i(1) by (intro mult_le_mono1) simp
  moreover have "Suc i * sp_bytes pool \<le> j * sp_bytes pool \<or> Suc j * sp_bytes pool \<le> i * sp_bytes pool"
    using assms(2) mult_le_mono1 [of "Suc i" j "sp_bytes pool"] mult_le_mono1 [of "Suc j" i "sp_bytes pool"] by linarith
  ultimately show ?thesis using i(2) j by (auto simp: slot_def)
qed

end
