(* ===== verification/Bounded_Queue.thy ===== *)
theory Bounded_Queue
  imports Slot_Pool
begin

text \<open>
  The bounded queue between the connection readers and the worker
  (\<open>include/imgjit/util/bounded_queue.h\<close>), and the interface \<open>closable_queue\<close> that it
  shares with the per-connection outbox of the server. A call that parks on a condition
  variable returns \<open>Waits\<close> and leaves the queue alone; being woken is calling again.
\<close>

section \<open>State and operations\<close>

record 'a bounded_queue =
  bq_items :: "'a list"
  bq_capacity :: nat
  bq_high_water :: nat
  bq_closed :: bool

definition new_queue :: "nat \<Rightarrow> 'a bounded_queue" where
  "new_queue capacity =
     \<lparr>bq_items = [], bq_capacity = (if capacity = 0 then 1 else capacity), bq_high_water = 0, bq_closed = False\<rparr>"

definition bq_push :: "'a \<Rightarrow> 'a bounded_queue \<Rightarrow> bool blocking \<times> 'a bounded_queue" where
  "bq_push value q =
     (if \<not> (bq_closed q \<or> length (bq_items q) < bq_capacity q) then (Waits, q)
      else if bq_closed q then (Returns False, q)
      else let items = bq_items q @ [value]
           in (Returns True, q\<lparr>bq_items := items, bq_high_water := max (bq_high_water q) (length items)\<rparr>))"

definition bq_pop :: "'a bounded_queue \<Rightarrow> 'a option blocking \<times> 'a bounded_queue" where
  "bq_pop q =
     (if \<not> (bq_closed q \<or> bq_items q \<noteq> []) then (Waits, q)
      else case bq_items q of
             [] \<Rightarrow> (Returns None, q)
           | x # rest \<Rightarrow> (Returns (Some x), q\<lparr>bq_items := rest\<rparr>))"

definition bq_try_pop :: "'a bounded_queue \<Rightarrow> 'a option \<times> 'a bounded_queue" where
  "bq_try_pop q =
     (case bq_items q of
        [] \<Rightarrow> (None, q)
      | x # rest \<Rightarrow> (Some x, q\<lparr>bq_items := rest\<rparr>))"

definition bq_close :: "'a bounded_queue \<Rightarrow> 'a bounded_queue" where
  "bq_close q = q\<lparr>bq_closed := True\<rparr>"

section \<open>Closable first-in first-out queues\<close>

datatype 'a queue_event = Push 'a | Pop | Close

text \<open>A call, and a run of calls, with the values accepted by pushes and those returned by pops.\<close>

definition queue_call :: "('a \<Rightarrow> 'q \<Rightarrow> bool blocking \<times> 'q) \<Rightarrow> ('q \<Rightarrow> 'a option blocking \<times> 'q) \<Rightarrow> ('q \<Rightarrow> 'q) \<Rightarrow>
    'a queue_event \<Rightarrow> 'q \<times> 'a list \<times> 'a list \<Rightarrow> 'q \<times> 'a list \<times> 'a list" where
  "queue_call push pop close e = (\<lambda>(q, accepted, taken).
     case e of
       Push x \<Rightarrow> (case push x q of (r, q') \<Rightarrow> (q', if r = Returns True then accepted @ [x] else accepted, taken))
     | Pop \<Rightarrow> (case pop q of (r, q') \<Rightarrow>
         (q', accepted, case r of Returns (Some x) \<Rightarrow> taken @ [x] | _ \<Rightarrow> taken))
     | Close \<Rightarrow> (close q, accepted, taken))"

fun queue_run :: "('a \<Rightarrow> 'q \<Rightarrow> bool blocking \<times> 'q) \<Rightarrow> ('q \<Rightarrow> 'a option blocking \<times> 'q) \<Rightarrow> ('q \<Rightarrow> 'q) \<Rightarrow>
    'a queue_event list \<Rightarrow> 'q \<times> 'a list \<times> 'a list \<Rightarrow> 'q \<times> 'a list \<times> 'a list" where
  "queue_run push pop close [] s = s"
| "queue_run push pop close (e # es) s = queue_run push pop close es (queue_call push pop close e s)"

lemma queue_run_invariant:
  assumes "\<And>e s. P s \<Longrightarrow> P (queue_call push pop close e s)" "P s"
  shows "P (queue_run push pop close es s)"
  using assms(2) by (induction es arbitrary: s) (simp_all add: assms(1))

locale closable_queue =
  fixes items :: "'q \<Rightarrow> 'a list" and closed :: "'q \<Rightarrow> bool"
    and push :: "'a \<Rightarrow> 'q \<Rightarrow> bool blocking \<times> 'q" and pop :: "'q \<Rightarrow> 'a option blocking \<times> 'q" and close :: "'q \<Rightarrow> 'q"
  assumes push_accepts: "push x q = (Returns True, q') \<Longrightarrow> \<not> closed q \<and> items q' = items q @ [x] \<and> \<not> closed q'"
    and push_refuses: "push x q = (Returns False, q') \<Longrightarrow> closed q \<and> q' = q"
    and push_parks: "push x q = (Waits, q') \<Longrightarrow> \<not> closed q \<and> q' = q"
    and pop_takes: "pop q = (Returns (Some x), q') \<Longrightarrow> items q = x # items q' \<and> closed q' = closed q"
    and pop_finished: "pop q = (Returns None, q') \<Longrightarrow> closed q \<and> items q = [] \<and> q' = q"
    and pop_parks: "pop q = (Waits, q') \<Longrightarrow> \<not> closed q \<and> items q = [] \<and> q' = q"
    and close_closes: "closed (close q)" "items (close q) = items q"
begin

text \<open>Nothing is lost, duplicated or reordered.\<close>

lemma call_fifo:
  assumes "accepted = taken @ items q" "queue_call push pop close e (q, accepted, taken) = (q', accepted', taken')"
  shows "accepted' = taken' @ items q'"
proof (cases e)
  case (Push x)
  obtain r q1 where p: "push x q = (r, q1)" by (cases "push x q")
  with assms Push push_accepts [of x q q1] push_refuses [of x q q1] push_parks [of x q q1] show ?thesis
    by (cases r) (auto simp: queue_call_def split: if_splits)
next
  case Pop
  obtain r q1 where p: "pop q = (r, q1)" by (cases "pop q")
  with assms Pop pop_takes [of q _ q1] pop_finished [of q q1] pop_parks [of q q1] show ?thesis
    by (cases r) (auto simp: queue_call_def split: option.splits)
next
  case Close
  with assms close_closes show ?thesis by (auto simp: queue_call_def)
qed

lemma run_fifo:
  assumes "accepted = taken @ items q" "queue_run push pop close es (q, accepted, taken) = (q', accepted', taken')"
  shows "accepted' = taken' @ items q'"
proof -
  have "case queue_run push pop close es (q, accepted, taken) of (q, accepted, taken) \<Rightarrow> accepted = taken @ items q"
  proof (rule queue_run_invariant)
    fix e and s :: "'q \<times> 'a list \<times> 'a list"
    obtain q1 a1 t1 q2 a2 t2 where s: "s = (q1, a1, t1)" "queue_call push pop close e (q1, a1, t1) = (q2, a2, t2)"
      by (cases s) (metis prod_cases3)
    assume "case s of (q, accepted, taken) \<Rightarrow> accepted = taken @ items q"
    then have "a2 = t2 @ items q2" using s call_fifo [OF _ s(2)] by simp
    then show "case queue_call push pop close e s of (q, accepted, taken) \<Rightarrow> accepted = taken @ items q"
      by (simp add: s)
  qed (simp add: assms(1))
  with assms(2) show ?thesis by simp
qed

text \<open>After a close a pop never parks, and reports the end only when nothing is left.\<close>

lemma pop_after_close:
  assumes "closed q" "pop q = (r, q')"
  shows "case items q of [] \<Rightarrow> r = Returns None | x # rest \<Rightarrow> r = Returns (Some x) \<and> items q' = rest"
proof (cases r)
  case Waits
  with assms pop_parks [of q q'] show ?thesis by simp
next
  case (Returns v)
  with assms pop_takes [of q _ q'] pop_finished [of q q'] show ?thesis by (cases v) auto
qed

end

lemma bq_push_cases:
  "bq_push x q = (r, q') \<Longrightarrow>
     (case r of
        Waits \<Rightarrow> \<not> bq_closed q \<and> bq_capacity q \<le> length (bq_items q) \<and> q' = q
      | Returns False \<Rightarrow> bq_closed q \<and> q' = q
      | Returns True \<Rightarrow> \<not> bq_closed q \<and> length (bq_items q) < bq_capacity q \<and>
          q' = q\<lparr>bq_items := bq_items q @ [x], bq_high_water := max (bq_high_water q) (Suc (length (bq_items q)))\<rparr>)"
  by (auto simp: bq_push_def Let_def split: if_splits)

lemma bq_pop_cases:
  "bq_pop q = (r, q') \<Longrightarrow>
     (case r of
        Waits \<Rightarrow> \<not> bq_closed q \<and> bq_items q = [] \<and> q' = q
      | Returns None \<Rightarrow> bq_closed q \<and> bq_items q = [] \<and> q' = q
      | Returns (Some x) \<Rightarrow> bq_items q = x # bq_items q' \<and> q' = q\<lparr>bq_items := tl (bq_items q)\<rparr>)"
  by (auto simp: bq_pop_def split: if_splits list.splits)

lemma bq_pop_some: "bq_pop q = (Returns (Some x), q') \<Longrightarrow> bq_items q = x # bq_items q' \<and> bq_closed q' = bq_closed q"
  by (auto simp: bq_pop_def split: if_splits list.splits)

interpretation work_queue: closable_queue bq_items bq_closed bq_push bq_pop bq_close
  by unfold_locales (auto dest!: bq_push_cases bq_pop_some simp: bq_close_def, auto dest!: bq_pop_cases)

section \<open>Capacity\<close>

definition queue_inv :: "'a bounded_queue \<Rightarrow> bool" where
  "queue_inv q \<longleftrightarrow> 0 < bq_capacity q \<and> length (bq_items q) \<le> bq_high_water q \<and> bq_high_water q \<le> bq_capacity q"

lemma queue_call_inv:
  assumes "queue_inv q"
  shows "queue_inv (fst (queue_call bq_push bq_pop bq_close e (q, accepted, taken)))"
proof (cases e)
  case (Push x)
  obtain r q1 where p: "bq_push x q = (r, q1)" by (cases "bq_push x q")
  with bq_push_cases [OF p] assms Push show ?thesis
    by (auto simp: queue_call_def queue_inv_def split: blocking.splits bool.splits)
next
  case Pop
  then show ?thesis
    using assms by (auto simp: queue_call_def queue_inv_def bq_pop_def split: list.splits)
qed (use assms in \<open>simp add: queue_call_def queue_inv_def bq_close_def\<close>)

section \<open>Properties\<close>



text \<open>
  Shutdown terminates: once the queue is closed no call parks. A push is refused and keeps the value
  with its caller, a pop hands out what is still queued and then reports the end.
\<close>

lemma closed_queue_never_parks:
  assumes "bq_closed q"
  shows "bq_push x q = (Returns False, q) \<and>
    (case bq_items q of
       [] \<Rightarrow> bq_pop q = (Returns None, q)
     | y # rest \<Rightarrow> \<exists>q'. bq_pop q = (Returns (Some y), q') \<and> bq_items q' = rest \<and> bq_closed q')"
proof -
  obtain r q' where p: "bq_pop q = (r, q')" by (cases "bq_pop q")
  with work_queue.pop_after_close [OF assms p] work_queue.pop_takes [of q _ q'] work_queue.pop_finished [of q q'] assms
  show ?thesis by (auto simp: bq_push_def split: list.splits)
qed

end
