(* ===== verification/Backend.thy ===== *)
theory Backend
  imports Cpu_Ops
begin

text \<open>
  The backend interface (\<open>include/imgjit/backend/backend.h\<close>) as a pair of locales, and the
  CPU backend (\<open>include/imgjit/backend/cpu/cpu_backend.h\<close>,
  \<open>src/backend/cpu/cpu_backend.cpp\<close>) that interprets them. A job's input pointer is the list
  of bytes readable through it, \<open>None\<close> for \<open>nullptr\<close>.
\<close>

section \<open>Jobs and completions\<close>

type_synonym job_handle = u64

record frame_job =
  job_input :: "u8 list option"
  job_width :: int
  job_height :: int
  job_channels :: int
  job_stride :: nat
  job_chain :: op_chain

datatype job_status = job_kOk | job_kError

record completion =
  cp_handle :: job_handle
  cp_status :: job_status
  cp_output :: image
  cp_error :: string

record backend_stats =
  frames_submitted :: u64
  submit_stalls :: u64
  max_in_flight :: u64
  context_recreations :: u64
  mean_in_flight :: rat
  mean_kernel_ms :: rat
  jit_compiles :: u64

definition no_stats :: backend_stats where
  "no_stats = \<lparr>frames_submitted = 0, submit_stalls = 0, max_in_flight = 0, context_recreations = 0,
     mean_in_flight = 0, mean_kernel_ms = 0, jit_compiles = 0\<rparr>"

section \<open>The CPU backend\<close>

record cpu_backend =
  cb_slots :: "u8 list"
  cb_completed :: "completion list"
  cb_next_handle :: job_handle

definition new_cpu_backend :: cpu_backend where
  "new_cpu_backend = \<lparr>cb_slots = [], cb_completed = [], cb_next_handle = 1\<rparr>"

text \<open>The storage that \<open>allocate_slots\<close> hands out; its base pointer is offset 0 of it.\<close>

definition cpu_allocate_slots :: "nat \<Rightarrow> nat \<Rightarrow> cpu_backend \<Rightarrow> (nat \<times> cpu_backend) result" where
  "cpu_allocate_slots n bytes b =
     (if cb_slots b \<noteq> [] then Inl (Logic_error ''CpuBackend::allocate_slots: slots are allocated once, at startup'')
      else Inr (0, b\<lparr>cb_slots := replicate (n * bytes) 0\<rparr>))"

definition what :: "cpp_exception \<Rightarrow> string" where
  "what e = (case e of Invalid_argument m \<Rightarrow> m | Logic_error m \<Rightarrow> m | Out_of_range m \<Rightarrow> m
     | Runtime_error m \<Rightarrow> m | Cuda_error m \<Rightarrow> m | Nvrtc_error m \<Rightarrow> m)"

text \<open>The body of the \<open>try\<close> block of \<open>submit\<close>.\<close>

definition cpu_process :: "(rat \<Rightarrow> rat) \<Rightarrow> frame_job \<Rightarrow> image result" where
  "cpu_process expf job =
     (case job_input job of
        None \<Rightarrow> Inl (Invalid_argument ''FrameJob has no input'')
      | Some bytes \<Rightarrow>
          bind_result (image_from_bytes (job_width job) (job_height job) (job_channels job) bytes (job_stride job))
            (\<lambda>input. apply_chain expf input (job_chain job)))"

definition completion_of :: "job_handle \<Rightarrow> image result \<Rightarrow> completion" where
  "completion_of handle r =
     (case r of
        Inr output \<Rightarrow> \<lparr>cp_handle = handle, cp_status = job_kOk, cp_output = output, cp_error = []\<rparr>
      | Inl e \<Rightarrow> \<lparr>cp_handle = handle, cp_status = job_kError, cp_output = empty_image, cp_error = what e\<rparr>)"

definition cpu_submit :: "(rat \<Rightarrow> rat) \<Rightarrow> frame_job \<Rightarrow> cpu_backend \<Rightarrow> job_handle \<times> cpu_backend" where
  "cpu_submit expf job b =
     (let handle = cb_next_handle b
      in (handle, b\<lparr>cb_next_handle := handle + 1,
                    cb_completed := cb_completed b @ [completion_of handle (cpu_process expf job)]\<rparr>))"

definition cpu_poll_completions :: "cpu_backend \<Rightarrow> completion list \<times> cpu_backend" where
  "cpu_poll_completions b = (cb_completed b, b\<lparr>cb_completed := []\<rparr>)"

section \<open>The contract of a backend\<close>

text \<open>
  \<open>outcome b h\<close> is the completion that is still to be delivered for handle \<open>h\<close>. Submitting
  promises a completion under a fresh handle, polling delivers promised completions, each
  once. Handles are counted up, so freshness needs that the 64-bit counter has room.
\<close>

datatype backend_event = Submit frame_job | Poll

definition backend_call :: "(frame_job \<Rightarrow> 'b \<Rightarrow> job_handle \<times> 'b) \<Rightarrow> ('b \<Rightarrow> completion list \<times> 'b) \<Rightarrow>
    backend_event \<Rightarrow> 'b \<times> (job_handle \<times> frame_job) list \<times> completion list \<Rightarrow>
    'b \<times> (job_handle \<times> frame_job) list \<times> completion list" where
  "backend_call submit poll e = (\<lambda>(b, submitted, delivered).
     case e of
       Submit job \<Rightarrow> (case submit job b of (h, b') \<Rightarrow> (b', submitted @ [(h, job)], delivered))
     | Poll \<Rightarrow> (case poll b of (cs, b') \<Rightarrow> (b', submitted, delivered @ cs)))"

definition backend_run :: "(frame_job \<Rightarrow> 'b \<Rightarrow> job_handle \<times> 'b) \<Rightarrow> ('b \<Rightarrow> completion list \<times> 'b) \<Rightarrow>
    backend_event list \<Rightarrow> 'b \<Rightarrow> 'b \<times> (job_handle \<times> frame_job) list \<times> completion list" where
  "backend_run submit poll es b = fold (backend_call submit poll) es (b, [], [])"

lemma backend_run_snoc:
  "backend_run submit poll (es @ [e]) b = backend_call submit poll e (backend_run submit poll es b)"
  by (simp add: backend_run_def)

lemma backend_run_length:
  "backend_run submit poll es b = (b', submitted, delivered) \<Longrightarrow>
   length submitted = length (filter (\<lambda>e. e \<noteq> Poll) es)"
proof (induction es arbitrary: b' submitted delivered rule: rev_induct)
  case (snoc e es)
  obtain b1 sub del where "backend_run submit poll es b = (b1, sub, del)" by (cases "backend_run submit poll es b")
  with snoc show ?case
    by (cases e) (auto simp: backend_run_snoc backend_call_def split: prod.splits)
qed (simp add: backend_run_def)

text \<open>
  The contract, seen from the outside as a ledger: \<open>pending b\<close> are the handles whose completion is
  still owed. A history interleaves submissions and polls in any order.
\<close>

inductive backend_history :: "('b \<Rightarrow> frame_job \<Rightarrow> job_handle \<Rightarrow> 'b \<Rightarrow> bool) \<Rightarrow> ('b \<Rightarrow> completion list \<Rightarrow> 'b \<Rightarrow> bool) \<Rightarrow>
    'b \<Rightarrow> 'b \<Rightarrow> (job_handle \<times> frame_job) list \<Rightarrow> completion list \<Rightarrow> bool" for submits polls start where
  history_start: "backend_history submits polls start start [] []"
| history_submit: "backend_history submits polls start b submitted delivered \<Longrightarrow> submits b job h b' \<Longrightarrow>
    backend_history submits polls start b' (submitted @ [(h, job)]) delivered"
| history_poll: "backend_history submits polls start b submitted delivered \<Longrightarrow> polls b cs b' \<Longrightarrow>
    backend_history submits polls start b' submitted (delivered @ cs)"

lemma backend_run_history:
  "backend_run submit poll es b0 = (b, submitted, delivered) \<Longrightarrow>
   backend_history (\<lambda>b job h b'. submit job b = (h, b')) (\<lambda>b cs b'. poll b = (cs, b')) b0 b submitted delivered"
proof (induction es arbitrary: b submitted delivered rule: rev_induct)
  case Nil
  then show ?case by (simp add: backend_run_def history_start)
next
  case (snoc e es)
  obtain b1 sub del where run: "backend_run submit poll es b0 = (b1, sub, del)" by (cases "backend_run submit poll es b0")
  note h = snoc.IH [OF run]
  show ?case
  proof (cases e)
    case (Submit job)
    obtain h' b2 where s: "submit job b1 = (h', b2)" by (cases "submit job b1")
    with history_submit [OF h, of job h' b2] show ?thesis
      using snoc.prems Submit run by (simp add: backend_run_snoc backend_call_def)
  next
    case Poll
    obtain cs b2 where p: "poll b1 = (cs, b2)" by (cases "poll b1")
    with history_poll [OF h, of cs b2] show ?thesis
      using snoc.prems Poll run by (simp add: backend_run_snoc backend_call_def)
  qed
qed

locale job_ledger =
  fixes ok :: "'b \<Rightarrow> bool" and next_id :: "'b \<Rightarrow> nat" and pending :: "'b \<Rightarrow> job_handle set"
    and submits :: "'b \<Rightarrow> frame_job \<Rightarrow> job_handle \<Rightarrow> 'b \<Rightarrow> bool" and polls :: "'b \<Rightarrow> completion list \<Rightarrow> 'b \<Rightarrow> bool"
  assumes submits_law: "ok b \<Longrightarrow> next_id b < 2 ^ 64 - 1 \<Longrightarrow> submits b job h b' \<Longrightarrow>
           ok b' \<and> unat h = next_id b \<and> next_id b' = next_id b + 1 \<and> h \<notin> pending b \<and> pending b' = insert h (pending b)"
    and polls_law: "ok b \<Longrightarrow> polls b cs b' \<Longrightarrow>
           ok b' \<and> next_id b' = next_id b \<and> distinct (map cp_handle cs) \<and> cp_handle ` set cs \<subseteq> pending b \<and>
           pending b' = pending b - cp_handle ` set cs"
begin

text \<open>Submitted handles are distinct, and each is delivered once or still pending.\<close>

definition history_inv :: "nat \<Rightarrow> 'b \<times> (job_handle \<times> frame_job) list \<times> completion list \<Rightarrow> bool" where
  "history_inv start = (\<lambda>(b, submitted, delivered).
     ok b \<and> next_id b = start + length submitted \<and>
     map (unat \<circ> fst) submitted = [start..<start + length submitted] \<and>
     distinct (map cp_handle delivered) \<and>
     cp_handle ` set delivered \<inter> pending b = {} \<and>
     cp_handle ` set delivered \<union> pending b = fst ` set submitted)"

lemma handles_below:
  assumes "map (unat \<circ> fst) submitted = [start..<start + length submitted]" "(h :: job_handle) \<in> fst ` set submitted"
  shows "unat h < start + length submitted"
proof -
  have "unat h \<in> set (map (unat \<circ> fst) submitted)" using assms(2) by (auto simp: image_iff)
  then show ?thesis unfolding assms(1) by simp
qed

lemma submit_history:
  assumes inv: "history_inv start (b, submitted, delivered)" and room: "start + length submitted < 2 ^ 64 - 1"
    and s: "submits b job h b'"
  shows "history_inv start (b', submitted @ [(h, job)], delivered)"
proof -
  have ok: "ok b" and n: "next_id b = start + length submitted"
    and hs: "map (unat \<circ> fst) submitted = [start..<start + length submitted]"
    and d: "distinct (map cp_handle delivered)" "cp_handle ` set delivered \<inter> pending b = {}"
      "cp_handle ` set delivered \<union> pending b = fst ` set submitted"
    using inv by (simp_all add: history_inv_def)
  have r: "next_id b < 2 ^ 64 - 1" using room n by simp
  note f = submits_law [OF ok r s]
  have "h \<notin> fst ` set submitted" using handles_below [OF hs, of h] f n by auto
  with d have "h \<notin> cp_handle ` set delivered" by blast
  with d f n hs show ?thesis by (auto simp: history_inv_def)
qed

lemma poll_history:
  assumes inv: "history_inv start (b, submitted, delivered)" and p: "polls b cs b'"
  shows "history_inv start (b', submitted, delivered @ cs)"
proof -
  have ok: "ok b" and d: "distinct (map cp_handle delivered)" "cp_handle ` set delivered \<inter> pending b = {}"
      "cp_handle ` set delivered \<union> pending b = fst ` set submitted"
    using inv by (simp_all add: history_inv_def)
  note f = polls_law [OF ok p]
  have "cp_handle ` set delivered \<inter> cp_handle ` set cs = {}" using d(2) f by blast
  then have "distinct (map cp_handle (delivered @ cs))" using d(1) f by simp
  moreover have "cp_handle ` set (delivered @ cs) \<inter> pending b' = {}"
    "cp_handle ` set (delivered @ cs) \<union> pending b' = fst ` set submitted"
    unfolding set_append image_Un d(3) [symmetric] using d(2) f by blast+
  ultimately show ?thesis using f inv by (simp add: history_inv_def)
qed

lemma history_keeps_inv:
  assumes "backend_history submits polls b0 b submitted delivered" "ok b0" "pending b0 = {}"
    "next_id b0 + length submitted < 2 ^ 64"
  shows "history_inv (next_id b0) (b, submitted, delivered)"
  using assms(1,4)
proof (induction rule: backend_history.induct)
  case history_start
  show ?case using assms(2,3) by (simp add: history_inv_def)
next
  case (history_submit b submitted delivered job h b')
  then show ?case by (intro submit_history) simp_all
next
  case (history_poll b submitted delivered cs b')
  then show ?case by (intro poll_history) simp_all
qed

lemma history_jobs:
  assumes "backend_history submits polls b0 b submitted delivered" "ok b0" "pending b0 = {}" "next_id b0 + length submitted < 2 ^ 64"
  shows "distinct (map fst submitted)" "cp_handle ` set delivered \<subseteq> fst ` set submitted"
proof -
  have inv: "map (unat \<circ> fst) submitted = [next_id b0..<next_id b0 + length submitted]" "cp_handle ` set delivered \<subseteq> fst ` set submitted"
    using history_keeps_inv [OF assms] by (auto simp: history_inv_def)
  have "distinct (map unat (map fst submitted))" using inv(1) by (simp add: comp_def)
  then show "distinct (map fst submitted)" by (simp only: distinct_map)
  show "cp_handle ` set delivered \<subseteq> fst ` set submitted" by (rule inv(2))
qed

end

text \<open>
  A backend whose completions are determined when the job is submitted: \<open>outcome b h\<close> is the
  completion owed for \<open>h\<close>.
\<close>

locale backend =
  fixes ok :: "'b \<Rightarrow> bool" and next_id :: "'b \<Rightarrow> nat" and outcome :: "'b \<Rightarrow> job_handle \<rightharpoonup> completion"
    and submit :: "frame_job \<Rightarrow> 'b \<Rightarrow> job_handle \<times> 'b" and poll :: "'b \<Rightarrow> completion list \<times> 'b"
  assumes submit_ok: "ok b \<Longrightarrow> next_id b < 2 ^ 64 - 1 \<Longrightarrow> submit job b = (h, b') \<Longrightarrow> ok b'"
    and submit_fresh: "ok b \<Longrightarrow> next_id b < 2 ^ 64 - 1 \<Longrightarrow> submit job b = (h, b') \<Longrightarrow>
           unat h = next_id b \<and> next_id b' = next_id b + 1 \<and> outcome b h = None"
    and submit_promise: "ok b \<Longrightarrow> next_id b < 2 ^ 64 - 1 \<Longrightarrow> submit job b = (h, b') \<Longrightarrow>
           \<exists>c. cp_handle c = h \<and> outcome b' = (outcome b)(h \<mapsto> c)"
    and poll_ok: "ok b \<Longrightarrow> poll b = (cs, b') \<Longrightarrow> ok b' \<and> next_id b' = next_id b"
    and poll_promised: "ok b \<Longrightarrow> poll b = (cs, b') \<Longrightarrow> c \<in> set cs \<Longrightarrow> outcome b (cp_handle c) = Some c"
    and poll_once: "ok b \<Longrightarrow> poll b = (cs, b') \<Longrightarrow>
           distinct (map cp_handle cs) \<and> outcome b' = (\<lambda>h. if h \<in> cp_handle ` set cs then None else outcome b h)"
    and outcome_handle: "ok b \<Longrightarrow> outcome b h = Some c \<Longrightarrow> cp_handle c = h"

sublocale backend \<subseteq> job_ledger ok next_id "\<lambda>b. dom (outcome b)" "\<lambda>b job h b'. submit job b = (h, b')"
    "\<lambda>b cs b'. poll b = (cs, b')"
proof unfold_locales
  fix b job h b'
  assume a: "ok b" "next_id b < 2 ^ 64 - 1" "submit job b = (h, b')"
  obtain c where "outcome b' = (outcome b)(h \<mapsto> c)" using submit_promise [OF a] by blast
  with submit_ok [OF a] submit_fresh [OF a] show "ok b' \<and> unat h = next_id b \<and> next_id b' = next_id b + 1 \<and>
      h \<notin> dom (outcome b) \<and> dom (outcome b') = insert h (dom (outcome b))" by auto
next
  fix b cs b'
  assume a: "ok b" "poll b = (cs, b')"
  have "dom (outcome b') = dom (outcome b) - cp_handle ` set cs" using poll_once [OF a] by (auto simp: dom_def split: if_splits)
  with poll_ok [OF a] poll_promised [OF a] poll_once [OF a]
  show "ok b' \<and> next_id b' = next_id b \<and> distinct (map cp_handle cs) \<and> cp_handle ` set cs \<subseteq> dom (outcome b) \<and>
      dom (outcome b') = dom (outcome b) - cp_handle ` set cs" by auto
qed

context backend
begin

lemma run_history:
  assumes "ok b" "dom (outcome b) = {}" "next_id b + length (filter (\<lambda>e. e \<noteq> Poll) es) < 2 ^ 64 - 1"
  shows "history_inv (next_id b) (backend_run submit poll es b)"
proof -
  obtain b1 sub del where run: "backend_run submit poll es b = (b1, sub, del)" by (cases "backend_run submit poll es b")
  from history_keeps_inv [OF backend_run_history [OF run] assms(1,2)] show ?thesis
    using assms(3) backend_run_length [OF run] by (simp add: run)
qed

end

text \<open>A backend whose completions are those of a reference function of the job.\<close>

locale reference_backend = backend +
  fixes reference :: "frame_job \<Rightarrow> image result"
  assumes submit_reference: "ok b \<Longrightarrow> next_id b < 2 ^ 64 - 1 \<Longrightarrow> submit job b = (h, b') \<Longrightarrow>
      outcome b' = (outcome b)(h \<mapsto> completion_of h (reference job))"
begin

definition follows_reference :: "'a \<times> (job_handle \<times> frame_job) list \<times> completion list \<Rightarrow> bool" where
  "follows_reference = (\<lambda>(b, submitted, delivered).
     set delivered \<union> ran (outcome b) \<subseteq> (\<lambda>(h, job). completion_of h (reference job)) ` set submitted)"

lemma history_reference:
  assumes "backend_history (\<lambda>b job h b'. submit job b = (h, b')) (\<lambda>b cs b'. poll b = (cs, b')) b0 b submitted delivered"
    and "ok b0" "dom (outcome b0) = {}" "next_id b0 + length submitted < 2 ^ 64 - 1"
  shows "follows_reference (b, submitted, delivered)"
  using assms(1,4)
proof (induction rule: backend_history.induct)
  case history_start
  then show ?case using assms(3) by (simp add: follows_reference_def ran_def)
next
  case (history_submit b submitted delivered job h b')
  have inv: "history_inv (next_id b0) (b, submitted, delivered)"
    by (rule history_keeps_inv [OF history_submit.hyps(1) assms(2,3)]) (use history_submit.prems in simp)
  have "next_id b < 2 ^ 64 - 1" using inv history_submit.prems by (simp add: history_inv_def)
  note o = submit_reference [OF _ this history_submit.hyps(2)]
  have "ran (outcome b') \<subseteq> insert (completion_of h (reference job)) (ran (outcome b))"
    using inv o by (auto simp: ran_def history_inv_def)
  with history_submit.IH history_submit.prems show ?case by (auto simp: follows_reference_def)
next
  case (history_poll b submitted delivered cs b')
  have inv: "history_inv (next_id b0) (b, submitted, delivered)"
    by (rule history_keeps_inv [OF history_poll.hyps(1) assms(2,3)]) (use history_poll.prems in simp)
  then have ok: "ok b" by (simp add: history_inv_def)
  have "set cs \<subseteq> ran (outcome b)" using poll_promised [OF ok history_poll.hyps(2)] by (auto intro: ranI)
  moreover have "ran (outcome b') \<subseteq> ran (outcome b)"
    using poll_once [OF ok history_poll.hyps(2)] by (auto simp: ran_def split: if_splits)
  ultimately show ?case using history_poll.IH history_poll.prems by (auto simp: follows_reference_def)
qed

end

section \<open>The CPU backend keeps the contract\<close>

definition cpu_ok :: "cpu_backend \<Rightarrow> bool" where
  "cpu_ok b \<longleftrightarrow> distinct (map cp_handle (cb_completed b)) \<and>
     (\<forall>c \<in> set (cb_completed b). unat (cp_handle c) < unat (cb_next_handle b))"

definition cpu_outcome :: "cpu_backend \<Rightarrow> job_handle \<rightharpoonup> completion" where
  "cpu_outcome b h = find (\<lambda>c. cp_handle c = h) (cb_completed b)"

lemma find_handle:
  "distinct (map cp_handle cs) \<Longrightarrow> c \<in> set cs \<Longrightarrow> find (\<lambda>c'. cp_handle c' = cp_handle c) cs = Some c"
  by (induction cs) auto

lemma find_handle_Some: "find (\<lambda>c. cp_handle c = h) cs = Some c \<Longrightarrow> c \<in> set cs \<and> cp_handle c = h"
  by (induction cs) (auto split: if_splits)

lemma find_handle_None: "find (\<lambda>c. cp_handle c = h) cs = None \<longleftrightarrow> h \<notin> cp_handle ` set cs"
  by (induction cs) auto

lemma find_handle_snoc:
  "h \<notin> cp_handle ` set cs \<Longrightarrow> cp_handle c = h \<Longrightarrow>
   find (\<lambda>c'. cp_handle c' = h') (cs @ [c]) = (if h' = h then Some c else find (\<lambda>c'. cp_handle c' = h') cs)"
  by (induction cs) auto

lemma completion_of_handle [simp]: "cp_handle (completion_of h r) = h"
  by (simp add: completion_of_def split: sum.splits)

lemma unat_inc: "unat (n :: u64) < 2 ^ 64 - 1 \<Longrightarrow> unat (n + 1) = unat n + 1"
  by (simp add: unat_word_ariths)

lemma cpu_submit_facts:
  assumes "cpu_ok b" "unat (cb_next_handle b) < 2 ^ 64 - 1" "cpu_submit expf job b = (h, b')"
  shows "cpu_ok b'" "unat h = unat (cb_next_handle b)" "unat (cb_next_handle b') = unat (cb_next_handle b) + 1"
    "cpu_outcome b h = None" "cpu_outcome b' = (cpu_outcome b)(h \<mapsto> completion_of h (cpu_process expf job))"
proof -
  have h: "h = cb_next_handle b" and b': "cb_completed b' = cb_completed b @ [completion_of h (cpu_process expf job)]"
    "cb_next_handle b' = h + 1" using assms(3) by (auto simp: cpu_submit_def Let_def)
  show n: "unat h = unat (cb_next_handle b)" "unat (cb_next_handle b') = unat (cb_next_handle b) + 1"
    using unat_inc [OF assms(2)] h b'(2) by simp_all
  have fresh: "h \<notin> cp_handle ` set (cb_completed b)" using assms(1) h by (auto simp: cpu_ok_def)
  then show "cpu_outcome b h = None" by (simp add: cpu_outcome_def find_handle_None)
  show "cpu_ok b'" using assms(1) fresh n h by (auto simp: cpu_ok_def b' n(2))
  show "cpu_outcome b' = (cpu_outcome b)(h \<mapsto> completion_of h (cpu_process expf job))"
    using find_handle_snoc [OF fresh] by (simp add: cpu_outcome_def fun_eq_iff b'(1))
qed

interpretation cpu: reference_backend cpu_ok "\<lambda>b. unat (cb_next_handle b)" cpu_outcome "cpu_submit expf"
    cpu_poll_completions "cpu_process expf" for expf
proof unfold_locales
  fix b job h b'
  assume "cpu_ok b" "unat (cb_next_handle b) < 2 ^ 64 - 1" "cpu_submit expf job b = (h, b')"
  note f = cpu_submit_facts [OF this]
  show "cpu_ok b'" by (rule f)
  show "unat h = unat (cb_next_handle b) \<and> unat (cb_next_handle b') = unat (cb_next_handle b) + 1 \<and> cpu_outcome b h = None"
    using f(2-4) by simp
  show "\<exists>c. cp_handle c = h \<and> cpu_outcome b' = (cpu_outcome b)(h \<mapsto> c)" using f(5) completion_of_handle by blast
  show "cpu_outcome b' = (cpu_outcome b)(h \<mapsto> completion_of h (cpu_process expf job))" by (rule f)
next
  fix b cs b' assume ok: "cpu_ok b" and p: "cpu_poll_completions b = (cs, b')"
  then show "cpu_ok b' \<and> unat (cb_next_handle b') = unat (cb_next_handle b)"
    by (auto simp: cpu_poll_completions_def cpu_ok_def)
  show "cpu_outcome b (cp_handle c) = Some c" if "c \<in> set cs" for c
    using ok p that find_handle by (auto simp: cpu_outcome_def cpu_poll_completions_def cpu_ok_def)
  show "distinct (map cp_handle cs) \<and> cpu_outcome b' = (\<lambda>h. if h \<in> cp_handle ` set cs then None else cpu_outcome b h)"
    using ok p by (auto simp: cpu_poll_completions_def cpu_ok_def cpu_outcome_def fun_eq_iff find_handle_None eq_commute [of None])
next
  fix b h c assume "cpu_outcome b h = Some c"
  then show "cp_handle c = h" using find_handle_Some by (auto simp: cpu_outcome_def)
qed

section \<open>Properties\<close>

text \<open>
  C25: Over any sequence of submissions and polls of the CPU backend, every job is completed exactly once:
  handles are distinct and count up from 1, each handle delivered was submitted, no handle is delivered twice,
  and a submitted handle that was not delivered yet is still waiting for the next poll. Every
  completion carries what the op chain computes on the job's image, or the error of a malformed job.
\<close>

theorem cpu_backend_completes_exactly_once:
  assumes "length (filter (\<lambda>e. e \<noteq> Poll) es) < 2 ^ 64 - 2"
    and "backend_run (cpu_submit expf) cpu_poll_completions es new_cpu_backend = (b, submitted, delivered)"
  shows "map (unat \<circ> fst) submitted = [1..<1 + length submitted] \<and>
    distinct (map cp_handle (delivered @ cb_completed b)) \<and>
    set (map cp_handle (delivered @ cb_completed b)) = set (map fst submitted) \<and>
    (\<forall>c \<in> set delivered. \<exists>(h, job) \<in> set submitted. c = completion_of h (cpu_process expf job))"
proof -
  have new: "cpu_ok new_cpu_backend" "dom (cpu_outcome new_cpu_backend) = {}" "unat (cb_next_handle new_cpu_backend) = 1"
    by (auto simp: new_cpu_backend_def cpu_ok_def cpu_outcome_def)
  have room: "unat (cb_next_handle new_cpu_backend) + length (filter (\<lambda>e. e \<noteq> Poll) es) < 2 ^ 64 - 1"
    using assms(1) new(3) by simp
  from cpu.run_history [OF new(1,2) room, of expf] have inv: "cpu.history_inv 1 (b, submitted, delivered)"
    using assms(2) new(3) by simp
  have dom: "dom (cpu_outcome b) = cp_handle ` set (cb_completed b)"
    unfolding dom_def cpu_outcome_def find_handle_None by simp
  from inv dom have "distinct (map cp_handle (delivered @ cb_completed b))"
    by (auto simp: cpu.history_inv_def cpu_ok_def)
  moreover from inv dom have "set (map cp_handle (delivered @ cb_completed b)) = set (map fst submitted)"
    by (simp add: cpu.history_inv_def image_Un)
  moreover have "\<forall>c \<in> set delivered. \<exists>(h, job) \<in> set submitted. c = completion_of h (cpu_process expf job)"
    using cpu.history_reference [OF backend_run_history [OF assms(2)] new(1,2)] room backend_run_length [OF assms(2)]
    by (fastforce simp: cpu.follows_reference_def)
  moreover have "map (unat \<circ> fst) submitted = [1..<1 + length submitted]" using inv by (simp add: cpu.history_inv_def)
  ultimately show ?thesis by blast
qed

abbreviation gray_job :: frame_job where
  "gray_job \<equiv> \<lparr>job_input = Some [9], job_width = 1, job_height = 1, job_channels = 1, job_stride = 1,
     job_chain = [\<lparr>kind = kInvert, param = 0\<rparr>]\<rparr>"

theorem cpu_backend_completes_exactly_once_witness:
  "distinct (map cp_handle (snd (snd (backend_run (cpu_submit (\<lambda>x. 1)) cpu_poll_completions
     [Submit gray_job, Submit (gray_job\<lparr>job_input := None\<rparr>), Poll] new_cpu_backend))))"
proof -
  define r where "r = backend_run (cpu_submit (\<lambda>x. 1)) cpu_poll_completions
     [Submit gray_job, Submit (gray_job\<lparr>job_input := None\<rparr>), Poll] new_cpu_backend"
  have "r = (fst r, fst (snd r), snd (snd r))" by simp
  from cpu_backend_completes_exactly_once [OF _ this [unfolded r_def], folded r_def]
  show ?thesis by (simp add: r_def)
qed

text \<open>
  A job succeeds exactly when it has an input, positive dimensions, 1, 3 or 4 channels and a stride of at
  least one packed row, whatever its chain: then the completion carries an image of the job's shape; in
  every other case it carries the empty image and a reason, and submitting never throws.
\<close>

lemma cpu_job_outcome:
  fixes job :: frame_job
  defines "valid \<equiv> job_input job \<noteq> None \<and> 0 < job_width job \<and> 0 < job_height job \<and>
      is_supported_channel_count (job_channels job) \<and> nat (job_width job) * nat (job_channels job) \<le> job_stride job"
  shows "if valid
    then cp_status (completion_of h (cpu_process expf job)) = job_kOk \<and>
         image_wf (cp_output (completion_of h (cpu_process expf job))) \<and>
         im_width (cp_output (completion_of h (cpu_process expf job))) = job_width job \<and>
         im_height (cp_output (completion_of h (cpu_process expf job))) = job_height job \<and>
         im_channels (cp_output (completion_of h (cpu_process expf job))) = job_channels job
    else cp_status (completion_of h (cpu_process expf job)) = job_kError \<and>
         cp_output (completion_of h (cpu_process expf job)) = empty_image \<and>
         cp_error (completion_of h (cpu_process expf job)) \<noteq> []"
proof (cases valid)
  case True
  then obtain bytes img where i: "job_input job = Some bytes"
      "image_from_bytes (job_width job) (job_height job) (job_channels job) bytes (job_stride job) = Inr img"
    using image_from_bytes_ok unfolding valid_def by (metis option.exhaust)
  note f = image_from_bytes_Inr [OF i(2)]
  obtain out where "apply_chain expf img (job_chain job) = Inr out" "keeps_frame img out"
    using apply_chain_frame [OF f(1)] by blast
  with i f True show ?thesis
    by (simp add: cpu_process_def completion_of_def keeps_frame_def same_shape_def)
next
  case False
  have "\<exists>m. m \<noteq> [] \<and> cpu_process expf job = Inl (Invalid_argument m)"
    using False unfolding valid_def
    by (auto simp: cpu_process_def image_from_bytes_def new_image_def Let_def split: option.splits)
  with False show ?thesis by (auto simp: completion_of_def what_def)
qed

end
