(* ===== verification/Codegen.thy ===== *)
theory Codegen
  imports Kernel_Key Cpu_Ops Cpp_Text "HOL-Library.Multiset"
begin

text \<open>
  CUDA code generation (\<open>src/backend/cuda/codegen.h\<close>, \<open>src/backend/cuda/codegen.cpp\<close>,
  \<open>src/backend/cuda/kernel_prelude.h\<close>): the fusion plan, and the text of the generated
  translation unit, character by character. The output stream of the code is the string a
  function returns; the exceptions of the code are \<open>Inl\<close>.
\<close>

section \<open>Text\<close>

definition nl :: string where "nl = [CHR 0x0A]"
definition dq :: string where "dq = [CHR 0x22]"

text \<open>The UTF-8 bytes of the em dash that the source text contains.\<close>

definition em_dash :: string where "em_dash = [CHR 0xE2, CHR 0x80, CHR 0x94]"

abbreviation text_line :: "string \<Rightarrow> string" where "text_line s \<equiv> s @ nl"

definition kKernelPrelude :: string where
  "kKernelPrelude = nl @ concat (map text_line
    [''// ---------------------------------------------------------------------------'',
     ''// imgjit kernel prelude '' @ em_dash @ '' stable device helpers (src/backend/cuda/kernel_prelude.h)'',
     ''// Self-contained by necessity: NVRTC has no default include path.'',
     ''// ---------------------------------------------------------------------------'',
     '''',
     ''__device__ __forceinline__ int imgjit_clamp_coord(int v, int limit) {'',
     ''  return v < 0 ? 0 : (v > limit - 1 ? limit - 1 : v);'',
     ''}'',
     '''',
     ''__device__ __forceinline__ float imgjit_clamp01(float v) {'',
     ''  return v < 0.0f ? 0.0f : (v > 1.0f ? 1.0f : v);'',
     ''}'',
     '''',
     ''__device__ __forceinline__ float imgjit_load_sample(unsigned char v) {'',
     ''  return (float)v / 255.0f;'',
     ''}'',
     '''',
     ''__device__ __forceinline__ unsigned char imgjit_store_sample(float v) {'',
     ''  return (unsigned char)(int)roundf(imgjit_clamp01(v) * 255.0f);'',
     ''}'',
     '''',
     ''// The fusion boundary, and the reason fusion is safe to compare against the oracle.'',
     ''//'',
     ''// The CPU oracle materializes a whole uint8 image between every pair of ops. A fused'',
     ''// kernel keeps the value in a register instead, so unless it rounds here, fusing would'',
     ''// silently change the NUMERICS rather than just the memory traffic '' @ em_dash @ '' and the drift is'',
     ''// not small: Sobel'' @ squote @ ''s coefficients sum to 8 in absolute value, so a half-LSB difference'',
     ''// per tap amplifies to ~4 LSB, and a threshold that a sample straddles flips 0 <-> 255.'',
     ''// Rounding here keeps fusion a pure memory optimization.'',
     ''//'',
     ''// Idempotent with imgjit_store_sample, so the call codegen emits before a store is'',
     ''// redundant; it costs one roundf and buys a rule with no exceptions.'',
     ''__device__ __forceinline__ float imgjit_quantize(float v) {'',
     ''  return imgjit_load_sample(imgjit_store_sample(v));'',
     ''}'',
     '''',
     ''// Rec. 601, in the oracle'' @ squote @ ''s association order. These three constants are the same'',
     ''// numbers as imgjit::cpu::kLumaRed / kLumaGreen / kLumaBlue; a codegen test asserts'',
     ''// they have not drifted apart.'',
     ''__device__ __forceinline__ float imgjit_luma(float r, float g, float b) {'',
     ''  return 0.299f * r + 0.587f * g + 0.114f * b;'',
     ''}''])"

definition float_literal :: "rat \<Rightarrow> string" where
  "float_literal value =
     (let literal = printf_9g value;
          literal = (if list_ex (\<lambda>c. c \<in> set ''.eE'') literal then literal else literal @ ''.0'')
      in literal @ ''f'')"

section \<open>The fusion plan\<close>

definition kNaiveBlockDim :: int where "kNaiveBlockDim = 16"
definition kMaxTileSize :: int where "kMaxTileSize = 32"
definition kMaxGaussianTaps :: int where "kMaxGaussianTaps = 25"
definition kMaxStaticSharedBytes :: nat where "kMaxStaticSharedBytes = 48 * 1024"
definition kStagePrefix :: string where "kStagePrefix = ''imgjit_stage''"

record planned_op =
  pl_op :: chain_op
  pl_index :: nat

record stage =
  st_prologue :: "planned_op list"
  st_has_stencil :: bool
  st_stencil :: planned_op
  st_epilogue :: "planned_op list"

text \<open>The value-initialised \<open>Stage\<close> of \<open>stages.emplace_back()\<close>.\<close>

definition empty_stage :: stage where
  "empty_stage = \<lparr>st_prologue = [], st_has_stencil = False,
     st_stencil = \<lparr>pl_op = \<lparr>kind = kGrayscale, param = 0\<rparr>, pl_index = 0\<rparr>, st_epilogue = []\<rparr>"

definition plan_step :: "stage list \<Rightarrow> planned_op \<Rightarrow> stage list" where
  "plan_step stages planned =
     (let stages = (if stages = [] then [empty_stage] else stages); current = last stages
      in if \<not> is_stencil (spec_of (kind (pl_op planned)))
         then butlast stages @
              [if st_has_stencil current then current\<lparr>st_epilogue := st_epilogue current @ [planned]\<rparr>
               else current\<lparr>st_prologue := st_prologue current @ [planned]\<rparr>]
         else let stages = (if st_has_stencil current then stages @ [empty_stage] else stages)
              in butlast stages @ [(last stages)\<lparr>st_has_stencil := True, st_stencil := planned\<rparr>])"

definition indexed :: "op_chain \<Rightarrow> planned_op list" where
  "indexed chain = map (\<lambda>i. \<lparr>pl_op = chain ! i, pl_index = i\<rparr>) [0..<length chain]"

definition plan_stages :: "op_chain \<Rightarrow> stage list" where
  "plan_stages chain = foldl plan_step [] (indexed chain)"

section \<open>Emission\<close>

definition param_indices :: "planned_op list \<Rightarrow> bool \<Rightarrow> nat list" where
  "param_indices ops parameterized =
     (if parameterized then map pl_index (filter (\<lambda>planned. takes_param (spec_of (kind (pl_op planned)))) ops) else [])"

definition param_list :: "nat list \<Rightarrow> string \<Rightarrow> string" where
  "param_list indices prefix = concat (map (\<lambda>index. prefix @ show_nat index) indices)"

definition chain_comment :: "op_chain \<Rightarrow> bool \<Rightarrow> string" where
  "chain_comment chain parameterized =
     (if \<not> parameterized then canonical_string chain
      else foldl (\<lambda>text op. text @ (if text = [] then '''' else '','') @ spec_name (spec_of (kind op)) @
             (if takes_param (spec_of (kind op)) then '':<arg>'' else '''')) [] chain)"

definition element :: "string \<Rightarrow> nat \<Rightarrow> string" where
  "element var c = var @ ''['' @ show_nat c @ '']''"

definition pointwise_text :: "planned_op \<Rightarrow> nat \<Rightarrow> string \<Rightarrow> string \<Rightarrow> bool \<Rightarrow> string result" where
  "pointwise_text planned colors var indent parameterized =
     (let op = pl_op planned;
          param_text = (if parameterized then ''p'' @ show_nat (pl_index planned) else float_literal (param op))
      in case kind op of
           kGrayscale \<Rightarrow>
             Inr (if colors = 1 then indent @ text_line ''// grayscale: a 1-channel sample is already luminance.''
                  else indent @ text_line ''{'' @
                       indent @ ''  const float g = imgjit_quantize(imgjit_luma('' @ var @ ''[0], '' @ var @
                       ''[1], '' @ var @ text_line ''[2]));'' @
                       concat (map (\<lambda>c. indent @ ''  '' @ element var c @ text_line '' = g;'') [0..<colors]) @
                       indent @ text_line ''}'')
         | kInvert \<Rightarrow>
             Inr (concat (map (\<lambda>c. indent @ element var c @ '' = imgjit_quantize(1.0f - '' @ element var c @
                    text_line '');'') [0..<colors]))
         | kBrightness \<Rightarrow>
             Inr (concat (map (\<lambda>c. indent @ element var c @ '' = imgjit_quantize('' @ element var c @ '' + '' @
                    param_text @ text_line '');'') [0..<colors]))
         | kThreshold \<Rightarrow>
             Inr (concat (map (\<lambda>c. indent @ element var c @ '' = imgjit_quantize('' @ element var c @ '' >= '' @
                    param_text @ text_line '' ? 1.0f : 0.0f);'') [0..<colors]))
         | _ \<Rightarrow> Inl (Logic_error ''emit_pointwise: a stencil op reached a pointwise run''))"

definition emit_pointwise :: "planned_op list \<Rightarrow> nat \<Rightarrow> string \<Rightarrow> string \<Rightarrow> bool \<Rightarrow> string result" where
  "emit_pointwise ops colors var indent parameterized =
     bind_result (traverse (\<lambda>planned. pointwise_text planned colors var indent parameterized) ops)
       (\<lambda>texts. Inr (concat texts))"

definition zero_initializer :: "nat \<Rightarrow> string" where
  "zero_initializer colors = ''{'' @ concat (map (\<lambda>c. if c = 0 then ''0.0f'' else '', 0.0f'') [0..<colors]) @ ''}''"

definition emit_tap_function :: "string \<Rightarrow> stage \<Rightarrow> int \<Rightarrow> nat \<Rightarrow> bool \<Rightarrow> string \<Rightarrow> string result" where
  "emit_tap_function name stage channels colors parameterized prologue_params =
     bind_result (emit_pointwise (st_prologue stage) colors ''v'' ''  '' parameterized) (\<lambda>prologue.
       Inr (nl @ ''__device__ __forceinline__ void '' @ name @ text_line ''_tap('' @
            text_line ''    const unsigned char* __restrict__ src, int x, int y, int width, int height,'' @
            ''    float* v'' @ prologue_params @ text_line '') {'' @
            text_line ''  const int sx = imgjit_clamp_coord(x, width);'' @
            text_line ''  const int sy = imgjit_clamp_coord(y, height);'' @
            ''  const int i = (sy * width + sx) * '' @ show_int channels @ text_line '';'' @
            concat (map (\<lambda>c. ''  v['' @ show_nat c @ ''] = imgjit_load_sample(src[i + '' @ show_nat c @ text_line '']);'')
              [0..<colors]) @
            prologue @ text_line ''}''))"

definition emit_stencil_constants :: "(rat \<Rightarrow> rat) \<Rightarrow> string \<Rightarrow> chain_op \<Rightarrow> string \<times> int" where
  "emit_stencil_constants expf name stencil =
     (if kind stencil = kSobel
      then (nl @ ''__device__ const float '' @ name @
            text_line ''_gx[9] = {-1.0f, 0.0f, 1.0f, -2.0f, 0.0f, 2.0f, -1.0f, 0.0f, 1.0f};'' @
            ''__device__ const float '' @ name @
            text_line ''_gy[9] = {-1.0f, -2.0f, -1.0f, 0.0f, 0.0f, 0.0f, 1.0f, 2.0f, 1.0f};'', 1)
      else let radius = gaussian_radius (param stencil); weights = gaussian_weights_1d expf (param stencil)
           in (nl @ ''// gaussian sigma='' @ float_literal (param stencil) @ '', radius='' @ show_int radius @
               '' '' @ em_dash @ text_line '' weights baked from imgjit::cpu::gaussian_weights_1d.'' @
               ''__device__ const float '' @ name @ ''_w['' @ show_nat (length weights) @ ''] = {'' @
               concat (map (\<lambda>i. (if i = 0 then '''' else '', '') @ float_literal (weights ! i)) [0..<length weights]) @
               text_line ''};'', radius))"

definition shared_bytes :: "nat \<Rightarrow> int \<Rightarrow> int \<Rightarrow> nat" where
  "shared_bytes colors tile_size radius =
     (let edge = tile_size + 2 * radius in nat (int colors * edge * edge) * 4)"

definition emit_tile_load :: "string \<Rightarrow> int \<Rightarrow> int \<Rightarrow> nat \<Rightarrow> string result" where
  "emit_tile_load name radius tile_size colors =
     (let edge = tile_size + 2 * radius; bytes = shared_bytes colors tile_size radius
      in if bytes > kMaxStaticSharedBytes
         then Inl (Invalid_argument (''emit_cuda_source: a '' @ show_int tile_size @ ''-wide tile with a radius-'' @
                show_int radius @ '' apron needs '' @ show_nat bytes @
                '' bytes of __shared__ memory, over the 48 KiB static limit''))
         else Inr (''  // '' @ show_int tile_size @ ''x'' @ show_int tile_size @ '' outputs plus a '' @ show_int radius @
                text_line ''-pixel apron on every side, staged with the prologue applied.'' @
                ''  __shared__ float tile['' @ show_nat colors @ '']['' @ show_int edge @ '']['' @ show_int edge @ text_line ''];'' @
                ''  const int tile_x0 = (int)(blockIdx.x * '' @ show_int tile_size @ '') - '' @ show_int radius @ text_line '';'' @
                ''  const int tile_y0 = (int)(blockIdx.y * '' @ show_int tile_size @ '') - '' @ show_int radius @ text_line '';'' @
                ''  for (int k = (int)(threadIdx.y * '' @ show_int tile_size @ '' + threadIdx.x); k < '' @
                show_int (edge * edge) @ ''; k += '' @ show_int (tile_size * tile_size) @ text_line '') {'' @
                ''    const int ty = k / '' @ show_int edge @ text_line '';'' @
                ''    const int tx = k - ty * '' @ show_int edge @ text_line '';'' @
                ''    float t['' @ show_nat colors @ text_line ''];'' @
                ''    '' @ name @ text_line ''_tap(src, tile_x0 + tx, tile_y0 + ty, width, height, t);'' @
                concat (map (\<lambda>c. ''    tile['' @ show_nat c @ ''][ty][tx] = t['' @ show_nat c @ text_line ''];'') [0..<colors]) @
                text_line ''  }'' @
                text_line ''  // Every thread arrives here, including those whose output pixel is past the'' @
                ''  // image edge '' @ em_dash @ text_line '' they still own apron cells. So the bounds check comes after.'' @
                text_line ''  __syncthreads();''))"

definition emit_fetch :: "string \<Rightarrow> nat \<Rightarrow> bool \<Rightarrow> string \<Rightarrow> string" where
  "emit_fetch name colors tiled tap_args =
     ''      float t['' @ show_nat colors @ text_line ''];'' @
     (if \<not> tiled
      then ''      '' @ name @ ''_tap(src, x + dx, y + dy, width, height, t'' @ tap_args @ text_line '');''
      else concat (map (\<lambda>c. ''      t['' @ show_nat c @ ''] = tile['' @ show_nat c @ text_line ''][ly + dy][lx + dx];'')
             [0..<colors]))"

definition emit_stencil_body :: "string \<Rightarrow> chain_op \<Rightarrow> int \<Rightarrow> nat \<Rightarrow> bool \<Rightarrow> bool \<Rightarrow> string \<Rightarrow> string" where
  "emit_stencil_body name stencil radius colors tiled runtime_radius tap_args =
     (let radius_text = (if runtime_radius then ''radius'' else show_int radius);
          weights = (if runtime_radius then ''taps.w'' else name @ ''_w'')
      in (if tiled
          then ''  const int lx = (int)threadIdx.x + '' @ radius_text @ text_line '';  // this pixel, in tile'' @
               ''  const int ly = (int)threadIdx.y + '' @ radius_text @ text_line '';  // coordinates''
          else '''') @
         (if kind stencil = kGaussian
          then ''  float acc['' @ show_nat colors @ ''] = '' @ zero_initializer colors @ text_line '';'' @
               ''  for (int dy = -'' @ radius_text @ ''; dy <= '' @ radius_text @ text_line ''; ++dy) {'' @
               ''    for (int dx = -'' @ radius_text @ ''; dx <= '' @ radius_text @ text_line ''; ++dx) {'' @
               emit_fetch name colors tiled tap_args @
               ''      const float w = '' @ weights @ ''[dy + '' @ radius_text @ ''] * '' @ weights @
               ''[dx + '' @ radius_text @ text_line ''];'' @
               concat (map (\<lambda>c. ''      acc['' @ show_nat c @ ''] += w * t['' @ show_nat c @ text_line ''];'') [0..<colors]) @
               text_line ''    }'' @ text_line ''  }'' @
               concat (map (\<lambda>c. ''  v['' @ show_nat c @ ''] = imgjit_quantize(acc['' @ show_nat c @ text_line '']);'') [0..<colors])
          else ''  float gx['' @ show_nat colors @ ''] = '' @ zero_initializer colors @ text_line '';'' @
               ''  float gy['' @ show_nat colors @ ''] = '' @ zero_initializer colors @ text_line '';'' @
               text_line ''  for (int dy = -1; dy <= 1; ++dy) {'' @
               text_line ''    for (int dx = -1; dx <= 1; ++dx) {'' @
               emit_fetch name colors tiled tap_args @
               text_line ''      const int k = (dy + 1) * 3 + (dx + 1);'' @
               concat (map (\<lambda>c. ''      gx['' @ show_nat c @ ''] += '' @ name @ ''_gx[k] * t['' @ show_nat c @ text_line ''];'' @
                                   ''      gy['' @ show_nat c @ ''] += '' @ name @ ''_gy[k] * t['' @ show_nat c @ text_line ''];'') [0..<colors]) @
               text_line ''    }'' @ text_line ''  }'' @
               concat (map (\<lambda>c. ''  v['' @ show_nat c @ ''] = imgjit_quantize(sqrtf(gx['' @ show_nat c @ ''] * gx['' @ show_nat c @
                                   ''] + gy['' @ show_nat c @ ''] * gy['' @ show_nat c @ text_line '']));'') [0..<colors])))"

record generated_stage =
  gs_kernel_name :: string
  gs_is_stencil :: bool
  gs_block_dim :: int
  gs_param_ops :: "nat list"

record generated_program =
  gp_source :: string
  gp_stages :: "generated_stage list"

text \<open>The text a stage appends to the stream, and its description.\<close>

definition emit_stage :: "(rat \<Rightarrow> rat) \<Rightarrow> string \<Rightarrow> stage \<Rightarrow> int \<Rightarrow> nat \<Rightarrow> int \<Rightarrow> bool \<Rightarrow> (string \<times> generated_stage) result" where
  "emit_stage expf name stage channels colors tile_size parameterized =
     (let runtime_radius = (parameterized \<and> st_has_stencil stage \<and> kind (pl_op (st_stencil stage)) = kGaussian);
          prologue_params = param_indices (st_prologue stage) parameterized;
          epilogue_params = param_indices (st_epilogue stage) parameterized;
          (constants, radius) =
            (if st_has_stencil stage \<and> \<not> runtime_radius then emit_stencil_constants expf name (pl_op (st_stencil stage)) else ('''', 0));
          tiled = (st_has_stencil stage \<and> tile_size > 0);
          block_dim = (if tiled then tile_size else kNaiveBlockDim);
          param_ops = (if runtime_radius then [pl_index (st_stencil stage)] else []) @ prologue_params @ epilogue_params
      in bind_result
           (if st_has_stencil stage
            then emit_tap_function name stage channels colors parameterized (param_list prologue_params '', float p'')
            else Inr '''') (\<lambda>tap.
         bind_result (if tiled then emit_tile_load name radius tile_size colors else Inr '''') (\<lambda>tile_load.
         bind_result
           (if \<not> st_has_stencil stage then emit_pointwise (st_prologue stage) colors ''v'' ''  '' parameterized
            else Inr (emit_stencil_body name (pl_op (st_stencil stage)) radius colors tiled runtime_radius
                        (param_list prologue_params '', p''))) (\<lambda>body.
         bind_result (emit_pointwise (st_epilogue stage) colors ''v'' ''  '' parameterized) (\<lambda>epilogue.
           Inr (constants @ tap @
                nl @ ''extern '' @ dq @ ''C'' @ dq @ '' __global__ void '' @
                (if tiled then ''__launch_bounds__('' @ show_int (block_dim * block_dim) @ '') '' else '''') @
                name @ text_line ''('' @
                text_line ''    const unsigned char* __restrict__ src, unsigned char* __restrict__ dst,'' @
                ''    int width, int height'' @
                (if runtime_radius then '', int radius, imgjit_gaussian_taps taps'' else '''') @
                param_list prologue_params '', float p'' @ param_list epilogue_params '', float p'' @ text_line '') {'' @
                tile_load @
                text_line ''  const int x = (int)(blockIdx.x * blockDim.x + threadIdx.x);'' @
                text_line ''  const int y = (int)(blockIdx.y * blockDim.y + threadIdx.y);'' @
                text_line ''  if (x >= width || y >= height) { return; }'' @
                ''  const int i = (y * width + x) * '' @ show_int channels @ text_line '';'' @
                ''  float v['' @ show_nat colors @ text_line ''];'' @
                (if \<not> st_has_stencil stage
                 then concat (map (\<lambda>c. ''  v['' @ show_nat c @ ''] = imgjit_load_sample(src[i + '' @ show_nat c @ text_line '']);'') [0..<colors])
                 else '''') @
                body @ epilogue @
                concat (map (\<lambda>c. ''  dst[i + '' @ show_nat c @ ''] = imgjit_store_sample(v['' @ show_nat c @ text_line '']);'') [0..<colors]) @
                (if channels = 4 then text_line ''  dst[i + 3] = src[i + 3];  // alpha passes through every op untouched'' else '''') @
                text_line ''}'',
                \<lparr>gs_kernel_name = name, gs_is_stencil = st_has_stencil stage, gs_block_dim = block_dim,
                 gs_param_ops = param_ops\<rparr>))))))"

definition is_supported_tile :: "tile_variant \<Rightarrow> int \<Rightarrow> bool" where
  "is_supported_tile tile tile_size \<longleftrightarrow>
     (if tile = kNaive then tile_size = 0 else tile = kTiled \<and> tile_size \<ge> 1 \<and> tile_size \<le> kMaxTileSize)"

definition is_supported_constants :: "constants_mode \<Rightarrow> tile_variant \<Rightarrow> bool" where
  "is_supported_constants constants tile \<longleftrightarrow>
     (if constants = kBaked then True else constants = kParameterized \<and> tile = kNaive)"

definition source_header :: "kernel_key \<Rightarrow> nat \<Rightarrow> nat \<Rightarrow> int \<Rightarrow> bool \<Rightarrow> string" where
  "source_header key colors n_stages tile_size parameterized =
     ''// Generated by imgjit codegen (src/backend/cuda/codegen.cpp) '' @ em_dash @ text_line '' do not edit.'' @
     ''// chain:    '' @ dq @ chain_comment (key_chain key) parameterized @ dq @ nl @
     ''// channels: '' @ show_int (key_channels key) @ '' ('' @ show_nat colors @ '' colour + '' @
     show_int (if key_channels key = 4 then 1 else 0) @ text_line '' alpha)'' @
     ''// stages:   '' @ text_line (show_nat n_stages) @
     (if tile_size = 0 then text_line ''// tile:     naive (every tap is a global load)''
      else ''// tile:     '' @ show_int tile_size @ ''x'' @ show_int tile_size @
           text_line '' shared-memory tile on stencil stages'') @
     (if parameterized
      then ''// constants: parameterized '' @ em_dash @ text_line '' every op parameter is a kernel argument, so this'' @
           text_line ''// source serves every value of them (imgjit/core/kernel_key.h).''
      else '''') @
     text_line ''//'' @
     text_line ''// Width and height are absent from this source by construction: they are'' @
     text_line ''// launch arguments, so one compile serves every resolution (invariant 4).'' @
     kKernelPrelude @
     (if parameterized then nl @ ''struct imgjit_gaussian_taps { float w['' @ show_int kMaxGaussianTaps @ text_line '']; };'' else '''')"

definition emit_cuda_source :: "(rat \<Rightarrow> rat) \<Rightarrow> kernel_key \<Rightarrow> generated_program result" where
  "emit_cuda_source expf key =
     (if \<not> is_supported_channel_count (key_channels key)
      then Inl (Invalid_argument (''emit_cuda_source: unsupported channel count '' @ show_int (key_channels key)))
      else if \<not> is_supported_tile (key_tile key) (key_tile_size key)
      then Inl (Invalid_argument (''emit_cuda_source: unsupported tile size '' @ show_int (key_tile_size key) @
             '' (naive takes 0, tiled takes 1-'' @ show_int kMaxTileSize @ '')''))
      else if \<not> is_supported_constants (key_constants key) (key_tile key)
      then Inl (Invalid_argument (''emit_cuda_source: parameterized constants need naive stencils '' @ em_dash @ '' a tiled stage '' @
             ''sizes its __shared__ array from the stencil radius, which is only known at launch''))
      else let colors = nat (color_channels (key_channels key));
               stages = plan_stages (key_chain key);
               tile_size = (if key_tile key = kTiled then key_tile_size key else 0);
               parameterized = (key_constants key = kParameterized)
           in bind_result
                (traverse (\<lambda>i. emit_stage expf (kStagePrefix @ show_nat i) (stages ! i) (key_channels key) colors tile_size
                                parameterized) [0..<length stages])
                (\<lambda>emitted.
                  Inr \<lparr>gp_source = source_header key colors (length stages) tile_size parameterized @ concat (map fst emitted),
                       gp_stages = map snd emitted\<rparr>))"

section \<open>The fusion plan keeps the chain\<close>

definition stage_ops :: "stage \<Rightarrow> planned_op list" where
  "stage_ops st = st_prologue st @ (if st_has_stencil st then [st_stencil st] else []) @ st_epilogue st"

abbreviation stencil_op :: "planned_op \<Rightarrow> bool" where
  "stencil_op p \<equiv> is_stencil (spec_of (kind (pl_op p)))"

text \<open>A stage is well formed when its runs are pointwise and nothing follows a missing stencil.\<close>

definition stage_ok :: "stage \<Rightarrow> bool" where
  "stage_ok st \<longleftrightarrow> (\<forall>p \<in> set (st_prologue st @ st_epilogue st). \<not> stencil_op p) \<and>
     (if st_has_stencil st then stencil_op (st_stencil st) else st_epilogue st = [])"

definition plan_ok :: "planned_op list \<Rightarrow> stage list \<Rightarrow> bool" where
  "plan_ok ops stages \<longleftrightarrow>
     concat (map stage_ops stages) = ops \<and> list_all stage_ok stages \<and>
     list_all (\<lambda>st. stage_ops st \<noteq> []) stages \<and>
     list_all st_has_stencil (butlast stages) \<and>
     list_all (\<lambda>st. st_prologue st = []) (tl stages) \<and>
     list_all st_has_stencil (tl stages)"

lemma tl_snoc: "tl (xs @ [x]) = (if xs = [] then [] else tl xs @ [x])"
  by (cases xs) auto

lemma plan_step_ok:
  assumes "plan_ok ops stages"
  shows "plan_ok (ops @ [p]) (plan_step stages p)"
proof (cases stages rule: rev_cases)
  case Nil
  with assms have "ops = []" by (simp add: plan_ok_def)
  with Nil show ?thesis
    by (auto simp: plan_step_def plan_ok_def empty_stage_def stage_ops_def stage_ok_def Let_def)
next
  case (snoc xs cur)
  have only: "xs = []" if "\<not> st_has_stencil cur"
    using assms that by (auto simp: snoc plan_ok_def tl_snoc split: if_splits)
  show ?thesis
  proof (cases "st_has_stencil cur")
    case True
    then show ?thesis
      using assms unfolding snoc plan_ok_def plan_step_def Let_def
      by (auto simp: stage_ops_def stage_ok_def tl_snoc empty_stage_def butlast_append)
  next
    case False
    with only assms show ?thesis
      unfolding snoc plan_ok_def plan_step_def Let_def by (auto simp: stage_ops_def stage_ok_def)
  qed
qed

lemma plan_stages_ok: "plan_ok (indexed chain) (plan_stages chain)"
proof -
  have "plan_ok ops (foldl plan_step [] ops)" for ops
    by (induction ops rule: rev_induct) (simp add: plan_ok_def, simp add: plan_step_ok)
  then show ?thesis by (simp add: plan_stages_def)
qed

lemma indexed_length [simp]: "length (indexed chain) = length chain"
  by (simp add: indexed_def)

lemma map_pl_op_indexed [simp]: "map pl_op (indexed chain) = chain"
  by (simp add: indexed_def comp_def map_nth)

lemma stage_ops_filter_stencil:
  "stage_ok st \<Longrightarrow> length (filter stencil_op (stage_ops st)) = (if st_has_stencil st then 1 else 0)"
  by (auto simp: stage_ok_def stage_ops_def filter_empty_conv)

lemma plan_stencil_count:
  "list_all stage_ok stages \<Longrightarrow>
   length (filter stencil_op (concat (map stage_ops stages))) = length (filter st_has_stencil stages)"
  by (induction stages) (simp_all add: stage_ops_filter_stencil)

lemma filter_pl_op: "length (filter stencil_op ps) = length (filter (\<lambda>op. is_stencil (spec_of (kind op))) (map pl_op ps))"
  by (induction ps) auto

lemma plan_stages_length:
  "length (plan_stages chain) \<le> length (filter (\<lambda>op. is_stencil (spec_of (kind op))) chain) + 1"
proof -
  note ok = plan_stages_ok [of chain, unfolded plan_ok_def]
  have "length (filter st_has_stencil (plan_stages chain)) = length (filter (\<lambda>op. is_stencil (spec_of (kind op))) chain)"
    using ok plan_stencil_count [of "plan_stages chain"] filter_pl_op [of "indexed chain"] by simp
  moreover have "length (plan_stages chain) \<le> length (filter st_has_stencil (plan_stages chain)) + 1"
  proof (cases "plan_stages chain")
    case (Cons st rest)
    with ok have "filter st_has_stencil rest = rest" by (simp add: filter_id_conv list_all_iff)
    with Cons show ?thesis by simp
  qed simp
  ultimately show ?thesis by simp
qed

lemma plan_stages_empty: "plan_stages chain = [] \<longleftrightarrow> chain = []"
proof -
  have "plan_step s p \<noteq> []" for s p by (simp add: plan_step_def Let_def)
  then have "foldl plan_step [] ops = [] \<longleftrightarrow> ops = []" for ops by (cases ops rule: rev_cases) auto
  then show ?thesis by (simp add: plan_stages_def indexed_def)
qed

section \<open>Emission succeeds\<close>

lemma pointwise_text_ok:
  "\<not> stencil_op p \<Longrightarrow> \<exists>t. pointwise_text p colors var indent parameterized = Inr t"
  by (cases "kind (pl_op p)") (auto simp: pointwise_text_def Let_def kOpSpecs_def)

lemma traverse_ok: "\<forall>x \<in> set xs. \<exists>y. f x = Inr y \<Longrightarrow> \<exists>ys. traverse f xs = Inr ys \<and> length ys = length xs"
  by (induction xs) (auto split: sum.splits)

lemma emit_pointwise_ok:
  assumes "\<forall>p \<in> set ops. \<not> stencil_op p"
  shows "\<exists>t. emit_pointwise ops colors var indent parameterized = Inr t"
  using traverse_ok [of ops "\<lambda>p. pointwise_text p colors var indent parameterized"] assms pointwise_text_ok
  by (auto simp: emit_pointwise_def)

lemma shared_bytes_bound:
  assumes "colors \<le> 3" "1 \<le> tile_size" "tile_size \<le> 32" "0 \<le> radius" "radius \<le> 12"
  shows "shared_bytes colors tile_size radius \<le> 37632"
proof -
  define edge where "edge = tile_size + 2 * radius"
  have e: "0 \<le> edge" "edge \<le> 56" using assms by (simp_all add: edge_def)
  then have "edge * edge \<le> 56 * 56" by (intro mult_mono) auto
  then have "int colors * (edge * edge) \<le> 3 * (56 * 56)" using assms(1) e by (intro mult_mono) auto
  then have "nat (int colors * edge * edge) \<le> 9408" by (simp add: mult.assoc)
  then show ?thesis by (simp add: shared_bytes_def Let_def edge_def)
qed

lemma emit_stencil_radius:
  assumes "canonical_op op" "is_stencil (spec_of (kind op))"
  shows "1 \<le> snd (emit_stencil_constants expf name op)" "snd (emit_stencil_constants expf name op) \<le> 12"
proof -
  have "kind op = kSobel \<or> kind op = kGaussian" using assms(2) by (cases "kind op") (simp_all add: kOpSpecs_def)
  moreover have "0 \<le> param op \<and> param op \<le> 4" if "kind op = kGaussian"
    using assms(1) that f32_tenth_nonneg by (auto simp: canonical_op_def kOpSpecs_def)
  ultimately show "1 \<le> snd (emit_stencil_constants expf name op)" "snd (emit_stencil_constants expf name op) \<le> 12"
    using gaussian_radius_bounds [of "param op"] by (auto simp: emit_stencil_constants_def Let_def)
qed

lemma emit_stage_ok:
  assumes "stage_ok st" "\<forall>p \<in> set (stage_ops st). canonical_op (pl_op p)" "colors \<le> 3" "0 \<le> tile_size" "tile_size \<le> 32"
    "\<not> (parameterized \<and> tile_size > 0)"
  shows "\<exists>t. emit_stage expf name st channels colors tile_size parameterized =
     Inr (t, \<lparr>gs_kernel_name = name, gs_is_stencil = st_has_stencil st,
              gs_block_dim = (if st_has_stencil st \<and> tile_size > 0 then tile_size else kNaiveBlockDim),
              gs_param_ops = (if parameterized \<and> st_has_stencil st \<and> kind (pl_op (st_stencil st)) = kGaussian
                              then [pl_index (st_stencil st)] else []) @
                param_indices (st_prologue st) parameterized @ param_indices (st_epilogue st) parameterized\<rparr>)"
proof -
  obtain pro epi where pe: "emit_pointwise (st_prologue st) colors ''v'' ''  '' parameterized = Inr pro"
    "emit_pointwise (st_epilogue st) colors ''v'' ''  '' parameterized = Inr epi"
    using assms(1) emit_pointwise_ok unfolding stage_ok_def by (metis Un_iff set_append)
  have load: "\<exists>t. emit_tile_load name (snd (emit_stencil_constants expf name (pl_op (st_stencil st)))) tile_size colors = Inr t"
    if "st_has_stencil st" "0 < tile_size"
  proof -
    have "canonical_op (pl_op (st_stencil st))" "stencil_op (st_stencil st)"
      using assms(1,2) that(1) by (auto simp: stage_ok_def stage_ops_def)
    from emit_stencil_radius [OF this, of expf name] assms(3,5) that(2)
    have "shared_bytes colors tile_size (snd (emit_stencil_constants expf name (pl_op (st_stencil st)))) \<le> 37632"
      by (intro shared_bytes_bound) auto
    then show ?thesis by (simp add: emit_tile_load_def Let_def kMaxStaticSharedBytes_def)
  qed
  show ?thesis
  proof (cases "st_has_stencil st")
    case True
    obtain tap where tap: "emit_tap_function name st channels colors parameterized
        (param_list (param_indices (st_prologue st) parameterized) '', float p'') = Inr tap"
      using pe by (simp add: emit_tap_function_def)
    show ?thesis
    proof (cases "0 < tile_size")
      case tiled: True
      then have np: "\<not> parameterized" using assms(6) by simp
      obtain tl where "emit_tile_load name (snd (emit_stencil_constants expf name (pl_op (st_stencil st)))) tile_size colors = Inr tl"
        using load True tiled by blast
      with True tiled np tap pe show ?thesis by (simp add: emit_stage_def Let_def split_def)
    next
      case False
      with True tap pe show ?thesis by (simp add: emit_stage_def Let_def split_def)
    qed
  next
    case False
    with pe show ?thesis by (simp add: emit_stage_def Let_def split_def)
  qed
qed

text \<open>What the launcher is told about the stage at position \<open>i\<close>.\<close>

definition stage_description :: "kernel_key \<Rightarrow> nat \<Rightarrow> stage \<Rightarrow> generated_stage" where
  "stage_description key i st =
     (let parameterized = (key_constants key = kParameterized)
      in \<lparr>gs_kernel_name = kStagePrefix @ show_nat i, gs_is_stencil = st_has_stencil st,
          gs_block_dim = (if st_has_stencil st \<and> key_tile key = kTiled then key_tile_size key else kNaiveBlockDim),
          gs_param_ops = (if parameterized \<and> st_has_stencil st \<and> kind (pl_op (st_stencil st)) = kGaussian
                          then [pl_index (st_stencil st)] else []) @
            param_indices (st_prologue st) parameterized @ param_indices (st_epilogue st) parameterized\<rparr>)"

definition supported_key :: "kernel_key \<Rightarrow> bool" where
  "supported_key key \<longleftrightarrow> is_supported_channel_count (key_channels key) \<and>
     is_supported_tile (key_tile key) (key_tile_size key) \<and> is_supported_constants (key_constants key) (key_tile key)"

lemma plan_stages_member:
  assumes "canonical_chain chain" "st \<in> set (plan_stages chain)"
  shows "stage_ok st" "\<forall>p \<in> set (stage_ops st). canonical_op (pl_op p)"
proof -
  note ok = plan_stages_ok [of chain, unfolded plan_ok_def]
  then show "stage_ok st" using assms(2) by (auto simp: list_all_iff)
  have "set (stage_ops st) \<subseteq> set (indexed chain)"
  proof -
    have "set (stage_ops st) \<subseteq> set (concat (map stage_ops (plan_stages chain)))" using assms(2) by auto
    with ok show ?thesis by simp
  qed
  moreover have "pl_op p \<in> set chain" if "p \<in> set (indexed chain)" for p
    using that by (auto simp: indexed_def)
  ultimately show "\<forall>p \<in> set (stage_ops st). canonical_op (pl_op p)" using assms(1) by blast
qed

lemma emit_cuda_source_ok:
  assumes "canonical_chain (key_chain key)" "supported_key key"
  shows "\<exists>program. emit_cuda_source expf key = Inr program \<and>
     gp_stages program = map (\<lambda>i. stage_description key i (plan_stages (key_chain key) ! i)) [0..<length (plan_stages (key_chain key))]"
proof -
  define stages where "stages = plan_stages (key_chain key)"
  define tile_size where "tile_size = (if key_tile key = kTiled then key_tile_size key else 0)"
  define em where "em = (\<lambda>i. emit_stage expf (kStagePrefix @ show_nat i) (stages ! i) (key_channels key)
       (nat (color_channels (key_channels key))) tile_size (key_constants key = kParameterized))"
  have sup: "is_supported_channel_count (key_channels key)" "is_supported_tile (key_tile key) (key_tile_size key)"
      "is_supported_constants (key_constants key) (key_tile key)"
    using assms(2) by (simp_all add: supported_key_def)
  have tile: "0 \<le> tile_size" "tile_size \<le> 32" "\<not> (key_constants key = kParameterized \<and> tile_size > 0)"
      "tile_size > 0 \<longleftrightarrow> key_tile key = kTiled"
    using sup by (auto simp: tile_size_def is_supported_tile_def is_supported_constants_def kMaxTileSize_def split: if_splits)
  have colors: "nat (color_channels (key_channels key)) \<le> 3"
    using sup(1) by (auto simp: is_supported_channel_count_def color_channels_def)
  have one: "\<exists>t. em i = Inr (t, stage_description key i (stages ! i))" if "i < length stages" for i
  proof -
    have m: "stages ! i \<in> set (plan_stages (key_chain key))" using that by (simp add: stages_def)
    from emit_stage_ok [OF plan_stages_member [OF assms(1) m] colors tile(1-3), of expf "kStagePrefix @ show_nat i" "key_channels key"]
    show ?thesis using tile(4) by (auto simp: em_def stage_description_def Let_def tile_size_def)
  qed
  then have "\<forall>i \<in> set [0..<length stages]. \<exists>y. em i = Inr y" by (metis atLeastLessThan_iff set_upt)
  then obtain ys where ys: "traverse em [0..<length stages] = Inr ys" "length ys = length stages"
    using traverse_ok [of "[0..<length stages]" em] by auto
  have "map snd ys = map (\<lambda>i. stage_description key i (stages ! i)) [0..<length stages]"
  proof (rule nth_equalityI)
    fix i assume "i < length (map snd ys)"
    then have i: "i < length stages" using ys(2) by simp
    then have "em i = Inr (ys ! i)" using ys(1) list_all2_nthD [of _ "[0..<length stages]" ys i] by (simp add: traverse_Inr)
    with one [OF i] show "map snd ys ! i = map (\<lambda>i. stage_description key i (stages ! i)) [0..<length stages] ! i"
      using i ys(2) by auto
  qed (simp add: ys(2))
  moreover have "traverse (\<lambda>i. emit_stage expf (kStagePrefix @ show_nat i) (stages ! i) (key_channels key)
       (nat (color_channels (key_channels key))) tile_size (key_constants key = kParameterized)) [0..<length stages] = Inr ys"
    using ys(1) by (simp add: em_def)
  ultimately show ?thesis
    using sup unfolding emit_cuda_source_def Let_def stages_def [symmetric] tile_size_def [symmetric] by simp
qed

section \<open>What the generated program depends on\<close>

definition erase :: "chain_op \<Rightarrow> chain_op" where
  "erase op = op\<lparr>param := 0\<rparr>"

definition erase_planned :: "planned_op \<Rightarrow> planned_op" where
  "erase_planned p = p\<lparr>pl_op := erase (pl_op p)\<rparr>"

definition erase_stage :: "stage \<Rightarrow> stage" where
  "erase_stage st = \<lparr>st_prologue = map erase_planned (st_prologue st), st_has_stencil = st_has_stencil st,
     st_stencil = erase_planned (st_stencil st), st_epilogue = map erase_planned (st_epilogue st)\<rparr>"

lemma kind_erase [simp]: "kind (erase op) = kind op" "kind (pl_op (erase_planned p)) = kind (pl_op p)"
    "pl_index (erase_planned p) = pl_index p"
  by (simp_all add: erase_def erase_planned_def)

lemma erase_eq: "map kind xs = map kind ys \<Longrightarrow> map erase xs = map erase ys"
  by (induction xs ys rule: list_induct2') (auto simp: erase_def)

lemma erase_empty_stage [simp]: "erase_stage empty_stage = empty_stage"
  by (simp add: erase_stage_def empty_stage_def erase_planned_def erase_def)

lemma erase_stage_simps [simp]:
  "st_prologue (erase_stage st) = map erase_planned (st_prologue st)" "st_has_stencil (erase_stage st) = st_has_stencil st"
  "st_stencil (erase_stage st) = erase_planned (st_stencil st)" "st_epilogue (erase_stage st) = map erase_planned (st_epilogue st)"
  by (simp_all add: erase_stage_def)

lemma erase_stage_updates:
  "erase_stage (st\<lparr>st_prologue := xs\<rparr>) = (erase_stage st)\<lparr>st_prologue := map erase_planned xs\<rparr>"
  "erase_stage (st\<lparr>st_epilogue := xs\<rparr>) = (erase_stage st)\<lparr>st_epilogue := map erase_planned xs\<rparr>"
  "erase_stage (st\<lparr>st_has_stencil := b, st_stencil := p\<rparr>) = (erase_stage st)\<lparr>st_has_stencil := b, st_stencil := erase_planned p\<rparr>"
  by (simp_all add: erase_stage_def)

lemma plan_step_erase: "plan_step (map erase_stage stages) (erase_planned p) = map erase_stage (plan_step stages p)"
proof (cases stages rule: rev_cases)
  case Nil
  then show ?thesis by (simp add: plan_step_def Let_def erase_stage_updates) (simp add: empty_stage_def)
next
  case (snoc xs cur)
  then show ?thesis by (simp add: plan_step_def Let_def erase_stage_updates butlast_append)
qed

lemma plan_stages_erase: "plan_stages (map erase chain) = map erase_stage (plan_stages chain)"
proof -
  have "indexed (map erase chain) = map erase_planned (indexed chain)"
    by (auto simp: indexed_def erase_planned_def)
  moreover have "foldl plan_step (map erase_stage s) (map erase_planned ps) = map erase_stage (foldl plan_step s ps)" for s ps
    by (induction ps arbitrary: s) (simp_all add: plan_step_erase)
  from this [of "[]"] have "foldl plan_step [] (map erase_planned ps) = map erase_stage (foldl plan_step [] ps)" for ps by simp
  ultimately show ?thesis by (simp add: plan_stages_def)
qed

lemma pointwise_text_erase: "pointwise_text (erase_planned p) colors var indent True = pointwise_text p colors var indent True"
  by (cases "kind (pl_op p)") (simp_all add: pointwise_text_def Let_def)

lemma traverse_map: "traverse f (map g xs) = traverse (\<lambda>x. f (g x)) xs"
  by (induction xs) (auto split: sum.splits)

lemma traverse_cong: "(\<And>x. x \<in> set xs \<Longrightarrow> f x = g x) \<Longrightarrow> traverse f xs = traverse g xs"
  by (induction xs) (auto split: sum.splits)

lemma emit_pointwise_erase: "emit_pointwise (map erase_planned ops) colors var indent True = emit_pointwise ops colors var indent True"
  by (simp add: emit_pointwise_def traverse_map pointwise_text_erase)

lemma param_indices_erase: "param_indices (map erase_planned ops) b = param_indices ops b"
  by (simp add: param_indices_def filter_map comp_def)

lemma emit_stage_erase:
  assumes "stage_ok st"
  shows "emit_stage expf name (erase_stage st) channels colors tile_size True = emit_stage expf name st channels colors tile_size True"
proof -
  have tap: "emit_tap_function name (erase_stage st) channels colors True ps = emit_tap_function name st channels colors True ps" for ps
    by (simp add: emit_tap_function_def emit_pointwise_erase)
  have body: "emit_stencil_body name (pl_op (erase_planned p)) radius colors tiled rr args =
      emit_stencil_body name (pl_op p) radius colors tiled rr args" for p radius tiled rr args
    unfolding emit_stencil_body_def kind_erase ..
  have const: "emit_stencil_constants expf name (pl_op (erase_planned (st_stencil st))) =
      emit_stencil_constants expf name (pl_op (st_stencil st))"
    if "st_has_stencil st" "kind (pl_op (st_stencil st)) \<noteq> kGaussian"
  proof -
    have "kind (pl_op (st_stencil st)) = kSobel"
      using assms that by (cases "kind (pl_op (st_stencil st))") (simp_all add: stage_ok_def kOpSpecs_def)
    then show ?thesis by (simp add: emit_stencil_constants_def)
  qed
  show ?thesis
    unfolding emit_stage_def Let_def erase_stage_simps kind_erase param_indices_erase emit_pointwise_erase tap body
    using const by (cases "st_has_stencil st \<and> kind (pl_op (st_stencil st)) \<noteq> kGaussian") auto
qed

lemma chain_comment_erase: "chain_comment (map erase chain) True = chain_comment chain True"
proof -
  have "foldl f a (map erase xs) = foldl f a xs" if "\<And>t op. f t (erase op) = f t op" for f :: "string \<Rightarrow> chain_op \<Rightarrow> string" and a xs
    using that by (induction xs arbitrary: a) simp_all
  then show ?thesis by (simp add: chain_comment_def)
qed

lemma emit_cuda_source_erase:
  assumes "key_constants key = kParameterized"
  shows "emit_cuda_source expf (key\<lparr>key_chain := map erase (key_chain key)\<rparr>) = emit_cuda_source expf key"
proof -
  define stages where "stages = plan_stages (key_chain key)"
  have ok: "list_all stage_ok stages" using plan_stages_ok [of "key_chain key"] by (simp add: plan_ok_def stages_def)
  have "traverse (\<lambda>i. emit_stage expf (kStagePrefix @ show_nat i) (map erase_stage stages ! i) ch co ts True) [0..<length stages] =
      traverse (\<lambda>i. emit_stage expf (kStagePrefix @ show_nat i) (stages ! i) ch co ts True) [0..<length stages]" for ch co ts
    using ok by (intro traverse_cong) (simp add: emit_stage_erase list_all_length)
  then show ?thesis
    using assms unfolding emit_cuda_source_def Let_def
    by (simp add: plan_stages_erase source_header_def chain_comment_erase stages_def [symmetric])
qed

text \<open>
  Keys that compare equal generate the same program: for baked keys this needs canonical chains,
  for parameterized keys no parameter value reaches the generated text at all.
\<close>

lemma emit_cuda_source_key_eq:
  assumes "key_eq a b" "canonical_chain (key_chain a)" "canonical_chain (key_chain b)"
  shows "emit_cuda_source expf a = emit_cuda_source expf b"
proof -
  have f: "key_channels a = key_channels b" "key_tile a = key_tile b" "key_tile_size a = key_tile_size b"
      "key_constants a = key_constants b"
    and ops: "list_all2 (\<lambda>l r. op_key_bytes (key_constants a = kBaked) l = op_key_bytes (key_constants a = kBaked) r) (key_chain a) (key_chain b)"
    using assms(1) unfolding key_eq_iff by blast+
  show ?thesis
  proof (cases "key_constants a")
    case kBaked
    have "list_all2 (=) (key_chain a) (key_chain b)"
      using ops by (rule list.rel_mono_strong) (use assms kBaked in \<open>auto simp: op_key_bytes_inj intro: param_hundredths_canonical\<close>)
    then have "a = b" using f by (simp add: list.rel_eq)
    then show ?thesis by simp
  next
    case kParameterized
    have "map kind xs = map kind ys" if "list_all2 (\<lambda>l r. op_key_bytes False l = op_key_bytes False r) xs ys" for xs ys
      using that by (induction rule: list_all2_induct) (auto simp: op_key_bytes_inj)
    with ops kParameterized have "map erase (key_chain a) = map erase (key_chain b)" by (intro erase_eq) simp
    then have "a\<lparr>key_chain := map erase (key_chain a)\<rparr> = b\<lparr>key_chain := map erase (key_chain b)\<rparr>" using f by simp
    then show ?thesis using emit_cuda_source_erase kParameterized f(4) by metis
  qed
qed

section \<open>Launch arguments\<close>

lemma stage_params:
  assumes "stage_ok st" "key_constants key = kParameterized"
  shows "mset (gs_param_ops (stage_description key i st)) =
     mset (map pl_index (filter (\<lambda>p. takes_param (spec_of (kind (pl_op p)))) (stage_ops st)))"
proof -
  have "st_has_stencil st \<Longrightarrow> takes_param (spec_of (kind (pl_op (st_stencil st)))) \<longleftrightarrow> kind (pl_op (st_stencil st)) = kGaussian"
    using assms(1) by (cases "kind (pl_op (st_stencil st))") (simp_all add: stage_ok_def kOpSpecs_def)
  then show ?thesis
    using assms(2) by (auto simp: stage_description_def stage_ops_def param_indices_def Let_def)
qed

lemma stages_params:
  assumes "list_all stage_ok stages" "key_constants key = kParameterized" "length is = length stages"
  shows "mset (concat (map2 (\<lambda>i st. gs_param_ops (stage_description key i st)) is stages)) =
     mset (map pl_index (filter (\<lambda>p. takes_param (spec_of (kind (pl_op p)))) (concat (map stage_ops stages))))"
  using assms(3,1)
proof (induction "is" stages rule: list_induct2)
  case (Cons i "is" st stages)
  then show ?case using stage_params [of st key i] assms(2) by simp
qed simp

section \<open>Properties\<close>

text \<open>
  The fusion plan is the chain, cut into stages: the ops of the stages in order are exactly the chain's
  ops with their positions; every stage is a run of pointwise ops around at most one stencil; only the
  first stage has ops before its stencil; and there are at most as many kernels as stencils plus
  one, none for the empty chain.
\<close>

lemma fusion_plan_is_the_chain:
  "map pl_op (concat (map stage_ops (plan_stages chain))) = chain \<and>
   map pl_index (concat (map stage_ops (plan_stages chain))) = [0..<length chain] \<and>
   list_all stage_ok (plan_stages chain) \<and>
   list_all (\<lambda>st. st_prologue st = [] \<and> st_has_stencil st) (tl (plan_stages chain)) \<and>
   length (plan_stages chain) \<le> length (filter (\<lambda>op. is_stencil (spec_of (kind op))) chain) + 1 \<and>
   (plan_stages chain = [] \<longleftrightarrow> chain = [])"
proof -
  note ok = plan_stages_ok [of chain, unfolded plan_ok_def]
  have "map pl_index (indexed chain) = [0..<length chain]" by (simp add: indexed_def comp_def)
  with ok plan_stages_length plan_stages_empty show ?thesis by (auto simp: list_all_iff)
qed

text \<open>
  C35: Code generation succeeds for every key it claims to support: a canonical chain with 1, 3 or 4 channels,
  a legal tile and a legal constants mode never throws, in particular no stage exceeds the 48 KiB of
  static shared memory (the worst case is 37632 bytes), and the stages come out named
  \<open>imgjit_stage0\<close>, \<open>imgjit_stage1\<close>, ... with the block edge their tile needs. Every other key is refused.
\<close>

theorem emit_succeeds_on_supported_keys:
  assumes "canonical_chain (key_chain key)"
  shows "if supported_key key
    then \<exists>program. emit_cuda_source expf key = Inr program \<and>
      gp_stages program = map (\<lambda>i. stage_description key i (plan_stages (key_chain key) ! i))
                            [0..<length (plan_stages (key_chain key))]
    else \<exists>msg. emit_cuda_source expf key = Inl (Invalid_argument msg)"
  using emit_cuda_source_ok [OF assms, of expf] by (auto simp: supported_key_def emit_cuda_source_def)

theorem emit_succeeds_on_supported_keys_witness:
  "\<exists>program. emit_cuda_source (\<lambda>x. 1) (sample_key 1 kBaked) = Inr program \<and> length (gp_stages program) = 1"
proof -
  have "canonical_op \<lparr>kind = kGaussian, param = 1\<rparr>" using default_canonical [of kGaussian] by (simp add: kOpSpecs_def)
  then have c: "canonical_chain (key_chain (sample_key 1 kBaked))" by simp
  have s: "supported_key (sample_key 1 kBaked)"
    by (simp add: supported_key_def is_supported_channel_count_def is_supported_tile_def is_supported_constants_def)
  have "length (plan_stages [\<lparr>kind = kGaussian, param = 1\<rparr>]) = 1"
    by (simp add: plan_stages_def indexed_def plan_step_def Let_def kOpSpecs_def empty_stage_def)
  with emit_succeeds_on_supported_keys [OF c, of "\<lambda>x. 1"] s show ?thesis by auto
qed

text \<open>
  In a parameterized program every op parameter of the chain is passed to exactly one stage: the
  argument lists of the stages together name each op that takes a parameter exactly once, and no
  other op.
\<close>

lemma launch_arguments_cover_parameters:
  assumes "key_constants key = kParameterized"
  shows "mset (concat (map gs_param_ops (map (\<lambda>i. stage_description key i (plan_stages (key_chain key) ! i))
           [0..<length (plan_stages (key_chain key))]))) =
         mset (filter (\<lambda>i. takes_param (spec_of (kind (key_chain key ! i)))) [0..<length (key_chain key)])"
proof -
  define stages where "stages = plan_stages (key_chain key)"
  have ok: "list_all stage_ok stages" "concat (map stage_ops stages) = indexed (key_chain key)"
    using plan_stages_ok [of "key_chain key"] by (simp_all add: plan_ok_def stages_def)
  have "map gs_param_ops (map (\<lambda>i. stage_description key i (stages ! i)) [0..<length stages]) =
      map2 (\<lambda>i st. gs_param_ops (stage_description key i st)) [0..<length stages] stages"
    by (rule nth_equalityI) simp_all
  moreover have "map pl_index (filter (\<lambda>p. takes_param (spec_of (kind (pl_op p)))) (indexed (key_chain key))) =
      filter (\<lambda>i. takes_param (spec_of (kind (key_chain key ! i)))) [0..<length (key_chain key)]"
    by (simp add: indexed_def filter_map comp_def)
  ultimately show ?thesis
    using stages_params [OF ok(1) assms, of "[0..<length stages]"] ok(2) unfolding stages_def by simp
qed

end
