(* ===== verification/Kernel_Sem.thy ===== *)
theory Kernel_Sem
  imports Codegen
begin

text \<open>
  What the generated kernels compute. Each definition is the meaning of the text that the
  function of the same name in \<open>src/backend/cuda/codegen.cpp\<close> emits, or of a device helper
  of \<open>src/backend/cuda/kernel_prelude.h\<close>: per thread the registers \<open>v\<close>, per block the shared
  tile, per launch the writes of all threads into the destination buffer. Device arithmetic
  is IEEE single precision without contraction into fused multiply-adds, a printed literal
  denotes the \<open>float\<close> it was printed from, and buffer indices do not overflow an \<open>int\<close>.

  The main result is that running the planned stages is running the chain on the CPU
  oracle, for both the naive and the tiled variant.
\<close>

section \<open>Device helpers\<close>

definition imgjit_clamp_coord :: "int \<Rightarrow> int \<Rightarrow> int" where
  "imgjit_clamp_coord v limit = (if v < 0 then 0 else if v > limit - 1 then limit - 1 else v)"

definition imgjit_clamp01 :: "rat \<Rightarrow> rat" where
  "imgjit_clamp01 v = (if v < 0 then 0 else if v > 1 then 1 else v)"

definition imgjit_load_sample :: "u8 \<Rightarrow> rat" where
  "imgjit_load_sample v = fdiv (val8 v) 255"

definition imgjit_store_sample :: "rat \<Rightarrow> u8" where
  "imgjit_store_sample v = word_of_int (round_half_away (fmul (imgjit_clamp01 v) 255))"

definition imgjit_quantize :: "rat \<Rightarrow> rat" where
  "imgjit_quantize v = imgjit_load_sample (imgjit_store_sample v)"

definition imgjit_luma :: "rat \<Rightarrow> rat \<Rightarrow> rat \<Rightarrow> rat" where
  "imgjit_luma r g b =
     fadd (fadd (fmul (f32 (299 / 1000)) r) (fmul (f32 (587 / 1000)) g)) (fmul (f32 (114 / 1000)) b)"

section \<open>One thread\<close>

type_synonym registers = "nat \<Rightarrow> rat"

definition pointwise_exec :: "nat \<Rightarrow> planned_op \<Rightarrow> registers \<Rightarrow> registers" where
  "pointwise_exec colors planned v =
     (let op = pl_op planned
      in case kind op of
           kGrayscale \<Rightarrow>
             if colors = 1 then v
             else let g = imgjit_quantize (imgjit_luma (v 0) (v 1) (v 2)) in (\<lambda>c. if c < colors then g else v c)
         | kInvert \<Rightarrow> (\<lambda>c. if c < colors then imgjit_quantize (fsub 1 (v c)) else v c)
         | kBrightness \<Rightarrow> (\<lambda>c. if c < colors then imgjit_quantize (fadd (v c) (param op)) else v c)
         | kThreshold \<Rightarrow> (\<lambda>c. if c < colors then imgjit_quantize (if param op \<le> v c then 1 else 0) else v c)
         | _ \<Rightarrow> v)"

definition pointwise_run :: "nat \<Rightarrow> planned_op list \<Rightarrow> registers \<Rightarrow> registers" where
  "pointwise_run colors ops v = fold (pointwise_exec colors) ops v"

text \<open>\<open>src[i + c]\<close> with \<open>i = (y * width + x) * channels\<close>.\<close>

definition src_sample :: "image \<Rightarrow> nat \<Rightarrow> nat \<Rightarrow> nat \<Rightarrow> u8" where
  "src_sample src x y c = im_pixels src ! ((y * img_w src + x) * img_c src + c)"

definition stage_tap :: "nat \<Rightarrow> stage \<Rightarrow> image \<Rightarrow> int \<Rightarrow> int \<Rightarrow> registers" where
  "stage_tap colors st src x y =
     (let sx = nat (imgjit_clamp_coord x (im_width src)); sy = nat (imgjit_clamp_coord y (im_height src))
      in pointwise_run colors (st_prologue st) (\<lambda>c. imgjit_load_sample (src_sample src sx sy c)))"

text \<open>The stencil body around its \<open>fetch\<close> of the neighbour at offset \<open>(dx, dy)\<close>.\<close>

definition stencil_exec :: "(rat \<Rightarrow> rat) \<Rightarrow> chain_op \<Rightarrow> (int \<Rightarrow> int \<Rightarrow> registers) \<Rightarrow> registers" where
  "stencil_exec expf op fetch =
     (if kind op = kGaussian
      then let radius = gaussian_radius (param op); w = gaussian_weights_1d expf (param op)
           in (\<lambda>c. imgjit_quantize (foldl (\<lambda>acc dy. foldl (\<lambda>acc dx.
                 fadd acc (fmul (fmul (w ! nat (dy + radius)) (w ! nat (dx + radius))) (fetch dx dy c)))
               acc [- radius..radius]) 0 [- radius..radius]))
      else (\<lambda>c. imgjit_quantize (sobel_magnitude (foldl (\<lambda>acc dy. foldl (\<lambda>(gx, gy) dx.
              (let k = nat ((dy + 1) * 3 + (dx + 1))
               in (fadd gx (fmul ([- 1, 0, 1, - 2, 0, 2, - 1, 0, 1] ! k) (fetch dx dy c)),
                   fadd gy (fmul ([- 1, - 2, - 1, 0, 0, 0, 1, 2, 1] ! k) (fetch dx dy c)))))
            acc [- 1..1]) (0, 0) [- 1..1]))))"

definition stencil_radius :: "chain_op \<Rightarrow> int" where
  "stencil_radius op = (if kind op = kSobel then 1 else gaussian_radius (param op))"

text \<open>
  The shared tile of the block whose first pixel is \<open>(x0 + radius, y0 + radius)\<close>: thread
  number \<open>t\<close> loads the cells \<open>t\<close>, \<open>t + tile_size\<^sup>2\<close>, ... Cells hold \<open>garbage\<close> before.
\<close>

function stride_loop :: "nat \<Rightarrow> nat \<Rightarrow> nat \<Rightarrow> nat list" where
  "stride_loop k step limit = (if step = 0 \<or> limit \<le> k then [] else k # stride_loop (k + step) step limit)"
  by pat_completeness auto
termination by (relation "measure (\<lambda>(k, step, limit). limit - k)") auto

declare stride_loop.simps [simp del]

definition tile_load :: "nat \<Rightarrow> nat \<Rightarrow> (int \<Rightarrow> int \<Rightarrow> registers) \<Rightarrow> int \<Rightarrow> int \<Rightarrow> (nat \<Rightarrow> registers) \<Rightarrow> (nat \<Rightarrow> registers)" where
  "tile_load tile_size edge tap x0 y0 garbage =
     fold (\<lambda>t. fold (\<lambda>k tile. tile(k := tap (x0 + int (k - k div edge * edge)) (y0 + int (k div edge))))
                    (stride_loop t (tile_size * tile_size) (edge * edge)))
          [0..<tile_size * tile_size] garbage"

definition thread_fetch :: "nat \<Rightarrow> stage \<Rightarrow> image \<Rightarrow> nat \<Rightarrow> (nat \<Rightarrow> registers) \<Rightarrow> nat \<times> nat \<Rightarrow> nat \<times> nat \<Rightarrow> int \<Rightarrow> int \<Rightarrow> registers" where
  "thread_fetch colors st src tile_size garbage block thread dx dy =
     (case (block, thread) of ((bx, by), (tx, ty)) \<Rightarrow>
        if tile_size = 0
        then stage_tap colors st src (int (bx * 16 + tx) + dx) (int (by * 16 + ty) + dy)
        else let radius = stencil_radius (pl_op (st_stencil st));
                 edge = nat (int tile_size + 2 * radius);
                 tile = tile_load tile_size edge (stage_tap colors st src)
                          (int (bx * tile_size) - radius) (int (by * tile_size) - radius) garbage;
                 lx = int tx + radius; ly = int ty + radius
             in tile (nat (ly + dy) * edge + nat (lx + dx)))"

text \<open>The register array of the thread at its store, with the pixel \<open>(x, y)\<close> it owns.\<close>

definition thread_registers :: "(rat \<Rightarrow> rat) \<Rightarrow> nat \<Rightarrow> stage \<Rightarrow> image \<Rightarrow> nat \<Rightarrow> (nat \<Rightarrow> registers) \<Rightarrow> nat \<times> nat \<Rightarrow> nat \<times> nat \<Rightarrow>
    nat \<Rightarrow> nat \<Rightarrow> registers" where
  "thread_registers expf colors st src tile_size garbage block thread x y =
     pointwise_run colors (st_epilogue st)
       (if \<not> st_has_stencil st
        then pointwise_run colors (st_prologue st) (\<lambda>c. imgjit_load_sample (src_sample src x y c))
        else stencil_exec expf (pl_op (st_stencil st)) (thread_fetch colors st src tile_size garbage block thread))"

text \<open>The stores of one thread: the colour samples, then the alpha of its own pixel.\<close>

definition thread_stores :: "image \<Rightarrow> nat \<Rightarrow> registers \<Rightarrow> nat \<Rightarrow> nat \<Rightarrow> image \<Rightarrow> image" where
  "thread_stores src colors v x y dst =
     (let dst = fold (\<lambda>c out. set_at out x y c (imgjit_store_sample (v c))) [0..<colors] dst
      in if im_channels src = 4 then set_at dst x y 3 (src_sample src x y 3) else dst)"

definition thread_exec :: "(rat \<Rightarrow> rat) \<Rightarrow> stage \<Rightarrow> image \<Rightarrow> nat \<Rightarrow> nat \<Rightarrow> (nat \<Rightarrow> registers) \<Rightarrow> nat \<times> nat \<Rightarrow> nat \<times> nat \<Rightarrow> image \<Rightarrow> image" where
  "thread_exec expf st src tile_size block_dim garbage block thread dst =
     (let colors = colors_of src;
          x = fst block * block_dim + fst thread; y = snd block * block_dim + snd thread
      in if x \<ge> img_w src \<or> y \<ge> img_h src then dst
         else thread_stores src colors
                (thread_registers expf colors st src tile_size garbage block thread x y) x y dst)"

section \<open>One launch, one frame\<close>

definition grid_dim :: "nat \<Rightarrow> nat \<Rightarrow> nat" where
  "grid_dim extent block = (extent + block - 1) div block"

definition launch_threads :: "image \<Rightarrow> nat \<Rightarrow> ((nat \<times> nat) \<times> (nat \<times> nat)) list" where
  "launch_threads src block_dim =
     List.product (List.product [0..<grid_dim (img_w src) block_dim] [0..<grid_dim (img_h src) block_dim])
                  (List.product [0..<block_dim] [0..<block_dim])"

text \<open>
  A launch runs all threads of the grid; \<open>tile_size\<close> is 0 for the naive variant, and only
  stencil stages are tiled. \<open>dst\<close> is whatever the destination buffer held before.
\<close>

definition launch_stage :: "(rat \<Rightarrow> rat) \<Rightarrow> nat \<Rightarrow> (nat \<Rightarrow> registers) \<Rightarrow> stage \<Rightarrow> image \<Rightarrow> image \<Rightarrow> image" where
  "launch_stage expf tile_size garbage st src dst =
     (let tile = (if st_has_stencil st then tile_size else 0);
          block_dim = (if tile > 0 then tile else 16)
      in fold (\<lambda>(block, thread). thread_exec expf st src tile block_dim garbage block thread)
              (launch_threads src block_dim) dst)"

text \<open>The ping-pong over the two device buffers.\<close>

fun run_stages :: "(rat \<Rightarrow> rat) \<Rightarrow> nat \<Rightarrow> (nat \<Rightarrow> registers) \<Rightarrow> stage list \<Rightarrow> image \<times> image \<Rightarrow> image \<times> image" where
  "run_stages expf tile_size garbage [] (source, destination) = (source, destination)"
| "run_stages expf tile_size garbage (st # sts) (source, destination) =
     run_stages expf tile_size garbage sts (launch_stage expf tile_size garbage st source destination, source)"

section \<open>The helpers are the oracle's\<close>

locale sample_codec =
  fixes load :: "u8 \<Rightarrow> rat" and store :: "rat \<Rightarrow> u8"
  assumes store_load: "store (load u) = u"
begin

text \<open>Rounding to a sample is idempotent, and rounding before a store is redundant.\<close>

lemma quantize_store: "store (load (store v)) = store v"
  by (rule store_load)

lemma load_inject: "load u = load w \<longleftrightarrow> u = w"
  using store_load by metis

end

lemma clamp_coord_eq: "imgjit_clamp_coord v limit = clamp_coordinate v limit" if "0 < limit"
  using that by (simp add: imgjit_clamp_coord_def clamp_coordinate_def std_clamp_def)

lemma clamp01_eq: "imgjit_clamp01 v = std_clamp v 0 1"
  by (simp add: imgjit_clamp01_def std_clamp_def)

lemma imgjit_load_eq: "imgjit_load_sample = load_sample"
  by (simp add: fun_eq_iff imgjit_load_sample_def load_sample_def)

lemma imgjit_store_eq: "imgjit_store_sample = store_sample"
proof
  fix v
  define r where "r = fmul (std_clamp v 0 1) 255"
  have "0 \<le> std_clamp v 0 1 * 255" "std_clamp v 0 1 * 255 \<le> 255" by (simp_all add: std_clamp_def)
  from f32_mono [OF this(1)] f32_mono [OF this(2)] have r: "0 \<le> r" "r \<le> 255" by (simp_all add: r_def fmul_def)
  have "round_half_away 0 \<le> round_half_away r" "round_half_away r \<le> round_half_away 255"
    using r by (auto intro: round_half_away_mono)
  moreover have "round_half_away 0 = 0" "round_half_away 255 = 255" by (simp_all add: round_half_away_def floor_eq_iff)
  ultimately have "lround r = round_half_away r" by (simp add: lround_def long_min_def long_max_def)
  then show "imgjit_store_sample v = store_sample v"
    by (simp add: imgjit_store_sample_def store_sample_def clamp01_eq r_def [symmetric])
qed

lemma imgjit_luma_eq: "imgjit_luma = luma_of"
  by (simp add: fun_eq_iff imgjit_luma_def luma_of_def kLumaRed_def kLumaGreen_def kLumaBlue_def)

interpretation cpu_samples: sample_codec load_sample store_sample
  by unfold_locales simp

interpretation gpu_samples: sample_codec imgjit_load_sample imgjit_store_sample
  by unfold_locales (simp add: imgjit_load_eq imgjit_store_eq)

lemma quantize_eq: "imgjit_quantize v = load_sample (store_sample v)"
  by (simp add: imgjit_quantize_def imgjit_load_eq imgjit_store_eq)

section \<open>Registers follow the oracle's images\<close>

lemma src_sample_eq:
  assumes "image_wf src" "in_range src x y c"
  shows "src_sample src x y c = sample_at src x y c"
proof -
  have "im_stride src = img_w src * img_c src" using assms(1) by (simp add: image_wf_def)
  then have "(y * img_w src + x) * img_c src + c = pixel_pos src x y c" by (simp add: pixel_pos_def algebra_simps)
  then show ?thesis by (simp only: src_sample_def sample_at_def)
qed

definition holds_pixel :: "image \<Rightarrow> nat \<Rightarrow> nat \<Rightarrow> registers \<Rightarrow> bool" where
  "holds_pixel img x y v \<longleftrightarrow> (\<forall>c < colors_of img. v c = load_sample (sample_at img x y c))"

lemma color_range:
  "image_wf img \<Longrightarrow> x < img_w img \<Longrightarrow> y < img_h img \<Longrightarrow> c < colors_of img \<Longrightarrow> in_range img x y c"
  using colors_le_channels [of img] by (simp add: in_range_def)

lemma store_invert: "store_sample (fsub 1 (load_sample u)) = word_of_int (255 - uint u)"
proof (rule store_near)
  have "uint u \<le> 255" using uint_bounded [of u] by simp
  moreover have "0 \<le> uint u" by (rule unsigned_greater_eq)
  ultimately have "(255 - uint u) mod 256 = 255 - uint u" by (intro mod_pos_pos_trivial) linarith+
  then have "unat (word_of_int (255 - uint u) :: u8) = nat (255 - uint u)"
    unfolding unat_eq_nat_uint uint_word_of_int by simp
  moreover have "nat (255 - uint u) = 255 - unat u" 
    unfolding unat_eq_nat_uint using nat_diff_distrib [OF \<open>0 \<le> uint u\<close> \<open>uint u \<le> 255\<close>] by (simp only: nat_numeral)
  moreover have "unat u \<le> 255" by (rule unat_u8)
  ultimately have "val8 (word_of_int (255 - uint u)) = 255 - val8 u"
    unfolding val8_eq by (simp only: of_nat_diff of_nat_numeral)
  then have v: "val8 (word_of_int (255 - uint u)) / 255 = 1 - val8 u / 255" by (simp add: diff_divide_distrib)
  have "\<bar>1 - load_sample u\<bar> \<le> 1" using load_sample_unit [of u] by (simp add: abs_le_iff)
  then have "\<bar>fsub 1 (load_sample u) - (1 - load_sample u)\<bar> \<le> 1 / 10000000"
    unfolding fsub_def by (rule f32_err) simp
  with load_sample_near [of u] v show "\<bar>fsub 1 (load_sample u) - val8 (word_of_int (255 - uint u)) / 255\<bar> \<le> 1 / 600"
    by linarith
qed

lemma store_bounds: "store_sample 1 = 255" "store_sample 0 = 0"
  using store_load [of 255] store_load [of 0] by (simp_all add: load_255 load_0)

lemma pointwise_exec_sample:
  assumes wf: "image_wf img" and pw: "\<not> stencil_op p" and ap: "apply_op expf img (pl_op p) = Inr out"
    and xy: "x < img_w img" "y < img_h img" and v: "holds_pixel img x y v"
  shows "holds_pixel out x y (pointwise_exec (colors_of img) p v)"
  unfolding holds_pixel_def
proof (intro allI impI)
  fix c assume "c < colors_of out"
  then have c: "c < colors_of img" using apply_op_shape [OF wf ap] by simp
  have out: "sample_at out x y c = op_sample expf img (pl_op p) x y c"
    by (rule apply_op_sample [OF wf ap color_range [OF wf xy c] c])
  have vc: "v k = load_sample (sample_at img x y k)" if "k < colors_of img" for k using v that by (simp add: holds_pixel_def)
  show "pointwise_exec (colors_of img) p v c = load_sample (sample_at out x y c)"
  proof (cases "kind (pl_op p)")
    case kGrayscale
    have one: "color_channels (im_channels img) = 1 \<longleftrightarrow> colors_of img = 1" by auto
    show ?thesis
    proof (cases "colors_of img = 1")
      case True
      with c have "c = 0" by simp
      then show ?thesis using True out vc [OF c] by (simp add: kGrayscale op_sample_def pointwise_exec_def one Let_def)
    next
      case False
      then have "v 0 = load_sample (sample_at img x y 0)" "v 1 = load_sample (sample_at img x y 1)" "v 2 = load_sample (sample_at img x y 2)"
        using color_in_range [OF color_range [OF wf xy c] c _ wf] one vc by auto
      then show ?thesis using c False by (simp add: out kGrayscale op_sample_def pointwise_exec_def one Let_def quantize_eq imgjit_luma_eq)
    qed
  next
    case kThreshold
    then show ?thesis
      using c vc [OF c] by (simp add: out op_sample_def pointwise_exec_def Let_def quantize_eq store_bounds)
  qed (use c vc [OF c] pw in \<open>simp_all add: out op_sample_def pointwise_exec_def Let_def quantize_eq store_invert kOpSpecs_def\<close>)
qed

lemma pointwise_run_sample:
  assumes "image_wf img" "\<forall>p \<in> set ops. \<not> stencil_op p" "apply_chain expf img (map pl_op ops) = Inr out"
    and "x < img_w img" "y < img_h img" "holds_pixel img x y v"
  shows "holds_pixel out x y (pointwise_run (colors_of img) ops v)"
  using assms
proof (induction ops arbitrary: img v)
  case (Cons p ops)
  obtain mid where mid: "apply_op expf img (pl_op p) = Inr mid" "apply_chain expf mid (map pl_op ops) = Inr out"
    using Cons.prems(3) by (auto simp: bind_result_eq_Inr)
  note s = apply_op_shape [OF Cons.prems(1) mid(1)]
  have "holds_pixel mid x y (pointwise_exec (colors_of img) p v)"
    by (rule pointwise_exec_sample [OF Cons.prems(1) _ mid(1) Cons.prems(4-6)]) (use Cons.prems(2) in simp)
  from Cons.IH [OF s(1) _ mid(2) _ _ this] show ?case
    using Cons.prems(2,4,5) s(2,3) by (simp add: pointwise_run_def same_shape_def)
qed (simp add: pointwise_run_def)

lemma holds_pixel_load:
  "image_wf img \<Longrightarrow> x < img_w img \<Longrightarrow> y < img_h img \<Longrightarrow>
   holds_pixel img x y (\<lambda>c. imgjit_load_sample (src_sample img x y c))"
  by (simp add: holds_pixel_def imgjit_load_eq src_sample_eq color_range)

lemma clamp_in_range: "0 < limit \<Longrightarrow> nat (clamp_coordinate v limit) < nat limit"
  by (simp add: clamp_coordinate_def std_clamp_def)

lemma stage_tap_sample:
  assumes wf: "image_wf src" and pw: "\<forall>p \<in> set (st_prologue st). \<not> stencil_op p"
    and mid: "apply_chain expf src (map pl_op (st_prologue st)) = Inr mid" and c: "c < colors_of src"
  shows "stage_tap (colors_of src) st src x y c = load_sample (clamped_sample mid x y c)"
proof -
  have pos: "0 < im_width src" "0 < im_height src" using wf by (simp_all add: image_wf_def)
  define sx sy where "sx = nat (clamp_coordinate x (im_width src))" and "sy = nat (clamp_coordinate y (im_height src))"
  have r: "sx < img_w src" "sy < img_h src" unfolding sx_def sy_def using pos by (simp_all only: clamp_in_range)
  have f: "keeps_frame src mid" using apply_chain_frame [OF wf, of expf "map pl_op (st_prologue st)"] mid by auto
  then have "im_width mid = im_width src" "im_height mid = im_height src" "im_channels mid = im_channels src"
    by (simp_all add: keeps_frame_def same_shape_def)
  moreover have "holds_pixel mid sx sy (pointwise_run (colors_of src) (st_prologue st) (\<lambda>c. imgjit_load_sample (src_sample src sx sy c)))"
    by (rule pointwise_run_sample [OF wf pw mid r holds_pixel_load [OF wf r]])
  ultimately show ?thesis
    using c by (simp add: stage_tap_def Let_def clamp_coord_eq pos clamped_sample_def holds_pixel_def sx_def sy_def)
qed

lemma sobel_flat_index:
  "foldl (\<lambda>acc dy. foldl (\<lambda>(gx, gy) dx.
      (let k = nat ((dy + 1) * 3 + (dx + 1))
       in (fadd gx (fmul ([- 1, 0, 1, - 2, 0, 2, - 1, 0, 1] ! k) (f dx dy)),
           fadd gy (fmul ([- 1, - 2, - 1, 0, 0, 0, 1, 2, 1] ! k) (f dx dy)))))
    acc [- 1..1]) (0, 0) [- 1..1] = sobel_gradient f"
  by (simp add: sobel_gradient_def upto_sobel kGx_def kGy_def Let_def)

lemma stencil_exec_sample:
  assumes wf: "image_wf mid" and op: "is_stencil (spec_of (kind op))" and ap: "apply_op expf mid op = Inr out"
    and xy: "x < img_w mid" "y < img_h mid"
    and fetch: "\<And>dx dy c. \<bar>dx\<bar> \<le> stencil_radius op \<Longrightarrow> \<bar>dy\<bar> \<le> stencil_radius op \<Longrightarrow> c < colors_of mid \<Longrightarrow>
       fetch dx dy c = load_sample (clamped_sample mid (int x + dx) (int y + dy) c)"
  shows "holds_pixel out x y (stencil_exec expf op fetch)"
  unfolding holds_pixel_def
proof (intro allI impI)
  fix c assume "c < colors_of out"
  then have c: "c < colors_of mid" using apply_op_shape [OF wf ap] by simp
  have out: "sample_at out x y c = op_sample expf mid op x y c"
    by (rule apply_op_sample [OF wf ap color_range [OF wf xy c] c])
  consider "kind op = kGaussian" | "kind op = kSobel" using op by (cases "kind op") (simp_all add: kOpSpecs_def)
  then show "stencil_exec expf op fetch c = load_sample (sample_at out x y c)"
  proof cases
    case 1
    have "gaussian_sum ws (gaussian_radius (param op)) (\<lambda>dx dy. fetch dx dy c) =
        gaussian_sum ws (gaussian_radius (param op)) (\<lambda>dx dy. load_sample (clamped_sample mid (int x + dx) (int y + dy) c))" for ws
      by (rule gaussian_sum_cong) (use 1 c in \<open>simp add: fetch stencil_radius_def abs_le_iff\<close>)
    then show ?thesis using 1
      by (simp add: stencil_exec_def out op_sample_def Let_def quantize_eq gaussian_sum_def [symmetric])
  next
    case 2
    have "sobel_gradient (\<lambda>dx dy. fetch dx dy c) =
        sobel_gradient (\<lambda>dx dy. load_sample (clamped_sample mid (int x + dx) (int y + dy) c))"
      by (rule sobel_gradient_cong) (use 2 c in \<open>simp add: fetch stencil_radius_def abs_le_iff\<close>)
    then have "stencil_exec expf op fetch c = load_sample (store_sample (sobel_magnitude (sobel_gradient
        (\<lambda>dx dy. load_sample (clamped_sample mid (int x + dx) (int y + dy) c)))))"
      unfolding stencil_exec_def sobel_flat_index using 2 by (simp add: quantize_eq)
    then show ?thesis using 2 by (simp add: out op_sample_def Let_def)
  qed
qed

section \<open>The shared tile\<close>

lemma fold_fun_upd_value: "fold (\<lambda>k tile. tile(k := f k)) ks g = (\<lambda>k. if k \<in> set ks then f k else g k)"
  by (induction ks arbitrary: g) (auto simp: fun_eq_iff)

lemma fold_nested_upd:
  "fold (\<lambda>t. fold (\<lambda>k tile. tile(k := f k)) (cells t)) ts g = (\<lambda>k. if \<exists>t \<in> set ts. k \<in> set (cells t) then f k else g k)"
proof (induction ts arbitrary: g)
  case (Cons t ts)
  have "fold (\<lambda>t. fold (\<lambda>k tile. tile(k := f k)) (cells t)) (t # ts) g =
      fold (\<lambda>t. fold (\<lambda>k tile. tile(k := f k)) (cells t)) ts (\<lambda>k. if k \<in> set (cells t) then f k else g k)"
    by (simp only: fold_simps comp_apply fold_fun_upd_value)
  also have "\<dots> = (\<lambda>k. if \<exists>t \<in> set ts. k \<in> set (cells t) then f k else if k \<in> set (cells t) then f k else g k)"
    by (rule Cons.IH)
  also have "\<dots> = (\<lambda>k. if \<exists>t \<in> set (t # ts). k \<in> set (cells t) then f k else g k)" by (rule ext) auto
  finally show ?case .
qed simp

lemma stride_loop_member: "0 < step \<Longrightarrow> k + m * step < limit \<Longrightarrow> k + m * step \<in> set (stride_loop k step limit)"
proof (induction m arbitrary: k)
  case 0
  then show ?case by (subst stride_loop.simps) simp
next
  case (Suc m)
  then have "k + step + m * step \<in> set (stride_loop (k + step) step limit)" by (intro Suc.IH) (simp_all add: algebra_simps)
  moreover have "k < limit" using Suc.prems by simp
  ultimately show ?case using Suc.prems(1) by (subst stride_loop.simps) (simp add: algebra_simps)
qed

text \<open>After the load phase every cell of the tile, apron included, holds its tap.\<close>

lemma tile_load_complete:
  assumes "0 < tile_size" "row < edge" "col < edge"
  shows "tile_load tile_size edge tap x0 y0 garbage (row * edge + col) = tap (x0 + int col) (y0 + int row)"
proof -
  define k where "k = row * edge + col"
  define t where "t = k mod (tile_size * tile_size)"
  have pos: "0 < tile_size * tile_size" using assms(1) by simp
  have "k < edge * edge" unfolding k_def using assms(2,3) by (rule mult_add_less)
  moreover have "k = t + (k div (tile_size * tile_size)) * (tile_size * tile_size)"
    unfolding t_def by (rule mod_div_mult_eq [symmetric])
  ultimately have "k \<in> set (stride_loop t (tile_size * tile_size) (edge * edge))" using stride_loop_member [OF pos] by metis
  moreover have "t \<in> set [0..<tile_size * tile_size]" using pos by (simp add: t_def)
  ultimately have "\<exists>t \<in> set [0..<tile_size * tile_size]. k \<in> set (stride_loop t (tile_size * tile_size) (edge * edge))" by blast
  then have "tile_load tile_size edge tap x0 y0 garbage k = tap (x0 + int (k - k div edge * edge)) (y0 + int (k div edge))"
    unfolding tile_load_def fold_nested_upd by simp
  moreover have "k div edge = row" "k - row * edge = col" using assms(3) by (simp_all add: k_def)
  ultimately show ?thesis by (simp add: k_def)
qed

lemma thread_fetch_tap:
  assumes "\<bar>dx\<bar> \<le> stencil_radius (pl_op (st_stencil st))" "\<bar>dy\<bar> \<le> stencil_radius (pl_op (st_stencil st))"
    and "tx < block_dim" "ty < block_dim" "block_dim = (if tile_size > 0 then tile_size else 16)"
  shows "thread_fetch colors st src tile_size garbage (bx, by) (tx, ty) dx dy =
    stage_tap colors st src (int (bx * block_dim + tx) + dx) (int (by * block_dim + ty) + dy)"
proof (cases "tile_size = 0")
  case True
  with assms(5) show ?thesis by (simp add: thread_fetch_def)
next
  case False
  define radius where "radius = stencil_radius (pl_op (st_stencil st))"
  define edge where "edge = nat (int tile_size + 2 * radius)"
  have b: "block_dim = tile_size" "0 < tile_size" using False assms(5) by auto
  have d: "\<bar>dx\<bar> \<le> radius" "\<bar>dy\<bar> \<le> radius" using assms(1,2) by (simp_all add: radius_def)
  have "nat (int tx + radius + dx) < edge" "nat (int ty + radius + dy) < edge"
    using d assms(3,4) b by (auto simp: edge_def abs_le_iff)
  note cell = tile_load_complete [OF b(2) this(2,1)]
  have nn: "int (nat (int tx + radius + dx)) = int tx + radius + dx" "int (nat (int ty + radius + dy)) = int ty + radius + dy"
    using d by (auto simp: abs_le_iff)
  have "thread_fetch colors st src tile_size garbage (bx, by) (tx, ty) dx dy =
      stage_tap colors st src (int (bx * tile_size) - radius + (int tx + radius + dx)) (int (by * tile_size) - radius + (int ty + radius + dy))"
    unfolding thread_fetch_def prod.case Let_def radius_def [symmetric] edge_def [symmetric] cell nn using False by simp
  then show ?thesis by (simp add: b(1) algebra_simps)
qed

section \<open>A launch computes its stage\<close>

lemma thread_registers_sample:
  assumes wf: "image_wf src" and ok: "stage_ok st" and out: "apply_chain expf src (map pl_op (stage_ops st)) = Inr out"
    and block: "block_dim = (if tile_size > 0 then tile_size else 16)" "tx < block_dim" "ty < block_dim"
    and xy: "bx * block_dim + tx < img_w src" "by * block_dim + ty < img_h src"
  shows "holds_pixel out (bx * block_dim + tx) (by * block_dim + ty)
    (thread_registers expf (colors_of src) st src tile_size garbage (bx, by) (tx, ty) (bx * block_dim + tx) (by * block_dim + ty))"
proof -
  define x y where "x = bx * block_dim + tx" and "y = by * block_dim + ty"
  have r: "x < img_w src" "y < img_h src" using xy by (simp_all add: x_def y_def)
  have pro: "\<forall>p \<in> set (st_prologue st). \<not> stencil_op p" and epi: "\<forall>p \<in> set (st_epilogue st). \<not> stencil_op p"
    using ok by (simp_all add: stage_ok_def)
  obtain m1 where m1: "apply_chain expf src (map pl_op (st_prologue st)) = Inr m1"
      "apply_chain expf m1 (map pl_op (if st_has_stencil st then [st_stencil st] else []) @ map pl_op (st_epilogue st)) = Inr out"
    using out by (auto simp: stage_ops_def apply_chain_append bind_result_eq_Inr)
  have f1: "image_wf m1" "same_shape m1 src"
    using apply_chain_frame [OF wf, of expf "map pl_op (st_prologue st)"] m1(1) by (auto simp: keeps_frame_def)
  then have c1: "colors_of m1 = colors_of src" "im_width m1 = im_width src" "im_height m1 = im_height src"
    by (simp_all add: same_shape_def)
  obtain m2 where m2: "apply_chain expf m1 (map pl_op (if st_has_stencil st then [st_stencil st] else [])) = Inr m2"
      "apply_chain expf m2 (map pl_op (st_epilogue st)) = Inr out"
    using m1(2) by (auto simp: apply_chain_append bind_result_eq_Inr)
  have f2: "image_wf m2" "same_shape m2 m1"
    using apply_chain_frame [OF f1(1), of expf "map pl_op (if st_has_stencil st then [st_stencil st] else [])"] m2(1)
    by (auto simp: keeps_frame_def)
  then have c2: "colors_of m2 = colors_of src" "im_width m2 = im_width src" "im_height m2 = im_height src"
    using c1 by (simp_all add: same_shape_def)
  define v where "v = (if \<not> st_has_stencil st
        then pointwise_run (colors_of src) (st_prologue st) (\<lambda>c. imgjit_load_sample (src_sample src x y c))
        else stencil_exec expf (pl_op (st_stencil st)) (thread_fetch (colors_of src) st src tile_size garbage (bx, by) (tx, ty)))"
  have "holds_pixel m2 x y v"
  proof (cases "st_has_stencil st")
    case False
    then have "m2 = m1" using m2(1) by simp
    moreover have "holds_pixel m1 x y (pointwise_run (colors_of src) (st_prologue st) (\<lambda>c. imgjit_load_sample (src_sample src x y c)))"
      by (rule pointwise_run_sample [OF wf pro m1(1) r holds_pixel_load [OF wf r]])
    ultimately show ?thesis using False by (simp add: v_def)
  next
    case True
    have ap: "apply_op expf m1 (pl_op (st_stencil st)) = Inr m2"
      using m2(1) True by (cases "apply_op expf m1 (pl_op (st_stencil st))") simp_all
    have sten: "is_stencil (spec_of (kind (pl_op (st_stencil st))))" using ok True by (simp add: stage_ok_def)
    have "holds_pixel m2 x y (stencil_exec expf (pl_op (st_stencil st)) (thread_fetch (colors_of src) st src tile_size garbage (bx, by) (tx, ty)))"
    proof (rule stencil_exec_sample [OF f1(1) sten ap])
      fix dx dy c
      assume "\<bar>dx\<bar> \<le> stencil_radius (pl_op (st_stencil st))" "\<bar>dy\<bar> \<le> stencil_radius (pl_op (st_stencil st))" "c < colors_of m1"
      with thread_fetch_tap [OF this(1,2) block(2,3,1), of "colors_of src" src garbage bx "by"]
      show "thread_fetch (colors_of src) st src tile_size garbage (bx, by) (tx, ty) dx dy c =
          load_sample (clamped_sample m1 (int x + dx) (int y + dy) c)"
        using stage_tap_sample [OF wf pro m1(1)] c1(1) by (simp add: x_def y_def)
    qed (use r c1 in simp_all)
    with True show ?thesis by (simp add: v_def)
  qed
  from pointwise_run_sample [OF f2(1) epi m2(2) _ _ this]
  have "holds_pixel out x y (pointwise_run (colors_of src) (st_epilogue st) v)" using r c2 by simp
  then show ?thesis unfolding thread_registers_def v_def x_def y_def by simp
qed

text \<open>
  \<open>paints out S dst dst'\<close>: \<open>dst'\<close> is the buffer \<open>dst\<close> with the pixels of \<open>S\<close> overwritten by those
  of \<open>out\<close>. The writes of the threads of a launch compose in any order, because each paints its own pixel.
\<close>

definition paints :: "image \<Rightarrow> (nat \<times> nat) set \<Rightarrow> image \<Rightarrow> image \<Rightarrow> bool" where
  "paints out S dst dst' \<longleftrightarrow> image_wf dst' \<and> same_shape dst' out \<and>
     (\<forall>x y c. in_range out x y c \<longrightarrow> sample_at dst' x y c = sample_at (if (x, y) \<in> S then out else dst) x y c)"

lemma paints_trans: "paints out S a b \<Longrightarrow> paints out T b c \<Longrightarrow> paints out (S \<union> T) a c"
  by (auto simp: paints_def)

lemma paints_none: "image_wf dst \<Longrightarrow> same_shape dst out \<Longrightarrow> paints out {} dst dst"
  by (simp add: paints_def)

lemma paints_fold:
  assumes "\<And>t b. t \<in> set ts \<Longrightarrow> image_wf b \<Longrightarrow> same_shape b out \<Longrightarrow> paints out (own t) b (f t b)"
    and "image_wf dst" "same_shape dst out"
  shows "paints out (\<Union>t \<in> set ts. own t) dst (fold f ts dst)"
  using assms
proof (induction ts arbitrary: dst)
  case Nil
  then show ?case by (simp add: paints_none)
next
  case (Cons t ts)
  have first: "paints out (own t) dst (f t dst)" using Cons.prems by simp
  then have "image_wf (f t dst)" "same_shape (f t dst) out" by (simp_all add: paints_def)
  with Cons have "paints out (\<Union>t \<in> set ts. own t) (f t dst) (fold f ts (f t dst))" by simp
  with first paints_trans show ?case by fastforce
qed

lemma fold_set_at_colors:
  assumes "image_wf dst" "x < img_w dst" "y < img_h dst" "n \<le> img_c dst"
  shows "image_wf (fold (\<lambda>c out. set_at out x y c (g c)) [0..<n] dst) \<and>
    same_shape (fold (\<lambda>c out. set_at out x y c (g c)) [0..<n] dst) dst \<and>
    (\<forall>x' y' c'. in_range dst x' y' c' \<longrightarrow> sample_at (fold (\<lambda>c out. set_at out x y c (g c)) [0..<n] dst) x' y' c' =
       (if x' = x \<and> y' = y \<and> c' < n then g c' else sample_at dst x' y' c'))"
  using assms(4)
proof (induction n)
  case 0
  with assms(1) show ?case by simp
next
  case (Suc n)
  define d where "d = fold (\<lambda>c out. set_at out x y c (g c)) [0..<n] dst"
  have d: "image_wf d" "same_shape d dst"
    "\<And>x' y' c'. in_range dst x' y' c' \<Longrightarrow> sample_at d x' y' c' = (if x' = x \<and> y' = y \<and> c' < n then g c' else sample_at dst x' y' c')"
    using Suc by (simp_all add: d_def)
  have "in_range d x y n" using assms(2,3) Suc.prems d(2) by (simp add: in_range_def same_shape_def)
  note at = at_set_at [OF d(1) this, where v = "g n"]
  have "fold (\<lambda>c out. set_at out x y c (g c)) [0..<Suc n] dst = set_at d x y n (g n)" by (simp add: d_def)
  moreover have "sample_at (set_at d x y n (g n)) x' y' c' = (if x' = x \<and> y' = y \<and> c' < Suc n then g c' else sample_at dst x' y' c')"
    if "in_range dst x' y' c'" for x' y' c'
    using at [of x' y' c'] that d(2) d(3) [of x' y' c'] same_shape_range [OF d(2)] by auto
  moreover have "same_shape (set_at d x y n (g n)) dst" using set_at_shape d(2) by (rule same_shape_trans)
  ultimately show ?case using d(1) by simp
qed

lemma thread_stores_paints:
  assumes src: "image_wf src" and frame: "keeps_frame src out" and xy: "x < img_w src" "y < img_h src"
    and v: "holds_pixel out x y v" and dst: "image_wf dst" "same_shape dst out"
  shows "paints out {(x, y)} dst (thread_stores src (colors_of src) v x y dst)"
proof -
  have out: "image_wf out" "same_shape out src" using frame by (simp_all add: keeps_frame_def)
  have shape: "im_width dst = im_width src" "im_height dst = im_height src" "im_channels dst = im_channels src"
      "im_channels out = im_channels src" "im_width out = im_width src" "im_height out = im_height src"
    using dst(2) out(2) by (simp_all add: same_shape_def)
  define d where "d = fold (\<lambda>c out. set_at out x y c (imgjit_store_sample (v c))) [0..<colors_of src] dst"
  have col: "colors_of src \<le> img_c dst" using colors_le_channels [OF src] shape by simp
  have d: "image_wf d" "same_shape d dst"
    "\<And>x' y' c'. in_range dst x' y' c' \<Longrightarrow> sample_at d x' y' c' =
       (if x' = x \<and> y' = y \<and> c' < colors_of src then imgjit_store_sample (v c') else sample_at dst x' y' c')"
    using fold_set_at_colors [OF dst(1) _ _ col, of x y "\<lambda>c. imgjit_store_sample (v c)"] xy shape by (simp_all add: d_def)
  have range: "in_range d = in_range out" "in_range dst = in_range out" "in_range src = in_range out"
    using d(2) shape by (simp_all add: in_range_def same_shape_def fun_eq_iff)
  have color: "imgjit_store_sample (v c) = sample_at out x y c" if "c < colors_of src" for c
    using v that shape by (simp add: holds_pixel_def imgjit_store_eq)
  have sd: "same_shape d out" using d(2) dst(2) by (rule same_shape_trans)
  show ?thesis
  proof (cases "im_channels src = 4")
    case True
    then have r3: "in_range out x y 3" using xy shape by (simp add: in_range_def)
    then have "src_sample src x y 3 = sample_at out x y 3"
      using frame True src_sample_eq [OF src, of x y 3] by (simp add: range keeps_frame_def)
    then have t: "thread_stores src (colors_of src) v x y dst = set_at d x y 3 (sample_at out x y 3)"
      using True by (simp add: thread_stores_def d_def)
    have "sample_at (set_at d x y 3 (sample_at out x y 3)) x' y' c' = sample_at (if (x', y') \<in> {(x, y)} then out else dst) x' y' c'"
      if "in_range out x' y' c'" for x' y' c'
      using at_set_at [OF d(1), of x y 3 x' y' c' "sample_at out x y 3"] r3 that d(3) [of x' y' c'] color [of c']
        not_color_is_alpha [OF src, of x' y' c'] by (auto simp: range)
    with t d(1) show ?thesis using same_shape_trans [OF set_at_shape sd] by (simp add: paints_def)
  next
    case False
    then have "thread_stores src (colors_of src) v x y dst = d" by (simp add: thread_stores_def d_def)
    with d(1) sd show ?thesis using d(3) color not_color_is_alpha [OF src] False by (auto simp: paints_def range)
  qed
qed

text \<open>The grid covers the image: every pixel belongs to exactly one thread.\<close>

definition thread_pixel :: "nat \<Rightarrow> (nat \<times> nat) \<times> (nat \<times> nat) \<Rightarrow> nat \<times> nat" where
  "thread_pixel block_dim t = (fst (fst t) * block_dim + fst (snd t), snd (fst t) * block_dim + snd (snd t))"

lemma grid_dim_covers: "0 < block_dim \<Longrightarrow> x < extent \<Longrightarrow> x div block_dim < grid_dim extent block_dim"
proof -
  assume "0 < block_dim" "x < extent"
  then have "x div block_dim + 1 = (x + block_dim) div block_dim" by simp
  also have "\<dots> \<le> (extent + block_dim - 1) div block_dim" using \<open>x < extent\<close> by (intro div_le_mono) simp
  finally show ?thesis by (simp add: grid_dim_def)
qed

lemma launch_threads_mem:
  "((bx, by), (tx, ty)) \<in> set (launch_threads src b) \<longleftrightarrow>
     bx < grid_dim (img_w src) b \<and> by < grid_dim (img_h src) b \<and> tx < b \<and> ty < b"
  by (auto simp: launch_threads_def)

lemma launch_covers:
  assumes "0 < b" "x < img_w src" "y < img_h src"
  shows "\<exists>!t. t \<in> set (launch_threads src b) \<and> thread_pixel b t = (x, y)"
proof (rule ex1I)
  show "((x div b, y div b), (x mod b, y mod b)) \<in> set (launch_threads src b) \<and>
      thread_pixel b ((x div b, y div b), (x mod b, y mod b)) = (x, y)"
    using assms by (simp add: launch_threads_mem grid_dim_covers thread_pixel_def)
  fix t
  assume t: "t \<in> set (launch_threads src b) \<and> thread_pixel b t = (x, y)"
  obtain bx "by" tx ty where [simp]: "t = ((bx, by), (tx, ty))" by (metis surj_pair)
  from t have "tx < b" "ty < b" "x = bx * b + tx" "y = by * b + ty" by (auto simp: launch_threads_mem thread_pixel_def)
  then show "t = ((x div b, y div b), (x mod b, y mod b))" by simp
qed

lemma launch_stage_run:
  assumes src: "image_wf src" and ok: "stage_ok st" and out: "apply_chain expf src (map pl_op (stage_ops st)) = Inr out"
    and dst: "image_wf dst" "same_shape dst src"
  shows "launch_stage expf tile_size garbage st src dst = out"
proof -
  define tile where "tile = (if st_has_stencil st then tile_size else 0)"
  define b where "b = (if tile > 0 then tile else 16)"
  define f where "f = (\<lambda>t. thread_exec expf st src tile b garbage (fst t) (snd t))"
  define own where "own = (\<lambda>t. {p. p = thread_pixel b t \<and> fst p < img_w src \<and> snd p < img_h src})"
  have frame: "keeps_frame src out" using apply_chain_frame [OF src, of expf "map pl_op (stage_ops st)"] out by auto
  then have so: "image_wf out" "same_shape out src" by (simp_all add: keeps_frame_def)
  have sd: "same_shape dst out" using same_shape_trans [OF dst(2) same_shape_sym [OF so(2)]] .
  have "paints out (own t) d (f t d)" if t: "t \<in> set (launch_threads src b)" and d: "image_wf d" "same_shape d out" for t d
  proof -
    obtain bx "by" tx ty where [simp]: "t = ((bx, by), (tx, ty))" by (metis surj_pair)
    have lt: "tx < b" "ty < b" using t by (simp_all add: launch_threads_mem)
    show ?thesis
    proof (cases "bx * b + tx < img_w src \<and> by * b + ty < img_h src")
      case True
      then have r: "bx * b + tx < img_w src" "by * b + ty < img_h src" by simp_all
      have "own t = {(bx * b + tx, by * b + ty)}" using r by (auto simp: own_def thread_pixel_def)
      moreover have "f t d = thread_stores src (colors_of src) (thread_registers expf (colors_of src) st src tile garbage (bx, by) (tx, ty)
          (bx * b + tx) (by * b + ty)) (bx * b + tx) (by * b + ty) d"
        using r by (simp add: f_def thread_exec_def Let_def)
      ultimately show ?thesis
        using thread_stores_paints [OF src frame r thread_registers_sample [OF src ok out b_def lt r] d] by simp
    next
      case False
      then have "own t = {}" "f t d = d" by (auto simp: own_def thread_pixel_def f_def thread_exec_def Let_def)
      then show ?thesis using d by (simp add: paints_none)
    qed
  qed
  then have p: "paints out (\<Union>t \<in> set (launch_threads src b). own t) dst (fold f (launch_threads src b) dst)"
    using dst(1) sd by (rule paints_fold)
  have "(x, y) \<in> (\<Union>t \<in> set (launch_threads src b). own t)" if "x < img_w src" "y < img_h src" for x y
  proof -
    have "0 < b" by (simp add: b_def)
    from launch_covers [OF this that] obtain t where "t \<in> set (launch_threads src b)" "thread_pixel b t = (x, y)" by blast
    with that show ?thesis by (intro UN_I) (auto simp: own_def)
  qed
  then have all: "in_range out x y c \<Longrightarrow> (x, y) \<in> (\<Union>t \<in> set (launch_threads src b). own t)" for x y c
    using same_shape_range [OF so(2)] by (simp add: in_range_def)
  have "fold f (launch_threads src b) dst = out"
  proof (rule image_eqI)
    show "image_wf (fold f (launch_threads src b) dst)" "same_shape (fold f (launch_threads src b) dst) out"
      using p by (simp_all add: paints_def)
    fix x y c
    assume "in_range (fold f (launch_threads src b) dst) x y c"
    then have "in_range out x y c" using p same_shape_range by (simp add: paints_def) blast
    with all [OF this] p show "sample_at (fold f (launch_threads src b) dst) x y c = sample_at out x y c"
      by (simp add: paints_def)
  qed (rule so(1))
  then show ?thesis by (simp add: launch_stage_def tile_def [symmetric] b_def [symmetric] f_def Let_def case_prod_unfold)
qed

lemma run_stages_run:
  assumes "image_wf src" "list_all stage_ok sts" "apply_chain expf src (map pl_op (concat (map stage_ops sts))) = Inr out"
    and "image_wf dst" "same_shape dst src"
  shows "fst (run_stages expf tile_size garbage sts (src, dst)) = out"
  using assms
proof (induction sts arbitrary: src dst)
  case (Cons st sts)
  obtain mid where mid: "apply_chain expf src (map pl_op (stage_ops st)) = Inr mid"
      "apply_chain expf mid (map pl_op (concat (map stage_ops sts))) = Inr out"
    using Cons.prems(3) by (auto simp: apply_chain_append bind_result_eq_Inr)
  have frame: "keeps_frame src mid" using apply_chain_frame [OF Cons.prems(1), of expf "map pl_op (stage_ops st)"] mid(1) by auto
  then have m: "image_wf mid" "same_shape src mid" by (simp_all add: keeps_frame_def same_shape_sym)
  have "launch_stage expf tile_size garbage st src dst = mid"
    by (rule launch_stage_run [OF Cons.prems(1) _ mid(1) Cons.prems(4,5)]) (use Cons.prems(2) in simp)
  then show ?case using Cons.IH [OF m(1) _ mid(2) Cons.prems(1) m(2)] Cons.prems(2) by simp
qed simp

section \<open>Properties\<close>



text \<open>
  The launch geometry is exact: for every block edge, each pixel of the image is owned by exactly one
  thread of the grid, so no sample is skipped and no two threads write the same sample.
\<close>

lemma every_pixel_has_one_thread:
  assumes "0 < block_dim" "x < img_w src" "y < img_h src"
  shows "\<exists>!t. t \<in> set (launch_threads src block_dim) \<and> thread_pixel block_dim t = (x, y)"
  using assms by (rule launch_covers)

end
