(* ===== verification/Cuda_Driver.thy ===== *)
theory Cuda_Driver
  imports Codegen
begin

text \<open>
  The thin layer over the CUDA driver and NVRTC: error checking
  (\<open>src/backend/cuda/cuda_check.h\<close>), the owning wrappers (\<open>src/backend/cuda/cuda_raii.h\<close>) and
  runtime compilation (\<open>src/backend/cuda/nvrtc_compile.h\<close>).

  The driver itself is not part of the repository. It is a parameter: a record with one
  operation per entry point the code calls, over a driver state \<open>'d\<close> the code never looks
  into. Handles and pointers are numbers, 0 is null. A call that fails still may change the
  driver state. Nothing is assumed of a driver unless a theorem says so.
\<close>

section \<open>The driver as a parameter\<close>

type_synonym cu_result = int

definition CUDA_SUCCESS :: cu_result where "CUDA_SUCCESS = 0"
definition CUDA_ERROR_NOT_READY :: cu_result where "CUDA_ERROR_NOT_READY = 600"

datatype kernel_argument = Pointer_Arg nat | Int_Arg int | Taps_Arg "rat list" | Float_Arg rat

type_synonym ('d, 'a) cu_operation = "'d \<Rightarrow> (cu_result \<times> 'a) \<times> 'd"

record 'd cuda_driver =
  cuGetErrorName :: "cu_result \<Rightarrow> string option"
  cuGetErrorString :: "cu_result \<Rightarrow> string option"
  cuInit :: "('d, unit) cu_operation"
  cuDeviceGet :: "int \<Rightarrow> ('d, nat) cu_operation"
  cuDeviceGetAttribute :: "string \<Rightarrow> nat \<Rightarrow> ('d, int) cu_operation"
  cuCtxCreate :: "nat \<Rightarrow> ('d, nat) cu_operation"
  cuCtxDestroy :: "nat \<Rightarrow> ('d, unit) cu_operation"
  cuModuleLoadData :: "string \<Rightarrow> ('d, nat) cu_operation"
  cuModuleGetFunction :: "nat \<Rightarrow> string \<Rightarrow> ('d, nat) cu_operation"
  cuModuleUnload :: "nat \<Rightarrow> ('d, unit) cu_operation"
  cuMemAlloc :: "nat \<Rightarrow> ('d, nat) cu_operation"
  cuMemFree :: "nat \<Rightarrow> ('d, unit) cu_operation"
  cuMemAllocHost :: "nat \<Rightarrow> ('d, nat) cu_operation"
  cuMemFreeHost :: "nat \<Rightarrow> ('d, unit) cu_operation"
  cuMemHostRegister :: "nat \<Rightarrow> nat \<Rightarrow> ('d, unit) cu_operation"
  cuMemHostUnregister :: "nat \<Rightarrow> ('d, unit) cu_operation"
  cuStreamCreate :: "('d, nat) cu_operation"
  cuStreamDestroy :: "nat \<Rightarrow> ('d, unit) cu_operation"
  cuEventCreate :: "bool \<Rightarrow> ('d, nat) cu_operation"
  cuEventDestroy :: "nat \<Rightarrow> ('d, unit) cu_operation"
  cuEventRecord :: "nat \<Rightarrow> nat \<Rightarrow> ('d, unit) cu_operation"
  cuEventQuery :: "nat \<Rightarrow> ('d, unit) cu_operation"
  cuEventSynchronize :: "nat \<Rightarrow> ('d, unit) cu_operation"
  cuEventElapsedTime :: "nat \<Rightarrow> nat \<Rightarrow> ('d, rat) cu_operation"
  cuMemcpyHtoDAsync :: "nat \<Rightarrow> u8 list \<Rightarrow> nat \<Rightarrow> nat \<Rightarrow> ('d, unit) cu_operation"
  cuMemcpyDtoHAsync :: "nat \<Rightarrow> nat \<Rightarrow> nat \<Rightarrow> nat \<Rightarrow> ('d, unit) cu_operation"
  cuLaunchKernel :: "nat \<Rightarrow> nat \<times> nat \<Rightarrow> nat \<times> nat \<Rightarrow> nat \<Rightarrow> kernel_argument list \<Rightarrow> ('d, unit) cu_operation"
  host_bytes :: "nat \<Rightarrow> 'd \<Rightarrow> u8 list"
  operator_new :: "nat \<Rightarrow> nat \<Rightarrow> 'd \<Rightarrow> nat \<times> 'd"
  operator_delete :: "nat \<Rightarrow> 'd \<Rightarrow> 'd"
  sysconf_page_size :: int
  nvrtcGetErrorString :: "cu_result \<Rightarrow> string"
  nvrtcCreateProgram :: "string \<Rightarrow> string \<Rightarrow> ('d, nat) cu_operation"
  nvrtcDestroyProgram :: "nat \<Rightarrow> ('d, unit) cu_operation"
  nvrtcCompileProgram :: "nat \<Rightarrow> string list \<Rightarrow> ('d, unit) cu_operation"
  nvrtcGetProgramLogSize :: "nat \<Rightarrow> ('d, nat) cu_operation"
  nvrtcGetProgramLog :: "nat \<Rightarrow> ('d, string) cu_operation"
  nvrtcGetPTXSize :: "nat \<Rightarrow> ('d, nat) cu_operation"
  nvrtcGetPTX :: "nat \<Rightarrow> ('d, string) cu_operation"

section \<open>Error checking\<close>

definition format_site :: "string \<Rightarrow> string \<Rightarrow> nat \<Rightarrow> string" where
  "format_site expr file line = file @ '':'' @ show_nat line @ '': '' @ expr"

definition cu_check :: "'d cuda_driver \<Rightarrow> cu_result \<Rightarrow> string \<Rightarrow> string \<Rightarrow> nat \<Rightarrow> unit result" where
  "cu_check drv r expr file line =
     (if r = CUDA_SUCCESS then Inr ()
      else Inl (Cuda_error (format_site expr file line @ '' failed: '' @
             (case cuGetErrorName drv r of Some name \<Rightarrow> name | None \<Rightarrow> ''UNKNOWN'') @ '' ('' @
             (case cuGetErrorString drv r of Some description \<Rightarrow> description | None \<Rightarrow> ''no description'') @ '')'')))"

definition nvrtc_check :: "'d cuda_driver \<Rightarrow> cu_result \<Rightarrow> string \<Rightarrow> string \<Rightarrow> nat \<Rightarrow> unit result" where
  "nvrtc_check drv r expr file line =
     (if r = 0 then Inr ()
      else Inl (Nvrtc_error (format_site expr file line @ '' failed: '' @ nvrtcGetErrorString drv r)))"

text \<open>The macros around a call; a failure during teardown is reported on standard error only.\<close>

definition CU_CHECK :: "'d cuda_driver \<Rightarrow> string \<Rightarrow> string \<Rightarrow> nat \<Rightarrow> ('d, 'a) cu_operation \<Rightarrow> ('d, 'a) action" where
  "CU_CHECK drv expr file line call d =
     (case call d of ((r, v), d') \<Rightarrow> (map_sum id (\<lambda>_. v) (cu_check drv r expr file line), d'))"

definition NVRTC_CHECK :: "'d cuda_driver \<Rightarrow> string \<Rightarrow> string \<Rightarrow> nat \<Rightarrow> ('d, 'a) cu_operation \<Rightarrow> ('d, 'a) action" where
  "NVRTC_CHECK drv expr file line call d =
     (case call d of ((r, v), d') \<Rightarrow> (map_sum id (\<lambda>_. v) (nvrtc_check drv r expr file line), d'))"

definition CU_CHECK_NOTHROW :: "('d, 'a) cu_operation \<Rightarrow> 'd \<Rightarrow> 'd" where
  "CU_CHECK_NOTHROW call d = snd (call d)"

section \<open>Owning wrappers\<close>

definition kRaiiFile :: string where "kRaiiFile = ''src/backend/cuda/cuda_raii.h''"

record cuda_context =
  cc_device :: nat
  cc_context :: nat

definition CudaContext_new :: "'d cuda_driver \<Rightarrow> int \<Rightarrow> ('d, cuda_context) action" where
  "CudaContext_new drv device_ordinal =
     then_act (CU_CHECK drv ''cuInit(0)'' kRaiiFile 28 (cuInit drv)) (\<lambda>_.
     then_act (CU_CHECK drv ''cuDeviceGet(&device_, device_ordinal)'' kRaiiFile 29 (cuDeviceGet drv device_ordinal)) (\<lambda>device.
     then_act (CU_CHECK drv ''cuCtxCreate(&context_, 0, device_)'' kRaiiFile 30 (cuCtxCreate drv device)) (\<lambda>context.
     return_act \<lparr>cc_device = device, cc_context = context\<rparr>)))"

definition CudaContext_delete :: "'d cuda_driver \<Rightarrow> cuda_context \<Rightarrow> 'd \<Rightarrow> 'd" where
  "CudaContext_delete drv context = CU_CHECK_NOTHROW (cuCtxDestroy drv (cc_context context))"

definition compute_arch :: "'d cuda_driver \<Rightarrow> cuda_context \<Rightarrow> ('d, string) action" where
  "compute_arch drv context =
     then_act (CU_CHECK drv ''cuDeviceGetAttribute(&major, CU_DEVICE_ATTRIBUTE_COMPUTE_CAPABILITY_MAJOR, device_)'' kRaiiFile 45
       (cuDeviceGetAttribute drv ''CU_DEVICE_ATTRIBUTE_COMPUTE_CAPABILITY_MAJOR'' (cc_device context))) (\<lambda>major.
     then_act (CU_CHECK drv ''cuDeviceGetAttribute(&minor, CU_DEVICE_ATTRIBUTE_COMPUTE_CAPABILITY_MINOR, device_)'' kRaiiFile 46
       (cuDeviceGetAttribute drv ''CU_DEVICE_ATTRIBUTE_COMPUTE_CAPABILITY_MINOR'' (cc_device context))) (\<lambda>minor.
     return_act (''compute_'' @ show_int major @ show_int minor)))"

text \<open>
  The five movable wrappers share one shape: \<open>reset\<close> destroys a handle that is not null and
  forgets it, a move takes the handle and leaves null, move assignment resets first.
\<close>

definition raii_reset :: "(nat \<Rightarrow> ('d, unit) cu_operation) \<Rightarrow> nat \<Rightarrow> 'd \<Rightarrow> nat \<times> 'd" where
  "raii_reset destroy handle d = (if handle \<noteq> 0 then (0, CU_CHECK_NOTHROW (destroy handle) d) else (handle, d))"

definition raii_move :: "nat \<Rightarrow> nat \<times> nat" where
  "raii_move other = (other, 0)"

text \<open>\<open>this = std::move(other)\<close>, with the values of both afterwards; \<open>self\<close> is \<open>this == &other\<close>.\<close>

definition raii_assign :: "(nat \<Rightarrow> ('d, unit) cu_operation) \<Rightarrow> bool \<Rightarrow> nat \<Rightarrow> nat \<Rightarrow> 'd \<Rightarrow> (nat \<times> nat) \<times> 'd" where
  "raii_assign destroy self this other d =
     (if self then ((this, other), d)
      else (case raii_reset destroy this d of (_, d') \<Rightarrow> (raii_move other, d')))"

definition CudaModule_new :: "'d cuda_driver \<Rightarrow> string \<Rightarrow> ('d, nat) action" where
  "CudaModule_new drv ptx_image =
     CU_CHECK drv ''cuModuleLoadData(&module_, ptx_image)'' kRaiiFile 61 (cuModuleLoadData drv ptx_image)"

definition CudaModule_delete :: "'d cuda_driver \<Rightarrow> nat \<Rightarrow> 'd \<Rightarrow> 'd" where
  "CudaModule_delete drv m d = snd (raii_reset (cuModuleUnload drv) m d)"

definition get_function :: "'d cuda_driver \<Rightarrow> nat \<Rightarrow> string \<Rightarrow> ('d, nat) action" where
  "get_function drv m name =
     CU_CHECK drv ''cuModuleGetFunction(&function, module_, name)'' kRaiiFile 80 (cuModuleGetFunction drv m name)"

definition DeviceBuffer_new :: "'d cuda_driver \<Rightarrow> nat \<Rightarrow> ('d, nat) action" where
  "DeviceBuffer_new drv bytes = CU_CHECK drv ''cuMemAlloc(&pointer_, bytes)'' kRaiiFile 97 (cuMemAlloc drv bytes)"

definition DeviceBuffer_delete :: "'d cuda_driver \<Rightarrow> nat \<Rightarrow> 'd \<Rightarrow> 'd" where
  "DeviceBuffer_delete drv p d = snd (raii_reset (cuMemFree drv) p d)"

definition PinnedHostBuffer_new :: "'d cuda_driver \<Rightarrow> nat \<Rightarrow> ('d, nat) action" where
  "PinnedHostBuffer_new drv bytes =
     CU_CHECK drv ''cuMemAllocHost(&pointer_, bytes)'' kRaiiFile 142 (cuMemAllocHost drv bytes)"

definition PinnedHostBuffer_delete :: "'d cuda_driver \<Rightarrow> nat \<Rightarrow> 'd \<Rightarrow> 'd" where
  "PinnedHostBuffer_delete drv p d = snd (raii_reset (cuMemFreeHost drv) p d)"

definition CudaStream_new :: "'d cuda_driver \<Rightarrow> ('d, nat) action" where
  "CudaStream_new drv =
     CU_CHECK drv ''cuStreamCreate(&stream_, CU_STREAM_NON_BLOCKING)'' kRaiiFile 270 (cuStreamCreate drv)"

definition CudaStream_delete :: "'d cuda_driver \<Rightarrow> nat \<Rightarrow> 'd \<Rightarrow> 'd" where
  "CudaStream_delete drv s d = snd (raii_reset (cuStreamDestroy drv) s d)"

definition CudaEvent_new :: "'d cuda_driver \<Rightarrow> bool \<Rightarrow> ('d, nat) action" where
  "CudaEvent_new drv timing = CU_CHECK drv ''cuEventCreate(&event_, flags)'' kRaiiFile 316 (cuEventCreate drv timing)"

definition CudaEvent_delete :: "'d cuda_driver \<Rightarrow> nat \<Rightarrow> 'd \<Rightarrow> 'd" where
  "CudaEvent_delete drv e d = snd (raii_reset (cuEventDestroy drv) e d)"

subsection \<open>Page-locked memory of the process\<close>

record registered_buffer =
  rb_alignment :: nat
  rb_size :: nat
  rb_memory :: nat
  rb_registered :: bool

definition page_size :: "'d cuda_driver \<Rightarrow> nat" where
  "page_size drv = (let reported = sysconf_page_size drv in if reported > 0 then nat reported else 4096)"

definition round_up :: "u64 \<Rightarrow> u64 \<Rightarrow> u64" where
  "round_up value multiple = ((value + multiple - 1) div multiple) * multiple"

definition attach :: "'d cuda_driver \<Rightarrow> (registered_buffer \<times> 'd, unit) action" where
  "attach drv = (\<lambda>(b, d).
     if \<not> rb_registered b
     then (case CU_CHECK drv ''cuMemHostRegister(memory_, size_, 0)'' kRaiiFile 223
                  (cuMemHostRegister drv (rb_memory b) (rb_size b)) d of
             (Inl e, d') \<Rightarrow> (Inl e, (b, d'))
           | (Inr _, d') \<Rightarrow> (Inr (), (b\<lparr>rb_registered := True\<rparr>, d')))
     else (Inr (), (b, d)))"

definition detach :: "'d cuda_driver \<Rightarrow> registered_buffer \<times> 'd \<Rightarrow> registered_buffer \<times> 'd" where
  "detach drv = (\<lambda>(b, d).
     if rb_registered b
     then (b\<lparr>rb_registered := False\<rparr>, CU_CHECK_NOTHROW (cuMemHostUnregister drv (rb_memory b)) d)
     else (b, d))"

text \<open>
  The constructor. When \<open>attach\<close> throws, the destructor does not run: the object was never
  complete, so its memory is not given back.
\<close>

definition RegisteredHostBuffer_new :: "'d cuda_driver \<Rightarrow> u64 \<Rightarrow> ('d, registered_buffer) action" where
  "RegisteredHostBuffer_new drv bytes d =
     (let alignment = page_size drv;
          rounded = unat (round_up bytes (of_nat alignment))
      in case operator_new drv rounded alignment d of (memory, d1) \<Rightarrow>
         case attach drv (\<lparr>rb_alignment = alignment, rb_size = rounded, rb_memory = memory, rb_registered = False\<rparr>, d1) of
           (Inl e, (_, d2)) \<Rightarrow> (Inl e, d2)
         | (Inr _, (b, d2)) \<Rightarrow> (Inr b, d2))"

definition RegisteredHostBuffer_delete :: "'d cuda_driver \<Rightarrow> registered_buffer \<Rightarrow> 'd \<Rightarrow> 'd" where
  "RegisteredHostBuffer_delete drv b d = (case detach drv (b, d) of (b', d') \<Rightarrow> operator_delete drv (rb_memory b') d')"

section \<open>Runtime compilation\<close>

definition kNvrtcFile :: string where "kNvrtcFile = ''src/backend/cuda/nvrtc_compile.h''"

text \<open>The getter fills a buffer of \<open>size_with_nul\<close> characters; the last one is dropped.\<close>

definition read_sized :: "nat \<Rightarrow> ('d, string) action \<Rightarrow> ('d, string) action" where
  "read_sized size_with_nul getter =
     (if size_with_nul \<le> 1 then return_act []
      else then_act getter (\<lambda>written.
             return_act (butlast (take size_with_nul (written @ replicate (size_with_nul - length written) (CHR 0x00))))))"

definition nvrtc_results :: "'d cuda_driver \<Rightarrow> nat \<Rightarrow> string \<Rightarrow> string \<Rightarrow> cu_result \<Rightarrow> ('d, string) action" where
  "nvrtc_results drv program program_name gpu_architecture compile_result =
      then_act (NVRTC_CHECK drv ''nvrtcGetProgramLogSize(program.get(), &log_size)'' kNvrtcFile 69
                 (nvrtcGetProgramLogSize drv program)) (\<lambda>log_size.
      then_act (read_sized log_size (NVRTC_CHECK drv ''nvrtcGetProgramLog(program.get(), out)'' kNvrtcFile 71
                 (nvrtcGetProgramLog drv program))) (\<lambda>log.
      if compile_result \<noteq> 0
      then throw_act (Nvrtc_error (''NVRTC failed to compile '' @ program_name @ '' for '' @ gpu_architecture @ '':'' @ nl @ log))
      else
      then_act (NVRTC_CHECK drv ''nvrtcGetPTXSize(program.get(), &ptx_size)'' kNvrtcFile 79
                 (nvrtcGetPTXSize drv program)) (\<lambda>ptx_size.
      read_sized ptx_size (NVRTC_CHECK drv ''nvrtcGetPTX(program.get(), out)'' kNvrtcFile 81
                 (nvrtcGetPTX drv program)))))"

definition nvrtc_outputs :: "'d cuda_driver \<Rightarrow> nat \<Rightarrow> string \<Rightarrow> string \<Rightarrow> ('d, string) action" where
  "nvrtc_outputs drv program program_name gpu_architecture d =
     (case nvrtcCompileProgram drv program [''--gpu-architecture='' @ gpu_architecture] d of ((compile_result, _), d1) \<Rightarrow>
        nvrtc_results drv program program_name gpu_architecture compile_result d1)"

definition compile_to_ptx :: "'d cuda_driver \<Rightarrow> string \<Rightarrow> string \<Rightarrow> string \<Rightarrow> ('d, string) action" where
  "compile_to_ptx drv source program_name gpu_architecture d =
     (case NVRTC_CHECK drv ''nvrtcCreateProgram(&program_, source.c_str(), name, 0, nullptr, nullptr)'' kNvrtcFile 24
             (nvrtcCreateProgram drv source program_name) d of
        (Inl e, d1) \<Rightarrow> (Inl e, d1)
      | (Inr program, d1) \<Rightarrow>
          (case nvrtc_outputs drv program program_name gpu_architecture d1 of
             (r, d2) \<Rightarrow> (r, if program \<noteq> 0 then snd (nvrtcDestroyProgram drv program d2) else d2)))"

section \<open>What is thrown\<close>

text \<open>A failed compilation is never mistaken for a driver error, and the other way round.\<close>

lemma CU_CHECK_throws: "fst (CU_CHECK drv expr file line call d) = Inl e \<Longrightarrow> \<exists>m. e = Cuda_error m"
  by (auto simp: CU_CHECK_def cu_check_def split: prod.splits if_splits)

lemma CU_CHECK_returns: "CU_CHECK drv expr file line call d = (Inr v, d') \<Longrightarrow> call d = ((0, v), d')"
  by (auto simp: CU_CHECK_def cu_check_def CUDA_SUCCESS_def split: prod.splits if_splits)

lemma CU_CHECK_fails: "CU_CHECK drv expr file line call d = (Inl e, d') \<Longrightarrow> \<exists>m. e = Cuda_error m"
  by (metis CU_CHECK_throws fst_conv)

lemma NVRTC_CHECK_returns: "NVRTC_CHECK drv expr file line call d = (Inr v, d') \<Longrightarrow> call d = ((0, v), d')"
  by (auto simp: NVRTC_CHECK_def nvrtc_check_def split: prod.splits if_splits)

lemma NVRTC_CHECK_throws: "fst (NVRTC_CHECK drv expr file line call d) = Inl e \<Longrightarrow> \<exists>m. e = Nvrtc_error m"
  by (auto simp: NVRTC_CHECK_def nvrtc_check_def split: prod.splits if_splits)

definition is_nvrtc :: "cpp_exception \<Rightarrow> bool" where
  "is_nvrtc e = (case e of Nvrtc_error _ \<Rightarrow> True | _ \<Rightarrow> False)"

definition is_cuda :: "cpp_exception \<Rightarrow> bool" where
  "is_cuda e = (case e of Cuda_error _ \<Rightarrow> True | _ \<Rightarrow> False)"

lemma throws_only_CU_CHECK [simp]: "throws_only is_cuda (CU_CHECK drv expr file line call)"
  using CU_CHECK_throws by (fastforce simp: throws_only_def is_cuda_def)

lemma throws_only_NVRTC_CHECK [simp]: "throws_only is_nvrtc (NVRTC_CHECK drv expr file line call)"
  using NVRTC_CHECK_throws by (fastforce simp: throws_only_def is_nvrtc_def)

lemma read_sized_throws: "throws_only P getter \<Longrightarrow> throws_only P (read_sized n getter)"
  by (simp add: read_sized_def throws_only_then)

lemma nvrtc_results_throws: "throws_only is_nvrtc (nvrtc_results drv program name arch compile_result)"
  unfolding nvrtc_results_def
  by (intro throws_only_then) (simp_all add: read_sized_throws throws_only_then is_nvrtc_def)

lemma nvrtc_outputs_throws: "throws_only is_nvrtc (nvrtc_outputs drv program name arch)"
  unfolding throws_only_def
proof (intro allI impI)
  fix d e
  assume e: "fst (nvrtc_outputs drv program name arch d) = Inl e"
  obtain c u d1 where "nvrtcCompileProgram drv program [''--gpu-architecture='' @ arch] d = ((c, u), d1)" by (metis surj_pair)
  then have "nvrtc_outputs drv program name arch d = nvrtc_results drv program name arch c d1" by (simp only: nvrtc_outputs_def prod.case)
  with e nvrtc_results_throws [of drv program name arch c] show "is_nvrtc e" by (simp add: throws_only_def)
qed

lemma compile_to_ptx_throws: "throws_only is_nvrtc (compile_to_ptx drv source name arch)"
  unfolding throws_only_def
proof (intro allI impI)
  fix d e
  assume e: "fst (compile_to_ptx drv source name arch d) = Inl e"
  define m where "m = NVRTC_CHECK drv ''nvrtcCreateProgram(&program_, source.c_str(), name, 0, nullptr, nullptr)'' kNvrtcFile 24
      (nvrtcCreateProgram drv source name)"
  have t: "throws_only is_nvrtc m" by (simp add: m_def)
  obtain r d1 where m: "m d = (r, d1)" by (cases "m d")
  show "is_nvrtc e"
  proof (cases r)
    case (Inl e')
    with e m have "e' = e" by (simp add: compile_to_ptx_def m_def [symmetric])
    with t m Inl show ?thesis by (auto dest: throws_onlyD)
  next
    case (Inr program)
    obtain r2 d2 where o: "nvrtc_outputs drv program name arch d1 = (r2, d2)" by (cases "nvrtc_outputs drv program name arch d1")
    with e m Inr have "r2 = Inl e" by (simp add: compile_to_ptx_def m_def [symmetric])
    with o show ?thesis using throws_onlyD [OF nvrtc_outputs_throws] by simp
  qed
qed

section \<open>The registered buffer never moves\<close>

lemma attach_memory: "rb_memory (fst (snd (attach drv (b, d)))) = rb_memory b \<and> rb_size (fst (snd (attach drv (b, d)))) = rb_size b"
  by (auto simp: attach_def split: prod.splits sum.splits)

lemma detach_memory: "rb_memory (fst (detach drv (b, d))) = rb_memory b \<and> rb_size (fst (detach drv (b, d))) = rb_size b \<and>
    \<not> rb_registered (fst (detach drv (b, d)))"
  by (simp add: detach_def)

lemma round_up_exact:
  assumes "multiple \<noteq> 0" "unat value + unat multiple \<le> 2 ^ 64"
  shows "unat (round_up value multiple) = (unat value + unat multiple - 1) div unat multiple * unat multiple"
proof -
  have m: "0 < unat multiple" using assms(1) by (simp add: unat_gt_0)
  have sum: "unat (value + multiple - 1) = unat value + unat multiple - 1"
  proof -
    have "value + multiple - 1 = of_nat (unat value + unat multiple - 1)"
      using m by (simp add: of_nat_diff)
    moreover have "unat (of_nat (unat value + unat multiple - 1) :: u64) = unat value + unat multiple - 1"
      unfolding unat_of_nat using assms(2) m by (intro mod_less) simp
    ultimately show ?thesis by simp
  qed
  have "(unat value + unat multiple - 1) div unat multiple * unat multiple \<le> unat value + unat multiple - 1"
    by (rule div_times_less_eq_dividend)
  also have "\<dots> < 2 ^ 64" using assms(2) m by linarith
  finally have fits: "(unat value + unat multiple - 1) div unat multiple * unat multiple < 2 ^ 64" .
  have "unat ((value + multiple - 1) div multiple) = (unat value + unat multiple - 1) div unat multiple"
    by (simp only: unat_div sum)
  then have "unat (round_up value multiple) = ((unat value + unat multiple - 1) div unat multiple * unat multiple) mod 2 ^ 64"
    by (simp add: round_up_def unat_word_ariths(2))
  with fits show ?thesis by (simp only: mod_less)
qed

section \<open>Ownership\<close>

text \<open>
  A ledger of the driver's resources: what is live, and what was freed in which order. The
  wrappers of a program are variables that hold a handle or null. Creation returns a handle
  that was never used; everything else is the wrappers' own code.
\<close>

type_synonym ledger = "nat set \<times> nat list"

definition ledger_free :: "nat \<Rightarrow> (ledger, unit) cu_operation" where
  "ledger_free h = (\<lambda>(live, freed). ((CUDA_SUCCESS, ()), (live - {h}, freed @ [h])))"

inductive raii_step :: "(nat \<Rightarrow> nat) \<times> ledger \<Rightarrow> (nat \<Rightarrow> nat) \<times> ledger \<Rightarrow> bool" where
  raii_create: "vars v = 0 \<Longrightarrow> h \<noteq> 0 \<Longrightarrow> h \<notin> live \<Longrightarrow> h \<notin> set freed \<Longrightarrow>
    raii_step (vars, (live, freed)) (vars(v := h), (insert h live, freed))"
| raii_move_new: "vars v = 0 \<Longrightarrow> v \<noteq> w \<Longrightarrow> raii_move (vars w) = (a, b) \<Longrightarrow>
    raii_step (vars, l) (vars(v := a, w := b), l)"
| raii_move_assign: "raii_assign ledger_free (v = w) (vars v) (vars w) l = ((a, b), l') \<Longrightarrow>
    raii_step (vars, l) (vars(v := a, w := b), l')"
| raii_destroy: "raii_reset ledger_free (vars v) l = (h, l') \<Longrightarrow> raii_step (vars, l) (vars(v := h), l')"

inductive raii_reachable :: "(nat \<Rightarrow> nat) \<times> ledger \<Rightarrow> bool" where
  raii_start: "raii_reachable ((\<lambda>_. 0), ({}, []))"
| raii_next: "raii_reachable s \<Longrightarrow> raii_step s s' \<Longrightarrow> raii_reachable s'"

definition raii_inv :: "(nat \<Rightarrow> nat) \<times> ledger \<Rightarrow> bool" where
  "raii_inv = (\<lambda>(vars, (live, freed)).
     (\<forall>v w. vars v = vars w \<longrightarrow> vars v \<noteq> 0 \<longrightarrow> v = w) \<and> (\<forall>h. h \<in> live \<longleftrightarrow> h \<noteq> 0 \<and> (\<exists>v. vars v = h)) \<and>
     distinct freed \<and> (\<forall>h \<in> set freed. h \<notin> live \<and> h \<noteq> 0))"

inductive_cases raii_stepE: "raii_step s s'"

lemma raii_reset_ledger:
  "raii_reset ledger_free h (live, freed) = (if h \<noteq> 0 then (0, (live - {h}, freed @ [h])) else (0, (live, freed)))"
  by (simp add: raii_reset_def CU_CHECK_NOTHROW_def ledger_free_def)

lemma raii_invI:
  assumes "\<And>v w. vars v = vars w \<Longrightarrow> vars v \<noteq> 0 \<Longrightarrow> v = w" "\<And>h. h \<in> live \<longleftrightarrow> h \<noteq> 0 \<and> h \<in> range vars"
    "distinct freed" "\<And>h. h \<in> set freed \<Longrightarrow> h \<notin> live \<and> h \<noteq> 0"
  shows "raii_inv (vars, (live, freed))"
  using assms by (fastforce simp: raii_inv_def)

lemma raii_invD:
  assumes "raii_inv (vars, (live, freed))"
  shows "vars v = vars w \<Longrightarrow> vars v \<noteq> 0 \<Longrightarrow> v = w" "h \<in> live \<longleftrightarrow> h \<noteq> 0 \<and> h \<in> range vars"
    "distinct freed" "h \<in> set freed \<Longrightarrow> h \<notin> live \<and> h \<noteq> 0"
  using assms by (auto simp: raii_inv_def)

lemma raii_create_inv:
  assumes inv: "raii_inv (vars, (live, freed))" and fresh: "vars v = 0" "h \<noteq> 0" "h \<notin> live" "h \<notin> set freed"
  shows "raii_inv (vars(v := h), (insert h live, freed))"
proof (rule raii_invI)
  note i = raii_invD [OF inv]
  have new: "vars w \<noteq> h" for w using i(2) [of h] fresh(2,3) by blast
  show "u = w" if "(vars(v := h)) u = (vars(v := h)) w" "(vars(v := h)) u \<noteq> 0" for u w
    using that new [of u] new [of w] i(1) [of u w] by (simp split: if_splits)
  have "k \<in> range (vars(v := h)) \<longleftrightarrow> k = h \<or> k \<in> range vars" if "k \<noteq> 0" for k
  proof
    assume "k = h \<or> k \<in> range vars"
    then show "k \<in> range (vars(v := h))"
    proof
      assume "k \<in> range vars"
      then obtain u where "k = vars u" by blast
      with that fresh(1) have "(vars(v := h)) u = k" by (cases "u = v") simp_all
      then show ?thesis by blast
    qed (metis fun_upd_same rangeI)
  qed (auto split: if_splits)
  then show "k \<in> insert h live \<longleftrightarrow> k \<noteq> 0 \<and> k \<in> range (vars(v := h))" for k using i(2) [of k] fresh(2) by blast
  show "distinct freed" by (rule i(3))
  show "k \<notin> insert h live \<and> k \<noteq> 0" if "k \<in> set freed" for k using i(4) [OF that] that fresh(4) by blast
qed

lemma raii_drop_inv:
  assumes inv: "raii_inv (vars, l)" and r: "raii_reset ledger_free (vars v) l = (h, l')"
  shows "raii_inv (vars(v := h), l')" "h = 0"
proof -
  obtain live freed where l: "l = (live, freed)" by (cases l)
  note i = raii_invD [OF inv [unfolded l]]
  show h: "h = 0" using r by (auto simp: l raii_reset_ledger split: if_splits)
  show "raii_inv (vars(v := h), l')"
  proof (cases "vars v = 0")
    case True
    then have "vars(v := h) = vars" "l' = l" using r by (auto simp: l raii_reset_ledger)
    then show ?thesis using inv by simp
  next
    case False
    then have l': "l' = (live - {vars v}, freed @ [vars v])" using r by (auto simp: l raii_reset_ledger)
    have one: "vars v = vars w \<Longrightarrow> v = w" for w using i(1) False by blast
    have ran: "k \<in> range (vars(v := 0)) \<longleftrightarrow> k \<noteq> vars v \<and> k \<in> range vars" if "k \<noteq> 0" for k
    proof
      assume "k \<in> range (vars(v := 0))"
      then obtain u where "k = (vars(v := 0)) u" by blast
      with that have "u \<noteq> v" "k = vars u" by (auto split: if_splits)
      then show "k \<noteq> vars v \<and> k \<in> range vars" using one [of u] by auto
    next
      assume "k \<noteq> vars v \<and> k \<in> range vars"
      then obtain u where "k = vars u" "u \<noteq> v" by blast
      then show "k \<in> range (vars(v := 0))" by (metis fun_upd_other rangeI)
    qed
    show ?thesis unfolding h l'
    proof (rule raii_invI)
      show "u = w" if "(vars(v := 0)) u = (vars(v := 0)) w" "(vars(v := 0)) u \<noteq> 0" for u w
        using that i(1) [of u w] by (simp split: if_splits)
      show "k \<in> live - {vars v} \<longleftrightarrow> k \<noteq> 0 \<and> k \<in> range (vars(v := 0))" for k using ran [of k] i(2) [of k] by blast
      show "distinct (freed @ [vars v])" using i(2) [of "vars v"] i(3) i(4) [of "vars v"] False by auto
      show "k \<notin> live - {vars v} \<and> k \<noteq> 0" if "k \<in> set (freed @ [vars v])" for k using that i(4) [of k] False by auto
    qed
  qed
qed

lemma raii_move_inv:
  assumes inv: "raii_inv (vars, l)" and v: "vars v = 0" "v \<noteq> w"
  shows "raii_inv (vars(v := vars w, w := 0), l)"
proof -
  obtain live freed where l: "l = (live, freed)" by (cases l)
  note i = raii_invD [OF inv [unfolded l]]
  have ran: "k \<in> range (vars(v := vars w, w := 0)) \<longleftrightarrow> k \<in> range vars" if "k \<noteq> 0" for k
  proof
    assume "k \<in> range vars"
    then obtain u where u: "k = vars u" by blast
    then have "(vars(v := vars w, w := 0)) (if u = w then v else u) = k" using v that by auto
    then show "k \<in> range (vars(v := vars w, w := 0))" by (metis rangeI)
  qed (use that in \<open>auto split: if_splits\<close>)
  show ?thesis unfolding l
  proof (rule raii_invI)
    show "u = u'" if "(vars(v := vars w, w := 0)) u = (vars(v := vars w, w := 0)) u'" "(vars(v := vars w, w := 0)) u \<noteq> 0" for u u'
      using that i(1) [of u u'] i(1) [of u w] i(1) [of w u'] by (simp split: if_splits)
    show "k \<in> live \<longleftrightarrow> k \<noteq> 0 \<and> k \<in> range (vars(v := vars w, w := 0))" for k using ran [of k] i(2) [of k] by blast
  qed (use i(3,4) in blast)+
qed

lemma raii_step_inv: "raii_step s s' \<Longrightarrow> raii_inv s \<Longrightarrow> raii_inv s'"
proof (induction rule: raii_step.induct)
  case (raii_create vars v h live freed)
  then show ?case by (intro raii_create_inv)
next
  case (raii_move_new vars v w a b l)
  then show ?case using raii_move_inv [of vars l v w] by (simp add: raii_move_def)
next
  case (raii_move_assign v w vars l a b l')
  show ?case
  proof (cases "v = w")
    case True
    then have "vars(v := a, w := b) = vars" "l' = l" using raii_move_assign by (auto simp: raii_assign_def)
    with raii_move_assign show ?thesis by simp
  next
    case False
    obtain h l1 where r: "raii_reset ledger_free (vars v) l = (h, l1)" by (cases "raii_reset ledger_free (vars v) l")
    note d = raii_drop_inv [OF raii_move_assign.prems r]
    have ab: "a = vars w" "b = 0" "l' = l1" using raii_move_assign.hyps False r by (simp_all add: raii_assign_def raii_move_def)
    have "raii_inv ((vars(v := h))(v := (vars(v := h)) w, w := 0), l1)"
      by (rule raii_move_inv [OF d(1)]) (use False d(2) in simp_all)
    then show ?thesis using False by (simp add: ab)
  qed
next
  case (raii_destroy vars v l h l')
  then show ?case using raii_drop_inv by blast
qed

lemma raii_reachable_inv: "raii_reachable s \<Longrightarrow> raii_inv s"
proof (induction rule: raii_reachable.induct)
  case raii_start
  show ?case by (rule raii_invI) auto
qed (rule raii_step_inv)

section \<open>Properties\<close>



text \<open>
  A chain that fails to compile is never taken for a driver failure: whatever the driver does, the only
  exception \<open>compile_to_ptx\<close> throws is \<open>NvrtcError\<close>, the one that does not cost the context.
\<close>

lemma compilation_throws_only_nvrtc_errors:
  "(case fst (compile_to_ptx drv source program_name gpu_architecture d) of Inl e \<Rightarrow> is_nvrtc e | Inr ptx \<Rightarrow> True)"
  using compile_to_ptx_throws [of drv source program_name gpu_architecture] by (simp add: throws_only_def split: sum.split)

end
