(* ===== verification/Kernel_Cache.thy ===== *)
theory Kernel_Cache
  imports Cuda_Driver
begin

text \<open>
  The cache of compiled chains (\<open>src/backend/cuda/kernel_cache.h\<close>,
  \<open>src/backend/cuda/kernel_cache.cpp\<close>). The unordered map is a list of entries; a lookup compares
  hash and key, as the bucket search does. The laws of \<open>kernel_keys\<close> make that search the
  search by key equality.
\<close>

record compiled_chain =
  ch_program :: generated_program
  ch_ptx :: string
  ch_module :: nat
  ch_stage_functions :: "nat list"

record kernel_cache =
  kc_gpu_architecture :: string
  kc_entries :: "(kernel_key \<times> compiled_chain) list"
  kc_compile_count :: u64

definition new_kernel_cache :: "string \<Rightarrow> kernel_cache" where
  "new_kernel_cache gpu_architecture = \<lparr>kc_gpu_architecture = gpu_architecture, kc_entries = [], kc_compile_count = 0\<rparr>"

definition cache_find :: "kernel_key \<Rightarrow> kernel_cache \<Rightarrow> (kernel_key \<times> compiled_chain) option" where
  "cache_find key cache = find (\<lambda>(k, v). hash_kernel_key k = hash_kernel_key key \<and> key_eq k key) (kc_entries cache)"

fun get_functions :: "'d cuda_driver \<Rightarrow> nat \<Rightarrow> generated_stage list \<Rightarrow> ('d, nat list) action" where
  "get_functions drv m [] = return_act []"
| "get_functions drv m (stage # stages) =
     then_act (get_function drv m (gs_kernel_name stage)) (\<lambda>f.
     then_act (get_functions drv m stages) (\<lambda>fs. return_act (f # fs)))"

text \<open>Building an entry; a module that is already loaded is unloaded when a function is missing.\<close>

definition load_functions :: "'d cuda_driver \<Rightarrow> generated_program \<Rightarrow> string \<Rightarrow> nat \<Rightarrow> ('d, compiled_chain) action" where
  "load_functions drv program ptx m d =
     (case get_functions drv m (gp_stages program) d of
        (Inl e, d') \<Rightarrow> (Inl e, CudaModule_delete drv m d')
      | (Inr functions, d') \<Rightarrow>
          (Inr \<lparr>ch_program = program, ch_ptx = ptx, ch_module = m, ch_stage_functions = functions\<rparr>, d'))"

definition compile_entry :: "'d cuda_driver \<Rightarrow> (rat \<Rightarrow> rat) \<Rightarrow> string \<Rightarrow> kernel_key \<Rightarrow> ('d, compiled_chain) action" where
  "compile_entry drv expf gpu_architecture key =
     (case emit_cuda_source expf key of
        Inl e \<Rightarrow> throw_act e
      | Inr program \<Rightarrow>
          then_act (compile_to_ptx drv (gp_source program) ''imgjit_chain.cu'' gpu_architecture) (\<lambda>ptx.
          then_act (CudaModule_new drv ptx) (\<lambda>m. load_functions drv program ptx m)))"

definition cache_get :: "'d cuda_driver \<Rightarrow> (rat \<Rightarrow> rat) \<Rightarrow> kernel_key \<Rightarrow> (kernel_cache \<times> 'd, compiled_chain) action" where
  "cache_get drv expf key = (\<lambda>(cache, d).
     case cache_find key cache of
       Some (k, entry) \<Rightarrow> (Inr entry, (cache, d))
     | None \<Rightarrow>
         (case compile_entry drv expf (kc_gpu_architecture cache) key d of
            (Inl e, d') \<Rightarrow> (Inl e, (cache, d'))
          | (Inr entry, d') \<Rightarrow>
              (Inr entry, (cache\<lparr>kc_compile_count := kc_compile_count cache + 1,
                                 kc_entries := kc_entries cache @ [(key, entry)]\<rparr>, d'))))"

definition cache_clear :: "'d cuda_driver \<Rightarrow> kernel_cache \<times> 'd \<Rightarrow> kernel_cache \<times> 'd" where
  "cache_clear drv = (\<lambda>(cache, d).
     (cache\<lparr>kc_entries := []\<rparr>, fold (\<lambda>(k, entry). CudaModule_delete drv (ch_module entry)) (kc_entries cache) d))"

section \<open>The invariant\<close>

text \<open>No two entries have equal keys, and every entry is what its key generates.\<close>

definition cache_inv :: "(rat \<Rightarrow> rat) \<Rightarrow> kernel_cache \<Rightarrow> bool" where
  "cache_inv expf cache \<longleftrightarrow>
     sorted_wrt (\<lambda>a b. \<not> key_eq a b) (map fst (kc_entries cache)) \<and>
     (\<forall>(k, entry) \<in> set (kc_entries cache). canonical_chain (key_chain k) \<and> emit_cuda_source expf k = Inr (ch_program entry) \<and>
        length (ch_stage_functions entry) = length (gp_stages (ch_program entry)))"

lemma cache_find_eq: "cache_find key cache = find (\<lambda>(k, v). key_eq k key) (kc_entries cache)"
  unfolding cache_find_def by (rule kernel_keys.bucket_search)

lemma cache_find_None: "cache_find key cache = None \<longleftrightarrow> (\<forall>k \<in> fst ` set (kc_entries cache). \<not> key_eq k key)"
  unfolding cache_find_eq by (auto simp: find_None_iff)

lemma cache_find_Some: "cache_find key cache = Some (k, entry) \<Longrightarrow> (k, entry) \<in> set (kc_entries cache) \<and> key_eq k key"
  unfolding cache_find_eq by (auto simp: find_Some_iff) (metis nth_mem)

lemma get_functions_length: "get_functions drv m stages d = (Inr fs, d') \<Longrightarrow> length fs = length stages"
  by (induction stages arbitrary: fs d d') (auto elim!: then_act_cases)

lemma compile_entry_program:
  assumes "compile_entry drv expf arch key d = (Inr entry, d')"
  shows "emit_cuda_source expf key = Inr (ch_program entry)" "length (ch_stage_functions entry) = length (gp_stages (ch_program entry))"
proof -
  obtain program where p: "emit_cuda_source expf key = Inr program"
    using assms by (cases "emit_cuda_source expf key") (simp_all add: compile_entry_def)
  obtain ptx m d1 where l: "load_functions drv program ptx m d1 = (Inr entry, d')"
    using assms by (auto simp: compile_entry_def p elim!: then_act_cases)
  then obtain fs where "get_functions drv m (gp_stages program) d1 = (Inr fs, d')"
      "entry = \<lparr>ch_program = program, ch_ptx = ptx, ch_module = m, ch_stage_functions = fs\<rparr>"
    by (auto simp: load_functions_def split: prod.splits sum.splits)
  then show "emit_cuda_source expf key = Inr (ch_program entry)" "length (ch_stage_functions entry) = length (gp_stages (ch_program entry))"
    using p by (auto dest: get_functions_length)
qed

lemma cache_get_cases:
  assumes "cache_get drv expf key (cache, d) = (r, (cache', d'))"
  obtains (hit) k entry where "cache_find key cache = Some (k, entry)" "r = Inr entry" "cache' = cache" "d' = d"
    | (failed) e where "cache_find key cache = None" "r = Inl e" "cache' = cache"
        "compile_entry drv expf (kc_gpu_architecture cache) key d = (Inl e, d')"
    | (compiled) entry where "cache_find key cache = None" "r = Inr entry"
        "compile_entry drv expf (kc_gpu_architecture cache) key d = (Inr entry, d')"
        "cache' = cache\<lparr>kc_compile_count := kc_compile_count cache + 1, kc_entries := kc_entries cache @ [(key, entry)]\<rparr>"
  using assms by (auto simp: cache_get_def split: option.splits prod.splits sum.splits)

lemma cache_get_inv:
  assumes "cache_inv expf cache" "canonical_chain (key_chain key)" "cache_get drv expf key (cache, d) = (r, (cache', d'))"
  shows "cache_inv expf cache'"
  using assms(3)
proof (cases rule: cache_get_cases)
  case (compiled entry)
  note f = compile_entry_program [OF compiled(3)]
  have "\<forall>k \<in> fst ` set (kc_entries cache). \<not> key_eq k key" using compiled(1) by (simp add: cache_find_None)
  with assms(1,2) f show ?thesis
    unfolding compiled(4) cache_inv_def by (auto simp: sorted_wrt_append)
qed (use assms(1) in simp_all)

lemma cache_get_serves:
  assumes "cache_inv expf cache" "canonical_chain (key_chain key)" "cache_get drv expf key (cache, d) = (Inr entry, (cache', d'))"
  shows "emit_cuda_source expf key = Inr (ch_program entry)" "length (ch_stage_functions entry) = length (gp_stages (ch_program entry))"
    "\<exists>k. cache_find key cache' = Some (k, entry)"
proof -
  consider (hit) k where "cache_find key cache = Some (k, entry)" "cache' = cache"
    | (compiled) "cache_find key cache = None" "compile_entry drv expf (kc_gpu_architecture cache) key d = (Inr entry, d')"
        "cache' = cache\<lparr>kc_compile_count := kc_compile_count cache + 1, kc_entries := kc_entries cache @ [(key, entry)]\<rparr>"
    using assms(3) by (auto elim: cache_get_cases)
  then show "emit_cuda_source expf key = Inr (ch_program entry)" "length (ch_stage_functions entry) = length (gp_stages (ch_program entry))"
    "\<exists>k. cache_find key cache' = Some (k, entry)"
  proof (atomize(full), cases)
    case hit
    note k = cache_find_Some [OF hit(1)]
    then have "canonical_chain (key_chain k)" "emit_cuda_source expf k = Inr (ch_program entry)"
        "length (ch_stage_functions entry) = length (gp_stages (ch_program entry))"
      using assms(1) by (auto simp: cache_inv_def)
    with k emit_cuda_source_key_eq [of k key] assms(2) hit show "emit_cuda_source expf key = Inr (ch_program entry) \<and>
        length (ch_stage_functions entry) = length (gp_stages (ch_program entry)) \<and> (\<exists>k. cache_find key cache' = Some (k, entry))"
      by (metis (no_types))
  next
    case compiled
    have "cache_find key cache' = Some (key, entry)"
      using compiled(1) kernel_keys.lookup_insert [of key "kc_entries cache" key entry]
      by (simp add: cache_find_eq compiled(3) key_eq_refl)
    with compile_entry_program [OF compiled(2)] show "emit_cuda_source expf key = Inr (ch_program entry) \<and>
        length (ch_stage_functions entry) = length (gp_stages (ch_program entry)) \<and> (\<exists>k. cache_find key cache' = Some (k, entry))" by blast
  qed
qed

section \<open>A sequence of requests\<close>

definition run_gets :: "'d cuda_driver \<Rightarrow> (rat \<Rightarrow> rat) \<Rightarrow> kernel_key list \<Rightarrow> kernel_cache \<times> 'd \<Rightarrow> kernel_cache \<times> 'd" where
  "run_gets drv expf keys = fold (\<lambda>key s. snd (cache_get drv expf key s)) keys"

definition cache_counts :: "kernel_key list \<Rightarrow> kernel_cache \<Rightarrow> bool" where
  "cache_counts keys cache \<longleftrightarrow>
     kc_compile_count cache = of_nat (length (kc_entries cache)) \<and> fst ` set (kc_entries cache) \<subseteq> set keys"

lemma cache_get_counts:
  assumes "cache_counts keys cache" "cache_get drv expf key (cache, d) = (r, (cache', d'))"
  shows "cache_counts (keys @ [key]) cache'"
  using assms(2,1) by (cases rule: cache_get_cases) (auto simp: cache_counts_def)

lemma run_gets_inv:
  assumes "\<forall>key \<in> set keys. canonical_chain (key_chain key)" "cache_inv expf cache" "cache_counts [] cache"
    "run_gets drv expf keys (cache, d) = (cache', d')"
  shows "cache_inv expf cache' \<and> cache_counts keys cache'"
  using assms(1,4)
proof (induction keys arbitrary: cache' d' rule: rev_induct)
  case Nil
  then show ?case using assms(2,3) by (simp add: run_gets_def)
next
  case (snoc key keys)
  obtain c1 d1 where run: "run_gets drv expf keys (cache, d) = (c1, d1)" by (cases "run_gets drv expf keys (cache, d)")
  have IH: "cache_inv expf c1 \<and> cache_counts keys c1" by (rule snoc.IH [OF _ run]) (use snoc.prems(1) in simp)
  obtain r where g: "cache_get drv expf key (c1, d1) = (r, (cache', d'))"
    using snoc.prems(2) run by (cases "cache_get drv expf key (c1, d1)") (simp add: run_gets_def)
  show ?case using cache_get_inv [OF _ _ g] cache_get_counts [OF _ g] IH snoc.prems(1) by simp
qed

section \<open>Properties\<close>

text \<open>
  C21: Each chain compiles exactly once, and a hit never runs another chain's kernel. After any sequence of
  requests with canonical chains on a fresh cache, whatever the driver did, the compile counter is the
  number of entries, no two entries have equal keys and each belongs to a request; and a request whose
  key is present returns, without touching the driver or the cache, an entry whose program is
  the one its own key generates, with one function per stage.
\<close>

theorem each_chain_compiles_once:
  assumes "\<forall>key \<in> set keys. canonical_chain (key_chain key)"
    and "run_gets drv expf keys (new_kernel_cache arch, d) = (cache, d1)"
  shows "kc_compile_count cache = of_nat (length (kc_entries cache)) \<and>
    sorted_wrt (\<lambda>a b. \<not> key_eq a b) (map fst (kc_entries cache)) \<and> fst ` set (kc_entries cache) \<subseteq> set keys \<and>
    (\<forall>key d2. canonical_chain (key_chain key) \<longrightarrow> (\<exists>k \<in> fst ` set (kc_entries cache). key_eq k key) \<longrightarrow>
       (\<exists>entry. cache_get drv expf key (cache, d2) = (Inr entry, (cache, d2)) \<and>
          emit_cuda_source expf key = Inr (ch_program entry) \<and>
          length (ch_stage_functions entry) = length (gp_stages (ch_program entry))))"
proof -
  have "cache_inv expf (new_kernel_cache arch)" "cache_counts [] (new_kernel_cache arch)"
    by (simp_all add: new_kernel_cache_def cache_inv_def cache_counts_def)
  from run_gets_inv [OF assms(1) this assms(2)] have inv: "cache_inv expf cache" "cache_counts keys cache" by simp_all
  have hit: "\<exists>entry. cache_get drv expf key (cache, d2) = (Inr entry, (cache, d2)) \<and>
        emit_cuda_source expf key = Inr (ch_program entry) \<and>
        length (ch_stage_functions entry) = length (gp_stages (ch_program entry))"
    if c: "canonical_chain (key_chain key)" and k: "\<exists>k \<in> fst ` set (kc_entries cache). key_eq k key" for key d2
  proof -
    obtain k' entry where "cache_find key cache = Some (k', entry)"
      using k cache_find_None [of key cache] by (metis option.exhaust surj_pair)
    then have g: "cache_get drv expf key (cache, d2) = (Inr entry, (cache, d2))" by (simp add: cache_get_def)
    with cache_get_serves [OF inv(1) c this] show ?thesis by blast
  qed
  with inv show ?thesis by (auto simp: cache_inv_def cache_counts_def)
qed

text \<open>A driver on which every call succeeds and returns handle 1.\<close>

definition ok_call :: "'a \<Rightarrow> ('d, 'a) cu_operation" where
  "ok_call v d = ((0, v), d)"

definition ok_driver :: "unit cuda_driver" where
  "ok_driver = \<lparr>cuGetErrorName = (\<lambda>_. None), cuGetErrorString = (\<lambda>_. None), cuInit = ok_call (), cuDeviceGet = (\<lambda>_. ok_call 1),
     cuDeviceGetAttribute = (\<lambda>_ _. ok_call 7), cuCtxCreate = (\<lambda>_. ok_call 1), cuCtxDestroy = (\<lambda>_. ok_call ()),
     cuModuleLoadData = (\<lambda>_. ok_call 1), cuModuleGetFunction = (\<lambda>_ _. ok_call 1), cuModuleUnload = (\<lambda>_. ok_call ()),
     cuMemAlloc = (\<lambda>_. ok_call 1), cuMemFree = (\<lambda>_. ok_call ()), cuMemAllocHost = (\<lambda>_. ok_call 1), cuMemFreeHost = (\<lambda>_. ok_call ()),
     cuMemHostRegister = (\<lambda>_ _. ok_call ()), cuMemHostUnregister = (\<lambda>_. ok_call ()),
     cuStreamCreate = ok_call 1, cuStreamDestroy = (\<lambda>_. ok_call ()), cuEventCreate = (\<lambda>_. ok_call 1), cuEventDestroy = (\<lambda>_. ok_call ()),
     cuEventRecord = (\<lambda>_ _. ok_call ()), cuEventQuery = (\<lambda>_. ok_call ()), cuEventSynchronize = (\<lambda>_. ok_call ()),
     cuEventElapsedTime = (\<lambda>_ _. ok_call 1), cuMemcpyHtoDAsync = (\<lambda>_ _ _ _. ok_call ()), cuMemcpyDtoHAsync = (\<lambda>_ _ _ _. ok_call ()),
     cuLaunchKernel = (\<lambda>_ _ _ _ _. ok_call ()), host_bytes = (\<lambda>_ _. replicate 64 0), operator_new = (\<lambda>_ _ d. (4096, d)),
     operator_delete = (\<lambda>_ d. d), sysconf_page_size = 4096, nvrtcGetErrorString = (\<lambda>_. ''error''),
     nvrtcCreateProgram = (\<lambda>_ _. ok_call 1), nvrtcDestroyProgram = (\<lambda>_. ok_call ()), nvrtcCompileProgram = (\<lambda>_ _. ok_call ()),
     nvrtcGetProgramLogSize = (\<lambda>_. ok_call 1), nvrtcGetProgramLog = (\<lambda>_. ok_call ''''), nvrtcGetPTXSize = (\<lambda>_. ok_call 4),
     nvrtcGetPTX = (\<lambda>_. ok_call ''ptx'')\<rparr>"

theorem each_chain_compiles_once_witness:
  "kc_compile_count (fst (run_gets ok_driver (\<lambda>x. 1) [sample_key 1 kBaked] (new_kernel_cache ''compute_75'', ()))) =
   of_nat (length (kc_entries (fst (run_gets ok_driver (\<lambda>x. 1) [sample_key 1 kBaked] (new_kernel_cache ''compute_75'', ())))))"
proof -
  define r where "r = run_gets ok_driver (\<lambda>x. 1) [sample_key 1 kBaked] (new_kernel_cache ''compute_75'', ())"
  have "canonical_op \<lparr>kind = kGaussian, param = 1\<rparr>" using default_canonical [of kGaussian] by (simp add: kOpSpecs_def)
  then have "\<forall>key \<in> set [sample_key 1 kBaked]. canonical_chain (key_chain key)" by simp
  moreover have run: "run_gets ok_driver (\<lambda>x. 1) [sample_key 1 kBaked] (new_kernel_cache ''compute_75'', ()) = (fst r, snd r)"
    by (simp only: r_def prod.collapse)
  ultimately have "kc_compile_count (fst r) = of_nat (length (kc_entries (fst r)))"
    by (intro each_chain_compiles_once [THEN conjunct1])
  then show ?thesis unfolding r_def .
qed

end
