(* ===== verification/Cuda_Backend.thy ===== *)
theory Cuda_Backend
  imports Kernel_Cache Kernel_Sem Backend
begin

text \<open>
  The CUDA backend (\<open>src/backend/cuda/cuda_backend.h\<close>, \<open>src/backend/cuda/cuda_backend.cpp\<close>): K stream
  slots, asynchronous submission, retirement by event, and recovery by recreating the context.
  The driver is the parameter of \<open>Cuda_Driver\<close> and may fail at any call. Waiting for a stream
  is a loop that the driver controls, so it is a partial function: \<open>None\<close> means it never returns.
\<close>

section \<open>State\<close>

definition kBackendFile :: string where "kBackendFile = ''src/backend/cuda/cuda_backend.cpp''"

record stream_slot =
  ss_stream :: nat
  ss_done :: nat
  ss_kernels_begin :: nat
  ss_kernels_end :: nat
  ss_front :: nat
  ss_back :: nat
  ss_staging :: nat
  ss_busy :: bool
  ss_handle :: job_handle
  ss_submit_order :: u64
  ss_width :: int
  ss_height :: int
  ss_channels :: int

record 'd cuda_backend =
  bk_context :: "cuda_context option"
  bk_cache :: kernel_cache
  bk_host_slots :: "registered_buffer option"
  bk_streams :: "stream_slot list"
  bk_completed :: "completion list"
  bk_device_ordinal :: int
  bk_stream_count :: nat
  bk_tile :: tile_variant
  bk_tile_size :: int
  bk_constants :: constants_mode
  bk_slot_bytes :: nat
  bk_next_handle :: job_handle
  bk_next_submit_order :: u64
  bk_stats :: backend_stats
  bk_occupancy_sum :: rat
  bk_occupancy_samples :: u64
  bk_kernel_ms_sum :: rat
  bk_kernel_samples :: u64
  bk_driver :: 'd

definition kDefaultStreams :: nat where "kDefaultStreams = 4"

definition on_driver :: "('d, 'a) action \<Rightarrow> ('d cuda_backend, 'a) action" where
  "on_driver m b = (case m (bk_driver b) of (r, d) \<Rightarrow> (r, b\<lparr>bk_driver := d\<rparr>))"

definition on_cache :: "(kernel_cache \<times> 'd, 'a) action \<Rightarrow> ('d cuda_backend, 'a) action" where
  "on_cache m b = (case m (bk_cache b, bk_driver b) of (r, (cache, d)) \<Rightarrow> (r, b\<lparr>bk_cache := cache, bk_driver := d\<rparr>))"

section \<open>Stream slots\<close>

text \<open>
  Members are constructed in declaration order; when one throws, those before it are
  destroyed in reverse.
\<close>

fun construct_all :: "(('d, nat) action \<times> (nat \<Rightarrow> 'd \<Rightarrow> 'd)) list \<Rightarrow> ('d, nat list) action" where
  "construct_all [] d = (Inr [], d)"
| "construct_all ((build, destroy) # rest) d =
     (case build d of
        (Inl e, d1) \<Rightarrow> (Inl e, d1)
      | (Inr h, d1) \<Rightarrow>
          (case construct_all rest d1 of
             (Inl e, d2) \<Rightarrow> (Inl e, destroy h d2)
           | (Inr hs, d2) \<Rightarrow> (Inr (h # hs), d2)))"

definition slot_members :: "'d cuda_driver \<Rightarrow> nat \<Rightarrow> (('d, nat) action \<times> (nat \<Rightarrow> 'd \<Rightarrow> 'd)) list" where
  "slot_members drv bytes =
     [(CudaStream_new drv, CudaStream_delete drv), (CudaEvent_new drv False, CudaEvent_delete drv),
      (CudaEvent_new drv True, CudaEvent_delete drv), (CudaEvent_new drv True, CudaEvent_delete drv),
      (DeviceBuffer_new drv bytes, DeviceBuffer_delete drv), (DeviceBuffer_new drv bytes, DeviceBuffer_delete drv),
      (PinnedHostBuffer_new drv bytes, PinnedHostBuffer_delete drv)]"

definition StreamSlot_new :: "'d cuda_driver \<Rightarrow> nat \<Rightarrow> ('d, stream_slot) action" where
  "StreamSlot_new drv bytes =
     then_act (construct_all (slot_members drv bytes)) (\<lambda>hs.
     return_act \<lparr>ss_stream = hs ! 0, ss_done = hs ! 1, ss_kernels_begin = hs ! 2, ss_kernels_end = hs ! 3,
       ss_front = hs ! 4, ss_back = hs ! 5, ss_staging = hs ! 6,
       ss_busy = False, ss_handle = 0, ss_submit_order = 0, ss_width = 0, ss_height = 0, ss_channels = 0\<rparr>)"

definition StreamSlot_delete :: "'d cuda_driver \<Rightarrow> stream_slot \<Rightarrow> 'd \<Rightarrow> 'd" where
  "StreamSlot_delete drv s d =
     CudaStream_delete drv (ss_stream s) (CudaEvent_delete drv (ss_done s)
       (CudaEvent_delete drv (ss_kernels_begin s) (CudaEvent_delete drv (ss_kernels_end s)
         (DeviceBuffer_delete drv (ss_front s) (DeviceBuffer_delete drv (ss_back s)
           (PinnedHostBuffer_delete drv (ss_staging s) d))))))"

definition clear_streams :: "'d cuda_driver \<Rightarrow> 'd cuda_backend \<Rightarrow> 'd cuda_backend" where
  "clear_streams drv b = b\<lparr>bk_streams := [], bk_driver := fold (StreamSlot_delete drv) (bk_streams b) (bk_driver b)\<rparr>"

text \<open>The slots built before one that throws stay in the vector.\<close>

primrec emplace_slots :: "'d cuda_driver \<Rightarrow> nat \<Rightarrow> ('d cuda_backend, unit) action" where
  "emplace_slots drv 0 = return_act ()"
| "emplace_slots drv (Suc n) =
     (\<lambda>b. then_act (on_driver (StreamSlot_new drv (bk_slot_bytes b))) (\<lambda>slot b'.
            emplace_slots drv n (b'\<lparr>bk_streams := bk_streams b' @ [slot]\<rparr>)) b)"

definition build_stream_slots :: "'d cuda_driver \<Rightarrow> ('d cuda_backend, unit) action" where
  "build_stream_slots drv b =
     (let b = clear_streams drv b
      in if bk_slot_bytes b = 0 then (Inr (), b) else emplace_slots drv (bk_stream_count b) b)"

section \<open>Start-up\<close>

definition CudaBackend_new :: "'d cuda_driver \<Rightarrow> int \<Rightarrow> nat \<Rightarrow> tile_variant \<Rightarrow> int \<Rightarrow> constants_mode \<Rightarrow> 'd \<Rightarrow>
    'd cuda_backend result \<times> 'd" where
  "CudaBackend_new drv device_ordinal stream_count tile tile_size constants d =
     (case CudaContext_new drv device_ordinal d of
        (Inl e, d1) \<Rightarrow> (Inl e, d1)
      | (Inr context, d1) \<Rightarrow>
          (case compute_arch drv context d1 of
             (Inl e, d2) \<Rightarrow> (Inl e, CudaContext_delete drv context d2)
           | (Inr arch, d2) \<Rightarrow>
               (if \<not> is_supported_tile tile tile_size
                then (Inl (Invalid_argument (''CudaBackend: unsupported tile size '' @ show_int tile_size @
                        '' (naive takes 0, tiled takes 1-'' @ show_int kMaxTileSize @ '')'')), CudaContext_delete drv context d2)
                else if \<not> is_supported_constants constants tile
                then (Inl (Invalid_argument (''CudaBackend: parameterized constants need naive stencils '' @ em_dash @
                        '' a tiled stage sizes its __shared__ tile from a radius that is only known at launch'')),
                      CudaContext_delete drv context d2)
                else (Inr \<lparr>bk_context = Some context, bk_cache = new_kernel_cache arch, bk_host_slots = None, bk_streams = [],
                       bk_completed = [], bk_device_ordinal = device_ordinal,
                       bk_stream_count = (if stream_count = 0 then 1 else stream_count), bk_tile = tile, bk_tile_size = tile_size,
                       bk_constants = constants, bk_slot_bytes = 0, bk_next_handle = 1, bk_next_submit_order = 1,
                       bk_stats = no_stats, bk_occupancy_sum = 0, bk_occupancy_samples = 0, bk_kernel_ms_sum = 0,
                       bk_kernel_samples = 0, bk_driver = d2\<rparr>, d2))))"

definition allocate_slots :: "'d cuda_driver \<Rightarrow> u64 \<Rightarrow> u64 \<Rightarrow> ('d cuda_backend, nat) action" where
  "allocate_slots drv slot_count bytes b =
     (if bk_host_slots b \<noteq> None
      then (Inl (Logic_error ''CudaBackend::allocate_slots: slots are allocated once, at startup''), b)
      else if slot_count = 0 \<or> bytes = 0
      then (Inl (Invalid_argument ''CudaBackend::allocate_slots: needs at least one non-empty slot''), b)
      else then_act (on_driver (RegisteredHostBuffer_new drv (slot_count * bytes))) (\<lambda>buffer b1.
           then_act (build_stream_slots drv) (\<lambda>_. return_act (rb_memory buffer))
             (b1\<lparr>bk_host_slots := Some buffer, bk_slot_bytes := unat bytes\<rparr>)) b)"

definition key_for :: "op_chain \<Rightarrow> int \<Rightarrow> 'd cuda_backend \<Rightarrow> kernel_key" where
  "key_for chain channels b =
     \<lparr>key_chain = chain, key_channels = channels, key_tile = bk_tile b, key_tile_size = bk_tile_size b,
      key_constants = bk_constants b\<rparr>"

definition prewarm :: "'d cuda_driver \<Rightarrow> (rat \<Rightarrow> rat) \<Rightarrow> op_chain \<Rightarrow> int \<Rightarrow> ('d cuda_backend, unit) action" where
  "prewarm drv expf chain channels b =
     (if chain = [] then (Inr (), b)
      else then_act (on_cache (cache_get drv expf (key_for chain channels b))) (\<lambda>_. return_act ()) b)"

section \<open>Retiring frames\<close>

definition fail_job :: "job_handle \<Rightarrow> string \<Rightarrow> 'd cuda_backend \<Rightarrow> 'd cuda_backend" where
  "fail_job handle reason b = b\<lparr>bk_completed := bk_completed b @
     [\<lparr>cp_handle = handle, cp_status = job_kError, cp_output = empty_image, cp_error = reason\<rparr>]\<rparr>"

definition finish_slot :: "'d cuda_driver \<Rightarrow> nat \<Rightarrow> rat \<Rightarrow> ('d cuda_backend, unit) action" where
  "finish_slot drv i kernel_ms b0 =
     (let slot = bk_streams b0 ! i;
          b = b0\<lparr>bk_kernel_ms_sum := f64 (bk_kernel_ms_sum b0 + kernel_ms), bk_kernel_samples := bk_kernel_samples b0 + 1\<rparr>
      in case image_from_bytes (ss_width slot) (ss_height slot) (ss_channels slot) (host_bytes drv (ss_staging slot) (bk_driver b))
                (nat (ss_width slot) * nat (ss_channels slot)) of
           Inl e \<Rightarrow> (Inl e, b)
         | Inr output \<Rightarrow>
             (Inr (), b\<lparr>bk_completed := bk_completed b @
                          [\<lparr>cp_handle = ss_handle slot, cp_status = job_kOk, cp_output = output, cp_error = []\<rparr>],
                        bk_streams := (bk_streams b)[i := slot\<lparr>ss_busy := False\<rparr>]\<rparr>))"

definition slot_kernel_ms :: "'d cuda_driver \<Rightarrow> stream_slot \<Rightarrow> ('d, rat) action" where
  "slot_kernel_ms drv slot =
     CU_CHECK drv ''cuEventElapsedTime(&kernel_ms, slot.kernels_begin.get(), slot.kernels_end.get())'' kBackendFile 314
       (cuEventElapsedTime drv (ss_kernels_begin slot) (ss_kernels_end slot))"

definition retire_slot :: "'d cuda_driver \<Rightarrow> nat \<Rightarrow> ('d cuda_backend, unit) action" where
  "retire_slot drv i b =
     (let slot = bk_streams b ! i
      in if \<not> ss_busy slot then (Inr (), b)
         else case cuEventQuery drv (ss_done slot) (bk_driver b) of ((status, _), d) \<Rightarrow>
           let b1 = b\<lparr>bk_driver := d\<rparr>
           in if status = CUDA_ERROR_NOT_READY then (Inr (), b1)
              else case cu_check drv status ''status'' kBackendFile 309 of
                     Inl e \<Rightarrow> (Inl e, b1)
                   | Inr _ \<Rightarrow> then_act (on_driver (slot_kernel_ms drv slot)) (finish_slot drv i) b1)"

fun retire_loop :: "'d cuda_driver \<Rightarrow> nat list \<Rightarrow> ('d cuda_backend, unit) action" where
  "retire_loop drv [] = return_act ()"
| "retire_loop drv (i # is) = then_act (retire_slot drv i) (\<lambda>_. retire_loop drv is)"

definition retire_ready_streams :: "'d cuda_driver \<Rightarrow> ('d cuda_backend, unit) action" where
  "retire_ready_streams drv b = retire_loop drv [0..<length (bk_streams b)] b"

section \<open>Recovery\<close>

definition fail_in_flight :: "string \<Rightarrow> 'd cuda_backend \<Rightarrow> 'd cuda_backend" where
  "fail_in_flight reason b =
     fold (\<lambda>i b. if ss_busy (bk_streams b ! i)
                 then (fail_job (ss_handle (bk_streams b ! i)) reason b)
                        \<lparr>bk_streams := (bk_streams b)[i := (bk_streams b ! i)\<lparr>ss_busy := False\<rparr>]\<rparr>
                 else b) [0..<length (bk_streams b)] b"

definition tear_down :: "'d cuda_driver \<Rightarrow> 'd cuda_backend \<Rightarrow> 'd cuda_backend" where
  "tear_down drv b0 =
     (let b1 = clear_streams drv b0;
          b2 = (case cache_clear drv (bk_cache b1, bk_driver b1) of (cache, d) \<Rightarrow> b1\<lparr>bk_cache := cache, bk_driver := d\<rparr>);
          b3 = (case bk_host_slots b2 of
                  None \<Rightarrow> b2
                | Some buffer \<Rightarrow> (case detach drv (buffer, bk_driver b2) of (buffer', d) \<Rightarrow>
                    b2\<lparr>bk_host_slots := Some buffer', bk_driver := d\<rparr>));
          b4 = (case bk_context b3 of
                  None \<Rightarrow> b3
                | Some context \<Rightarrow> b3\<lparr>bk_context := None, bk_driver := CudaContext_delete drv context (bk_driver b3)\<rparr>)
      in b4\<lparr>bk_stats := (bk_stats b4)\<lparr>context_recreations := context_recreations (bk_stats b4) + 1\<rparr>\<rparr>)"

definition reattach :: "'d cuda_driver \<Rightarrow> ('d cuda_backend, unit) action" where
  "reattach drv b =
     (case bk_host_slots b of
        None \<Rightarrow> (Inr (), b)
      | Some buffer \<Rightarrow> (case attach drv (buffer, bk_driver b) of (r, (buffer', d)) \<Rightarrow>
          (r, b\<lparr>bk_host_slots := Some buffer', bk_driver := d\<rparr>)))"

definition recreate_context :: "'d cuda_driver \<Rightarrow> string \<Rightarrow> ('d cuda_backend, unit) action" where
  "recreate_context drv reason b0 =
     (let b = tear_down drv (fail_in_flight reason b0)
      in then_act (on_driver (CudaContext_new drv (bk_device_ordinal b))) (\<lambda>context b1.
         then_act (reattach drv) (\<lambda>_. build_stream_slots drv) (b1\<lparr>bk_context := Some context\<rparr>)) b)"

definition recover :: "'d cuda_driver \<Rightarrow> string \<Rightarrow> 'd cuda_backend \<Rightarrow> 'd cuda_backend" where
  "recover drv reason b = snd (recreate_context drv reason b)"

definition cuda_poll_completions :: "'d cuda_driver \<Rightarrow> ('d cuda_backend, completion list) action" where
  "cuda_poll_completions drv b =
     (case (case retire_ready_streams drv b of
              (Inl (Cuda_error m), b1) \<Rightarrow> (Inr (), recover drv (''driver error: '' @ m) b1)
            | (Inl (Nvrtc_error m), b1) \<Rightarrow> (Inr (), recover drv (''driver error: '' @ m) b1)
            | r \<Rightarrow> r) of
        (Inl e, b2) \<Rightarrow> (Inl e, b2)
      | (Inr _, b2) \<Rightarrow> (Inr (bk_completed b2), b2\<lparr>bk_completed := []\<rparr>))"

section \<open>Submitting frames\<close>

definition first_idle :: "stream_slot list \<Rightarrow> nat option" where
  "first_idle slots = find (\<lambda>i. \<not> ss_busy (slots ! i)) [0..<length slots]"

text \<open>\<open>std::min_element\<close>: the first slot whose age is smallest.\<close>

definition slot_age :: "stream_slot \<Rightarrow> u64" where
  "slot_age s = (if ss_busy s then ss_submit_order s else NOT 0)"

definition oldest_slot :: "stream_slot list \<Rightarrow> nat" where
  "oldest_slot slots = fold (\<lambda>i best. if slot_age (slots ! i) < slot_age (slots ! best) then i else best) [1..<length slots] 0"

definition count_stall :: "'d cuda_backend \<Rightarrow> 'd cuda_backend" where
  "count_stall b = b\<lparr>bk_stats := (bk_stats b)\<lparr>submit_stalls := submit_stalls (bk_stats b) + 1\<rparr>\<rparr>"

text \<open>One round of waiting for a stream: block on the oldest event, then sweep all slots.\<close>

definition wait_round :: "'d cuda_driver \<Rightarrow> ('d cuda_backend, unit) action" where
  "wait_round drv b =
     then_act (on_driver (CU_CHECK drv ''cuEventSynchronize(oldest->done.get())'' kBackendFile 295
       (cuEventSynchronize drv (ss_done (bk_streams b ! oldest_slot (bk_streams b)))))) (\<lambda>_. retire_ready_streams drv)
       (count_stall b)"

partial_function (option) claim_stream :: "'d cuda_driver \<Rightarrow> 'd cuda_backend \<Rightarrow> (nat result \<times> 'd cuda_backend) option" where
  "claim_stream drv b =
     (case first_idle (bk_streams b) of
        Some i \<Rightarrow> Some (Inr i, b)
      | None \<Rightarrow>
          (case fst (wait_round drv b) of
             Inl e \<Rightarrow> Some (Inl e, snd (wait_round drv b))
           | Inr _ \<Rightarrow> claim_stream drv (snd (wait_round drv b))))"

text \<open>
  Everything \<open>launch\<close> does before it needs a stream: the guards, the identity pass of an empty
  chain (\<open>Inr None\<close>), the kernel lookup.
\<close>

definition launch_prepare :: "'d cuda_driver \<Rightarrow> (rat \<Rightarrow> rat) \<Rightarrow> frame_job \<Rightarrow> job_handle \<Rightarrow>
    ('d cuda_backend, (compiled_chain \<times> u8 list \<times> nat) option) action" where
  "launch_prepare drv expf job handle b =
     (if bk_context b = None
      then (Inl (Runtime_error ''CudaBackend: the context could not be rebuilt after a driver error''), b)
      else case job_input job of
        None \<Rightarrow> (Inl (Invalid_argument ''FrameJob has no input''), b)
      | Some input_bytes \<Rightarrow>
          if job_width job \<le> 0 \<or> job_height job \<le> 0 \<or> \<not> is_supported_channel_count (job_channels job)
          then (Inl (Invalid_argument ''FrameJob has unusable dimensions''), b)
          else
            let row_bytes = nat (job_width job) * nat (job_channels job)
            in if job_stride job \<noteq> row_bytes
               then (Inl (Invalid_argument ''FrameJob rows must be packed''), b)
               else
                 let bytes = row_bytes * nat (job_height job)
                 in if job_chain job = []
                    then case image_from_bytes (job_width job) (job_height job) (job_channels job) input_bytes (job_stride job) of
                           Inl e \<Rightarrow> (Inl e, b)
                         | Inr output \<Rightarrow>
                             (Inr None, b\<lparr>bk_completed := bk_completed b @
                                  [\<lparr>cp_handle = handle, cp_status = job_kOk, cp_output = output, cp_error = []\<rparr>],
                                bk_stats := (bk_stats b)\<lparr>frames_submitted := frames_submitted (bk_stats b) + 1\<rparr>\<rparr>)
                    else then_act (on_cache (cache_get drv expf (key_for (job_chain job) (job_channels job) b))) (\<lambda>compiled b1.
                           if bk_streams b1 = [] \<or> bk_slot_bytes b1 < bytes
                           then (Inl (Logic_error (''CudaBackend: no device buffer for a '' @ show_nat bytes @
                                  '' byte frame '' @ em_dash @
                                  '' allocate_slots() must be called at startup with at least that slot size'')), b1)
                           else (Inr (Some (compiled, input_bytes, bytes)), b1)) b)"

definition stage_arguments :: "(rat \<Rightarrow> rat) \<Rightarrow> frame_job \<Rightarrow> generated_stage \<Rightarrow> nat \<Rightarrow> nat \<Rightarrow> kernel_argument list" where
  "stage_arguments expf job stage source destination =
     [Pointer_Arg source, Pointer_Arg destination, Int_Arg (job_width job), Int_Arg (job_height job)] @
     concat (map (\<lambda>p. let op = job_chain job ! p
                      in if kind op = kGaussian
                         then let weights = gaussian_weights_1d expf (param op)
                              in [Int_Arg (gaussian_radius (param op)),
                                  Taps_Arg (weights @ replicate (nat kMaxGaussianTaps - length weights) 0)]
                         else [Float_Arg (param op)]) (gs_param_ops stage))"

text \<open>The ping-pong over the stages; the result names the buffer the last stage wrote.\<close>

fun launch_stages :: "'d cuda_driver \<Rightarrow> (rat \<Rightarrow> rat) \<Rightarrow> frame_job \<Rightarrow> nat \<Rightarrow> (nat \<times> generated_stage) list \<Rightarrow> nat \<Rightarrow> nat \<Rightarrow> ('d, nat) action" where
  "launch_stages drv expf job stream [] source destination = return_act source"
| "launch_stages drv expf job stream ((function, stage) # rest) source destination =
     (let block = nat (gs_block_dim stage)
      in then_act (CU_CHECK drv (''cuLaunchKernel(compiled.stage_functions[s], grid_dim(width, block), '' @
             ''grid_dim(height, block), 1, block, block, 1, 0, stream, arguments.data(), nullptr)'') kBackendFile 238
           (cuLaunchKernel drv function (grid_dim (nat (job_width job)) block, grid_dim (nat (job_height job)) block) (block, block) stream
             (stage_arguments expf job stage source destination))) (\<lambda>_.
         launch_stages drv expf job stream rest destination source))"

text \<open>What is queued on the claimed stream, in order; every step may throw.\<close>

definition queue_frame :: "'d cuda_driver \<Rightarrow> (rat \<Rightarrow> rat) \<Rightarrow> frame_job \<Rightarrow> compiled_chain \<Rightarrow> u8 list \<Rightarrow> nat \<Rightarrow> stream_slot \<Rightarrow> ('d, unit) action" where
  "queue_frame drv expf job compiled input_bytes bytes slot =
     (let stream = ss_stream slot
      in then_act (CU_CHECK drv ''cuMemcpyHtoDAsync(source, input_bytes, bytes, stream)'' kBackendFile 193
             (cuMemcpyHtoDAsync drv (ss_front slot) input_bytes bytes stream)) (\<lambda>_.
         then_act (CU_CHECK drv ''cuEventRecord(slot.kernels_begin.get(), stream)'' kBackendFile 198
             (cuEventRecord drv (ss_kernels_begin slot) stream)) (\<lambda>_.
         then_act (launch_stages drv expf job stream (zip (ch_stage_functions compiled) (gp_stages (ch_program compiled)))
             (ss_front slot) (ss_back slot)) (\<lambda>source.
         then_act (CU_CHECK drv ''cuEventRecord(slot.kernels_end.get(), stream)'' kBackendFile 243
             (cuEventRecord drv (ss_kernels_end slot) stream)) (\<lambda>_.
         then_act (CU_CHECK drv ''cuMemcpyDtoHAsync(slot.staging.data(), source, bytes, stream)'' kBackendFile 248
             (cuMemcpyDtoHAsync drv (ss_staging slot) source bytes stream)) (\<lambda>_.
         CU_CHECK drv ''cuEventRecord(slot.done.get(), stream)'' kBackendFile 249 (cuEventRecord drv (ss_done slot) stream)))))))"

definition mark_busy :: "frame_job \<Rightarrow> job_handle \<Rightarrow> nat \<Rightarrow> 'd cuda_backend \<Rightarrow> 'd cuda_backend" where
  "mark_busy job handle i b =
     (let slots = (bk_streams b)[i := (bk_streams b ! i)\<lparr>ss_busy := True, ss_handle := handle, ss_submit_order := bk_next_submit_order b,
                    ss_width := job_width job, ss_height := job_height job, ss_channels := job_channels job\<rparr>];
          in_flight = (of_nat (length (filter ss_busy slots)) :: u64)
      in b\<lparr>bk_streams := slots, bk_next_submit_order := bk_next_submit_order b + 1,
           bk_occupancy_sum := f64 (bk_occupancy_sum b + f64 (of_nat (unat in_flight))),
           bk_occupancy_samples := bk_occupancy_samples b + 1,
           bk_stats := (bk_stats b)\<lparr>frames_submitted := frames_submitted (bk_stats b) + 1,
                                   max_in_flight := max (max_in_flight (bk_stats b)) in_flight\<rparr>\<rparr>)"

definition launch_on :: "'d cuda_driver \<Rightarrow> (rat \<Rightarrow> rat) \<Rightarrow> frame_job \<Rightarrow> job_handle \<Rightarrow> compiled_chain \<times> u8 list \<times> nat \<Rightarrow> nat \<Rightarrow>
    ('d cuda_backend, unit) action" where
  "launch_on drv expf job handle work i b =
     (case work of (compiled, input_bytes, bytes) \<Rightarrow>
        then_act (on_driver (queue_frame drv expf job compiled input_bytes bytes (bk_streams b ! i)))
          (\<lambda>_ b1. (Inr (), mark_busy job handle i b1)) b)"

definition launch :: "'d cuda_driver \<Rightarrow> (rat \<Rightarrow> rat) \<Rightarrow> frame_job \<Rightarrow> job_handle \<Rightarrow> 'd cuda_backend \<Rightarrow> (unit result \<times> 'd cuda_backend) option" where
  "launch drv expf job handle b =
     (case launch_prepare drv expf job handle b of
        (Inl e, b1) \<Rightarrow> Some (Inl e, b1)
      | (Inr None, b1) \<Rightarrow> Some (Inr (), b1)
      | (Inr (Some work), b1) \<Rightarrow>
          (case claim_stream drv b1 of
             None \<Rightarrow> None
           | Some (Inl e, b2) \<Rightarrow> Some (Inl e, b2)
           | Some (Inr i, b2) \<Rightarrow> Some (launch_on drv expf job handle work i b2)))"

definition settle :: "'d cuda_driver \<Rightarrow> job_handle \<Rightarrow> unit result \<Rightarrow> 'd cuda_backend \<Rightarrow> 'd cuda_backend" where
  "settle drv handle r b =
     (case r of
        Inr _ \<Rightarrow> b
      | Inl (Nvrtc_error m) \<Rightarrow> fail_job handle m b
      | Inl (Cuda_error m) \<Rightarrow> recover drv (''driver error: '' @ m) (fail_job handle m b)
      | Inl e \<Rightarrow> fail_job handle (what e) b)"

definition cuda_submit :: "'d cuda_driver \<Rightarrow> (rat \<Rightarrow> rat) \<Rightarrow> frame_job \<Rightarrow> 'd cuda_backend \<Rightarrow> (job_handle \<times> 'd cuda_backend) option" where
  "cuda_submit drv expf job b =
     (let handle = bk_next_handle b
      in map_option (\<lambda>(r, b1). (handle, settle drv handle r b1)) (launch drv expf job handle (b\<lparr>bk_next_handle := handle + 1\<rparr>)))"

definition cuda_stats :: "'d cuda_backend \<Rightarrow> backend_stats" where
  "cuda_stats b = (bk_stats b)\<lparr>
     mean_in_flight := (if bk_occupancy_samples b = 0 then 0
                        else f64 (bk_occupancy_sum b / f64 (of_nat (unat (bk_occupancy_samples b))))),
     mean_kernel_ms := (if bk_kernel_samples b = 0 then 0
                        else f64 (bk_kernel_ms_sum b / f64 (of_nat (unat (bk_kernel_samples b))))),
     jit_compiles := kc_compile_count (bk_cache b)\<rparr>"

text \<open>Destruction, in reverse order of the members.\<close>

definition CudaBackend_delete :: "'d cuda_driver \<Rightarrow> 'd cuda_backend \<Rightarrow> 'd" where
  "CudaBackend_delete drv b =
     (let d1 = bk_driver (clear_streams drv b);
          d2 = (case bk_host_slots b of None \<Rightarrow> d1 | Some buffer \<Rightarrow> RegisteredHostBuffer_delete drv buffer d1);
          d3 = snd (cache_clear drv (bk_cache b, d2))
      in case bk_context b of None \<Rightarrow> d3 | Some context \<Rightarrow> CudaContext_delete drv context d3)"

section \<open>The ledger of handles\<close>

definition cuda_handles :: "'d cuda_backend \<Rightarrow> job_handle list" where
  "cuda_handles b = map ss_handle (filter ss_busy (bk_streams b)) @ map cp_handle (bk_completed b)"

definition slots_valid :: "'d cuda_backend \<Rightarrow> bool" where
  "slots_valid b \<longleftrightarrow> (\<forall>s \<in> set (bk_streams b). ss_busy s \<longrightarrow>
     0 < ss_width s \<and> 0 < ss_height s \<and> is_supported_channel_count (ss_channels s))"

definition cuda_ok :: "'d cuda_backend \<Rightarrow> bool" where
  "cuda_ok b \<longleftrightarrow> distinct (cuda_handles b) \<and> (\<forall>h \<in> set (cuda_handles b). unat h < unat (bk_next_handle b)) \<and> slots_valid b"

text \<open>\<open>same_jobs\<close>: no job changed; \<open>moved\<close>: jobs only moved from a slot to the completions.\<close>

definition same_jobs :: "'d cuda_backend \<Rightarrow> 'd cuda_backend \<Rightarrow> bool" where
  "same_jobs b b' \<longleftrightarrow> bk_streams b' = bk_streams b \<and> bk_completed b' = bk_completed b \<and> bk_next_handle b' = bk_next_handle b"

definition moved :: "'d cuda_backend \<Rightarrow> 'd cuda_backend \<Rightarrow> bool" where
  "moved b b' \<longleftrightarrow> mset (cuda_handles b') = mset (cuda_handles b) \<and> bk_next_handle b' = bk_next_handle b \<and>
     (slots_valid b \<longrightarrow> slots_valid b')"

lemma same_jobs_moved: "same_jobs b b' \<Longrightarrow> moved b b'"
  by (simp add: same_jobs_def moved_def cuda_handles_def slots_valid_def)

lemma moved_refl [simp]: "moved b b"
  by (simp add: moved_def)

lemma moved_trans [trans]: "moved a b \<Longrightarrow> moved b c \<Longrightarrow> moved a c"
  by (simp add: moved_def)

lemma same_jobs_refl [simp]: "same_jobs b b"
  by (simp add: same_jobs_def)

lemma same_jobs_trans [trans]: "same_jobs a b \<Longrightarrow> same_jobs b c \<Longrightarrow> same_jobs a c"
  by (simp add: same_jobs_def)

lemma moved_handles: "moved b b' \<Longrightarrow> set (cuda_handles b') = set (cuda_handles b) \<and> distinct (cuda_handles b') = distinct (cuda_handles b)"
  unfolding moved_def by (metis mset_eq_imp_distinct_iff set_mset_mset)

lemma moved_ok: "moved b b' \<Longrightarrow> cuda_ok b \<Longrightarrow> cuda_ok b'"
  using moved_handles [of b b'] by (simp add: cuda_ok_def moved_def)

text \<open>A sweep over the slots also keeps their number.\<close>

definition swept :: "'d cuda_backend \<Rightarrow> 'd cuda_backend \<Rightarrow> bool" where
  "swept b b' \<longleftrightarrow> moved b b' \<and> length (bk_streams b') = length (bk_streams b)"

lemma same_jobs_swept: "same_jobs b b' \<Longrightarrow> swept b b'"
  unfolding swept_def using same_jobs_moved by (simp add: same_jobs_def)

lemma swept_trans [trans]: "swept a b \<Longrightarrow> swept b c \<Longrightarrow> swept a c"
  unfolding swept_def using moved_trans by (metis (no_types))

lemma swept_refl [simp]: "swept b b"
  by (simp add: swept_def)

lemma on_driver_same: "on_driver m b = (r, b') \<Longrightarrow> same_jobs b b'"
  by (auto simp: on_driver_def same_jobs_def split: prod.splits)

lemma on_cache_same: "on_cache m b = (r, b') \<Longrightarrow> same_jobs b b'"
  by (auto simp: on_cache_def same_jobs_def split: prod.splits)

lemma filter_update_idle:
  "i < length xs \<Longrightarrow> P (xs ! i) \<Longrightarrow> \<not> P y \<Longrightarrow> mset (map f (filter P (xs[i := y]))) + {#f (xs ! i)#} = mset (map f (filter P xs))"
  by (induction xs arbitrary: i) (auto split: nat.splits simp: nth_Cons)

lemma filter_update_busy:
  "i < length xs \<Longrightarrow> \<not> P (xs ! i) \<Longrightarrow> P y \<Longrightarrow> mset (map f (filter P (xs[i := y]))) = mset (map f (filter P xs)) + {#f y#}"
  by (induction xs arbitrary: i) (auto split: nat.splits simp: nth_Cons)

lemma slots_valid_idle:
  "slots_valid b \<Longrightarrow> bk_streams b' = (bk_streams b)[i := (bk_streams b ! i)\<lparr>ss_busy := False\<rparr>] \<Longrightarrow> slots_valid b'"
  by (auto simp: slots_valid_def dest!: set_update_subset_insert [THEN subsetD])

lemma finish_slot_moved:
  assumes "i < length (bk_streams b)" "ss_busy (bk_streams b ! i)" "finish_slot drv i ms b = (r, b')"
  shows "swept b b'"
proof (cases "image_from_bytes (ss_width (bk_streams b ! i)) (ss_height (bk_streams b ! i)) (ss_channels (bk_streams b ! i))
    (host_bytes drv (ss_staging (bk_streams b ! i)) (bk_driver b)) (nat (ss_width (bk_streams b ! i)) * nat (ss_channels (bk_streams b ! i)))")
  case (Inl e)
  then have "same_jobs b b'" using assms(3) by (auto simp: finish_slot_def Let_def same_jobs_def)
  then show ?thesis by (rule same_jobs_swept)
next
  case (Inr out)
  then have b': "bk_streams b' = (bk_streams b)[i := (bk_streams b ! i)\<lparr>ss_busy := False\<rparr>]"
      "map cp_handle (bk_completed b') = map cp_handle (bk_completed b) @ [ss_handle (bk_streams b ! i)]" "bk_next_handle b' = bk_next_handle b"
    using assms(3) by (auto simp: finish_slot_def Let_def)
  have "mset (cuda_handles b') = mset (cuda_handles b)"
    using filter_update_idle [OF assms(1), of ss_busy "(bk_streams b ! i)\<lparr>ss_busy := False\<rparr>" ss_handle] assms(2)
    by (simp add: cuda_handles_def b' ac_simps)
  then show ?thesis using slots_valid_idle [of b b' i] b' by (simp add: moved_def swept_def)
qed

lemma retire_slot_cases:
  assumes "retire_slot drv i b = (r, b')"
  obtains (idle) "\<not> ss_busy (bk_streams b ! i)" "r = Inr ()" "b' = b"
  | (waiting) u d where "ss_busy (bk_streams b ! i)" "r = Inr ()" "b' = b\<lparr>bk_driver := d\<rparr>"
      "cuEventQuery drv (ss_done (bk_streams b ! i)) (bk_driver b) = ((CUDA_ERROR_NOT_READY, u), d)"
  | (failed) e status u d where "ss_busy (bk_streams b ! i)" "r = Inl e" "b' = b\<lparr>bk_driver := d\<rparr>"
      "cu_check drv status ''status'' kBackendFile 309 = Inl e" "status \<noteq> CUDA_ERROR_NOT_READY"
      "cuEventQuery drv (ss_done (bk_streams b ! i)) (bk_driver b) = ((status, u), d)"
  | (retiring) status u d where "ss_busy (bk_streams b ! i)"
      "cuEventQuery drv (ss_done (bk_streams b ! i)) (bk_driver b) = ((status, u), d)" "status = CUDA_SUCCESS"
      "then_act (on_driver (slot_kernel_ms drv (bk_streams b ! i))) (finish_slot drv i) (b\<lparr>bk_driver := d\<rparr>) = (r, b')"
proof (cases "ss_busy (bk_streams b ! i)")
  case False
  then show thesis using assms by (intro idle) (simp_all add: retire_slot_def)
next
  case True
  obtain status u d where q: "cuEventQuery drv (ss_done (bk_streams b ! i)) (bk_driver b) = ((status, u), d)" by (metis surj_pair)
  show thesis
  proof (cases "status = CUDA_ERROR_NOT_READY")
    case nr: True
    then show thesis using assms True q by (intro waiting) (simp_all add: retire_slot_def Let_def)
  next
    case nr: False
    show thesis
    proof (cases "cu_check drv status ''status'' kBackendFile 309")
      case (Inl e)
      then show thesis using assms True q nr by (intro failed [of e d status u]) (simp_all add: retire_slot_def Let_def)
    next
      case (Inr x)
      then have "status = CUDA_SUCCESS" by (auto simp: cu_check_def split: if_splits)
      with Inr show thesis using assms True q nr by (intro retiring [of status u d]) (simp_all add: retire_slot_def Let_def)
    qed
  qed
qed

lemma retire_slot_moved:
  assumes i: "i < length (bk_streams b)" and r: "retire_slot drv i b = (r, b')"
  shows "swept b b'"
  using r
proof (cases rule: retire_slot_cases)
  case (retiring status u d)
  define b1 where "b1 = b\<lparr>bk_driver := d\<rparr>"
  have s1: "same_jobs b b1" by (simp add: b1_def same_jobs_def)
  from retiring(4) [folded b1_def] show ?thesis
  proof (cases rule: then_act_cases)
    case (throws e)
    from same_jobs_trans [OF s1 on_driver_same [OF throws(1)]] show ?thesis by (rule same_jobs_swept)
  next
    case (continues ms b2)
    have s2: "same_jobs b b2" by (rule same_jobs_trans [OF s1 on_driver_same [OF continues(1)]])
    then have "i < length (bk_streams b2)" "ss_busy (bk_streams b2 ! i)" using i retiring(1) by (auto simp: same_jobs_def)
    from same_jobs_swept [OF s2] finish_slot_moved [OF this continues(2)] show ?thesis by (rule swept_trans)
  qed
qed (auto intro!: same_jobs_swept simp: same_jobs_def)

lemma retire_loop_moved:
  "retire_loop drv is b = (r, b') \<Longrightarrow> \<forall>i \<in> set is. i < length (bk_streams b) \<Longrightarrow> swept b b'"
proof (induction "is" arbitrary: b)
  case (Cons i "is")
  have i: "i < length (bk_streams b)" using Cons.prems(2) by simp
  from Cons.prems(1) show ?case unfolding retire_loop.simps
  proof (cases rule: then_act_cases)
    case (throws e)
    then show ?thesis using retire_slot_moved [OF i] by blast
  next
    case (continues x b1)
    note m = retire_slot_moved [OF i continues(1)]
    then have "swept b1 b'" using Cons.IH [OF continues(2)] Cons.prems(2) by (simp add: swept_def)
    with m show ?thesis by (rule swept_trans)
  qed
qed auto

lemma retire_moved: "retire_ready_streams drv b = (r, b') \<Longrightarrow> swept b b'"
  unfolding retire_ready_streams_def by (erule retire_loop_moved) simp

text \<open>Recovery: first every busy slot is failed, then only idle slots come and go.\<close>

definition quiet :: "'d cuda_backend \<Rightarrow> bool" where
  "quiet b \<longleftrightarrow> (\<forall>s \<in> set (bk_streams b). \<not> ss_busy s)"

definition quiet_same :: "'d cuda_backend \<Rightarrow> 'd cuda_backend \<Rightarrow> bool" where
  "quiet_same b b' \<longleftrightarrow> bk_completed b' = bk_completed b \<and> bk_next_handle b' = bk_next_handle b \<and> (quiet b \<longrightarrow> quiet b')"

lemma quiet_same_order: "reflp quiet_same" "transp quiet_same"
  by (auto simp: reflp_def transp_def quiet_same_def)

lemma quiet_same_trans: "quiet_same a b \<Longrightarrow> quiet_same b c \<Longrightarrow> quiet_same a c"
  using quiet_same_order(2) by (rule transpD)

lemma quiet_moved: "quiet b \<Longrightarrow> quiet_same b b' \<Longrightarrow> moved b b' \<and> quiet b'"
  by (auto simp: moved_def quiet_same_def quiet_def cuda_handles_def slots_valid_def filter_empty_conv)

lemma same_jobs_quiet: "same_jobs b b' \<Longrightarrow> quiet_same b b'"
  by (simp add: same_jobs_def quiet_same_def quiet_def)

lemma keeps_quiet_driver: "keeps quiet_same (on_driver m)"
  unfolding keeps_def using on_driver_same same_jobs_quiet by (metis surj_pair snd_conv)

lemma StreamSlot_new_idle: "StreamSlot_new drv bytes d = (Inr slot, d') \<Longrightarrow> \<not> ss_busy slot"
  by (auto simp: StreamSlot_new_def elim!: then_act_cases)

lemma emplace_slots_quiet: "quiet_same b (snd (emplace_slots drv n b))"
proof (induction n arbitrary: b)
  case (Suc n)
  obtain r b1 where o: "on_driver (StreamSlot_new drv (bk_slot_bytes b)) b = (r, b1)" by fastforce
  note s = same_jobs_quiet [OF on_driver_same [OF o]]
  show ?case
  proof (cases r)
    case (Inl e)
    then show ?thesis using o s by simp
  next
    case (Inr slot)
    have "\<not> ss_busy slot" using o Inr StreamSlot_new_idle by (fastforce simp: on_driver_def split: prod.splits)
    then have "quiet_same b1 (b1\<lparr>bk_streams := bk_streams b1 @ [slot]\<rparr>)" by (auto simp: quiet_same_def quiet_def)
    from quiet_same_trans [OF quiet_same_trans [OF s this] Suc] show ?thesis using o Inr by simp
  qed
qed (simp add: quiet_same_def)

lemma clear_streams_quiet: "quiet_same b (clear_streams drv b) \<and> quiet (clear_streams drv b)"
  by (simp add: clear_streams_def quiet_same_def quiet_def)

lemma build_stream_slots_quiet: "quiet_same b (snd (build_stream_slots drv b))"
  using clear_streams_quiet [of b drv] emplace_slots_quiet [of "clear_streams drv b" drv] quiet_same_trans
  by (auto simp: build_stream_slots_def Let_def)

lemma reattach_quiet: "quiet_same b (snd (reattach drv b))"
  by (auto simp: reattach_def quiet_same_def quiet_def split: option.splits prod.splits)

lemma tear_down_quiet: "quiet_same b (tear_down drv b)"
  by (auto simp: tear_down_def Let_def clear_streams_def quiet_same_def quiet_def split: option.splits prod.splits)

lemma rebuild_quiet:
  "quiet_same b (snd (then_act (on_driver (CudaContext_new drv ordinal)) (\<lambda>context b1.
     then_act (reattach drv) (\<lambda>_. build_stream_slots drv) (b1\<lparr>bk_context := Some context\<rparr>)) b))"
proof -
  have after: "keeps quiet_same (then_act (reattach drv) (\<lambda>_. build_stream_slots drv))"
    by (intro keeps_then quiet_same_order) (simp_all add: keeps_def reattach_quiet build_stream_slots_quiet)
  have "quiet_same b1 (snd (then_act (reattach drv) (\<lambda>_. build_stream_slots drv) (b1\<lparr>bk_context := Some ctx\<rparr>)))" for b1 ctx
  proof -
    have "quiet_same b1 (b1\<lparr>bk_context := Some ctx\<rparr>)" by (simp add: quiet_same_def quiet_def)
    then show ?thesis using after quiet_same_trans unfolding keeps_def by blast
  qed
  then have "keeps quiet_same (then_act (on_driver (CudaContext_new drv ordinal)) (\<lambda>context b1.
     then_act (reattach drv) (\<lambda>_. build_stream_slots drv) (b1\<lparr>bk_context := Some context\<rparr>)))"
    by (intro keeps_then quiet_same_order keeps_quiet_driver) (simp add: keeps_def)
  then show ?thesis by (simp add: keeps_def)
qed

lemma fail_in_flight_moved: "swept b (fail_in_flight reason b) \<and> quiet (fail_in_flight reason b)"
proof -
  define step where "step = (\<lambda>i b. if ss_busy (bk_streams b ! i)
       then (fail_job (ss_handle (bk_streams b ! i)) reason b)
              \<lparr>bk_streams := (bk_streams b)[i := (bk_streams b ! i)\<lparr>ss_busy := False\<rparr>]\<rparr>
       else b :: 'a cuda_backend)"
  have "swept b (fold step [0..<k] b) \<and> (\<forall>i < k. \<not> ss_busy (bk_streams (fold step [0..<k] b) ! i))" if "k \<le> length (bk_streams b)" for k
    using that
  proof (induction k)
    case (Suc k)
    define c where "c = fold step [0..<k] b"
    have IH: "swept b c" "\<forall>i < k. \<not> ss_busy (bk_streams c ! i)" using Suc by (simp_all add: c_def)
    have k: "k < length (bk_streams c)" using IH(1) Suc.prems by (simp add: swept_def)
    have "swept c (step k c) \<and> (\<forall>i < Suc k. \<not> ss_busy (bk_streams (step k c) ! i))"
    proof (cases "ss_busy (bk_streams c ! k)")
      case True
      then have s: "bk_streams (step k c) = (bk_streams c)[k := (bk_streams c ! k)\<lparr>ss_busy := False\<rparr>]"
          "map cp_handle (bk_completed (step k c)) = map cp_handle (bk_completed c) @ [ss_handle (bk_streams c ! k)]"
          "bk_next_handle (step k c) = bk_next_handle c"
        by (simp_all add: step_def fail_job_def)
      have "mset (cuda_handles (step k c)) = mset (cuda_handles c)"
        using filter_update_idle [OF k, of ss_busy "(bk_streams c ! k)\<lparr>ss_busy := False\<rparr>" ss_handle] True
        by (simp add: cuda_handles_def s ac_simps)
      then show ?thesis using slots_valid_idle [OF _ s(1)] s IH(2) k by (auto simp: swept_def moved_def nth_list_update less_Suc_eq)
    next
      case False
      then show ?thesis using IH(2) by (auto simp: step_def less_Suc_eq)
    qed
    then show ?case using IH(1) swept_trans by (auto simp: c_def)
  qed simp
  from this [of "length (bk_streams b)"] show ?thesis
    unfolding fail_in_flight_def step_def [symmetric] by (auto simp: quiet_def swept_def in_set_conv_nth)
qed

lemma recreate_moved: "moved b (snd (recreate_context drv reason b)) \<and> quiet (snd (recreate_context drv reason b))"
proof -
  define b1 where "b1 = fail_in_flight reason b"
  have b1: "moved b b1" "quiet b1" using fail_in_flight_moved [of b reason] by (simp_all add: b1_def swept_def)
  have "quiet_same b1 (snd (recreate_context drv reason b))"
    unfolding recreate_context_def Let_def b1_def [symmetric]
    by (rule quiet_same_trans [OF tear_down_quiet rebuild_quiet])
  from quiet_moved [OF b1(2) this] b1(1) moved_trans show ?thesis by blast
qed

lemma recover_moved: "moved b (recover drv reason b)"
  using recreate_moved by (auto simp: recover_def)

section \<open>Submission keeps the ledger\<close>

lemma wait_round_swept: "wait_round drv b = (r, b') \<Longrightarrow> swept b b'"
proof -
  assume "wait_round drv b = (r, b')"
  moreover have s: "same_jobs b (count_stall b)" by (simp add: count_stall_def same_jobs_def)
  ultimately show ?thesis unfolding wait_round_def
  proof (elim then_act_cases)
    fix e assume "on_driver (CU_CHECK drv ''cuEventSynchronize(oldest->done.get())'' kBackendFile 295
       (cuEventSynchronize drv (ss_done (bk_streams b ! oldest_slot (bk_streams b))))) (count_stall b) = (Inl e, b')"
    from same_jobs_trans [OF s on_driver_same [OF this]] show ?thesis by (rule same_jobs_swept)
  next
    fix x b1
    assume o: "on_driver (CU_CHECK drv ''cuEventSynchronize(oldest->done.get())'' kBackendFile 295
       (cuEventSynchronize drv (ss_done (bk_streams b ! oldest_slot (bk_streams b))))) (count_stall b) = (Inr x, b1)"
      and r: "retire_ready_streams drv b1 = (r, b')"
    from same_jobs_swept [OF same_jobs_trans [OF s on_driver_same [OF o]]] retire_moved [OF r] show ?thesis by (rule swept_trans)
  qed
qed

lemma first_idle_Some: "first_idle slots = Some i \<Longrightarrow> i < length slots \<and> \<not> ss_busy (slots ! i)"
  unfolding first_idle_def by (auto simp: find_Some_iff)

lemma first_idle_None: "first_idle slots = None \<longleftrightarrow> (\<forall>s \<in> set slots. ss_busy s)"
  unfolding first_idle_def by (auto simp: find_None_iff all_set_conv_all_nth)

lemma claim_stream_swept:
  assumes "claim_stream drv b = Some (r, b')"
  shows "swept b b' \<and> (\<forall>i. r = Inr i \<longrightarrow> i < length (bk_streams b') \<and> \<not> ss_busy (bk_streams b' ! i))"
proof -
  have "\<forall>r b'. y = (r, b') \<longrightarrow> swept b b' \<and> (\<forall>i. r = Inr i \<longrightarrow> i < length (bk_streams b') \<and> \<not> ss_busy (bk_streams b' ! i))"
    if "claim_stream drv b = Some y" for y
    using that
  proof (induction rule: claim_stream.raw_induct [rotated 1, consumes 1])
    case (1 claim drv b y)
    show ?case
    proof (cases "first_idle (bk_streams b)")
      case (Some i)
      then show ?thesis using 1(2) first_idle_Some [OF Some] by auto
    next
      case None
      obtain r1 b1 where w: "wait_round drv b = (r1, b1)" by fastforce
      note s = wait_round_swept [OF w]
      show ?thesis
      proof (cases r1)
        case (Inl e)
        then show ?thesis using 1(2) None w s by auto
      next
        case (Inr x)
        then have "claim drv b1 = Some y" using 1(2) None w by simp
        from 1(1) [OF this] s show ?thesis using swept_trans by blast
      qed
    qed
  qed
  with assms show ?thesis by blast
qed

lemma mark_busy_adds:
  assumes "i < length (bk_streams b)" "\<not> ss_busy (bk_streams b ! i)"
    and "0 < job_width job" "0 < job_height job" "is_supported_channel_count (job_channels job)"
  shows "mset (cuda_handles (mark_busy job h i b)) = add_mset h (mset (cuda_handles b))"
    "bk_next_handle (mark_busy job h i b) = bk_next_handle b" "slots_valid b \<Longrightarrow> slots_valid (mark_busy job h i b)"
proof -
  define s where "s = (bk_streams b ! i)\<lparr>ss_busy := True, ss_handle := h, ss_submit_order := bk_next_submit_order b,
                    ss_width := job_width job, ss_height := job_height job, ss_channels := job_channels job\<rparr>"
  have m: "bk_streams (mark_busy job h i b) = (bk_streams b)[i := s]" "bk_completed (mark_busy job h i b) = bk_completed b"
    by (simp_all add: mark_busy_def Let_def s_def)
  show "mset (cuda_handles (mark_busy job h i b)) = add_mset h (mset (cuda_handles b))"
    using filter_update_busy [OF assms(1), of ss_busy s ss_handle] assms(2) by (simp add: cuda_handles_def m s_def)
  show "bk_next_handle (mark_busy job h i b) = bk_next_handle b" by (simp add: mark_busy_def Let_def)
  show "slots_valid (mark_busy job h i b)" if "slots_valid b"
    using that assms(3-5) by (auto simp: slots_valid_def m s_def dest!: set_update_subset_insert [THEN subsetD])
qed

text \<open>Either a step only moved jobs, or it added exactly the new one.\<close>

definition adds_job :: "job_handle \<Rightarrow> 'd cuda_backend \<Rightarrow> 'd cuda_backend \<Rightarrow> bool" where
  "adds_job h b b' \<longleftrightarrow> mset (cuda_handles b') = add_mset h (mset (cuda_handles b)) \<and> bk_next_handle b' = bk_next_handle b \<and>
     (slots_valid b \<longrightarrow> slots_valid b')"

lemma moved_adds: "moved a b \<Longrightarrow> adds_job h b c \<Longrightarrow> adds_job h a c"
  by (simp add: moved_def adds_job_def)

lemma adds_moved: "adds_job h a b \<Longrightarrow> moved b c \<Longrightarrow> adds_job h a c"
  by (simp add: moved_def adds_job_def)

lemma fail_job_adds: "adds_job h b (fail_job h reason b)"
  by (simp add: adds_job_def fail_job_def cuda_handles_def slots_valid_def)

lemma launch_prepare_ledger:
  assumes "launch_prepare drv expf job h b = (r, b')"
  shows "case r of Inr None \<Rightarrow> adds_job h b b'
    | Inr (Some work) \<Rightarrow> moved b b' \<and> 0 < job_width job \<and> 0 < job_height job \<and> is_supported_channel_count (job_channels job)
    | Inl e \<Rightarrow> moved b b'"
proof (cases "bk_context b = None \<or> job_input job = None \<or> job_width job \<le> 0 \<or> job_height job \<le> 0 \<or>
    \<not> is_supported_channel_count (job_channels job) \<or> job_stride job \<noteq> nat (job_width job) * nat (job_channels job)")
  case True
  then obtain e where "r = Inl e" "b' = b" using assms by (auto simp: launch_prepare_def Let_def split: if_splits option.splits)
  then show ?thesis by simp
next
  case False
  then obtain input where i: "job_input job = Some input" by auto
  show ?thesis
  proof (cases "job_chain job = []")
    case True
    then show ?thesis using assms False i
      by (auto simp: launch_prepare_def Let_def adds_job_def cuda_handles_def slots_valid_def split: sum.splits)
  next
    case chain: False
    define bytes where "bytes = nat (job_width job) * nat (job_channels job) * nat (job_height job)"
    define check where "check = (\<lambda>(compiled :: compiled_chain) b1. if bk_streams b1 = [] \<or> bk_slot_bytes b1 < bytes
        then (Inl (Logic_error (''CudaBackend: no device buffer for a '' @ show_nat bytes @ '' byte frame '' @ em_dash @
               '' allocate_slots() must be called at startup with at least that slot size'')), b1)
        else (Inr (Some (compiled, input, bytes)), b1 :: 'a cuda_backend))"
    have "launch_prepare drv expf job h b =
        then_act (on_cache (cache_get drv expf (key_for (job_chain job) (job_channels job) b))) check b"
      unfolding launch_prepare_def check_def bytes_def Let_def i option.case using False chain by auto
    with assms have "then_act (on_cache (cache_get drv expf (key_for (job_chain job) (job_channels job) b))) check b = (r, b')" by simp
    then show ?thesis
    proof (elim then_act_cases)
      fix e assume "on_cache (cache_get drv expf (key_for (job_chain job) (job_channels job) b)) b = (Inl e, b')" "r = Inl e"
      then show ?thesis using same_jobs_moved [OF on_cache_same] by simp
    next
      fix compiled b1
      assume c: "on_cache (cache_get drv expf (key_for (job_chain job) (job_channels job) b)) b = (Inr compiled, b1)"
        and "check compiled b1 = (r, b')"
      then have "b' = b1" "r = Inr (Some (compiled, input, bytes)) \<or> (\<exists>e. r = Inl e)" by (auto simp: check_def split: if_splits)
      then show ?thesis using same_jobs_moved [OF on_cache_same [OF c]] False by auto
    qed
  qed
qed

lemma launch_on_ledger:
  assumes "launch_on drv expf job h work i b = (r, b')" "i < length (bk_streams b)" "\<not> ss_busy (bk_streams b ! i)"
    and "0 < job_width job" "0 < job_height job" "is_supported_channel_count (job_channels job)"
  shows "case r of Inr _ \<Rightarrow> adds_job h b b' | Inl e \<Rightarrow> moved b b'"
proof -
  obtain compiled input bytes where work: "work = (compiled, input, bytes)" by (cases work)
  from assms(1) show ?thesis unfolding launch_on_def work prod.case
  proof (elim then_act_cases)
    fix e assume "on_driver (queue_frame drv expf job compiled input bytes (bk_streams b ! i)) b = (Inl e, b')" "r = Inl e"
    then show ?thesis using same_jobs_moved [OF on_driver_same] by simp
  next
    fix x b1
    assume o: "on_driver (queue_frame drv expf job compiled input bytes (bk_streams b ! i)) b = (Inr x, b1)"
      and "(Inr (), mark_busy job h i b1) = (r, b')"
    then have r: "r = Inr ()" "b' = mark_busy job h i b1" by auto
    note s = on_driver_same [OF o]
    have "i < length (bk_streams b1)" "\<not> ss_busy (bk_streams b1 ! i)" using s assms(2,3) by (auto simp: same_jobs_def)
    from mark_busy_adds [OF this assms(4-6)] have "adds_job h b1 b'" by (simp add: adds_job_def r)
    with same_jobs_moved [OF s] show ?thesis using moved_adds by (simp add: r)
  qed
qed

lemma launch_ledger:
  assumes "launch drv expf job h b = Some (r, b')"
  shows "case r of Inr _ \<Rightarrow> adds_job h b b' | Inl e \<Rightarrow> moved b b'"
proof -
  obtain r1 b1 where p: "launch_prepare drv expf job h b = (r1, b1)" by fastforce
  note l = launch_prepare_ledger [OF p]
  consider e where "r1 = Inl e" | "r1 = Inr None" | work where "r1 = Inr (Some work)" by (metis option.exhaust sum.exhaust)
  then show ?thesis
  proof cases
    case (3 work)
    then have m: "moved b b1" and d: "0 < job_width job" "0 < job_height job" "is_supported_channel_count (job_channels job)"
      using l by simp_all
    obtain r2 b2 where c: "claim_stream drv b1 = Some (r2, b2)" using assms p 3 by (auto simp: launch_def split: option.splits)
    have s: "moved b b2" using claim_stream_swept [OF c] m moved_trans by (auto simp: swept_def)
    show ?thesis
    proof (cases r2)
      case (Inl e)
      then show ?thesis using assms p 3 c s by (auto simp: launch_def)
    next
      case (Inr i)
      then have o: "launch_on drv expf job h work i b2 = (r, b')" using assms p 3 c by (simp add: launch_def)
      have "case r of Inr _ \<Rightarrow> adds_job h b2 b' | Inl e \<Rightarrow> moved b2 b'"
        by (rule launch_on_ledger [OF o _ _ d]) (use claim_stream_swept [OF c] Inr in simp_all)
      then show ?thesis using s moved_adds moved_trans by (auto split: sum.splits)
    qed
  qed (use assms p l in \<open>auto simp: launch_def\<close>)
qed

lemma settle_adds: "(case r of Inr _ \<Rightarrow> adds_job h b b' | Inl e \<Rightarrow> moved b b') \<Longrightarrow> adds_job h b (settle drv h r b')"
  unfolding settle_def
  by (auto split: sum.splits cpp_exception.splits intro: moved_adds fail_job_adds adds_moved [OF moved_adds [OF _ fail_job_adds] recover_moved])

lemma cuda_submit_adds:
  assumes "cuda_submit drv expf job b = Some (h, b')"
  shows "h = bk_next_handle b \<and> adds_job h (b\<lparr>bk_next_handle := h + 1\<rparr>) b'"
proof -
  obtain r b1 where l: "launch drv expf job (bk_next_handle b) (b\<lparr>bk_next_handle := bk_next_handle b + 1\<rparr>) = Some (r, b1)"
      "h = bk_next_handle b" "b' = settle drv (bk_next_handle b) r b1"
    using assms by (auto simp: cuda_submit_def Let_def)
  with settle_adds [OF launch_ledger [OF l(1)]] show ?thesis by simp
qed

text \<open>Polling, and the two calls that may run between frames.\<close>

definition cuda_polls :: "'d cuda_driver \<Rightarrow> (rat \<Rightarrow> rat) \<Rightarrow> 'd cuda_backend \<Rightarrow> completion list \<Rightarrow> 'd cuda_backend \<Rightarrow> bool" where
  "cuda_polls drv expf b cs b' \<longleftrightarrow> cuda_poll_completions drv b = (Inr cs, b') \<or>
     cs = [] \<and> ((\<exists>reason. b' = snd (recreate_context drv reason b)) \<or> (\<exists>chain channels. b' = snd (prewarm drv expf chain channels b)))"

lemma prewarm_moved: "moved b (snd (prewarm drv expf chain channels b))"
proof -
  obtain r b1 where c: "on_cache (cache_get drv expf (key_for chain channels b)) b = (r, b1)" by fastforce
  then have "snd (prewarm drv expf chain channels b) = (if chain = [] then b else b1)"
    by (cases r) (simp_all add: prewarm_def)
  then show ?thesis using same_jobs_moved [OF on_cache_same [OF c]] by simp
qed

lemma cuda_poll_delivers:
  assumes "cuda_poll_completions drv b = (Inr cs, b')"
  obtains b1 where "moved b b1" "cs = bk_completed b1" "b' = b1\<lparr>bk_completed := []\<rparr>"
proof -
  obtain r b0 where q: "retire_ready_streams drv b = (r, b0)" by fastforce
  have m: "moved b b0" using retire_moved [OF q] by (simp add: swept_def)
  have rec: "moved b (recover drv reason b0)" for reason using m recover_moved by (rule moved_trans)
  show thesis
    using assms q m rec that
    by (cases r) (auto simp: cuda_poll_completions_def split: cpp_exception.splits)
qed

lemma cuda_polls_law:
  assumes ok: "cuda_ok b" and p: "cuda_polls drv expf b cs b'"
  shows "cuda_ok b' \<and> unat (bk_next_handle b') = unat (bk_next_handle b) \<and> distinct (map cp_handle cs) \<and>
    cp_handle ` set cs \<subseteq> set (cuda_handles b) \<and> set (cuda_handles b') = set (cuda_handles b) - cp_handle ` set cs"
proof (cases "cuda_poll_completions drv b = (Inr cs, b')")
  case True
  then obtain b1 where b1: "moved b b1" "cs = bk_completed b1" "b' = b1\<lparr>bk_completed := []\<rparr>" by (rule cuda_poll_delivers)
  have ok1: "cuda_ok b1" by (rule moved_ok [OF b1(1) ok])
  have h: "set (cuda_handles b) = set (cuda_handles b1)" using moved_handles [OF b1(1)] by simp
  have split: "cuda_handles b1 = cuda_handles b' @ map cp_handle cs" "bk_streams b' = bk_streams b1"
    by (simp_all add: b1(2,3) cuda_handles_def)
  have "distinct (cuda_handles b' @ map cp_handle cs)" using ok1 split by (simp add: cuda_ok_def)
  moreover have "unat (bk_next_handle b') = unat (bk_next_handle b)" "bk_next_handle b' = bk_next_handle b1"
    using b1 by (simp_all add: moved_def)
  ultimately show ?thesis using ok1 unfolding h cuda_ok_def split(1) slots_valid_def split(2) by auto
next
  case False
  then have m: "moved b b'" "cs = []" using p recreate_moved prewarm_moved by (auto simp: cuda_polls_def)
  then show ?thesis using moved_ok [OF m(1) ok] moved_handles [OF m(1)] by (simp add: moved_def)
qed

lemma cuda_submit_law:
  assumes ok: "cuda_ok b" and room: "unat (bk_next_handle b) < 2 ^ 64 - 1" and s: "cuda_submit drv expf job b = Some (h, b')"
  shows "cuda_ok b' \<and> unat h = unat (bk_next_handle b) \<and> unat (bk_next_handle b') = unat (bk_next_handle b) + 1 \<and>
    h \<notin> set (cuda_handles b) \<and> set (cuda_handles b') = insert h (set (cuda_handles b))"
proof -
  note a = cuda_submit_adds [OF s]
  have same: "cuda_handles (b\<lparr>bk_next_handle := h + 1\<rparr>) = cuda_handles b" "slots_valid (b\<lparr>bk_next_handle := h + 1\<rparr>) = slots_valid b"
    by (simp_all add: cuda_handles_def slots_valid_def)
  have m: "mset (cuda_handles b') = add_mset h (mset (cuda_handles b))" and n: "bk_next_handle b' = bk_next_handle b + 1"
    and v: "slots_valid b'" using a ok by (simp_all add: adds_job_def same cuda_ok_def)
  have set: "set (cuda_handles b') = insert h (set (cuda_handles b))" using m by (metis set_mset_add_mset_insert set_mset_mset)
  have u: "unat (bk_next_handle b') = unat (bk_next_handle b) + 1" using unat_inc [OF room] by (simp add: n)
  have fresh: "h \<notin> set (cuda_handles b)" using ok a by (auto simp: cuda_ok_def)
  moreover have "distinct (h # cuda_handles b)" using fresh ok by (simp add: cuda_ok_def)
  then have "distinct (cuda_handles b')" using m by (metis mset.simps(2) mset_eq_imp_distinct_iff)
  ultimately show ?thesis using ok a u set v by (auto simp: cuda_ok_def)
qed

interpretation cuda: job_ledger cuda_ok "\<lambda>b. unat (bk_next_handle b)" "\<lambda>b. set (cuda_handles b)"
    "\<lambda>b job h b'. cuda_submit drv expf job b = Some (h, b')" "cuda_polls drv expf" for drv expf
  using cuda_submit_law cuda_polls_law by unfold_locales blast+

section \<open>Polling never throws\<close>

lemma finish_slot_ok:
  assumes "slots_valid b" "i < length (bk_streams b)" "ss_busy (bk_streams b ! i)"
  shows "\<exists>b'. finish_slot drv i ms b = (Inr (), b')"
proof -
  define s where "s = bk_streams b ! i"
  have "0 < ss_width s" "0 < ss_height s" "is_supported_channel_count (ss_channels s)"
    using assms by (simp_all add: slots_valid_def s_def)
  then obtain img where "image_from_bytes (ss_width s) (ss_height s) (ss_channels s) (host_bytes drv (ss_staging s) (bk_driver b))
      (nat (ss_width s) * nat (ss_channels s)) = Inr img" using image_from_bytes_ok by blast
  then show ?thesis by (simp add: finish_slot_def Let_def s_def)
qed

lemma retire_slot_throws:
  assumes v: "slots_valid b" "i < length (bk_streams b)" and r: "retire_slot drv i b = (Inl e, b')"
  shows "is_cuda e"
  using r
proof (cases rule: retire_slot_cases)
  case (retiring status u d)
  define b1 where "b1 = b\<lparr>bk_driver := d\<rparr>"
  have b1: "slots_valid b1" "i < length (bk_streams b1)" "ss_busy (bk_streams b1 ! i)"
    using v retiring(1) by (simp_all add: b1_def slots_valid_def)
  from retiring(4) [folded b1_def] show ?thesis
  proof (cases rule: then_act_cases)
    case (throws e')
    then have "fst (slot_kernel_ms drv (bk_streams b ! i) d) = Inl e" by (auto simp: on_driver_def b1_def split: prod.splits)
    from CU_CHECK_throws [OF this [unfolded slot_kernel_ms_def]] show ?thesis by (auto simp: is_cuda_def)
  next
    case (continues ms b2)
    then have "same_jobs b1 b2" by (intro on_driver_same)
    then show ?thesis using finish_slot_ok [of b2 i drv ms] b1 continues(2) by (auto simp: same_jobs_def slots_valid_def)
  qed
qed (auto simp: cu_check_def is_cuda_def split: if_splits)

lemma retire_loop_throws:
  "retire_loop drv is b = (Inl e, b') \<Longrightarrow> slots_valid b \<Longrightarrow> \<forall>i \<in> set is. i < length (bk_streams b) \<Longrightarrow> is_cuda e"
proof (induction "is" arbitrary: b)
  case (Cons i "is")
  have i: "i < length (bk_streams b)" using Cons.prems(3) by simp
  from Cons.prems(1) show ?case unfolding retire_loop.simps
  proof (cases rule: then_act_cases)
    case (throws e')
    then show ?thesis using retire_slot_throws [OF Cons.prems(2) i] by blast
  next
    case (continues x b1)
    note m = retire_slot_moved [OF i continues(1)]
    from Cons.IH [OF continues(2)] m Cons.prems(2,3) show ?thesis by (simp add: swept_def moved_def)
  qed
qed simp

lemma cuda_poll_total: "cuda_ok b \<Longrightarrow> \<exists>cs b'. cuda_poll_completions drv b = (Inr cs, b')"
proof -
  assume ok: "cuda_ok b"
  obtain r b0 where q: "retire_ready_streams drv b = (r, b0)" by fastforce
  have "is_cuda e" if "r = Inl e" for e
    using retire_loop_throws [of drv "[0..<length (bk_streams b)]" b e b0] q that ok by (simp add: retire_ready_streams_def cuda_ok_def)
  then show ?thesis
    using q by (cases r) (auto simp: cuda_poll_completions_def is_cuda_def split: cpp_exception.splits)
qed

section \<open>Waiting for a stream ends\<close>

text \<open>
  What the driver documents of events: once synchronising on an event succeeded it is complete,
  a finished event is never reported as not ready, and querying events or reading their times does not
  undo that.
\<close>

definition events_complete :: "'d cuda_driver \<Rightarrow> (nat \<Rightarrow> 'd \<Rightarrow> bool) \<Rightarrow> bool" where
  "events_complete drv finished \<longleftrightarrow>
     (\<forall>e d u d'. cuEventSynchronize drv e d = ((CUDA_SUCCESS, u), d') \<longrightarrow> finished e d') \<and>
     (\<forall>e d. finished e d \<longrightarrow> fst (fst (cuEventQuery drv e d)) \<noteq> CUDA_ERROR_NOT_READY) \<and>
     (\<forall>e e' d. finished e d \<longrightarrow> finished e (snd (cuEventQuery drv e' d))) \<and>
     (\<forall>e b c d. finished e d \<longrightarrow> finished e (snd (cuEventElapsedTime drv b c d)))"

lemma CU_CHECK_state: "snd (CU_CHECK drv expr file line call d) = snd (call d)"
  by (simp add: CU_CHECK_def case_prod_unfold)

lemma finish_slot_driver: "bk_driver (snd (finish_slot drv i ms b)) = bk_driver b"
  by (simp add: finish_slot_def Let_def split: sum.split)

lemma finish_slot_frees:
  "finish_slot drv i ms b = (Inr (), b') \<Longrightarrow> bk_streams b' = (bk_streams b)[i := (bk_streams b ! i)\<lparr>ss_busy := False\<rparr>]"
  by (auto simp: finish_slot_def Let_def split: sum.splits)

lemma retire_slot_effect:
  assumes ev: "events_complete drv finished" and r: "retire_slot drv i b = (Inr x, b')" and e: "finished e (bk_driver b)"
  shows "finished e (bk_driver b') \<and>
    (bk_streams b' = bk_streams b \<or> bk_streams b' = (bk_streams b)[i := (bk_streams b ! i)\<lparr>ss_busy := False\<rparr>]) \<and>
    (e = ss_done (bk_streams b ! i) \<longrightarrow> i < length (bk_streams b) \<longrightarrow> \<not> ss_busy (bk_streams b' ! i))"
proof -
  have kept: "finished e d" if "cuEventQuery drv e' (bk_driver b) = ((status, u), d)" for e' status u d
    using ev e that unfolding events_complete_def by (metis snd_conv)
  have ready: "e' \<noteq> e" if "cuEventQuery drv e' (bk_driver b) = ((CUDA_ERROR_NOT_READY, u), d)" for e' u d
    using ev e that unfolding events_complete_def by (metis fst_conv)
  show ?thesis using r
  proof (cases rule: retire_slot_cases)
    case (waiting u d)
    then show ?thesis using kept [OF waiting(4)] ready [OF waiting(4)] by auto
  next
    case (retiring status u d)
    from retiring(4) show ?thesis
    proof (cases rule: then_act_cases)
      case (continues ms b2)
      have b2: "bk_streams b2 = bk_streams b" "bk_driver b2 = snd (slot_kernel_ms drv (bk_streams b ! i) d)"
        using continues(1) by (auto simp: on_driver_def split: prod.splits)
      have "finished e (bk_driver b2)" unfolding b2(2) slot_kernel_ms_def CU_CHECK_state
        using ev kept [OF retiring(2)] unfolding events_complete_def by blast
      moreover have "bk_driver b' = bk_driver b2" using finish_slot_driver [of drv i ms b2] continues(2) by simp
      ultimately show ?thesis using finish_slot_frees [of drv i ms b2 b'] continues(2) b2(1) by simp
    qed simp
  qed (use e in simp_all)
qed

text \<open>After a sweep a slot whose event is complete is idle, whatever happened to the others.\<close>

lemma retire_loop_frees:
  assumes "events_complete drv finished"
  shows "retire_loop drv is b = (Inr x, b') \<Longrightarrow> finished (ss_done (bk_streams b ! k)) (bk_driver b) \<Longrightarrow> k < length (bk_streams b) \<Longrightarrow>
    k \<in> set is \<or> \<not> ss_busy (bk_streams b ! k) \<Longrightarrow> length (bk_streams b') = length (bk_streams b) \<and> \<not> ss_busy (bk_streams b' ! k)"
proof (induction "is" arbitrary: b)
  case (Cons i "is")
  obtain y b1 where b1: "retire_slot drv i b = (Inr y, b1)" "retire_loop drv is b1 = (Inr x, b')"
    using Cons.prems(1) by (auto elim: then_act_cases)
  note f' = retire_slot_effect [OF assms b1(1) Cons.prems(2)]
  then have f: "finished (ss_done (bk_streams b ! k)) (bk_driver b1)"
      "bk_streams b1 = bk_streams b \<or> bk_streams b1 = (bk_streams b)[i := (bk_streams b ! i)\<lparr>ss_busy := False\<rparr>]"
      "k = i \<Longrightarrow> \<not> ss_busy (bk_streams b1 ! i)" using Cons.prems(3) by auto
  have len: "length (bk_streams b1) = length (bk_streams b)" using f(2) by auto
  have "ss_done (bk_streams b1 ! k) = ss_done (bk_streams b ! k)"
    using f(2) Cons.prems(3) by (cases "i = k") auto
  moreover have "k \<in> set is \<or> \<not> ss_busy (bk_streams b1 ! k)"
  proof (cases "k = i")
    case True
    then show ?thesis using f(3) by blast
  next
    case False
    then show ?thesis using f(2) Cons.prems(4) by auto
  qed
  ultimately show ?case using Cons.IH [OF b1(2)] f(1) Cons.prems(3) len by simp
qed auto

lemma wait_round_frees:
  assumes "events_complete drv finished" "bk_streams b \<noteq> []" "wait_round drv b = (Inr x, b')"
  shows "first_idle (bk_streams b') \<noteq> None"
proof -
  define k where "k = oldest_slot (bk_streams b)"
  have "fold (\<lambda>i best. if slot_age (bk_streams b ! i) < slot_age (bk_streams b ! best) then i else best) is m < length (bk_streams b)"
    if "\<forall>i \<in> set is. i < length (bk_streams b)" "m < length (bk_streams b)" for "is" m
    using that by (induction "is" arbitrary: m) auto
  then have k: "k < length (bk_streams b)" using assms(2) by (simp add: k_def oldest_slot_def)
  define call where "call = CU_CHECK drv ''cuEventSynchronize(oldest->done.get())'' kBackendFile 295
      (cuEventSynchronize drv (ss_done (bk_streams b ! k)))"
  obtain y b1 where b1: "on_driver call (count_stall b) = (Inr y, b1)" "retire_ready_streams drv b1 = (Inr x, b')"
    using assms(3) unfolding wait_round_def k_def [symmetric] call_def [symmetric] by (auto elim: then_act_cases)
  have s: "bk_streams b1 = bk_streams b" using b1(1) by (auto simp: on_driver_def count_stall_def split: prod.splits)
  have "call (bk_driver b) = (Inr y, bk_driver b1)"
    using b1(1) by (auto simp: on_driver_def count_stall_def split: prod.splits)
  then have "cuEventSynchronize drv (ss_done (bk_streams b ! k)) (bk_driver b) = ((CUDA_SUCCESS, y), bk_driver b1)"
    by (auto simp: call_def CU_CHECK_def cu_check_def split: prod.splits if_splits)
  then have "finished (ss_done (bk_streams b1 ! k)) (bk_driver b1)"
    using assms(1) unfolding events_complete_def s by blast
  from retire_loop_frees [OF assms(1) b1(2) [unfolded retire_ready_streams_def] this] k
  have "k < length (bk_streams b')" "\<not> ss_busy (bk_streams b' ! k)" by (simp_all add: s)
  then show ?thesis using first_idle_None nth_mem by blast
qed

lemma claim_stream_returns:
  assumes "events_complete drv finished" "bk_streams b \<noteq> []"
  shows "\<exists>y. claim_stream drv b = Some y"
proof (cases "first_idle (bk_streams b)")
  case None
  obtain r b1 where w: "wait_round drv b = (r, b1)" by fastforce
  show ?thesis
  proof (cases r)
    case (Inl e)
    then show ?thesis using None w by (subst claim_stream.simps) simp
  next
    case (Inr x)
    obtain i where "first_idle (bk_streams b1) = Some i" using wait_round_frees [OF assms] w Inr by blast
    then have "claim_stream drv b1 = Some (Inr i, b1)" by (subst claim_stream.simps) simp
    then show ?thesis using None w Inr by (subst claim_stream.simps) simp
  qed
qed (subst claim_stream.simps, simp)

lemma launch_prepare_streams:
  assumes "launch_prepare drv expf job h b = (Inr (Some work), b')"
  shows "bk_streams b' \<noteq> []"
  using assms unfolding launch_prepare_def Let_def
  by (auto split: if_splits option.splits sum.splits elim!: then_act_cases)

section \<open>What recovery keeps\<close>

definition host_address :: "'d cuda_backend \<Rightarrow> nat option" where
  "host_address b = map_option rb_memory (bk_host_slots b)"

definition keeps_address :: "'d cuda_backend \<Rightarrow> 'd cuda_backend \<Rightarrow> bool" where
  "keeps_address b b' \<longleftrightarrow> host_address b' = host_address b \<and> bk_cache b' = bk_cache b \<and> bk_stats b' = bk_stats b"

lemma keeps_address_order: "reflp keeps_address" "transp keeps_address"
  by (auto simp: reflp_def transp_def keeps_address_def)

lemma keeps_address_driver: "keeps keeps_address (on_driver m)"
  by (simp add: keeps_def keeps_address_def host_address_def on_driver_def case_prod_unfold)

lemma keeps_address_emplace: "keeps keeps_address (emplace_slots drv n)"
proof (induction n)
  case (Suc n)
  have "keeps keeps_address (\<lambda>b'. emplace_slots drv n (b'\<lparr>bk_streams := bk_streams b' @ [slot]\<rparr>))" for slot
    using Suc by (auto simp: keeps_def keeps_address_def host_address_def)
  then have "keeps keeps_address (then_act (on_driver m) (\<lambda>slot b'. emplace_slots drv n (b'\<lparr>bk_streams := bk_streams b' @ [slot]\<rparr>)))" for m
    by (intro keeps_then keeps_address_order keeps_address_driver)
  then show ?case by (simp add: keeps_def)
next
  case 0
  show ?case unfolding emplace_slots.simps by (rule keeps_return) (rule keeps_address_order)
qed

lemma keeps_address_build: "keeps keeps_address (build_stream_slots drv)"
  using keeps_address_emplace [of drv]
  by (auto simp: keeps_def build_stream_slots_def Let_def clear_streams_def keeps_address_def host_address_def)

lemma keeps_address_reattach: "keeps keeps_address (reattach drv)"
  by (simp add: keeps_def reattach_def keeps_address_def host_address_def attach_memory case_prod_unfold split: option.split)

lemma rebuild_address:
  "keeps_address b (snd (then_act (on_driver (CudaContext_new drv ordinal)) (\<lambda>context b1.
     then_act (reattach drv) (\<lambda>_. build_stream_slots drv) (b1\<lparr>bk_context := Some context\<rparr>)) b))"
proof -
  have "keeps keeps_address (then_act (reattach drv) (\<lambda>_. build_stream_slots drv))"
    by (intro keeps_then keeps_address_order keeps_address_reattach keeps_address_build)
  then have "keeps keeps_address (\<lambda>b1. then_act (reattach drv) (\<lambda>_. build_stream_slots drv) (b1\<lparr>bk_context := Some ctx\<rparr>))" for ctx
    by (auto simp: keeps_def keeps_address_def host_address_def)
  then have "keeps keeps_address (then_act (on_driver (CudaContext_new drv ordinal)) (\<lambda>context b1.
     then_act (reattach drv) (\<lambda>_. build_stream_slots drv) (b1\<lparr>bk_context := Some context\<rparr>)))"
    by (intro keeps_then keeps_address_order keeps_address_driver)
  then show ?thesis by (simp add: keeps_def)
qed

lemma tear_down_effect:
  "host_address (tear_down drv b) = host_address b \<and> kc_entries (bk_cache (tear_down drv b)) = [] \<and>
   kc_compile_count (bk_cache (tear_down drv b)) = kc_compile_count (bk_cache b) \<and>
   context_recreations (bk_stats (tear_down drv b)) = context_recreations (bk_stats b) + 1"
  by (simp add: tear_down_def Let_def clear_streams_def cache_clear_def host_address_def detach_memory case_prod_unfold split: option.split)

lemma fail_in_flight_frame:
  "host_address (fail_in_flight reason b) = host_address b \<and> bk_cache (fail_in_flight reason b) = bk_cache b \<and>
   bk_stats (fail_in_flight reason b) = bk_stats b"
proof -
  have "host_address (fold (\<lambda>i b. if ss_busy (bk_streams b ! i)
       then (fail_job (ss_handle (bk_streams b ! i)) reason b)\<lparr>bk_streams := (bk_streams b)[i := (bk_streams b ! i)\<lparr>ss_busy := False\<rparr>]\<rparr>
       else b) is b) = host_address b \<and>
     bk_cache (fold (\<lambda>i b. if ss_busy (bk_streams b ! i)
       then (fail_job (ss_handle (bk_streams b ! i)) reason b)\<lparr>bk_streams := (bk_streams b)[i := (bk_streams b ! i)\<lparr>ss_busy := False\<rparr>]\<rparr>
       else b) is b) = bk_cache b \<and>
     bk_stats (fold (\<lambda>i b. if ss_busy (bk_streams b ! i)
       then (fail_job (ss_handle (bk_streams b ! i)) reason b)\<lparr>bk_streams := (bk_streams b)[i := (bk_streams b ! i)\<lparr>ss_busy := False\<rparr>]\<rparr>
       else b) is b) = bk_stats b" for "is"
    by (induction "is" arbitrary: b) (simp_all add: fail_job_def host_address_def)
  then show ?thesis by (simp add: fail_in_flight_def)
qed

section \<open>Properties\<close>

text \<open>A backend to which no job was submitted and which has no streams yet.\<close>

definition fresh_backend :: "'d cuda_backend \<Rightarrow> bool" where
  "fresh_backend b \<longleftrightarrow> bk_streams b = [] \<and> bk_completed b = [] \<and> bk_next_handle b = 1 \<and>
     bk_context b \<noteq> None \<and> bk_stream_count b \<noteq> 0"

lemma CudaBackend_new_fresh: "CudaBackend_new drv ordinal k tile tile_size constants d = (Inr b, d') \<Longrightarrow> fresh_backend b"
  by (auto simp: CudaBackend_new_def fresh_backend_def split: prod.splits sum.splits if_splits)

lemma allocate_slots_fresh:
  assumes "fresh_backend b0" "allocate_slots drv n bytes b0 = (r, b1)"
  shows "cuda_ok b1" "cuda_handles b1 = []" "bk_next_handle b1 = 1"
proof -
  have b0: "bk_streams b0 = []" "bk_completed b0 = []" "bk_next_handle b0 = 1"
    using assms(1) by (simp_all add: fresh_backend_def)
  have "quiet_same b0 (snd (allocate_slots drv n bytes b0))"
  proof -
    have "quiet_same b (snd (then_act (build_stream_slots drv) (\<lambda>_. return_act x) (b\<lparr>bk_host_slots := h, bk_slot_bytes := z\<rparr>)))" for b h z and x :: nat
    proof -
      obtain r1 b2 where b2: "build_stream_slots drv (b\<lparr>bk_host_slots := h, bk_slot_bytes := z\<rparr>) = (r1, b2)" by fastforce
      have "quiet_same b (b\<lparr>bk_host_slots := h, bk_slot_bytes := z\<rparr>)" by (simp add: quiet_same_def quiet_def)
      from quiet_same_trans [OF this build_stream_slots_quiet] b2 show ?thesis by (cases r1) (metis snd_conv then_act_simps return_act_simp)+
    qed
    then have "keeps quiet_same (then_act (on_driver (RegisteredHostBuffer_new drv (n * bytes))) (\<lambda>buffer b1.
           then_act (build_stream_slots drv) (\<lambda>_. return_act (rb_memory buffer))
             (b1\<lparr>bk_host_slots := Some buffer, bk_slot_bytes := unat bytes\<rparr>)))"
      by (intro keeps_then quiet_same_order keeps_quiet_driver) (simp add: keeps_def)
    then show ?thesis using quiet_same_order(1) by (auto simp: allocate_slots_def keeps_def reflp_def)
  qed
  then have q: "quiet_same b0 b1" using assms(2) by simp
  with b0 show "cuda_handles b1 = []" "bk_next_handle b1 = 1"
    by (auto simp: quiet_same_def quiet_def cuda_handles_def)
  with q b0 show "cuda_ok b1" by (auto simp: cuda_ok_def slots_valid_def quiet_same_def quiet_def)
qed

lemmas allocate_slots_start = allocate_slots_fresh [OF CudaBackend_new_fresh]

text \<open>
  C12: A driver may fail at any call and in any way, and still no frame is lost or answered twice. From
  start-up (even when slot allocation failed half way), over any interleaving of submissions, polls, context
  recreations and prewarming, handles count up from 1 and every submitted job is either delivered
  exactly once or still owed, in a busy stream slot or among the completions; and polling never throws.
\<close>

theorem cuda_completes_exactly_once:
  assumes "CudaBackend_new drv ordinal k tile tile_size constants d = (Inr b0, d')" "allocate_slots drv n bytes b0 = (r, b1)"
    and "backend_history (\<lambda>b job h b'. cuda_submit drv expf job b = Some (h, b')) (cuda_polls drv expf) b1 b submitted delivered"
    and "length submitted < 2 ^ 64 - 1"
  shows "map (unat \<circ> fst) submitted = [1..<1 + length submitted] \<and>
    distinct (map cp_handle delivered @ cuda_handles b) \<and>
    set (map cp_handle delivered @ cuda_handles b) = fst ` set submitted \<and>
    (\<exists>cs b'. cuda_poll_completions drv b = (Inr cs, b'))"
proof -
  note start = allocate_slots_start [OF assms(1,2)]
  have "cuda.history_inv 1 (b, submitted, delivered)"
    using cuda.history_keeps_inv [OF assms(3) start(1)] start(2,3) assms(4) by simp
  then have inv: "cuda_ok b" "map (unat \<circ> fst) submitted = [1..<1 + length submitted]" "distinct (map cp_handle delivered)"
      "cp_handle ` set delivered \<inter> set (cuda_handles b) = {}" "cp_handle ` set delivered \<union> set (cuda_handles b) = fst ` set submitted"
    by (simp_all add: cuda.history_inv_def)
  then show ?thesis using cuda_poll_total [OF inv(1)] by (simp add: cuda_ok_def)
qed

theorem cuda_completes_exactly_once_witness:
  "\<exists>b0 b. fst (CudaBackend_new ok_driver 0 1 kNaive 0 kBaked ()) = Inr b0 \<and>
     cuda_submit ok_driver (\<lambda>x. 1) (gray_job\<lparr>job_input := None\<rparr>) (snd (allocate_slots ok_driver 1 64 b0)) = Some (1, b) \<and>
     set (cuda_handles b) = {1} \<and> distinct (cuda_handles b)"
proof -
  obtain b0 d where new: "CudaBackend_new ok_driver 0 1 kNaive 0 kBaked () = (Inr b0, d)"
    by (simp add: CudaBackend_new_def CudaContext_new_def compute_arch_def then_act_def CU_CHECK_def cu_check_def ok_driver_def ok_call_def
        CUDA_SUCCESS_def is_supported_tile_def is_supported_constants_def)
  obtain r b1 where alloc: "allocate_slots ok_driver 1 64 b0 = (r, b1)" by fastforce
  have "\<exists>b. cuda_submit ok_driver (\<lambda>x. 1) (gray_job\<lparr>job_input := None\<rparr>) b1 = Some (bk_next_handle b1, b)"
    by (simp add: cuda_submit_def launch_def launch_prepare_def Let_def)
  then obtain b where s: "cuda_submit ok_driver (\<lambda>x. 1) (gray_job\<lparr>job_input := None\<rparr>) b1 = Some (1, b)"
    using allocate_slots_start(3) [OF new alloc] by auto
  have "backend_history (\<lambda>b job h b'. cuda_submit ok_driver (\<lambda>x. 1) job b = Some (h, b')) (cuda_polls ok_driver (\<lambda>x. 1)) b1 b
      ([] @ [(1, gray_job\<lparr>job_input := None\<rparr>)]) []"
    by (rule history_submit [OF history_start]) (rule s)
  from cuda_completes_exactly_once [OF new alloc this] s new alloc show ?thesis by auto
qed

text \<open>
  C23: Submitting always returns: given what the driver documents of events, waiting for a free stream
  ends after at most one round, so \<open>submit\<close> yields a handle for every job in every state, full pipeline included.
\<close>

theorem cuda_submit_returns:
  assumes "events_complete drv finished"
  shows "\<exists>b'. cuda_submit drv expf job b = Some (bk_next_handle b, b')"
proof -
  define b0 where "b0 = b\<lparr>bk_next_handle := bk_next_handle b + 1\<rparr>"
  obtain r b1 where p: "launch_prepare drv expf job (bk_next_handle b) b0 = (r, b1)" by fastforce
  consider e where "r = Inl e" | "r = Inr None" | work where "r = Inr (Some work)" by (metis option.exhaust sum.exhaust)
  then have "\<exists>y. launch drv expf job (bk_next_handle b) b0 = Some y"
  proof cases
    case (3 work)
    obtain y where "claim_stream drv b1 = Some y"
      using claim_stream_returns [OF assms launch_prepare_streams [OF p [unfolded 3]]] by blast
    with p 3 show ?thesis by (cases y; cases "fst y") (auto simp: launch_def)
  qed (use p in \<open>simp_all add: launch_def\<close>)
  then show ?thesis by (auto simp: cuda_submit_def Let_def b0_def)
qed

theorem cuda_submit_returns_witness:
  "\<forall>b. \<exists>b'. cuda_submit ok_driver (\<lambda>x. 1) gray_job b = Some (bk_next_handle b, b')"
proof -
  have "events_complete ok_driver (\<lambda>e d. True)"
    by (simp add: events_complete_def ok_driver_def ok_call_def CUDA_ERROR_NOT_READY_def)
  from cuda_submit_returns [OF this] show ?thesis by blast
qed

text \<open>
  C24: Recovery keeps what the server relies on: whatever the driver does during the rebuild, the frame slots
  stay at the address the slot pool holds, no slot is left busy, the kernel cache is flushed while its compile
  count survives, and the recreation is counted once.
\<close>

theorem recovery_keeps_slots_and_flushes_cache:
  "host_address (recover drv reason b) = host_address b \<and>
   filter ss_busy (bk_streams (recover drv reason b)) = [] \<and>
   kc_entries (bk_cache (recover drv reason b)) = [] \<and>
   kc_compile_count (bk_cache (recover drv reason b)) = kc_compile_count (bk_cache b) \<and>
   context_recreations (bk_stats (recover drv reason b)) = context_recreations (bk_stats b) + 1"
proof -
  define b1 where "b1 = tear_down drv (fail_in_flight reason b)"
  have "keeps_address b1 (recover drv reason b)"
    unfolding recover_def recreate_context_def Let_def b1_def by (rule rebuild_address)
  then show ?thesis
    using tear_down_effect [of drv "fail_in_flight reason b"] fail_in_flight_frame [of reason b] recreate_moved [of b drv reason]
    by (simp add: keeps_address_def b1_def quiet_def recover_def filter_empty_conv)
qed

end
