(* ===== verification/Socket_Io.thy ===== *)
theory Socket_Io
  imports Protocol Cpp_Text
begin

text \<open>
  Sockets (\<open>include/imgjit/net/socket.h\<close>, \<open>src/net/socket.cpp\<close>): the owning wrapper, the set-up calls
  and the transfer loops \<open>read_exact\<close>, \<open>write_exact\<close>, \<open>drain_exactly\<close>.

  What the kernel will answer is an explicit script. An inbound script lists the outcomes of
  the \<open>recv\<close> calls to come: some bytes that have arrived (a call takes at most what it asked for
  and leaves the rest), an interruption, or a failure; its end is the peer's close. An
  outbound script lists how much each \<open>send\<close> accepts; at its end everything is accepted.
  All theorems hold for every script, that is for every way the kernel may cut the stream.
\<close>

datatype io_result = io_kOk | io_kEof | io_kError

section \<open>Owning a descriptor\<close>

text \<open>\<open>-1\<close> is no descriptor; \<open>close\<close> returns the descriptors it passed to the system call.\<close>

definition socket_valid :: "int \<Rightarrow> bool" where "socket_valid descriptor \<longleftrightarrow> 0 \<le> descriptor"

definition socket_close :: "int \<Rightarrow> int \<times> int list" where
  "socket_close descriptor = (if 0 \<le> descriptor then (-1, [descriptor]) else (descriptor, []))"

definition socket_move :: "int \<Rightarrow> int \<times> int" where "socket_move other = (other, -1)"

definition socket_assign :: "bool \<Rightarrow> int \<Rightarrow> int \<Rightarrow> (int \<times> int) \<times> int list" where
  "socket_assign self this other = (if self then ((this, other), []) else (socket_move other, snd (socket_close this)))"

section \<open>Transfer loops\<close>

datatype recv_event = Arrived "u8 list" | Recv_Interrupted | Recv_Failed

datatype send_event = Accepts nat | Send_Interrupted | Send_Failed

text \<open>One \<open>recv\<close> call for at most \<open>n\<close> bytes.\<close>

datatype recv_outcome = Received "u8 list" | Recv_Eintr | Recv_Error

fun recv_call :: "nat \<Rightarrow> recv_event list \<Rightarrow> recv_outcome \<times> recv_event list" where
  "recv_call n [] = (Received [], [])"
| "recv_call n (Recv_Interrupted # rest) = (Recv_Eintr, rest)"
| "recv_call n (Recv_Failed # rest) = (Recv_Error, Recv_Failed # rest)"
| "recv_call n (Arrived bs # rest) =
     (if bs = [] then recv_call n rest
      else (Received (take n bs), if length bs \<le> n then rest else Arrived (drop n bs) # rest))"

fun script_size :: "recv_event list \<Rightarrow> nat" where
  "script_size [] = 0"
| "script_size (Arrived bs # rest) = Suc (length bs) + script_size rest"
| "script_size (_ # rest) = Suc (script_size rest)"

lemma recv_call_progress:
  "0 < n \<Longrightarrow> recv_call n script = (r, script') \<Longrightarrow>
   (case r of Received bs \<Rightarrow> length bs \<le> n \<and> (bs = [] \<or> script_size script' < script_size script)
    | Recv_Eintr \<Rightarrow> script_size script' < script_size script | Recv_Error \<Rightarrow> True)"
  by (induction n script rule: recv_call.induct) (auto split: if_splits recv_outcome.splits)

lemma recv_call_shrinks:
  "(Received (b # bs), script') = recv_call n script \<Longrightarrow> n \<noteq> 0 \<Longrightarrow> script_size script' < script_size script"
  "(Recv_Eintr, script') = recv_call n script \<Longrightarrow> n \<noteq> 0 \<Longrightarrow> script_size script' < script_size script"
  using recv_call_progress [of n script "Received (b # bs)" script'] recv_call_progress [of n script Recv_Eintr script'] by simp_all

function read_loop :: "nat \<Rightarrow> u8 list \<Rightarrow> recv_event list \<Rightarrow> io_result \<times> u8 list \<times> recv_event list" where
  "read_loop remaining buffer script =
     (if remaining = 0 then (io_kOk, buffer, script)
      else case recv_call remaining script of
             (Received [], script') \<Rightarrow> (io_kEof, buffer, script')
           | (Received (b # bs), script') \<Rightarrow> read_loop (remaining - length (b # bs)) (buffer @ b # bs) script'
           | (Recv_Eintr, script') \<Rightarrow> read_loop remaining buffer script'
           | (Recv_Error, script') \<Rightarrow> (io_kError, buffer, script'))"
  by pat_completeness auto
termination
  by (relation "measure (\<lambda>(remaining, buffer, script). script_size script)") (auto dest: recv_call_shrinks)

declare read_loop.simps [simp del]

definition read_exact :: "nat \<Rightarrow> recv_event list \<Rightarrow> io_result \<times> u8 list \<times> recv_event list" where
  "read_exact bytes script = read_loop bytes [] script"

fun write_loop :: "u8 list \<Rightarrow> u8 list \<Rightarrow> send_event list \<Rightarrow> io_result \<times> u8 list \<times> send_event list" where
  "write_loop [] wire script = (io_kOk, wire, script)"
| "write_loop (b # bs) wire [] = (io_kOk, wire @ b # bs, [])"
| "write_loop (b # bs) wire (Accepts n # script) = write_loop (drop n (b # bs)) (wire @ take n (b # bs)) script"
| "write_loop (b # bs) wire (Send_Interrupted # script) = write_loop (b # bs) wire script"
| "write_loop (b # bs) wire (Send_Failed # script) = (io_kError, wire, script)"

text \<open>\<open>wire\<close> is everything written to the socket so far.\<close>

definition write_exact :: "u8 list \<Rightarrow> u8 list \<times> send_event list \<Rightarrow> io_result \<times> u8 list \<times> send_event list" where
  "write_exact buffer = (\<lambda>(wire, script). write_loop buffer wire script)"

definition kScratchBytes :: nat where "kScratchBytes = 4096"

function drain_exactly :: "nat \<Rightarrow> recv_event list \<Rightarrow> io_result \<times> recv_event list" where
  "drain_exactly bytes script =
     (if bytes = 0 then (io_kOk, script)
      else let chunk = min bytes kScratchBytes
           in case read_exact chunk script of
                (io_kOk, _, script') \<Rightarrow> drain_exactly (bytes - chunk) script'
              | (r, _, script') \<Rightarrow> (r, script'))"
  by pat_completeness auto
termination by (relation "measure (\<lambda>(bytes, script). bytes)") (auto simp: kScratchBytes_def)

declare drain_exactly.simps [simp del]

section \<open>The stream behind a script\<close>

text \<open>The bytes that can be received at all, and how the stream ends.\<close>

fun stream_bytes :: "recv_event list \<Rightarrow> u8 list" where
  "stream_bytes [] = []"
| "stream_bytes (Arrived bs # rest) = bs @ stream_bytes rest"
| "stream_bytes (Recv_Interrupted # rest) = stream_bytes rest"
| "stream_bytes (Recv_Failed # rest) = []"

fun stream_end :: "recv_event list \<Rightarrow> io_result" where
  "stream_end [] = io_kEof"
| "stream_end (Recv_Failed # rest) = io_kError"
| "stream_end (_ # rest) = stream_end rest"

lemma recv_call_stream:
  "0 < n \<Longrightarrow> recv_call n script = (r, script') \<Longrightarrow> stream_end script' = stream_end script \<and>
   (case r of Received bs \<Rightarrow> stream_bytes script = bs @ stream_bytes script' \<and>
        (bs = [] \<longrightarrow> stream_bytes script' = [] \<and> stream_end script = io_kEof)
    | Recv_Eintr \<Rightarrow> stream_bytes script = stream_bytes script'
    | Recv_Error \<Rightarrow> stream_bytes script = [] \<and> stream_bytes script' = [] \<and> stream_end script = io_kError)"
  by (induction n script rule: recv_call.induct) (auto split: if_splits recv_outcome.splits)

text \<open>Interruptions and short transfers are invisible: only the stream decides.\<close>

lemma read_loop_spec:
  "read_loop n buffer script = (r, out, final) \<Longrightarrow>
   r = (if n \<le> length (stream_bytes script) then io_kOk else stream_end script) \<and> out = buffer @ take n (stream_bytes script) \<and>
   stream_bytes final = drop n (stream_bytes script) \<and> stream_end final = stream_end script"
proof (induction n buffer script rule: read_loop.induct)
  case (1 n buffer script)
  show ?case
  proof (cases "n = 0")
    case True
    then show ?thesis using 1(3) by (simp add: read_loop.simps)
  next
    case False
    obtain x script' where c: "recv_call n script = (x, script')" by (cases "recv_call n script")
    note s = recv_call_stream [OF _ c] and l = recv_call_progress [OF _ c]
    show ?thesis
    proof (cases x)
      case (Received bs)
      show ?thesis
      proof (cases bs)
        case Nil
        then show ?thesis using 1(3) False c s Received by (auto simp: read_loop.simps [of n])
      next
        case (Cons b bs')
        have "read_loop (n - length bs) (buffer @ bs) script' = (r, out, final)"
          using 1(3) False c Received Cons by (simp add: read_loop.simps [of n])
        then have IH: "r = (if n - length bs \<le> length (stream_bytes script') then io_kOk else stream_end script') \<and>
            out = (buffer @ bs) @ take (n - length bs) (stream_bytes script') \<and>
            stream_bytes final = drop (n - length bs) (stream_bytes script') \<and> stream_end final = stream_end script'"
          using 1(1) [OF False c [symmetric], of bs b bs'] Received Cons by simp
        have "length bs \<le> n" "stream_bytes script = bs @ stream_bytes script'" "stream_end script' = stream_end script"
          using s l Received False by simp_all
        then show ?thesis using IH by (auto simp: le_diff_conv)
      qed
    next
      case Recv_Eintr
      have "read_loop n buffer script' = (r, out, final)"
        using 1(3) False c Recv_Eintr by (simp add: read_loop.simps [of n])
      from 1(2) [OF False c [symmetric] Recv_Eintr this] s Recv_Eintr False show ?thesis by simp
    next
      case Recv_Error
      then show ?thesis using 1(3) False c s by (auto simp: read_loop.simps [of n])
    qed
  qed
qed

lemma read_exact_spec:
  assumes "read_exact n script = (r, bs, script')"
  shows "r = (if n \<le> length (stream_bytes script) then io_kOk else stream_end script)" "bs = take n (stream_bytes script)"
    "stream_bytes script' = drop n (stream_bytes script)" "stream_end script' = stream_end script"
  using read_loop_spec [of n "[]" script] assms by (simp_all add: read_exact_def)

lemma stream_end_not_ok: "stream_end script \<noteq> io_kOk"
  by (induction script rule: stream_end.induct) simp_all

lemma drain_exactly_spec:
  "drain_exactly n script = (r, script') \<Longrightarrow>
   r = (if n \<le> length (stream_bytes script) then io_kOk else stream_end script) \<and>
   (r = io_kOk \<longrightarrow> stream_bytes script' = drop n (stream_bytes script) \<and> stream_end script' = stream_end script)"
proof (induction n script rule: drain_exactly.induct)
  case (1 n script)
  show ?case
  proof (cases "n = 0")
    case True
    then show ?thesis using 1(2) by (simp add: drain_exactly.simps)
  next
    case False
    define chunk where "chunk = min n kScratchBytes"
    obtain r1 bs s1 where c: "read_exact chunk script = (r1, bs, s1)" by (metis prod_cases3)
    note f = read_exact_spec [OF c]
    have le: "chunk \<le> n" by (simp add: chunk_def)
    show ?thesis
    proof (cases "r1 = io_kOk")
      case True
      then have d: "drain_exactly (n - chunk) s1 = (r, script')"
        using 1(2) False c by (simp add: drain_exactly.simps [of n] Let_def chunk_def)
      have IH: "r = (if n - chunk \<le> length (stream_bytes s1) then io_kOk else stream_end s1) \<and>
          (r = io_kOk \<longrightarrow> stream_bytes script' = drop (n - chunk) (stream_bytes s1) \<and> stream_end script' = stream_end s1)"
        using 1(1) [OF False chunk_def c [symmetric]] True d by simp
      have "chunk \<le> length (stream_bytes script)" using f(1) True stream_end_not_ok by (metis)
      then show ?thesis using IH f le by (auto simp: le_diff_conv)
    next
      case bad: False
      then have "r = r1" "\<not> chunk \<le> length (stream_bytes script)"
        using 1(2) False c f(1) by (auto simp: drain_exactly.simps [of n] Let_def chunk_def split: io_result.splits if_splits)
      then show ?thesis using f(1) le stream_end_not_ok by auto
    qed
  qed
qed

lemma write_loop_spec:
  "write_loop buffer wire script = (r, wire', script') \<Longrightarrow>
   \<exists>n. wire' = wire @ take n buffer \<and> (r = io_kOk \<longrightarrow> wire' = wire @ buffer) \<and> r \<noteq> io_kEof"
proof (induction buffer wire script rule: write_loop.induct)
  case (3 b bs wire n script)
  then obtain m where "wire' = (wire @ take n (b # bs)) @ take m (drop n (b # bs))"
      "r = io_kOk \<longrightarrow> wire' = (wire @ take n (b # bs)) @ drop n (b # bs)" "r \<noteq> io_kEof" by auto
  then show ?case by (metis append_assoc append_take_drop_id take_add)
next
  case (2 b bs wire)
  then show ?case by (intro exI [of _ "length (b # bs)"]) auto
qed (auto intro: exI [of _ 0])

section \<open>Setting sockets up\<close>

text \<open>The system calls are a parameter; a negative result is a failure with \<open>errno\<close> set.\<close>

record 'o net_os =
  os_socket :: "'o \<Rightarrow> int \<times> 'o"
  os_setsockopt :: "int \<Rightarrow> string \<Rightarrow> 'o \<Rightarrow> 'o"
  os_bind :: "int \<Rightarrow> u16 \<Rightarrow> 'o \<Rightarrow> int \<times> 'o"
  os_listen :: "int \<Rightarrow> int \<Rightarrow> 'o \<Rightarrow> int \<times> 'o"
  os_getsockname :: "int \<Rightarrow> 'o \<Rightarrow> (int \<times> u16) \<times> 'o"
  os_inet_pton :: "string \<Rightarrow> u32 option"
  os_connect :: "int \<Rightarrow> u32 \<Rightarrow> u16 \<Rightarrow> 'o \<Rightarrow> int \<times> 'o"
  os_poll :: "int \<Rightarrow> int \<Rightarrow> 'o \<Rightarrow> int \<times> 'o"
  os_accept :: "int \<Rightarrow> 'o \<Rightarrow> int \<times> 'o"
  os_close :: "int \<Rightarrow> 'o \<Rightarrow> 'o"
  os_strerror :: "'o \<Rightarrow> string"
  os_has_nosigpipe :: bool

definition socket_error :: "'o net_os \<Rightarrow> string \<Rightarrow> 'o \<Rightarrow> cpp_exception" where
  "socket_error os what s = Runtime_error (what @ '': '' @ os_strerror os s)"

definition suppress_sigpipe :: "'o net_os \<Rightarrow> int \<Rightarrow> 'o \<Rightarrow> 'o" where
  "suppress_sigpipe os descriptor s = (if os_has_nosigpipe os then os_setsockopt os descriptor ''SO_NOSIGPIPE'' s else s)"

text \<open>Throwing destroys the \<open>Socket\<close>, which closes a valid descriptor after the message was built.\<close>

definition throw_closing :: "'o net_os \<Rightarrow> int \<Rightarrow> cpp_exception \<Rightarrow> ('o, 'a) action" where
  "throw_closing os descriptor e s = (Inl e, fold (os_close os) (snd (socket_close descriptor)) s)"

definition listen_on :: "'o net_os \<Rightarrow> u16 \<Rightarrow> int \<Rightarrow> ('o, int) action" where
  "listen_on os port backlog s =
     (case os_socket os s of (descriptor, s) \<Rightarrow>
        if \<not> socket_valid descriptor then throw_closing os descriptor (socket_error os ''socket()'' s) s
        else case os_bind os descriptor port (suppress_sigpipe os descriptor (os_setsockopt os descriptor ''SO_REUSEADDR'' s)) of (r, s) \<Rightarrow>
          if r \<noteq> 0 then throw_closing os descriptor (socket_error os (''bind(port '' @ show_nat (unat port) @ '')'') s) s
          else case os_listen os descriptor backlog s of (r, s) \<Rightarrow>
            if r \<noteq> 0 then throw_closing os descriptor (socket_error os ''listen()'' s) s
            else (Inr descriptor, s))"

definition local_port :: "'o net_os \<Rightarrow> int \<Rightarrow> ('o, u16) action" where
  "local_port os descriptor s =
     (case os_getsockname os descriptor s of ((r, port), s) \<Rightarrow>
        if r \<noteq> 0 then (Inl (socket_error os ''getsockname()'' s), s) else (Inr port, s))"

definition connect_to :: "'o net_os \<Rightarrow> string \<Rightarrow> u16 \<Rightarrow> ('o, int) action" where
  "connect_to os host port s =
     (case os_socket os s of (descriptor, s) \<Rightarrow>
        if \<not> socket_valid descriptor then throw_closing os descriptor (socket_error os ''socket()'' s) s
        else let s = suppress_sigpipe os descriptor s
             in case os_inet_pton os host of
                  None \<Rightarrow> throw_closing os descriptor (Runtime_error (''not a dotted-quad IPv4 address: '' @ host)) s
                | Some address \<Rightarrow>
                    (case os_connect os descriptor address port s of (r, s) \<Rightarrow>
                       if r \<noteq> 0
                       then throw_closing os descriptor (socket_error os (''connect('' @ host @ '':'' @ show_nat (unat port) @ '')'') s) s
                       else (Inr descriptor, os_setsockopt os descriptor ''TCP_NODELAY'' s)))"

definition accept_with_timeout :: "'o net_os \<Rightarrow> int \<Rightarrow> int \<Rightarrow> 'o \<Rightarrow> int \<times> 'o" where
  "accept_with_timeout os listener timeout_ms s =
     (case os_poll os listener timeout_ms s of (ready, s) \<Rightarrow>
        if ready \<le> 0 then (-1, s)
        else case os_accept os listener s of (accepted, s) \<Rightarrow>
          if socket_valid accepted
          then (accepted, os_setsockopt os accepted ''TCP_NODELAY'' (suppress_sigpipe os accepted s))
          else (accepted, s))"

section \<open>Properties\<close>


end
