(* ===== verification/Client.thy ===== *)
theory Client
  imports Socket_Io
begin

text \<open>
  The pipelining client (\<open>include/imgjit/net/client.h\<close>, \<open>src/net/client.cpp\<close>). A client is connected to
  an inbound and an outbound script; \<open>now\<close> is the reading of the steady clock.
\<close>

section \<open>Text and integers on the wire\<close>

definition text_bytes :: "string \<Rightarrow> u8 list" where
  "text_bytes = map (\<lambda>c. of_nat (of_char c))"

definition bytes_text :: "u8 list \<Rightarrow> string" where
  "bytes_text = map (\<lambda>b. char_of (unat b))"

lemma bytes_text_bytes [simp]: "bytes_text (text_bytes s) = s"
proof -
  have "char_of (unat (of_nat (of_char c) :: u8)) = c" for c :: char
  proof -
    have "(of_char c :: nat) < 256" by (rule nat_of_char_less_256)
    then have "unat (of_nat (of_char c) :: u8) = of_char c" by (simp add: unat_of_nat)
    then show ?thesis by simp
  qed
  then show ?thesis by (simp add: bytes_text_def text_bytes_def comp_def)
qed

lemma text_bytes_length [simp]: "length (text_bytes s) = length s"
  by (simp add: text_bytes_def)

section \<open>State and operations\<close>

record pending_frame =
  pf_seq_num :: u32
  pf_chain :: string
  pf_width :: int
  pf_height :: int
  pf_channels :: int
  pf_flags :: u8
  pf_sent_at :: int

definition no_frame :: pending_frame where
  "no_frame = \<lparr>pf_seq_num = 0, pf_chain = [], pf_width = 0, pf_height = 0, pf_channels = 0, pf_flags = 0, pf_sent_at = 0\<rparr>"

record client_response =
  cr_version :: u8
  cr_status :: status
  cr_seq_num :: u32
  cr_image :: image
  cr_matched :: bool
  cr_request :: pending_frame

record client =
  cl_inbound :: "recv_event list"
  cl_outbound :: "u8 list \<times> send_event list"
  cl_next_seq_num :: u32
  cl_pending :: "u32 \<rightharpoonup> pending_frame"

definition new_client :: "recv_event list \<Rightarrow> send_event list \<Rightarrow> client" where
  "new_client inbound sends = \<lparr>cl_inbound = inbound, cl_outbound = ([], sends), cl_next_seq_num = 1, cl_pending = Map.empty\<rparr>"

text \<open>The three writes of a frame, stopping at the first that fails.\<close>

definition write_frame :: "u8 list \<Rightarrow> u8 list \<Rightarrow> u8 list \<Rightarrow> u8 list \<times> send_event list \<Rightarrow> bool \<times> u8 list \<times> send_event list" where
  "write_frame header chain payload out =
     (case write_exact header out of (r, out) \<Rightarrow>
        if r \<noteq> io_kOk then (False, out)
        else case write_exact chain out of (r, out) \<Rightarrow>
          if r \<noteq> io_kOk then (False, out)
          else case write_exact payload out of (r, out) \<Rightarrow> (r = io_kOk, out))"

text \<open>\<open>std::map::emplace\<close> keeps an entry that is already there.\<close>

definition emplace :: "u32 \<Rightarrow> pending_frame \<Rightarrow> (u32 \<rightharpoonup> pending_frame) \<Rightarrow> (u32 \<rightharpoonup> pending_frame)" where
  "emplace k v m = (if m k = None then m(k \<mapsto> v) else m)"

definition client_header :: "u32 \<Rightarrow> image \<Rightarrow> string \<Rightarrow> u8 \<Rightarrow> request_header" where
  "client_header seq_num img chain flags =
     \<lparr>rq_magic = kMagic, rq_version = kVersion, rq_flags = flags, rq_seq_num = seq_num,
      rq_width = word_of_int (im_width img), rq_height = word_of_int (im_height img),
      rq_channels = word_of_int (im_channels img), rq_payload_len = of_nat (byte_count img),
      rq_chain_len = of_nat (length chain)\<rparr>"

definition client_send :: "int \<Rightarrow> image \<Rightarrow> string \<Rightarrow> u8 \<Rightarrow> (client, u32) action" where
  "client_send now img chain flags c =
     (let seq_num = cl_next_seq_num c;
          header = client_header seq_num img chain flags
      in case write_frame (encode_request_header header) (text_bytes chain) (im_pixels img) (cl_outbound c) of (sent, out) \<Rightarrow>
           let c = c\<lparr>cl_next_seq_num := seq_num + 1, cl_outbound := out\<rparr>
           in if \<not> sent
              then (Inl (Runtime_error (''imgjit client: connection closed while sending frame '' @ show_nat (unat seq_num))), c)
              else (Inr seq_num, c\<lparr>cl_pending := emplace seq_num
                      \<lparr>pf_seq_num = seq_num, pf_chain = chain, pf_width = im_width img, pf_height = im_height img,
                       pf_channels = im_channels img, pf_flags = flags, pf_sent_at = now\<rparr> (cl_pending c)\<rparr>))"

definition client_send_raw :: "int \<Rightarrow> request_header \<Rightarrow> string \<Rightarrow> u8 list \<Rightarrow> (client, unit) action" where
  "client_send_raw now header chain payload c =
     (case write_frame (encode_request_header header) (text_bytes chain) payload (cl_outbound c) of (sent, out) \<Rightarrow>
        let c = c\<lparr>cl_outbound := out\<rparr>
        in if \<not> sent then (Inl (Runtime_error ''imgjit client: connection closed while sending raw frame''), c)
           else (Inr (), c\<lparr>cl_pending := emplace (rq_seq_num header)
                    \<lparr>pf_seq_num = rq_seq_num header, pf_chain = chain, pf_width = sint (rq_width header),
                     pf_height = sint (rq_height header), pf_channels = uint (rq_channels header),
                     pf_flags = rq_flags header, pf_sent_at = now\<rparr> (cl_pending c),
                   cl_next_seq_num := max (cl_next_seq_num c) (rq_seq_num header + 1)\<rparr>))"

definition response_product :: "response_header \<Rightarrow> u64" where
  "response_product header = ucast (rs_width header) * ucast (rs_height header) * ucast (rs_channels header)"

text \<open>The payload of a response: the image, or the exception.\<close>

definition receive_payload :: "response_header \<Rightarrow> (recv_event list, image) action" where
  "receive_payload header inbound =
     (if rs_payload_len header = 0 then (Inr empty_image, inbound)
      else if response_product header \<noteq> ucast (rs_payload_len header) \<or> rs_payload_len header > kMaxPayloadBytes
      then (Inl (Runtime_error ''imgjit client: response payload disagrees with its dimensions''), inbound)
      else case new_image (sint (rs_width header)) (sint (rs_height header)) (uint (rs_channels header)) of
             Inl e \<Rightarrow> (Inl e, inbound)
           | Inr img \<Rightarrow>
               (case read_exact (unat (rs_payload_len header)) inbound of (r, bytes, inbound) \<Rightarrow>
                  if r \<noteq> io_kOk then (Inl (Runtime_error ''imgjit client: connection closed mid-payload''), inbound)
                  else (Inr (img\<lparr>im_pixels := bytes @ drop (length bytes) (im_pixels img)\<rparr>), inbound)))"

definition client_receive :: "(client, client_response) action" where
  "client_receive c =
     (case read_exact kResponseHeaderBytes (cl_inbound c) of (r, header_bytes, inbound) \<Rightarrow>
        let c = c\<lparr>cl_inbound := inbound\<rparr>
        in if r \<noteq> io_kOk then (Inl (Runtime_error ''imgjit client: connection closed while awaiting a response''), c)
           else case decode_response_header (Some header_bytes) (length header_bytes) of
             None \<Rightarrow> (Inl (Runtime_error ''imgjit client: response frame has a bad magic''), c)
           | Some header \<Rightarrow>
               if rs_magic header \<noteq> kMagic then (Inl (Runtime_error ''imgjit client: response frame has a bad magic''), c)
               else case receive_payload header (cl_inbound c) of
                 (Inl e, inbound) \<Rightarrow> (Inl e, c\<lparr>cl_inbound := inbound\<rparr>)
               | (Inr img, inbound) \<Rightarrow>
                   let c = c\<lparr>cl_inbound := inbound\<rparr>;
                       response = \<lparr>cr_version = rs_version header, cr_status = rs_status header, cr_seq_num = rs_seq_num header,
                         cr_image = img, cr_matched = False, cr_request = no_frame\<rparr>
                   in case cl_pending c (rs_seq_num header) of
                        None \<Rightarrow> (Inr response, c)
                      | Some request \<Rightarrow> (Inr (response\<lparr>cr_matched := True, cr_request := request\<rparr>),
                                         c\<lparr>cl_pending := (cl_pending c)(rs_seq_num header := None)\<rparr>))"

section \<open>Facts about sending\<close>

lemma write_exact_ok:
  assumes "write_exact bytes out = (r, out')"
  shows "r = io_kOk \<Longrightarrow> fst out' = fst out @ bytes"
  using write_loop_spec [of bytes "fst out" "snd out"] assms
  by (cases out; cases out') (auto simp: write_exact_def)

lemma write_frame_ok:
  assumes "write_frame h c p out = (True, out')"
  shows "fst out' = fst out @ h @ c @ p"
  using assms by (auto simp: write_frame_def split: prod.splits if_splits dest!: write_exact_ok)

text \<open>With a peer that keeps reading every write succeeds.\<close>

lemma write_exact_open: "write_exact bytes (wire, []) = (io_kOk, wire @ bytes, [])"
  by (cases bytes) (simp_all add: write_exact_def)

lemma client_send_open:
  assumes "snd (cl_outbound c) = []"
  shows "\<exists>q c'. client_send now img chain flags c = (Inr q, c') \<and> snd (cl_outbound c') = [] \<and> cl_inbound c' = cl_inbound c"
  using assms by (cases "cl_outbound c") (simp add: client_send_def write_frame_def write_exact_open Let_def)

section \<open>The pending table\<close>

lemma client_send_pending:
  assumes "client_send now img chain flags c = (Inr q, c')"
  shows "q = cl_next_seq_num c" "cl_next_seq_num c' = q + 1" "dom (cl_pending c') = insert q (dom (cl_pending c))"
  using assms by (auto simp: client_send_def Let_def emplace_def split: prod.splits if_splits)

lemma client_receive_pending:
  assumes "client_receive c = (Inr response, c')" "cr_matched response"
  shows "cl_next_seq_num c' = cl_next_seq_num c" "\<exists>q \<in> dom (cl_pending c). dom (cl_pending c') = dom (cl_pending c) - {q}"
  using assms by (auto simp: client_receive_def Let_def split: prod.splits if_splits option.splits sum.splits)

end
