(* ===== verification/Server.thy ===== *)
theory Server
  imports Client Bounded_Queue Backend
begin

text \<open>
  The handlers of the server (\<open>include/imgjit/net/server.h\<close>, \<open>src/net/server.cpp\<close>): the outbox, the
  bookkeeping of a connection, what a reader does with one frame of the stream, what the
  writer does with one response. \<open>Server_Steps\<close> interleaves them.
\<close>

section \<open>Configuration\<close>

record server_config =
  sc_port :: u16
  sc_output_dir :: string
  sc_num_slots :: nat
  sc_max_payload_bytes :: u32
  sc_slots_per_connection :: nat
  sc_queue_capacity :: nat
  sc_backlog :: int

definition default_config :: server_config where
  "default_config = \<lparr>sc_port = 0, sc_output_dir = ''.'', sc_num_slots = 8, sc_max_payload_bytes = 8 * 1024 * 1024,
     sc_slots_per_connection = 2, sc_queue_capacity = 16, sc_backlog = 16\<rparr>"

definition server_limits :: "server_config \<Rightarrow> limits" where
  "server_limits config = default_limits\<lparr>max_payload_bytes := sc_max_payload_bytes config\<rparr>"

section \<open>The outbox\<close>

record response =
  re_seq_num :: u32
  re_status :: status
  re_echo :: bool
  re_write_file :: bool
  re_image :: image

definition error_response :: "u32 \<Rightarrow> status \<Rightarrow> response" where
  "error_response seq_num status =
     \<lparr>re_seq_num = seq_num, re_status = status, re_echo = False, re_write_file = False, re_image = empty_image\<rparr>"

record outbox =
  ob_items :: "response list"
  ob_closed :: bool

definition new_outbox :: outbox where "new_outbox = \<lparr>ob_items = [], ob_closed = False\<rparr>"

text \<open>\<open>push\<close> is \<open>void\<close> in the code; the Boolean says whether the response was kept.\<close>

definition outbox_push :: "response \<Rightarrow> outbox \<Rightarrow> bool blocking \<times> outbox" where
  "outbox_push r ob = (if ob_closed ob then (Returns False, ob) else (Returns True, ob\<lparr>ob_items := ob_items ob @ [r]\<rparr>))"

definition outbox_pop :: "outbox \<Rightarrow> response option blocking \<times> outbox" where
  "outbox_pop ob =
     (if \<not> (ob_closed ob \<or> ob_items ob \<noteq> []) then (Waits, ob)
      else case ob_items ob of
             [] \<Rightarrow> (Returns None, ob)
           | r # rest \<Rightarrow> (Returns (Some r), ob\<lparr>ob_items := rest\<rparr>))"

definition outbox_close :: "outbox \<Rightarrow> outbox" where
  "outbox_close ob = ob\<lparr>ob_closed := True\<rparr>"

interpretation outbox_queue: closable_queue ob_items ob_closed outbox_push outbox_pop outbox_close
  by unfold_locales (auto simp: outbox_push_def outbox_pop_def outbox_close_def split: if_splits list.splits)

section \<open>Frames and jobs\<close>

record in_flight =
  if_connection :: nat
  if_seq_num :: u32
  if_flags :: u8
  if_slot :: nat

record queued_frame =
  qf_connection :: nat
  qf_seq_num :: u32
  qf_flags :: u8
  qf_slot :: nat
  qf_width :: int
  qf_height :: int
  qf_channels :: int
  qf_chain :: op_chain

definition entry_of :: "queued_frame \<Rightarrow> in_flight" where
  "entry_of f = \<lparr>if_connection = qf_connection f, if_seq_num = qf_seq_num f, if_flags = qf_flags f, if_slot = qf_slot f\<rparr>"

definition frame_of :: "nat \<Rightarrow> request_header \<Rightarrow> op_chain \<Rightarrow> nat \<Rightarrow> queued_frame" where
  "frame_of connection header chain index =
     \<lparr>qf_connection = connection, qf_seq_num = rq_seq_num header, qf_flags = rq_flags header, qf_slot = index,
      qf_width = sint (rq_width header), qf_height = sint (rq_height header), qf_channels = uint (rq_channels header),
      qf_chain = chain\<rparr>"

text \<open>\<open>bytes\<close> is what the frame's slot holds.\<close>

definition job_of :: "queued_frame \<Rightarrow> u8 list \<Rightarrow> frame_job" where
  "job_of f bytes =
     \<lparr>job_input = Some bytes, job_width = qf_width f, job_height = qf_height f, job_channels = qf_channels f,
      job_stride = unat ((word_of_int (qf_width f) :: u64) * word_of_int (qf_channels f)), job_chain = qf_chain f\<rparr>"

text \<open>The response to a job that the backend completed, and to one whose submission threw.\<close>

definition response_of :: "in_flight \<Rightarrow> completion \<Rightarrow> response" where
  "response_of job completion =
     (let response = \<lparr>re_seq_num = if_seq_num job, re_status = kOk, re_echo = (if_flags job AND kFlagEcho \<noteq> 0),
                      re_write_file = False, re_image = empty_image\<rparr>
      in if cp_status completion = job_kOk
         then response\<lparr>re_write_file := (if_flags job AND kFlagServerWrite \<noteq> 0), re_image := cp_output completion\<rparr>
         else response\<lparr>re_status := kInternalError\<rparr>)"

definition refused_response :: "queued_frame \<Rightarrow> response" where
  "refused_response f = (error_response (qf_seq_num f) kInternalError)\<lparr>re_echo := (qf_flags f AND kFlagEcho \<noteq> 0)\<rparr>"

section \<open>One frame of the inbound stream\<close>

datatype reader_outcome =
    Reader_Returns
  | Rejects u32 status bool
  | Admits request_header op_chain

text \<open>
  The answer to a bad frame: the \<open>bool\<close> of \<open>Rejects\<close> says whether the connection goes on, which
  is after the rest of the frame was skipped.
\<close>

definition reject_frame :: "request_header \<Rightarrow> status \<Rightarrow> nat \<Rightarrow> recv_event list \<Rightarrow> reader_outcome \<times> recv_event list" where
  "reject_frame header status unread script =
     (if disposition_for status = kClose then (Rejects (rq_seq_num header) status False, script)
      else case drain_exactly unread script of (r, script) \<Rightarrow> (Rejects (rq_seq_num header) status (r = io_kOk), script))"

definition read_chain :: "request_header \<Rightarrow> recv_event list \<Rightarrow> io_result \<times> u8 list \<times> recv_event list" where
  "read_chain header script =
     (if rq_chain_len header > 0 then read_exact (unat (rq_chain_len header)) script else (io_kOk, [], script))"

definition read_request :: "limits \<Rightarrow> recv_event list \<Rightarrow> reader_outcome \<times> recv_event list" where
  "read_request limits script =
     (case read_exact kRequestHeaderBytes script of (r, header_bytes, script) \<Rightarrow>
        if r \<noteq> io_kOk then (Reader_Returns, script)
        else
          let header = the (decode_request_header (Some header_bytes) (length header_bytes));
              unread = unat (rq_chain_len header) + unat (rq_payload_len header);
              status = validate_request_header header limits
          in if status \<noteq> kOk then reject_frame header status unread script
             else case read_chain header script of (r, chain_bytes, script) \<Rightarrow>
               if r \<noteq> io_kOk then (Reader_Returns, script)
               else case parse_op_chain (bytes_text chain_bytes) of
                      Inr chain \<Rightarrow> (Admits header chain, script)
                    | Inl _ \<Rightarrow> reject_frame header kBadChain (unread - unat (rq_chain_len header)) script)"

section \<open>One response on the outbound stream\<close>

definition response_header_of :: "response \<Rightarrow> response_header" where
  "response_header_of response =
     (let header = \<lparr>rs_magic = kMagic, rs_version = kVersion, rs_status = re_status response, rs_seq_num = re_seq_num response,
                    rs_width = 0, rs_height = 0, rs_channels = 0, rs_payload_len = 0\<rparr>
      in if re_status response = kOk
         then header\<lparr>rs_width := word_of_int (im_width (re_image response)), rs_height := word_of_int (im_height (re_image response)),
                rs_channels := word_of_int (im_channels (re_image response)),
                rs_payload_len := (if re_echo response then of_nat (byte_count (re_image response)) else 0)\<rparr>
         else header)"

definition output_path :: "string \<Rightarrow> u64 \<Rightarrow> response \<Rightarrow> string" where
  "output_path output_dir connection_id response =
     output_dir @ ''/frame_'' @ show_nat (unat connection_id) @ ''_'' @ show_nat (unat (re_seq_num response)) @ ''.png''"

text \<open>\<open>save\<close> is \<open>save_png\<close>: whether it wrote the image to the path or threw.\<close>

definition write_file_if_asked :: "(string \<Rightarrow> image \<Rightarrow> bool) \<Rightarrow> string \<Rightarrow> u64 \<Rightarrow> response \<Rightarrow> response" where
  "write_file_if_asked save output_dir connection_id response =
     (if re_write_file response \<and> re_status response = kOk \<and> \<not> save (output_path output_dir connection_id response) (re_image response)
      then response\<lparr>re_status := kInternalError\<rparr> else response)"

text \<open>The writes of one response; the \<open>bool\<close> is whether the socket is still alive.\<close>

definition write_response :: "response \<Rightarrow> u8 list \<times> send_event list \<Rightarrow> bool \<times> u8 list \<times> send_event list" where
  "write_response response out =
     (let header = response_header_of response
      in case write_exact (encode_response_header header) out of (r, out) \<Rightarrow>
           if r = io_kOk \<and> rs_payload_len header > 0
           then (case write_exact (take (unat (rs_payload_len header)) (im_pixels (re_image response))) out of (r, out) \<Rightarrow> (r = io_kOk, out))
           else (r = io_kOk, out))"

section \<open>The two ends of the wire\<close>

lemma read_exact_stream:
  assumes "stream_bytes script = bs @ rest" "length bs = n"
  obtains script' where "read_exact n script = (io_kOk, bs, script')" "stream_bytes script' = rest"
    "stream_end script' = stream_end script"
proof -
  obtain r out script' where c: "read_exact n script = (r, out, script')" by (metis prod_cases3)
  from read_exact_spec [OF c] assms have "r = io_kOk" "out = bs" "stream_bytes script' = rest" "stream_end script' = stream_end script"
    by simp_all
  with c that show thesis by blast
qed

lemma read_chain_stream:
  assumes "stream_bytes script = bs @ rest" "length bs = unat (rq_chain_len h)"
  obtains script' where "read_chain h script = (io_kOk, bs, script')" "stream_bytes script' = rest"
    "stream_end script' = stream_end script"
proof (cases "rq_chain_len h > 0")
  case True
  with read_exact_stream [OF assms] that show thesis unfolding read_chain_def by (metis (full_types))
next
  case False
  then have "rq_chain_len h = 0" by (simp add: word_gt_0)
  with False assms that [of script] show thesis by (simp add: read_chain_def)
qed

text \<open>A header, on the stream in front of \<open>rest\<close>: what \<open>reader_loop\<close> makes of it.\<close>

lemma read_request_rejected_header:
  assumes "stream_bytes script = encode_request_header h @ rest" "validate_request_header h limits = status" "status \<noteq> kOk"
  obtains script' where "read_request limits script =
      reject_frame h status (unat (rq_chain_len h) + unat (rq_payload_len h)) script'"
    "stream_bytes script' = rest" "stream_end script' = stream_end script"
proof -
  obtain script' where r: "read_exact kRequestHeaderBytes script = (io_kOk, encode_request_header h, script')"
      "stream_bytes script' = rest" "stream_end script' = stream_end script"
    by (rule read_exact_stream [OF assms(1) request_codec.encode_size])
  with assms(2,3) that show thesis by (simp add: read_request_def request_decode_encode Let_def)
qed

lemma read_request_valid_header:
  assumes "stream_bytes script = encode_request_header h @ chain @ rest" "length chain = unat (rq_chain_len h)"
    "validate_request_header h limits = kOk"
  obtains script' where "stream_bytes script' = rest" "stream_end script' = stream_end script"
    "read_request limits script = (case parse_op_chain (bytes_text chain) of
        Inr ops \<Rightarrow> (Admits h ops, script') | Inl e \<Rightarrow> reject_frame h kBadChain (unat (rq_payload_len h)) script')"
proof -
  obtain s1 where r: "read_exact kRequestHeaderBytes script = (io_kOk, encode_request_header h, s1)"
      "stream_bytes s1 = chain @ rest" "stream_end s1 = stream_end script"
    by (rule read_exact_stream [OF assms(1) request_codec.encode_size])
  obtain s2 where c: "read_chain h s1 = (io_kOk, chain, s2)" "stream_bytes s2 = rest" "stream_end s2 = stream_end s1"
    by (rule read_chain_stream [OF r(2) assms(2)])
  show thesis
    by (rule that [OF c(2)])
      (use r c assms(3) in \<open>simp_all add: read_request_def request_decode_encode Let_def split: sum.splits\<close>)
qed

lemma reject_frame_drains:
  assumes "disposition_for status = kDrain" "stream_bytes script = skipped @ rest" "length skipped = unread"
  obtains script' where "reject_frame h status unread script = (Rejects (rq_seq_num h) status True, script')"
    "stream_bytes script' = rest"
proof -
  obtain r script' where d: "drain_exactly unread script = (r, script')" by (cases "drain_exactly unread script")
  from drain_exactly_spec [OF d] assms(2,3) have "r = io_kOk" "stream_bytes script' = rest" by auto
  with d assms(1) that show thesis by (simp add: reject_frame_def)
qed

lemma reject_frame_continues:
  assumes "reject_frame h status unread script = (Rejects seq st True, script')"
  shows "seq = rq_seq_num h" "st = status" "unread \<le> length (stream_bytes script)"
    "stream_bytes script' = drop unread (stream_bytes script)"
proof -
  obtain r s1 where d: "drain_exactly unread script = (r, s1)" by (cases "drain_exactly unread script")
  have e: "r = io_kOk" "s1 = script'" "seq = rq_seq_num h" "st = status"
    using assms d by (auto simp: reject_frame_def split: if_splits)
  then show "seq = rq_seq_num h" "st = status" by simp_all
  from drain_exactly_spec [OF d] e stream_end_not_ok [of script]
  show "unread \<le> length (stream_bytes script)" "stream_bytes script' = drop unread (stream_bytes script)"
    by (auto split: if_splits)
qed

text \<open>The header a client builds, for an image whose dimensions an \<open>int\<close> can hold.\<close>

definition sendable :: "limits \<Rightarrow> image \<Rightarrow> string \<Rightarrow> bool" where
  "sendable limits img chain \<longleftrightarrow> image_wf img \<and> im_width img < 2 ^ 31 \<and> im_height img < 2 ^ 31 \<and>
     byte_count img \<le> unat (max_payload_bytes limits) \<and> length chain \<le> unat (max_chain_len limits)"

lemma unat_of_nat_le: "n \<le> unat (w :: 'a::len word) \<Longrightarrow> unat (of_nat n :: 'a word) = n"
  by (simp add: unat_of_nat order_le_less_trans [OF _ unsigned_less])

lemma client_header_fields:
  assumes "sendable limits img chain"
  shows "uint (rq_width (client_header seq img chain flags)) = im_width img"
    "uint (rq_height (client_header seq img chain flags)) = im_height img"
    "uint (rq_channels (client_header seq img chain flags)) = im_channels img"
    "unat (rq_payload_len (client_header seq img chain flags)) = byte_count img"
    "unat (rq_chain_len (client_header seq img chain flags)) = length chain"
    "sint (rq_width (client_header seq img chain flags)) = im_width img"
    "sint (rq_height (client_header seq img chain flags)) = im_height img"
proof -
  have r: "0 < im_width img" "im_width img < 2 ^ 31" "0 < im_height img" "im_height img < 2 ^ 31"
      "im_channels img \<in> {1, 3, 4}"
    using assms by (auto simp: sendable_def image_wf_def is_supported_channel_count_def)
  have small: "uint (word_of_int i :: u32) = i \<and> sint (word_of_int i :: u32) = i" if "0 < i" "i < 2 ^ 31" for i
    using that by (simp add: uint_word_of_int_eq take_bit_int_eq_self int_word_sint)
  show "uint (rq_width (client_header seq img chain flags)) = im_width img"
    "uint (rq_height (client_header seq img chain flags)) = im_height img"
    "sint (rq_width (client_header seq img chain flags)) = im_width img"
    "sint (rq_height (client_header seq img chain flags)) = im_height img"
    using small r by (simp_all add: client_header_def)
  show "uint (rq_channels (client_header seq img chain flags)) = im_channels img"
    using r(5) by (auto simp: client_header_def)
  show "unat (rq_payload_len (client_header seq img chain flags)) = byte_count img"
    "unat (rq_chain_len (client_header seq img chain flags)) = length chain"
    using assms by (auto simp: client_header_def sendable_def intro!: unat_of_nat_le)
qed

lemma client_header_valid:
  assumes "sendable limits img chain"
  shows "validate_request_header (client_header seq img chain flags) limits = kOk"
proof -
  define h where "h = client_header seq img chain flags"
  note f = client_header_fields [OF assms, of seq flags, folded h_def]
  have wf: "image_wf img" and l: "byte_count img \<le> unat (max_payload_bytes limits)" "length chain \<le> unat (max_chain_len limits)"
    and b: "im_width img < 2 ^ 31" "im_height img < 2 ^ 31"
    using assms by (simp_all add: sendable_def)
  have n: "unat (rq_width h) = img_w img" "unat (rq_height h) = img_h img" "unat (rq_channels h) = img_c img"
    using f(1-3) by (simp_all add: unat_eq_nat_uint)
  have shape: "0 < img_w img" "0 < img_h img" "is_supported_channel_count (uint (rq_channels h))"
      "byte_count img = img_w img * img_h img * img_c img"
    using wf f(3) by (simp_all add: image_wf_def byte_count_def)
  have "unat (dimension_product h) = img_w img * img_h img * img_c img"
    using dimension_product_exact [of h] n b supported_channels_small [OF shape(3)] by simp
  then have "dimension_product h = ucast (rq_payload_len h)"
    using f(4) shape(4) by (simp add: word_eq_iff_unsigned [where 'a = nat] unat_ucast_up)
  moreover have "rq_width h \<noteq> 0" "rq_height h \<noteq> 0" using n shape(1,2) by auto
  moreover have "rq_magic h = kMagic" "rq_version h = kVersion" by (simp_all add: h_def client_header_def)
  moreover have "rq_payload_len h \<le> max_payload_bytes limits" "rq_chain_len h \<le> max_chain_len limits"
    using f(4,5) l by (simp_all add: word_le_nat_alt)
  ultimately show ?thesis unfolding h_def [symmetric] validate_ok_iff using shape(3) by blast
qed

lemma client_send_wire:
  assumes "client_send now img chain flags c = (Inr seq, c')"
  shows "seq = cl_next_seq_num c"
    "fst (cl_outbound c') = fst (cl_outbound c) @ encode_request_header (client_header seq img chain flags) @ text_bytes chain @ im_pixels img"
  using assms by (auto simp: client_send_def Let_def split: prod.splits if_splits dest!: write_frame_ok)

lemma frame_stride:
  assumes "sendable limits img chain"
  shows "unat ((word_of_int (im_width img) :: u64) * word_of_int (im_channels img)) = im_stride img"
  using assms stride_exact [of "im_width img" "im_channels img"] by (auto simp: sendable_def image_wf_def is_supported_channel_count_def)

section \<open>Properties\<close>

text \<open>
  C15: A request crosses the wire intact. However the kernel cuts the stream, when the client's \<open>send\<close> returned
  and its image and chain are within the server's limits, the server's reader admits the frame with exactly
  the header the client built, under the number it returned, and with the client's chain as the parser reads
  it, and leaves exactly the pixels in front of what follows; the job made from them decodes to the client's
  image, whatever stale bytes the slot holds behind them. When the chain does not parse, the answer is a
  bad-chain response to that number and the stream stands at the next frame.
\<close>

theorem request_crosses_the_wire:
  assumes "client_send now img chain flags c = (Inr seq, c')" "sendable limits img chain"
    "fst (cl_outbound c') = fst (cl_outbound c) @ sent" "stream_bytes script = sent @ rest"
  shows "\<exists>script'. case parse_op_chain chain of
      Inr ops \<Rightarrow> read_request limits script = (Admits (client_header seq img chain flags) ops, script') \<and>
        stream_bytes script' = im_pixels img @ rest \<and>
        (let job = job_of (frame_of k (client_header seq img chain flags) ops i) (im_pixels img @ stale)
         in image_from_bytes (job_width job) (job_height job) (job_channels job) (the (job_input job)) (job_stride job) = Inr img \<and>
            job_chain job = ops)
    | Inl _ \<Rightarrow> read_request limits script = (Rejects seq kBadChain True, script') \<and> stream_bytes script' = rest"
proof -
  define h where "h = client_header seq img chain flags"
  note f = client_header_fields [OF assms(2), of seq flags, folded h_def]
  have stream: "stream_bytes script = encode_request_header h @ text_bytes chain @ im_pixels img @ rest"
    using client_send_wire(2) [OF assms(1)] assms(3,4) by (simp add: h_def)
  obtain s1 where s1: "stream_bytes s1 = im_pixels img @ rest"
      "read_request limits script = (case parse_op_chain (bytes_text (text_bytes chain)) of
        Inr ops \<Rightarrow> (Admits h ops, s1) | Inl e \<Rightarrow> reject_frame h kBadChain (unat (rq_payload_len h)) s1)"
    using read_request_valid_header [OF stream _ client_header_valid [OF assms(2), of seq flags, folded h_def]] f(5)
    by auto
  show ?thesis
  proof (cases "parse_op_chain chain")
    case (Inr ops)
    have wf: "image_wf img" using assms(2) by (simp add: sendable_def)
    have "unat ((word_of_int (im_width img) :: u64) * word_of_int (im_channels img)) = im_stride img"
      using frame_stride [OF assms(2)] by simp
    with image_from_bytes_same [OF wf, of stale] Inr s1 f(3,6,7) show ?thesis
      by (simp add: h_def [symmetric] frame_of_def job_of_def Let_def)
  next
    case (Inl e)
    have "disposition_for kBadChain = kDrain" by (simp add: disposition_for_def status_defs)
    then obtain s2 where "reject_frame h kBadChain (unat (rq_payload_len h)) s1 = (Rejects (rq_seq_num h) kBadChain True, s2)"
        "stream_bytes s2 = rest"
      using reject_frame_drains [OF _ s1(1)] f(4) by (metis byte_count_def)
    with Inl s1 show ?thesis by (auto simp: h_def client_header_def)
  qed
qed

definition dot_image :: image where
  "dot_image = \<lparr>im_width = 1, im_height = 1, im_channels = 1, im_stride = 1, im_pixels = [7]\<rparr>"

lemma dot_sendable: "length chain \<le> 256 \<Longrightarrow> sendable default_limits dot_image chain"
  by (simp add: sendable_def image_wf_def dot_image_def byte_count_def default_limits_def kMaxPayloadBytes_def kMaxChainLen_def
      is_supported_channel_count_def)

lemma dot_sent: "fst (client_send 0 dot_image chain 1 (new_client [] [])) = Inr 1"
  by (simp add: client_send_def new_client_def write_frame_def write_exact_open Let_def)

theorem request_crosses_the_wire_witness:
  "\<exists>ops script'. parse_op_chain ''invert'' = Inr ops \<and>
     read_request default_limits [Arrived (fst (cl_outbound (snd (client_send 0 dot_image ''invert'' 1 (new_client [] [])))))] =
       (Admits (client_header 1 dot_image ''invert'' 1) ops, script')"
proof -
  define c where "c = client_send 0 dot_image ''invert'' 1 (new_client [] [])"
  have p: "parse_op_chain ''invert'' = Inr [\<lparr>kind = kInvert, param = 0\<rparr>]" by code_simp
  have c: "client_send 0 dot_image ''invert'' 1 (new_client [] []) = (Inr 1, snd c)"
    using dot_sent [of "''invert''"] by (simp add: c_def prod_eq_iff)
  have "\<exists>s. read_request default_limits [Arrived (fst (cl_outbound (snd c)))] =
      (Admits (client_header 1 dot_image ''invert'' 1) [\<lparr>kind = kInvert, param = 0\<rparr>], s)"
    using request_crosses_the_wire [OF c dot_sendable, where sent = "fst (cl_outbound (snd c))" and rest = "[]" and
        script = "[Arrived (fst (cl_outbound (snd c)))]" and k = 0 and i = 0 and stale = "[]"]
    by (auto simp: p new_client_def)
  with p show ?thesis by (auto simp: c_def)
qed

text \<open>
  C17: A rejected frame costs only itself: whenever the reader answers a frame with an error and goes on, the
  stream began with a whole frame, namely some header followed by the chain and payload bytes it announces,
  the answer carries that header's sequence number, and the stream stands exactly at the first byte behind that frame.
\<close>

theorem rejection_resynchronises:
  assumes "read_request limits script = (Rejects seq status True, script')"
  shows "\<exists>h body. stream_bytes script = encode_request_header h @ body @ stream_bytes script' \<and>
    length body = unat (rq_chain_len h) + unat (rq_payload_len h) \<and> seq = rq_seq_num h \<and> status \<noteq> kOk \<and>
    disposition_for status \<noteq> kClose"
proof -
  obtain r bs s1 where x: "read_exact kRequestHeaderBytes script = (r, bs, s1)" by (metis prod_cases3)
  note f = read_exact_spec [OF x]
  have ok: "r = io_kOk" using assms x by (auto simp: read_request_def split: if_splits)
  then have len: "length bs = kRequestHeaderBytes" using f(1,2) stream_end_not_ok [of script] by (auto split: if_splits)
  obtain h where h: "decode_request bs = Some h" "encode_request_header h = bs"
    using request_codec.decode_bijective [OF len] by blast
  have stream: "stream_bytes script = encode_request_header h @ stream_bytes s1" using f h(2) by simp
  let ?bad = "validate_request_header h limits"
  show ?thesis
  proof (cases "?bad = kOk")
    case False
    obtain s2 where s2: "read_request limits script = reject_frame h ?bad (unat (rq_chain_len h) + unat (rq_payload_len h)) s2"
        "stream_bytes s2 = stream_bytes s1"
      using read_request_rejected_header [OF stream refl False] by blast
    note d = reject_frame_continues [OF assms [unfolded s2(1)]]
    have "disposition_for status \<noteq> kClose" using assms s2(1) d(2) by (auto simp: reject_frame_def split: if_splits)
    with False d s2(2) stream show ?thesis
      by (intro exI [of _ h] exI [of _ "take (unat (rq_chain_len h) + unat (rq_payload_len h)) (stream_bytes s1)"]) simp
  next
    case True
    obtain r2 chain s2 where y: "read_chain h s1 = (r2, chain, s2)" by (metis prod_cases3)
    have step: "r2 = io_kOk \<and> reject_frame h kBadChain (unat (rq_payload_len h)) s2 = (Rejects seq status True, script')"
      using assms x ok h(1) y True by (auto simp: read_request_def Let_def split: if_splits sum.splits)
    have chain: "stream_bytes s1 = chain @ stream_bytes s2 \<and> length chain = unat (rq_chain_len h)"
      using y step read_exact_spec [of "unat (rq_chain_len h)" s1 r2 chain s2] stream_end_not_ok [of s1]
      by (auto simp: read_chain_def word_gt_0 split: if_splits)
    note d = reject_frame_continues [OF conjunct2 [OF step]]
    have "kBadChain \<noteq> kOk" "disposition_for kBadChain \<noteq> kClose" by (simp_all add: disposition_for_def status_defs)
    with d chain stream show ?thesis
      by (intro exI [of _ h] exI [of _ "chain @ take (unat (rq_payload_len h)) (stream_bytes s2)"]) simp
  qed
qed

definition two_channel_header :: request_header where
  "two_channel_header = (client_header 5 dot_image [] 0)\<lparr>rq_channels := 2\<rparr>"

theorem rejection_resynchronises_witness:
  "\<exists>script'. stream_bytes script' = [1, 2, 3] \<and>
     read_request default_limits [Arrived (encode_request_header two_channel_header @ [7]), Recv_Interrupted, Arrived [1, 2, 3]] =
       (Rejects 5 kLengthMismatch True, script') \<and>
     (\<exists>h body. encode_request_header two_channel_header @ [7, 1, 2, 3] = encode_request_header h @ body @ stream_bytes script' \<and>
        length body = unat (rq_chain_len h) + unat (rq_payload_len h) \<and> 5 = rq_seq_num h)"
proof -
  define script where "script = [Arrived (encode_request_header two_channel_header @ [7]), Recv_Interrupted, Arrived [1, 2, 3]]"
  have st: "stream_bytes script = encode_request_header two_channel_header @ [7, 1, 2, 3]" by (simp add: script_def)
  have bad: "validate_request_header two_channel_header default_limits = kLengthMismatch" "kLengthMismatch \<noteq> kOk"
      "disposition_for kLengthMismatch = kDrain"
    by (simp_all add: validate_request_header_def two_channel_header_def client_header_def default_limits_def dot_image_def byte_count_def
        kMaxPayloadBytes_def kMaxChainLen_def is_supported_channel_count_def disposition_for_def status_defs)
  obtain s1 where s1: "read_request default_limits script = reject_frame two_channel_header kLengthMismatch
        (unat (rq_chain_len two_channel_header) + unat (rq_payload_len two_channel_header)) s1"
      "stream_bytes s1 = [7] @ [1, 2, 3]"
    using read_request_rejected_header [OF st bad(1,2)] by auto
  have fields: "unat (rq_chain_len two_channel_header) + unat (rq_payload_len two_channel_header) = length [7 :: u8]"
      "rq_seq_num two_channel_header = 5"
    by (simp_all add: two_channel_header_def client_header_def dot_image_def byte_count_def)
  obtain s2 where s2: "read_request default_limits script = (Rejects 5 kLengthMismatch True, s2)" "stream_bytes s2 = [1, 2, 3]"
    using reject_frame_drains [OF bad(3) s1(2) fields(1) [symmetric], of two_channel_header] s1(1) fields(2) by metis
  from rejection_resynchronises [OF s2(1)] s2 st show ?thesis unfolding script_def by auto
qed

text \<open>The bytes of a response.\<close>

definition response_bytes :: "response \<Rightarrow> u8 list" where
  "response_bytes r = encode_response_header (response_header_of r) @
     take (unat (rs_payload_len (response_header_of r))) (im_pixels (re_image r))"

lemma write_response_wire:
  assumes "write_response response out = (True, out')" "im_pixels (re_image response) = pixels"
  shows "fst out' = fst out @ encode_response_header (response_header_of response) @
    take (unat (rs_payload_len (response_header_of response))) pixels"
proof -
  have z: "w = 0" if "\<not> (0 :: u32) < w" for w using that by (simp add: word_gt_0)
  from assms show ?thesis
    by (auto simp: write_response_def Let_def split: prod.splits if_splits dest!: write_exact_ok z)
qed

text \<open>The server's images: well formed, and small enough for the wire.\<close>

definition answerable :: "response \<Rightarrow> bool" where
  "answerable response \<longleftrightarrow> re_status response \<noteq> kOk \<or>
     sendable \<lparr>max_payload_bytes = kMaxPayloadBytes, max_chain_len = 0\<rparr> (re_image response) []"

lemma receive_echo:
  assumes "sendable \<lparr>max_payload_bytes = kMaxPayloadBytes, max_chain_len = 0\<rparr> img []" "stream_bytes inbound = im_pixels img @ rest"
    "rs_width h = word_of_int (im_width img)" "rs_height h = word_of_int (im_height img)"
    "rs_channels h = word_of_int (im_channels img)" "rs_payload_len h = of_nat (byte_count img)"
  obtains inbound' where "receive_payload h inbound = (Inr img, inbound')" "stream_bytes inbound' = rest"
proof -
  let ?q = "client_header 0 img [] 0"
  note f = client_header_fields [OF assms(1), of 0 0]
  have eq: "rs_width h = rq_width ?q" "rs_height h = rq_height ?q" "rs_channels h = rq_channels ?q" "rs_payload_len h = rq_payload_len ?q"
    using assms(3-6) by (simp_all add: client_header_def)
  have v: "response_product h = ucast (rs_payload_len h)" "rs_payload_len h \<le> kMaxPayloadBytes"
    using client_header_valid [OF assms(1), of 0 0] unfolding validate_ok_iff
    by (simp_all add: eq response_product_def dimension_product_def)
  have wf: "image_wf img" using assms(1) by (simp add: sendable_def)
  have n: "unat (rs_payload_len h) = length (im_pixels img)" using f(4) eq(4) by (simp add: byte_count_def)
  moreover have "0 < length (im_pixels img)" using wf image_wf_channels [OF wf] by (simp add: image_wf_def)
  ultimately have pos: "rs_payload_len h \<noteq> 0" by auto
  obtain inbound' where r: "read_exact (unat (rs_payload_len h)) inbound = (io_kOk, im_pixels img, inbound')" "stream_bytes inbound' = rest"
    using read_exact_stream [OF assms(2) n [symmetric]] by blast
  obtain i0 where i0: "new_image (im_width img) (im_height img) (im_channels img) = Inr i0"
    using new_image_ok [of "im_width img" "im_height img" "im_channels img"] wf by (auto simp: image_wf_def)
  have "i0\<lparr>im_pixels := im_pixels img\<rparr> = img" "length (im_pixels i0) = length (im_pixels img)"
    using new_image_Inr [OF i0] wf by (simp_all add: image_wf_def)
  moreover have "new_image (sint (rs_width h)) (sint (rs_height h)) (uint (rs_channels h)) = Inr i0"
    using f(3,6,7) i0 by (simp add: eq)
  ultimately have "receive_payload h inbound = (Inr img, inbound')"
    unfolding receive_payload_def using pos v r(1) by (simp add: not_less)
  with r(2) that show thesis by blast
qed

lemma receive_response:
  assumes "answerable response" "stream_bytes (cl_inbound c) = response_bytes response @ rest"
  shows "\<exists>r c'. client_receive c = (Inr r, c') \<and> cr_status r = re_status response \<and> cr_seq_num r = re_seq_num response \<and>
    cr_image r = (if re_status response = kOk \<and> re_echo response then re_image response else empty_image) \<and>
    stream_bytes (cl_inbound c') = rest \<and> cl_pending c' = (cl_pending c)(re_seq_num response := None) \<and>
    (case cl_pending c (re_seq_num response) of
       None \<Rightarrow> \<not> cr_matched r | Some request \<Rightarrow> cr_matched r \<and> cr_request r = request)"
proof -
  define h where "h = response_header_of response"
  have fields: "rs_magic h = kMagic" "rs_status h = re_status response" "rs_seq_num h = re_seq_num response"
    by (simp_all add: h_def response_header_of_def Let_def)
  have stream: "stream_bytes (cl_inbound c) =
      encode_response_header h @ take (unat (rs_payload_len h)) (im_pixels (re_image response)) @ rest"
    using assms(2) by (simp add: h_def response_bytes_def)
  obtain s1 where s1: "read_exact kResponseHeaderBytes (cl_inbound c) = (io_kOk, encode_response_header h, s1)"
      "stream_bytes s1 = take (unat (rs_payload_len h)) (im_pixels (re_image response)) @ rest"
    using read_exact_stream [OF stream response_codec.encode_size] by blast
  obtain s2 where s2: "receive_payload h s1 =
      (Inr (if re_status response = kOk \<and> re_echo response then re_image response else empty_image), s2)" "stream_bytes s2 = rest"
  proof (cases "re_status response = kOk \<and> re_echo response")
    case True
    then have send: "sendable \<lparr>max_payload_bytes = kMaxPayloadBytes, max_chain_len = 0\<rparr> (re_image response) []"
      using assms(1) by (simp add: answerable_def)
    have dims: "rs_width h = word_of_int (im_width (re_image response))" "rs_height h = word_of_int (im_height (re_image response))"
        "rs_channels h = word_of_int (im_channels (re_image response))" "rs_payload_len h = of_nat (byte_count (re_image response))"
      using True by (simp_all add: h_def response_header_of_def Let_def)
    have "unat (rs_payload_len h) = byte_count (re_image response)"
      using client_header_fields(4) [OF send, of 0 0] dims(4) by (simp add: client_header_def)
    then have "stream_bytes s1 = im_pixels (re_image response) @ rest" using s1(2) by (simp add: byte_count_def)
    from receive_echo [OF send this dims] True that show thesis by metis
  next
    case False
    then have "rs_payload_len h = 0" by (auto simp: h_def response_header_of_def Let_def)
    then show thesis using False s1(2) by (intro that [of s1]) (auto simp: receive_payload_def)
  qed
  show ?thesis
    using s1(1) s2 fields
    by (cases "cl_pending c (re_seq_num response)")
      (simp_all add: client_receive_def response_decode_encode Let_def fun_eq_iff)
qed

text \<open>
  C16: A response crosses the wire intact. When the writer wrote a response, the client's \<open>receive\<close>, however the
  kernel cuts the stream, returns its status, its number and, when the frame succeeded and asked for an
  echo, exactly its image and otherwise an empty one; it leaves the stream at the next response, takes the
  frame it answers out of the pending table, and hands that frame to the caller exactly when there was one.
\<close>

theorem response_crosses_the_wire:
  assumes "write_response response (wire, sends) = (True, wire @ sent, sends')" "answerable response"
    "stream_bytes (cl_inbound c) = sent @ rest"
  shows "\<exists>r c'. client_receive c = (Inr r, c') \<and> cr_status r = re_status response \<and> cr_seq_num r = re_seq_num response \<and>
    cr_image r = (if re_status response = kOk \<and> re_echo response then re_image response else empty_image) \<and>
    stream_bytes (cl_inbound c') = rest \<and> cl_pending c' = (cl_pending c)(re_seq_num response := None) \<and>
    (case cl_pending c (re_seq_num response) of
       None \<Rightarrow> \<not> cr_matched r | Some request \<Rightarrow> cr_matched r \<and> cr_request r = request)"
  by (rule receive_response [OF assms(2)]) (use write_response_wire [OF assms(1) refl] assms(3) in \<open>simp add: response_bytes_def\<close>)

definition dot_response :: response where
  "dot_response = \<lparr>re_seq_num = 1, re_status = kOk, re_echo = True, re_write_file = False, re_image = dot_image\<rparr>"

theorem response_crosses_the_wire_witness:
  "\<exists>sent. write_response dot_response ([], []) = (True, sent, []) \<and>
     (\<exists>r c'. client_receive (new_client [Arrived sent] []) = (Inr r, c') \<and> cr_image r = dot_image \<and> \<not> cr_matched r)"
proof -
  define sent where "sent = fst (snd (write_response dot_response ([], [])))"
  have w: "write_response dot_response ([], []) = (True, [] @ sent, [])"
    by (simp add: sent_def write_response_def write_exact_open Let_def)
  have a: "answerable dot_response"
    by (simp add: answerable_def dot_response_def sendable_def image_wf_def dot_image_def byte_count_def
        kMaxPayloadBytes_def is_supported_channel_count_def)
  have "stream_bytes (cl_inbound (new_client [Arrived sent] [])) = sent @ []" by (simp add: new_client_def)
  from response_crosses_the_wire [OF w a this] w show ?thesis
    by (auto simp: dot_response_def new_client_def)
qed

end
