(* ===== verification/Server_Steps.thy ===== *)
theory Server_Steps
  imports Server
begin

text \<open>
  The server as interleaved threads (\<open>src/net/server.cpp\<close>). One step is one critical section of one
  thread together with the thread-local work next to it; the program counters below name the
  points between critical sections. Every interleaving of the readers, writers, the worker, the
  acceptor and the thread that calls \<open>stop\<close> is a sequence of \<open>server_step\<close>s. A step that is not
  possible, because the thread waits or has ended, is \<open>None\<close>.

  A \<open>shared_ptr<Connection>\<close> is the index of the connection in the list of all connections ever
  accepted. \<open>co_asked\<close> and \<open>co_taken\<close> only record what happened: the numbers of the requests that were
  received completely, and the responses the writer took from the outbox.
\<close>

section \<open>Program counters and state\<close>

datatype reader_pc =
    R_Reading
  | R_Claiming request_header op_chain
  | R_Parked request_header op_chain
  | R_Receiving request_header op_chain nat
  | R_Submitting queued_frame
  | R_Pushing queued_frame
  | R_Refused queued_frame
  | R_Giving_Back nat
  | R_Leaving
  | R_Joining
  | R_Done
  | R_Crashed

text \<open>The writer carries its local \<open>socket_alive\<close>.\<close>

datatype writer_pc = Wr_Running bool | Wr_Done

text \<open>
  The last argument of the three retiring states is where the worker goes on: with the remaining
  completions, or, after a submission that threw, with the poll.
\<close>

datatype worker_pc =
    W_Top
  | W_Submit queued_frame
  | W_Poll
  | W_Completions "completion list"
  | W_Release in_flight response "completion list option"
  | W_Push nat response "completion list option"
  | W_Retire nat "completion list option"
  | W_Done
  | W_Crashed

datatype acceptor_pc = A_Check | A_Accept | A_Done

datatype stop_pc = S_Idle | S_Join_Acceptor | S_Close_Pool | S_Join_Connections | S_Join_Worker | S_Stopped

text \<open>\<open>outstanding\<close> is an \<open>int\<close> here, so that going below zero would show.\<close>

record connection =
  co_id :: u64
  co_outbox :: outbox
  co_outstanding :: int
  co_reader_done :: bool
  co_finished :: bool
  co_inbound :: "recv_event list"
  co_outbound :: "u8 list \<times> send_event list"
  co_reader :: reader_pc
  co_writer :: writer_pc
  co_asked :: "u32 list"
  co_taken :: "response list"

record 'b server =
  sv_pool :: slot_pool
  sv_memory :: "nat \<Rightarrow> u8 list"
  sv_queue :: "queued_frame bounded_queue"
  sv_connections :: "connection list"
  sv_records :: "nat list"
  sv_next_connection_id :: u64
  sv_in_flight :: "(job_handle \<times> in_flight) list"
  sv_backend :: 'b
  sv_worker :: worker_pc
  sv_acceptor :: acceptor_pc
  sv_stop :: stop_pc
  sv_running :: bool
  sv_frames_completed :: u64
  sv_frames_failed :: u64
  sv_connections_accepted :: u64
  sv_submissions :: nat

text \<open>
  What a server is run with: its configuration, \<open>save_png\<close>, and the backend's two operations;
  \<open>None\<close> is a submission that does not return.
\<close>

record 'b server_env =
  se_config :: server_config
  se_save :: "string \<Rightarrow> image \<Rightarrow> bool"
  se_submit :: "frame_job \<Rightarrow> 'b \<Rightarrow> (job_handle result \<times> 'b) option"
  se_poll :: "('b, completion list) action"

section \<open>Connections\<close>

definition new_connection :: "u64 \<Rightarrow> recv_event list \<Rightarrow> send_event list \<Rightarrow> connection" where
  "new_connection connection_id inbound sends =
     \<lparr>co_id = connection_id, co_outbox = new_outbox, co_outstanding = 0, co_reader_done = False, co_finished = False,
      co_inbound = inbound, co_outbound = ([], sends), co_reader = R_Reading, co_writer = Wr_Running True,
      co_asked = [], co_taken = []\<rparr>"

definition close_outbox_if_done :: "connection \<Rightarrow> connection" where
  "close_outbox_if_done c =
     (if co_reader_done c \<and> co_outstanding c = 0 then c\<lparr>co_outbox := outbox_close (co_outbox c)\<rparr> else c)"

definition job_submitted :: "connection \<Rightarrow> connection" where
  "job_submitted c = c\<lparr>co_outstanding := co_outstanding c + 1\<rparr>"

definition job_retired :: "connection \<Rightarrow> connection" where
  "job_retired c = close_outbox_if_done (c\<lparr>co_outstanding := co_outstanding c - 1\<rparr>)"

definition reader_finished :: "connection \<Rightarrow> connection" where
  "reader_finished c = close_outbox_if_done (c\<lparr>co_reader_done := True\<rparr>)"

definition push_response :: "response \<Rightarrow> connection \<Rightarrow> connection" where
  "push_response r c = c\<lparr>co_outbox := snd (outbox_push r (co_outbox c))\<rparr>"

text \<open>
  After a shutdown nothing more arrives, except what the kernel already had (the first \<open>keep\<close> events),
  and sending fails.
\<close>

definition shutdown_both :: "nat \<Rightarrow> connection \<Rightarrow> connection" where
  "shutdown_both keep c =
     c\<lparr>co_inbound := take keep (co_inbound c), co_outbound := (fst (co_outbound c), Send_Failed # snd (co_outbound c))\<rparr>"

definition set_connection :: "nat \<Rightarrow> connection \<Rightarrow> 'b server \<Rightarrow> 'b server" where
  "set_connection k c s = s\<lparr>sv_connections := (sv_connections s)[k := c]\<rparr>"

section \<open>The reader and the end of the connection thread\<close>

text \<open>\<open>slots->release(slot)\<close> on the reader's way out; an exception escapes the thread.\<close>

definition reader_releases :: "nat \<Rightarrow> nat \<Rightarrow> connection \<Rightarrow> 'b server \<Rightarrow> 'b server" where
  "reader_releases k index c s =
     (case release (sv_pool s) index of
        Inl _ \<Rightarrow> set_connection k (c\<lparr>co_reader := R_Crashed\<rparr>) s
      | Inr pool \<Rightarrow> set_connection k (c\<lparr>co_reader := R_Leaving\<rparr>) (s\<lparr>sv_pool := pool\<rparr>))"

definition reader_reads :: "limits \<Rightarrow> connection \<Rightarrow> connection" where
  "reader_reads limits c =
     (case read_request limits (co_inbound c) of (found, inbound) \<Rightarrow>
        let c = c\<lparr>co_inbound := inbound\<rparr>
        in case found of
             Reader_Returns \<Rightarrow> c\<lparr>co_reader := R_Leaving\<rparr>
           | Rejects seq_num status goes_on \<Rightarrow>
               push_response (error_response seq_num status)
                 (c\<lparr>co_reader := (if goes_on then R_Reading else R_Leaving), co_asked := co_asked c @ [seq_num]\<rparr>)
           | Admits header chain \<Rightarrow> c\<lparr>co_reader := R_Claiming header chain\<rparr>)"

definition after_claim :: "nat \<Rightarrow> request_header \<Rightarrow> op_chain \<Rightarrow> connection \<Rightarrow> nat option \<Rightarrow> slot_pool \<Rightarrow> 'b server \<Rightarrow> 'b server" where
  "after_claim k header chain c claimed pool s =
     set_connection k
       (c\<lparr>co_reader := (case claimed of None \<Rightarrow> R_Leaving | Some index \<Rightarrow> R_Receiving header chain index)\<rparr>)
       (s\<lparr>sv_pool := pool\<rparr>)"

definition reader_receives :: "nat \<Rightarrow> request_header \<Rightarrow> op_chain \<Rightarrow> nat \<Rightarrow> connection \<Rightarrow> 'b server \<Rightarrow> 'b server" where
  "reader_receives k header chain index c s =
     (case slot (sv_pool s) index of
        Inl _ \<Rightarrow> set_connection k (c\<lparr>co_reader := R_Crashed\<rparr>) s
      | Inr _ \<Rightarrow>
          (case read_exact (unat (rq_payload_len header)) (co_inbound c) of (r, bytes, inbound) \<Rightarrow>
             let c = c\<lparr>co_inbound := inbound\<rparr>;
                 s = s\<lparr>sv_memory := (sv_memory s)(index := bytes @ drop (length bytes) (sv_memory s index))\<rparr>
             in if r = io_kOk then set_connection k (c\<lparr>co_reader := R_Submitting (frame_of k header chain index)\<rparr>) s
                else reader_releases k index c s))"

definition reader_step :: "limits \<Rightarrow> nat \<Rightarrow> 'b server \<Rightarrow> 'b server option" where
  "reader_step limits k s =
     (let c = sv_connections s ! k
      in if length (sv_connections s) \<le> k then None
         else case co_reader c of
           R_Reading \<Rightarrow> Some (set_connection k (reader_reads limits c) s)
         | R_Claiming header chain \<Rightarrow>
             (case claim (sv_pool s) (co_id c) of
                (Waits, pool) \<Rightarrow> Some (set_connection k (c\<lparr>co_reader := R_Parked header chain\<rparr>) (s\<lparr>sv_pool := pool\<rparr>))
              | (Returns claimed, pool) \<Rightarrow> Some (after_claim k header chain c claimed pool s))
         | R_Parked header chain \<Rightarrow>
             (case claim_resume (sv_pool s) (co_id c) of
                (Waits, pool) \<Rightarrow> None
              | (Returns claimed, pool) \<Rightarrow> Some (after_claim k header chain c claimed pool s))
         | R_Receiving header chain index \<Rightarrow> Some (reader_receives k header chain index c s)
         | R_Submitting f \<Rightarrow>
             Some (set_connection k ((job_submitted c)\<lparr>co_reader := R_Pushing f, co_asked := co_asked c @ [qf_seq_num f]\<rparr>) s)
         | R_Pushing f \<Rightarrow>
             (case bq_push f (sv_queue s) of
                (Waits, q) \<Rightarrow> None
              | (Returns True, q) \<Rightarrow> Some (set_connection k (c\<lparr>co_reader := R_Reading\<rparr>) (s\<lparr>sv_queue := q\<rparr>))
              | (Returns False, q) \<Rightarrow> Some (set_connection k (c\<lparr>co_reader := R_Refused f\<rparr>) s))
         | R_Refused f \<Rightarrow> Some (set_connection k ((job_retired c)\<lparr>co_reader := R_Giving_Back (qf_slot f)\<rparr>) s)
         | R_Giving_Back index \<Rightarrow> Some (reader_releases k index c s)
         | R_Leaving \<Rightarrow> Some (set_connection k ((reader_finished c)\<lparr>co_reader := R_Joining\<rparr>) s)
         | R_Joining \<Rightarrow>
             if co_writer c = Wr_Done
             then Some (set_connection k ((shutdown_both 0 c)\<lparr>co_finished := True, co_reader := R_Done\<rparr>) s)
             else None
         | R_Done \<Rightarrow> None
         | R_Crashed \<Rightarrow> None)"

section \<open>The writer\<close>

definition writer_answers :: "string \<Rightarrow> (string \<Rightarrow> image \<Rightarrow> bool) \<Rightarrow> nat \<Rightarrow> bool \<Rightarrow> response \<Rightarrow> connection \<Rightarrow> connection" where
  "writer_answers output_dir save keep socket_alive response c =
     (let response = write_file_if_asked save output_dir (co_id c) response;
          c = c\<lparr>co_taken := co_taken c @ [response]\<rparr>
      in if \<not> socket_alive then c
         else case write_response response (co_outbound c) of (ok, out) \<Rightarrow>
           let c = c\<lparr>co_outbound := out\<rparr>
           in if ok then c else (shutdown_both keep c)\<lparr>co_writer := Wr_Running False\<rparr>)"

definition writer_step :: "string \<Rightarrow> (string \<Rightarrow> image \<Rightarrow> bool) \<Rightarrow> nat \<Rightarrow> nat \<Rightarrow> 'b server \<Rightarrow> 'b server option" where
  "writer_step output_dir save k keep s =
     (let c = sv_connections s ! k
      in if length (sv_connections s) \<le> k then None
         else case co_writer c of
           Wr_Done \<Rightarrow> None
         | Wr_Running socket_alive \<Rightarrow>
             (case outbox_pop (co_outbox c) of
                (Waits, ob) \<Rightarrow> None
              | (Returns None, ob) \<Rightarrow> Some (set_connection k (c\<lparr>co_writer := Wr_Done\<rparr>) s)
              | (Returns (Some response), ob) \<Rightarrow>
                  Some (set_connection k (writer_answers output_dir save keep socket_alive response (c\<lparr>co_outbox := ob\<rparr>)) s)))"

section \<open>The worker\<close>

text \<open>\<open>unordered_map::emplace\<close> keeps an entry that is already there.\<close>

definition emplace_in_flight :: "job_handle \<Rightarrow> in_flight \<Rightarrow> (job_handle \<times> in_flight) list \<Rightarrow> (job_handle \<times> in_flight) list" where
  "emplace_in_flight h entry table = (if map_of table h = None then table @ [(h, entry)] else table)"

definition worker_pops :: "'b server \<Rightarrow> 'b server option" where
  "worker_pops s =
     (if sv_in_flight s = []
      then (case bq_pop (sv_queue s) of
              (Waits, q) \<Rightarrow> None
            | (Returns None, q) \<Rightarrow> Some (s\<lparr>sv_worker := W_Done\<rparr>)
            | (Returns (Some f), q) \<Rightarrow> Some (s\<lparr>sv_queue := q, sv_worker := W_Submit f\<rparr>))
      else (case bq_try_pop (sv_queue s) of
              (None, q) \<Rightarrow> Some (s\<lparr>sv_worker := W_Poll\<rparr>)
            | (Some f, q) \<Rightarrow> Some (s\<lparr>sv_queue := q, sv_worker := W_Submit f\<rparr>)))"

definition worker_submits :: "(frame_job \<Rightarrow> 'b \<Rightarrow> (job_handle result \<times> 'b) option) \<Rightarrow> queued_frame \<Rightarrow> 'b server \<Rightarrow> 'b server option" where
  "worker_submits submit f s =
     (case slot (sv_pool s) (qf_slot f) of
        Inl _ \<Rightarrow> Some (s\<lparr>sv_worker := W_Crashed\<rparr>)
      | Inr _ \<Rightarrow>
          (case submit (job_of f (sv_memory s (qf_slot f))) (sv_backend s) of
             None \<Rightarrow> None
           | Some (Inr h, b) \<Rightarrow>
               Some (s\<lparr>sv_backend := b, sv_in_flight := emplace_in_flight h (entry_of f) (sv_in_flight s),
                       sv_worker := W_Poll, sv_submissions := sv_submissions s + 1\<rparr>)
           | Some (Inl _, b) \<Rightarrow>
               Some (s\<lparr>sv_backend := b, sv_worker := W_Release (entry_of f) (refused_response f) None\<rparr>)))"

definition worker_routes :: "completion \<Rightarrow> completion list \<Rightarrow> 'b server \<Rightarrow> 'b server" where
  "worker_routes completion rest s =
     (case map_of (sv_in_flight s) (cp_handle completion) of
        None \<Rightarrow> s\<lparr>sv_worker := W_Completions rest\<rparr>
      | Some job \<Rightarrow>
          s\<lparr>sv_in_flight := filter (\<lambda>(h, _). h \<noteq> cp_handle completion) (sv_in_flight s),
            sv_frames_completed := sv_frames_completed s + (if cp_status completion = job_kOk then 1 else 0),
            sv_frames_failed := sv_frames_failed s + (if cp_status completion = job_kOk then 0 else 1),
            sv_worker := W_Release job (response_of job completion) (Some rest)\<rparr>)"

definition worker_step :: "(frame_job \<Rightarrow> 'b \<Rightarrow> (job_handle result \<times> 'b) option) \<Rightarrow> ('b, completion list) action \<Rightarrow> 'b server \<Rightarrow> 'b server option" where
  "worker_step submit poll s =
     (case sv_worker s of
        W_Top \<Rightarrow> worker_pops s
      | W_Submit f \<Rightarrow> worker_submits submit f s
      | W_Poll \<Rightarrow>
          (case poll (sv_backend s) of
             (Inl _, b) \<Rightarrow> Some (s\<lparr>sv_backend := b, sv_worker := W_Crashed\<rparr>)
           | (Inr cs, b) \<Rightarrow> Some (s\<lparr>sv_backend := b, sv_worker := W_Completions cs\<rparr>))
      | W_Completions [] \<Rightarrow> Some (s\<lparr>sv_worker := W_Top\<rparr>)
      | W_Completions (completion # rest) \<Rightarrow> Some (worker_routes completion rest s)
      | W_Release job response continue \<Rightarrow>
          (case release (sv_pool s) (if_slot job) of
             Inl _ \<Rightarrow> Some (s\<lparr>sv_worker := W_Crashed\<rparr>)
           | Inr pool \<Rightarrow> Some (s\<lparr>sv_pool := pool, sv_worker := W_Push (if_connection job) response continue\<rparr>))
      | W_Push k response continue \<Rightarrow>
          Some ((set_connection k (push_response response (sv_connections s ! k)) s)\<lparr>sv_worker := W_Retire k continue\<rparr>)
      | W_Retire k continue \<Rightarrow>
          (let s = set_connection k (job_retired (sv_connections s ! k)) s
           in case continue of
                None \<Rightarrow> Some (s\<lparr>sv_worker := W_Poll, sv_frames_failed := sv_frames_failed s + 1\<rparr>)
              | Some cs \<Rightarrow> Some (s\<lparr>sv_worker := W_Completions cs\<rparr>))
      | W_Done \<Rightarrow> None
      | W_Crashed \<Rightarrow> None)"

section \<open>The acceptor and stopping\<close>

definition reap_finished :: "connection list \<Rightarrow> nat list \<Rightarrow> nat list" where
  "reap_finished connections = filter (\<lambda>k. \<not> co_finished (connections ! k))"

text \<open>\<open>offer\<close> is what \<open>accept_with_timeout\<close> returns.\<close>

definition acceptor_step :: "(recv_event list \<times> send_event list) option \<Rightarrow> 'b server \<Rightarrow> 'b server option" where
  "acceptor_step offer s =
     (case sv_acceptor s of
        A_Check \<Rightarrow> Some (s\<lparr>sv_acceptor := (if sv_running s then A_Accept else A_Done)\<rparr>)
      | A_Accept \<Rightarrow>
          (let records = reap_finished (sv_connections s) (sv_records s)
           in case offer of
                None \<Rightarrow> Some (s\<lparr>sv_records := records, sv_acceptor := A_Check\<rparr>)
              | Some (inbound, sends) \<Rightarrow>
                  Some (s\<lparr>sv_connections := sv_connections s @ [new_connection (sv_next_connection_id s) inbound sends],
                          sv_next_connection_id := sv_next_connection_id s + 1,
                          sv_connections_accepted := sv_connections_accepted s + 1,
                          sv_records := records @ [length (sv_connections s)], sv_acceptor := A_Check\<rparr>))
      | A_Done \<Rightarrow> None)"

definition shutdown_records :: "(nat \<Rightarrow> nat) \<Rightarrow> nat list \<Rightarrow> connection list \<Rightarrow> connection list" where
  "shutdown_records keep records = fold (\<lambda>k cs. cs[k := shutdown_both (keep k) (cs ! k)]) records"

definition stop_step :: "(nat \<Rightarrow> nat) \<Rightarrow> 'b server \<Rightarrow> 'b server option" where
  "stop_step keep s =
     (case sv_stop s of
        S_Idle \<Rightarrow> if sv_running s then Some (s\<lparr>sv_running := False, sv_stop := S_Join_Acceptor\<rparr>) else None
      | S_Join_Acceptor \<Rightarrow>
          if sv_acceptor s = A_Done
          then Some (s\<lparr>sv_connections := shutdown_records keep (sv_records s) (sv_connections s), sv_stop := S_Close_Pool\<rparr>)
          else None
      | S_Close_Pool \<Rightarrow> Some (s\<lparr>sv_pool := pool_close (sv_pool s), sv_stop := S_Join_Connections\<rparr>)
      | S_Join_Connections \<Rightarrow>
          if list_all (\<lambda>k. co_finished (sv_connections s ! k)) (sv_records s)
          then Some (s\<lparr>sv_records := [], sv_queue := bq_close (sv_queue s), sv_stop := S_Join_Worker\<rparr>)
          else None
      | S_Join_Worker \<Rightarrow> if sv_worker s = W_Done then Some (s\<lparr>sv_stop := S_Stopped\<rparr>) else None
      | S_Stopped \<Rightarrow> None)"

section \<open>Starting and running\<close>

definition new_server :: "server_config \<Rightarrow> slot_pool \<Rightarrow> 'b \<Rightarrow> 'b server" where
  "new_server config pool b =
     \<lparr>sv_pool = pool, sv_memory = (\<lambda>_. replicate (sp_bytes pool) 0), sv_queue = new_queue (sc_queue_capacity config),
      sv_connections = [], sv_records = [], sv_next_connection_id = 1, sv_in_flight = [], sv_backend = b,
      sv_worker = W_Top, sv_acceptor = A_Check, sv_stop = S_Idle, sv_running = True,
      sv_frames_completed = 0, sv_frames_failed = 0, sv_connections_accepted = 0, sv_submissions = 0\<rparr>"

text \<open>The first part of \<open>worker_main\<close>: a factory may throw or return nothing.\<close>

definition worker_main_start :: "server_config \<Rightarrow> 'b option result \<Rightarrow> (nat \<Rightarrow> nat \<Rightarrow> 'b \<Rightarrow> (nat option \<times> 'b) result) \<Rightarrow> 'b server result" where
  "worker_main_start config made allocate =
     bind_result made (\<lambda>b. case b of
        None \<Rightarrow> Inl (Runtime_error ''Server: the backend factory returned nothing'')
      | Some b \<Rightarrow>
          bind_result (allocate (sc_num_slots config) (unat (sc_max_payload_bytes config)) b) (\<lambda>(base, b).
            bind_result (new_slot_pool base (sc_num_slots config) (unat (sc_max_payload_bytes config)) (sc_slots_per_connection config)) (\<lambda>pool.
              Inr (new_server config pool b))))"

text \<open>
  \<open>start\<close>; the directory is created by \<open>make_dirs\<close>, and a failing worker closes the listener again.
\<close>

definition server_start :: "'o net_os \<Rightarrow> (string \<Rightarrow> ('o, unit) action) \<Rightarrow> 'b option result \<Rightarrow>
    (nat \<Rightarrow> nat \<Rightarrow> 'b \<Rightarrow> (nat option \<times> 'b) result) \<Rightarrow> bool \<Rightarrow> server_config \<Rightarrow> ('o, int \<times> 'b server) action" where
  "server_start os make_dirs made allocate running config =
     (if running then throw_act (Logic_error ''Server::start: already started'')
      else if sc_num_slots config = 0 \<or> sc_max_payload_bytes config = 0
      then throw_act (Invalid_argument ''Server::start: needs at least one non-empty slot'')
      else then_act (if sc_output_dir config \<noteq> [] then make_dirs (sc_output_dir config) else return_act ()) (\<lambda>_.
        then_act (listen_on os (sc_port config) (sc_backlog config)) (\<lambda>listener.
          case worker_main_start config made allocate of
            Inl e \<Rightarrow> throw_closing os listener e
          | Inr server \<Rightarrow> return_act (listener, server))))"

datatype server_event =
    Reader nat
  | Writer nat nat
  | Worker
  | Acceptor "(recv_event list \<times> send_event list) option"
  | Stopper "nat \<Rightarrow> nat"

definition server_step :: "'b server_env \<Rightarrow> server_event \<Rightarrow> 'b server \<Rightarrow> 'b server option" where
  "server_step env event s =
     (case event of
        Reader k \<Rightarrow> reader_step (server_limits (se_config env)) k s
      | Writer k keep \<Rightarrow> writer_step (sc_output_dir (se_config env)) (se_save env) k keep s
      | Worker \<Rightarrow> worker_step (se_submit env) (se_poll env) s
      | Acceptor offer \<Rightarrow> acceptor_step offer s
      | Stopper keep \<Rightarrow> stop_step keep s)"

inductive server_reachable :: "'b server_env \<Rightarrow> 'b server \<Rightarrow> 'b server \<Rightarrow> bool" for env start where
  reachable_start: "server_reachable env start start"
| reachable_step: "server_reachable env start s \<Longrightarrow> server_step env event s = Some s' \<Longrightarrow> server_reachable env start s'"

section \<open>What the server reports\<close>

text \<open>
  The worker takes the backend's counters when its loop has ended and then destroys the backend, so the
  counters read as zeroes before that.
\<close>

definition final_backend_stats :: "('b \<Rightarrow> backend_stats) \<Rightarrow> 'b server \<Rightarrow> backend_stats" where
  "final_backend_stats stats s = (if sv_worker s = W_Done then stats (sv_backend s) else no_stats)"

definition slot_waits :: "'b server \<Rightarrow> u64" where
  "slot_waits s = sp_blocked_claims (sv_pool s)"

definition max_queue_depth :: "'b server \<Rightarrow> nat" where
  "max_queue_depth s = bq_high_water (sv_queue s)"

end
