(* ===== verification/Server_Inv.thy ===== *)
theory Server_Inv
  imports Server_Steps "HOL-Library.Multiset"
begin

text \<open>
  The invariant of the running server. What is under way is counted in multisets: a ticket is a
  frame between its admission and the release of its slot, wherever it is (in its reader, in the queue, with
  the worker, on the backend). Moving a frame from one place to the next leaves the tickets alone,
  so every step is an addition, a removal or nothing.
\<close>

section \<open>Tickets\<close>

type_synonym ticket = "nat \<times> u32 \<times> nat"

definition frame_ticket :: "queued_frame \<Rightarrow> ticket" where
  "frame_ticket f = (qf_connection f, qf_seq_num f, qf_slot f)"

definition entry_ticket :: "in_flight \<Rightarrow> ticket" where
  "entry_ticket e = (if_connection e, if_seq_num e, if_slot e)"

lemma entry_ticket_of [simp]: "entry_ticket (entry_of f) = frame_ticket f"
  by (simp add: entry_ticket_def entry_of_def frame_ticket_def)

definition owner_id :: "nat \<Rightarrow> u64" where
  "owner_id k = of_nat (Suc k)"

definition reader_tickets :: "connection \<Rightarrow> ticket multiset" where
  "reader_tickets c = (case co_reader c of R_Pushing f \<Rightarrow> {#frame_ticket f#} | _ \<Rightarrow> {#})"

text \<open>Slots a reader holds for a frame that is not submitted yet.\<close>

definition reader_holdings :: "connection \<Rightarrow> (u64 \<times> nat) multiset" where
  "reader_holdings c = (case co_reader c of
     R_Receiving header chain index \<Rightarrow> {#(co_id c, index)#} | R_Submitting f \<Rightarrow> {#(co_id c, qf_slot f)#} | _ \<Rightarrow> {#})"

lemma reader_same:
  "co_reader c' = co_reader c \<Longrightarrow> reader_tickets c' = reader_tickets c"
  "co_reader c' = co_reader c \<Longrightarrow> co_id c' = co_id c \<Longrightarrow> reader_holdings c' = reader_holdings c"
  by (auto simp: reader_tickets_def reader_holdings_def split: reader_pc.splits)

definition worker_tickets :: "worker_pc \<Rightarrow> ticket multiset" where
  "worker_tickets w = (case w of W_Submit f \<Rightarrow> {#frame_ticket f#} | W_Release job response continue \<Rightarrow> {#entry_ticket job#} | _ \<Rightarrow> {#})"

text \<open>After the release the worker still owes the response, and after that the retirement.\<close>

definition worker_answers :: "worker_pc \<Rightarrow> (nat \<times> u32) multiset" where
  "worker_answers w = (case w of W_Push k response continue \<Rightarrow> {#(k, re_seq_num response)#} | _ \<Rightarrow> {#})"

definition worker_jobs :: "worker_pc \<Rightarrow> nat multiset" where
  "worker_jobs w = (case w of W_Push k response continue \<Rightarrow> {#k#} | W_Retire k continue \<Rightarrow> {#k#} | _ \<Rightarrow> {#})"

lemmas worker_parts = worker_tickets_def worker_answers_def worker_jobs_def

definition tickets :: "'b server \<Rightarrow> ticket multiset" where
  "tickets s = sum_list (map reader_tickets (sv_connections s)) + mset (map frame_ticket (bq_items (sv_queue s))) +
     worker_tickets (sv_worker s) + mset (map (entry_ticket \<circ> snd) (sv_in_flight s))"

definition jobs :: "'b server \<Rightarrow> nat multiset" where
  "jobs s = image_mset fst (tickets s) + worker_jobs (sv_worker s)"

definition answers :: "'b server \<Rightarrow> (nat \<times> u32) multiset" where
  "answers s = image_mset (\<lambda>(k, q, i). (k, q)) (tickets s) + worker_answers (sv_worker s)"

definition holdings :: "'b server \<Rightarrow> (u64 \<times> nat) multiset" where
  "holdings s = image_mset (\<lambda>(k, q, i). (owner_id k, i)) (tickets s) + sum_list (map reader_holdings (sv_connections s))"

lemma sum_list_mset_update:
  fixes g :: "'a \<Rightarrow> 'b multiset"
  assumes "k < length xs"
  shows "sum_list (map g (xs[k := y])) + g (xs ! k) = sum_list (map g xs) + g y"
  using assms
proof (induction xs arbitrary: k)
  case (Cons x xs)
  show ?case
  proof (cases k)
    case (Suc n)
    with Cons.IH [of n] Cons.prems show ?thesis by (simp add: ac_simps)
  qed (simp add: ac_simps)
qed simp

lemma sum_list_mset_same:
  fixes g :: "'a \<Rightarrow> 'b multiset"
  assumes "k < length xs" "g y = g (xs ! k)"
  shows "sum_list (map g (xs[k := y])) = sum_list (map g xs)"
  using sum_list_mset_update [OF assms(1), of g y] assms(2) by simp

lemma sum_list_mset_member:
  fixes g :: "'a \<Rightarrow> 'b multiset"
  shows "k < length xs \<Longrightarrow> x \<in># g (xs ! k) \<Longrightarrow> x \<in># sum_list (map g xs)"
  by (induction xs arbitrary: k) (auto simp: nth_Cons split: nat.splits)

section \<open>Accounts of the connections\<close>

text \<open>
  \<open>J\<close> counts the jobs of each connection, \<open>A\<close> the answers still owed: \<open>outstanding\<close> is the number of jobs,
  and every request that was asked is either answered already or owed, and only once.
\<close>

definition answered :: "connection \<Rightarrow> u32 multiset" where
  "answered c = mset (map re_seq_num (co_taken c @ ob_items (co_outbox c)))"

definition account :: "connection \<Rightarrow> nat \<Rightarrow> u32 multiset \<Rightarrow> bool" where
  "account c n owed \<longleftrightarrow> co_outstanding c = int n \<and> mset (co_asked c) = answered c + owed"

definition owed_to :: "nat \<Rightarrow> (nat \<times> u32) multiset \<Rightarrow> u32 multiset" where
  "owed_to k A = image_mset snd {#a \<in># A. fst a = k#}"

lemma owed_to_add [simp]: "owed_to k (add_mset (j, q) A) = (if j = k then add_mset q (owed_to k A) else owed_to k A)"
  by (simp add: owed_to_def)

lemma owed_to_empty: "k \<notin> fst ` set_mset A \<Longrightarrow> owed_to k A = {#}"
  using filter_mset_cong [of A A "\<lambda>a. fst a = k" "\<lambda>_. False"] by (auto simp: owed_to_def intro: rev_image_eqI)

definition accounts :: "connection list \<Rightarrow> nat multiset \<Rightarrow> (nat \<times> u32) multiset \<Rightarrow> bool" where
  "accounts cs J A \<longleftrightarrow> set_mset J \<subseteq> {..<length cs} \<and> fst ` set_mset A \<subseteq> set_mset J \<and>
     (\<forall>k < length cs. account (cs ! k) (count J k) (owed_to k A))"

lemma accounts_same:
  assumes "accounts cs J A" "k < length cs" "co_outstanding c' = co_outstanding (cs ! k)"
    "mset (co_asked c') + answered (cs ! k) = mset (co_asked (cs ! k)) + answered c'"
  shows "accounts (cs[k := c']) J A"
proof -
  have "account (cs ! k) (count J k) (owed_to k A)" using assms(1,2) by (simp add: accounts_def)
  then have "mset (co_asked c') + answered (cs ! k) = answered c' + owed_to k A + answered (cs ! k)"
    using assms(4) by (simp add: account_def ac_simps)
  then have "mset (co_asked c') = answered c' + owed_to k A" by simp
  with assms show ?thesis by (auto simp: accounts_def nth_list_update account_def)
qed

lemma accounts_ask:
  assumes "accounts cs J A" "k < length cs" "co_outstanding c' = co_outstanding (cs ! k) + 1"
    "mset (co_asked c') = add_mset q (mset (co_asked (cs ! k)))" "answered c' = answered (cs ! k)"
  shows "accounts (cs[k := c']) (add_mset k J) (add_mset (k, q) A)"
  using assms by (auto simp: accounts_def nth_list_update account_def)

lemma accounts_answer:
  assumes "accounts cs J (add_mset (k, q) A)" "co_outstanding c' = co_outstanding (cs ! k)"
    "co_asked c' = co_asked (cs ! k)" "answered c' = add_mset q (answered (cs ! k))"
  shows "accounts (cs[k := c']) J A"
  using assms by (auto simp: accounts_def nth_list_update account_def)

lemma accounts_retire:
  assumes "accounts cs (add_mset k J) A" "fst ` set_mset A \<subseteq> set_mset J" "co_outstanding c' = co_outstanding (cs ! k) - 1"
    "co_asked c' = co_asked (cs ! k)" "answered c' = answered (cs ! k)"
  shows "accounts (cs[k := c']) J A"
  using assms by (auto simp: accounts_def nth_list_update account_def)

lemma accounts_open:
  assumes "accounts cs J A" "co_outstanding c = 0" "co_asked c = []" "answered c = {#}"
  shows "accounts (cs @ [c]) J A"
proof -
  have "length cs \<notin># J" "length cs \<notin> fst ` set_mset A" using assms(1) by (auto simp: accounts_def)
  then have "count J (length cs) = 0" "owed_to (length cs) A = {#}" by (simp_all add: not_in_iff owed_to_empty)
  with assms show ?thesis by (auto simp: accounts_def account_def nth_append less_Suc_eq)
qed

lemma accounts_outstanding:
  assumes "accounts cs J A" "k \<in># J"
  shows "k < length cs" "0 < co_outstanding (cs ! k)"
  using assms by (auto simp: accounts_def account_def)

section \<open>Slots\<close>

text \<open>Every claimed slot is held for exactly one frame, by the connection the frame belongs to.\<close>

definition slots_held :: "slot_pool \<Rightarrow> (u64 \<times> nat) multiset \<Rightarrow> bool" where
  "slots_held pool H \<longleftrightarrow> pool_inv pool \<and> (\<forall>x i. count H (x, i) = (if pool_holds pool i = Some x then 1 else 0))"

lemma slots_held_claim:
  assumes "slots_held pool H" "pool_inv pool'" "pool_holds pool i = None" "pool_holds pool' = (pool_holds pool)(i \<mapsto> x)"
  shows "slots_held pool' (add_mset (x, i) H)"
proof -
  have "count H (y, i) = 0" for y using assms(1,3) by (simp add: slots_held_def)
  then show ?thesis using assms by (auto simp: slots_held_def)
qed

lemma slots_held_same: "slots_held pool H \<Longrightarrow> pool_inv pool' \<Longrightarrow> pool_holds pool' = pool_holds pool \<Longrightarrow> slots_held pool' H"
  by (simp add: slots_held_def)

lemma slots_held_owner:
  assumes "slots_held pool H" "(x, i) \<in># H"
  shows "pool_holds pool i = Some x"
proof -
  have "count H (x, i) \<noteq> 0" using assms(2) by simp
  then show ?thesis using assms(1) by (auto simp: slots_held_def split: if_splits)
qed

lemma slots_held_release:
  assumes "slots_held pool (add_mset (x, i) H)"
  obtains pool' where "release pool i = Inr pool'" "slots_held pool' H" "sp_closed pool' = sp_closed pool" "sp_bytes pool' = sp_bytes pool"
proof -
  have inv: "pool_inv pool" and h: "pool_holds pool i = Some x"
    using assms slots_held_owner [OF assms, of x i] by (simp_all add: slots_held_def)
  then obtain pool' where r: "release pool i = Inr pool'" using release_total [of pool i] by auto
  have "count H (y, j) = (if pool_holds pool' j = Some y then 1 else 0)" for y j
  proof -
    have "count (add_mset (x, i) H) (y, j) = (if pool_holds pool j = Some y then 1 else 0)"
      using assms by (simp add: slots_held_def)
    then show ?thesis using h release_pool_holds [OF inv r] by (cases "j = i"; cases "x = y") (auto split: if_splits)
  qed
  moreover have "sp_bytes pool' = sp_bytes pool" using r by (auto simp: release_def Let_def split: if_splits)
  ultimately show thesis
    using that [OF r] release_spec [OF inv r] by (simp add: slots_held_def)
qed

lemma slots_held_index: "slots_held pool H \<Longrightarrow> (x, i) \<in># H \<Longrightarrow> is_ok (slot pool i)"
  using slots_held_owner [of pool H x i] by (auto simp: slot_def pool_holds_def split: if_splits)

section \<open>Connections\<close>

text \<open>What holds at each point of the reader; the states of the refused push and of an escaped exception do not occur.\<close>

definition reader_at :: "limits \<Rightarrow> nat \<Rightarrow> reader_pc \<Rightarrow> bool" where
  "reader_at limits k pc = (case pc of
     R_Claiming header chain \<Rightarrow> rq_payload_len header \<le> max_payload_bytes limits
   | R_Parked header chain \<Rightarrow> rq_payload_len header \<le> max_payload_bytes limits
   | R_Receiving header chain index \<Rightarrow> rq_payload_len header \<le> max_payload_bytes limits
   | R_Submitting f \<Rightarrow> qf_connection f = k
   | R_Pushing f \<Rightarrow> qf_connection f = k
   | R_Refused f \<Rightarrow> False
   | R_Giving_Back index \<Rightarrow> False
   | R_Crashed \<Rightarrow> False
   | _ \<Rightarrow> True)"

definition connection_ok :: "limits \<Rightarrow> nat \<Rightarrow> connection \<Rightarrow> bool" where
  "connection_ok limits k c \<longleftrightarrow>
     co_id c = owner_id k \<and> reader_at limits k (co_reader c) \<and>
     (co_reader_done c \<longleftrightarrow> co_reader c = R_Joining \<or> co_reader c = R_Done) \<and>
     (co_finished c \<longleftrightarrow> co_reader c = R_Done) \<and>
     (co_finished c \<longrightarrow> co_writer c = Wr_Done) \<and>
     (co_writer c = Wr_Done \<longrightarrow> ob_closed (co_outbox c) \<and> ob_items (co_outbox c) = []) \<and>
     (ob_closed (co_outbox c) \<longleftrightarrow> co_reader_done c \<and> co_outstanding c = 0) \<and>
     (co_writer c = Wr_Running True \<longrightarrow> fst (co_outbound c) = concat (map response_bytes (co_taken c)))"

lemma connection_ok_new: "connection_ok limits k (new_connection (owner_id k) inbound sends)"
  by (simp add: connection_ok_def new_connection_def new_outbox_def reader_at_def)

text \<open>An open outbox keeps every response that is pushed.\<close>

lemma push_response_open:
  assumes "\<not> ob_closed (co_outbox c)"
  shows "push_response r c = c\<lparr>co_outbox := (co_outbox c)\<lparr>ob_items := ob_items (co_outbox c) @ [r]\<rparr>\<rparr>"
  using assms by (simp add: push_response_def outbox_push_def)

lemma close_if_done_fields [simp]:
  "co_id (close_outbox_if_done c) = co_id c" "co_outstanding (close_outbox_if_done c) = co_outstanding c"
  "co_reader_done (close_outbox_if_done c) = co_reader_done c" "co_finished (close_outbox_if_done c) = co_finished c"
  "co_reader (close_outbox_if_done c) = co_reader c" "co_writer (close_outbox_if_done c) = co_writer c"
  "co_asked (close_outbox_if_done c) = co_asked c" "co_taken (close_outbox_if_done c) = co_taken c"
  "co_outbound (close_outbox_if_done c) = co_outbound c" "co_inbound (close_outbox_if_done c) = co_inbound c"
  "ob_items (co_outbox (close_outbox_if_done c)) = ob_items (co_outbox c)"
  "ob_closed (co_outbox (close_outbox_if_done c)) \<longleftrightarrow>
     ob_closed (co_outbox c) \<or> co_reader_done c \<and> co_outstanding c = 0"
  by (auto simp: close_outbox_if_done_def outbox_close_def)

lemma shutdown_fields [simp]:
  "co_id (shutdown_both n c) = co_id c" "co_outstanding (shutdown_both n c) = co_outstanding c"
  "co_reader_done (shutdown_both n c) = co_reader_done c" "co_finished (shutdown_both n c) = co_finished c"
  "co_reader (shutdown_both n c) = co_reader c" "co_writer (shutdown_both n c) = co_writer c"
  "co_asked (shutdown_both n c) = co_asked c" "co_taken (shutdown_both n c) = co_taken c"
  "co_outbox (shutdown_both n c) = co_outbox c" "fst (co_outbound (shutdown_both n c)) = fst (co_outbound c)"
  by (simp_all add: shutdown_both_def)

lemma read_request_admits:
  assumes "read_request limits script = (Admits header chain, rest)"
  shows "rq_payload_len header \<le> max_payload_bytes limits"
proof -
  have no: "\<And>h st n s. fst (reject_frame h st n s) \<noteq> Admits header chain" by (simp add: reject_frame_def split: prod.splits)
  have "validate_request_header header limits = kOk"
    using assms no
    by (auto simp: read_request_def Let_def split: prod.splits if_splits sum.splits) (metis fst_conv)+
  then show ?thesis by (simp add: validate_ok_iff)
qed

lemma reader_reads_ok:
  assumes ok: "connection_ok limits k c" and pc: "co_reader c = R_Reading"
  shows "connection_ok limits k (reader_reads limits c)"
    "co_outstanding (reader_reads limits c) = co_outstanding c" "co_finished (reader_reads limits c) = co_finished c"
    "reader_tickets (reader_reads limits c) = {#}" "reader_holdings (reader_reads limits c) = {#}"
    "mset (co_asked (reader_reads limits c)) + answered c = mset (co_asked c) + answered (reader_reads limits c)"
proof -
  have opn: "\<not> ob_closed (co_outbox c)" using ok pc by (simp add: connection_ok_def)
  obtain found rest where r: "read_request limits (co_inbound c) = (found, rest)" by (cases "read_request limits (co_inbound c)")
  have "connection_ok limits k (reader_reads limits c) \<and> co_outstanding (reader_reads limits c) = co_outstanding c \<and>
      co_finished (reader_reads limits c) = co_finished c \<and> reader_tickets (reader_reads limits c) = {#} \<and>
      reader_holdings (reader_reads limits c) = {#} \<and>
      mset (co_asked (reader_reads limits c)) + answered c = mset (co_asked c) + answered (reader_reads limits c)"
  proof (cases found)
    case (Admits header chain)
    with read_request_admits [of limits "co_inbound c"] r ok pc show ?thesis
      by (auto simp: reader_reads_def connection_ok_def reader_at_def reader_tickets_def reader_holdings_def answered_def)
  next
    case (Rejects seq_num status goes_on)
    with r ok pc opn show ?thesis
      by (simp add: reader_reads_def connection_ok_def reader_at_def reader_tickets_def reader_holdings_def answered_def
          push_response_open error_response_def)
  next
    case Reader_Returns
    with r ok pc show ?thesis
      by (auto simp: reader_reads_def connection_ok_def reader_at_def reader_tickets_def reader_holdings_def answered_def)
  qed
  then show "connection_ok limits k (reader_reads limits c)"
    "co_outstanding (reader_reads limits c) = co_outstanding c" "co_finished (reader_reads limits c) = co_finished c"
    "reader_tickets (reader_reads limits c) = {#}" "reader_holdings (reader_reads limits c) = {#}"
    "mset (co_asked (reader_reads limits c)) + answered c = mset (co_asked c) + answered (reader_reads limits c)"
    by blast+
qed

lemma write_file_seq [simp]: "re_seq_num (write_file_if_asked save dir connection_id r) = re_seq_num r"
  by (simp add: write_file_if_asked_def)

lemma writer_answers_ok:
  assumes ok: "connection_ok limits k c" and pc: "co_writer c = Wr_Running alive" and items: "ob_items (co_outbox c) = r # rest"
    and c'_def: "c' = writer_answers dir save keep alive r (c\<lparr>co_outbox := (co_outbox c)\<lparr>ob_items := rest\<rparr>\<rparr>)"
  shows "connection_ok limits k c'" "co_outstanding c' = co_outstanding c" "co_finished c' = co_finished c"
    "reader_tickets c' = reader_tickets c" "reader_holdings c' = reader_holdings c"
    "mset (co_asked c') + answered c = mset (co_asked c) + answered c'"
proof -
  define r' where "r' = write_file_if_asked save dir (co_id c) r"
  obtain sent out where w: "write_response r' (co_outbound c) = (sent, out)" by (cases "write_response r' (co_outbound c)")
  have wire: "fst out = fst (co_outbound c) @ response_bytes r'" if sent
    using write_response_wire [of r' "co_outbound c" out, OF _ refl] w that by (simp add: response_bytes_def)
  have c': "c' = (if \<not> alive then c\<lparr>co_outbox := (co_outbox c)\<lparr>ob_items := rest\<rparr>, co_taken := co_taken c @ [r']\<rparr>
      else if sent then c\<lparr>co_outbox := (co_outbox c)\<lparr>ob_items := rest\<rparr>, co_taken := co_taken c @ [r'], co_outbound := out\<rparr>
      else (shutdown_both keep (c\<lparr>co_outbox := (co_outbox c)\<lparr>ob_items := rest\<rparr>, co_taken := co_taken c @ [r'], co_outbound := out\<rparr>))\<lparr>co_writer := Wr_Running False\<rparr>)"
    using w by (simp add: c'_def writer_answers_def Let_def r'_def)
  have notfin: "\<not> co_finished c" using ok pc by (auto simp: connection_ok_def)
  show "connection_ok limits k c'"
    using ok pc wire notfin unfolding connection_ok_def c' by (cases alive) (auto simp: response_bytes_def)
  show "co_outstanding c' = co_outstanding c" "co_finished c' = co_finished c"
    "mset (co_asked c') + answered c = mset (co_asked c) + answered c'"
    using items by (simp_all add: c' answered_def r'_def)
  show "reader_tickets c' = reader_tickets c" "reader_holdings c' = reader_holdings c"
    by (rule reader_same; simp add: c')+
qed

section \<open>The invariant\<close>

definition server_ok :: "limits \<Rightarrow> 'b server \<Rightarrow> bool" where
  "server_ok limits s \<longleftrightarrow>
     accounts (sv_connections s) (jobs s) (answers s) \<and> slots_held (sv_pool s) (holdings s) \<and>
     sp_bytes (sv_pool s) = unat (max_payload_bytes limits) \<and>
     (\<forall>k < length (sv_connections s). connection_ok limits k (sv_connections s ! k)) \<and>
     sv_next_connection_id s = owner_id (length (sv_connections s)) \<and> queue_inv (sv_queue s) \<and> sv_worker s \<noteq> W_Crashed"

text \<open>The order of the shutdown: the queue closes only behind the last connection.\<close>

definition queue_shut :: "stop_pc \<Rightarrow> bool" where "queue_shut p \<longleftrightarrow> p = S_Join_Worker \<or> p = S_Stopped"

definition lifecycle_ok :: "'b server \<Rightarrow> bool" where
  "lifecycle_ok s \<longleftrightarrow>
     (bq_closed (sv_queue s) \<longleftrightarrow> queue_shut (sv_stop s)) \<and>
     (sp_closed (sv_pool s) \<longleftrightarrow> queue_shut (sv_stop s) \<or> sv_stop s = S_Join_Connections) \<and>
     (sv_running s \<longleftrightarrow> sv_stop s = S_Idle) \<and>
     (sv_stop s \<noteq> S_Idle \<longrightarrow> sv_stop s \<noteq> S_Join_Acceptor \<longrightarrow> sv_acceptor s = A_Done) \<and>
     (\<forall>k < length (sv_connections s). \<not> co_finished (sv_connections s ! k) \<longrightarrow> k \<in> set (sv_records s)) \<and>
     set (sv_records s) \<subseteq> {..<length (sv_connections s)} \<and>
     (queue_shut (sv_stop s) \<longrightarrow> sv_records s = []) \<and>
     (sv_worker s = W_Done \<longrightarrow> bq_closed (sv_queue s) \<and> bq_items (sv_queue s) = [] \<and> sv_in_flight s = []) \<and>
     (sv_stop s = S_Stopped \<longrightarrow> sv_worker s = W_Done)"

lemma set_connection_fields [simp]:
  "sv_pool (set_connection k c s) = sv_pool s" "sv_memory (set_connection k c s) = sv_memory s"
  "sv_queue (set_connection k c s) = sv_queue s" "sv_connections (set_connection k c s) = (sv_connections s)[k := c]"
  "sv_records (set_connection k c s) = sv_records s" "sv_next_connection_id (set_connection k c s) = sv_next_connection_id s"
  "sv_in_flight (set_connection k c s) = sv_in_flight s" "sv_backend (set_connection k c s) = sv_backend s"
  "sv_worker (set_connection k c s) = sv_worker s" "sv_acceptor (set_connection k c s) = sv_acceptor s"
  "sv_stop (set_connection k c s) = sv_stop s" "sv_running (set_connection k c s) = sv_running s"
  "sv_submissions (set_connection k c s) = sv_submissions s"
  by (simp_all add: set_connection_def)

lemma server_ok_parts:
  assumes "server_ok limits s"
  shows "accounts (sv_connections s) (jobs s) (answers s)" "slots_held (sv_pool s) (holdings s)"
    "sp_bytes (sv_pool s) = unat (max_payload_bytes limits)"
    "\<And>k. k < length (sv_connections s) \<Longrightarrow> connection_ok limits k (sv_connections s ! k)"
    "sv_next_connection_id s = owner_id (length (sv_connections s))" "queue_inv (sv_queue s)" "sv_worker s \<noteq> W_Crashed"
  using assms by (simp_all add: server_ok_def)

lemma connections_ok_update:
  assumes "server_ok limits s" "connection_ok limits k c"
  shows "\<forall>j < length ((sv_connections s)[k := c]). connection_ok limits j ((sv_connections s)[k := c] ! j)"
proof (intro allI impI)
  fix j assume "j < length ((sv_connections s)[k := c])"
  with assms show "connection_ok limits j ((sv_connections s)[k := c] ! j)" by (cases "j = k") (simp_all add: server_ok_def)
qed

lemma tickets_set:
  assumes "k < length (sv_connections s)"
  shows "tickets (set_connection k c s) + reader_tickets (sv_connections s ! k) = tickets s + reader_tickets c"
  using sum_list_mset_update [OF assms, of reader_tickets c] by (simp add: tickets_def ac_simps)

text \<open>A step of one connection that moves no ticket.\<close>

lemma connection_step:
  assumes ok: "server_ok limits s" and k: "k < length (sv_connections s)"
    and c: "connection_ok limits k c" "co_outstanding c = co_outstanding (sv_connections s ! k)"
      "mset (co_asked c) + answered (sv_connections s ! k) = mset (co_asked (sv_connections s ! k)) + answered c"
      "reader_tickets c = reader_tickets (sv_connections s ! k)"
    and pool: "slots_held pool H" "holdings s + reader_holdings c = H + reader_holdings (sv_connections s ! k)"
      "sp_bytes pool = sp_bytes (sv_pool s)"
  shows "server_ok limits (set_connection k c (s\<lparr>sv_pool := pool\<rparr>))"
proof -
  define s' where "s' = set_connection k c (s\<lparr>sv_pool := pool\<rparr>)"
  have t: "tickets s' = tickets s"
    using sum_list_mset_same [OF k, of reader_tickets c] c(4) by (simp add: s'_def tickets_def)
  have "holdings s' + reader_holdings (sv_connections s ! k) = holdings s + reader_holdings c"
    using t sum_list_mset_update [OF k, of reader_holdings c] by (simp add: s'_def holdings_def ac_simps)
  then have h: "holdings s' = H" using pool(2) by simp
  have "jobs s' = jobs s" "answers s' = answers s" using t by (simp_all add: jobs_def answers_def s'_def)
  moreover have "accounts (sv_connections s') (jobs s) (answers s)"
    using accounts_same [OF server_ok_parts(1) [OF ok] k c(2,3)] by (simp add: s'_def)
  ultimately show ?thesis
    using server_ok_parts [OF ok] connections_ok_update [OF ok c(1)] pool h k
    unfolding s'_def [symmetric] server_ok_def by (simp add: s'_def)
qed

lemma connection_step_same:
  assumes "server_ok limits s" "k < length (sv_connections s)"
    and "connection_ok limits k c" "co_outstanding c = co_outstanding (sv_connections s ! k)"
      "mset (co_asked c) + answered (sv_connections s ! k) = mset (co_asked (sv_connections s ! k)) + answered c"
      "reader_tickets c = reader_tickets (sv_connections s ! k)" "reader_holdings c = reader_holdings (sv_connections s ! k)"
  shows "server_ok limits (set_connection k c s)"
  using connection_step [OF assms(1-6) server_ok_parts(2) [OF assms(1)]] assms(7) by simp

lemma memory_parts [simp]:
  "tickets (s\<lparr>sv_memory := m\<rparr>) = tickets s" "holdings (s\<lparr>sv_memory := m\<rparr>) = holdings s"
  "jobs (s\<lparr>sv_memory := m\<rparr>) = jobs s" "answers (s\<lparr>sv_memory := m\<rparr>) = answers s"
  by (simp_all add: tickets_def holdings_def jobs_def answers_def)

lemma server_ok_memory [simp]: "server_ok limits (s\<lparr>sv_memory := m\<rparr>) = server_ok limits s"
  by (simp add: server_ok_def)

lemma lifecycle_set:
  assumes "lifecycle_ok s" "k < length (sv_connections s)" "co_finished (sv_connections s ! k) \<Longrightarrow> co_finished c"
  shows "lifecycle_ok (set_connection k c s)"
  using assms by (auto simp: lifecycle_ok_def nth_list_update)

lemma lifecycle_fields:
  "lifecycle_ok (s\<lparr>sv_memory := m\<rparr>) = lifecycle_ok s"
  "sp_closed pool = sp_closed (sv_pool s) \<Longrightarrow> lifecycle_ok (s\<lparr>sv_pool := pool\<rparr>) = lifecycle_ok s"
  by (simp_all add: lifecycle_ok_def)

section \<open>Steps of a connection\<close>

text \<open>The bounds under which connection ids stay below \<open>kNoOwner\<close>.\<close>

lemma owner_id_not_none: "Suc k < 2 ^ 64 - 1 \<Longrightarrow> owner_id k \<noteq> kNoOwner"
proof
  assume lt: "Suc k < 2 ^ 64 - 1" and "owner_id k = kNoOwner"
  then have "unat (of_nat (Suc k) :: u64) = unat (NOT 0 :: u64)" by (simp only: owner_id_def kNoOwner_def)
  moreover have "unat (of_nat (Suc k) :: u64) = Suc k" using lt by (simp only: unat_of_nat) (simp add: mod_less)
  ultimately show False using lt by (simp add: unsigned_minus_1_eq_mask mask_eq_exp_minus_1)
qed

lemma reader_claims:
  assumes ok: "server_ok limits s" and k: "k < length (sv_connections s)" and bound: "Suc k < 2 ^ 64 - 1"
    and pc: "co_reader (sv_connections s ! k) = R_Claiming header chain \<or> co_reader (sv_connections s ! k) = R_Parked header chain"
    and claim: "claim (sv_pool s) (co_id (sv_connections s ! k)) = (r, pool) \<or>
      claim_resume (sv_pool s) (co_id (sv_connections s ! k)) = (r, pool)"
    and c: "c = (sv_connections s ! k)\<lparr>co_reader := pc'\<rparr>"
    and pc': "case r of Waits \<Rightarrow> pc' = R_Parked header chain | Returns None \<Rightarrow> pc' = R_Leaving
      | Returns (Some index) \<Rightarrow> pc' = R_Receiving header chain index"
  shows "server_ok limits (set_connection k c (s\<lparr>sv_pool := pool\<rparr>))" "sp_closed pool = sp_closed (sv_pool s)"
proof -
  define c0 where "c0 = sv_connections s ! k"
  note p = server_ok_parts [OF ok] and cok = server_ok_parts(4) [OF ok k, folded c0_def]
  have owner: "co_id c0 \<noteq> kNoOwner" using cok owner_id_not_none [OF bound] by (simp add: connection_ok_def)
  have inv: "pool_inv (sv_pool s)" using p(2) by (simp add: slots_held_def)
  have inv': "pool_inv pool" using claim claim_inv [OF inv owner] unfolding c0_def [symmetric] by auto
  have bytes: "sp_bytes pool = sp_bytes (sv_pool s)" and closed: "sp_closed pool = sp_closed (sv_pool s)"
    using claim by (auto simp: claim_def claim_resume_def claim_take_def Let_def split: if_splits)
  have quiet: "reader_tickets c0 = {#}" "reader_holdings c0 = {#}" "reader_tickets c = {#}"
    using pc pc' by (auto simp: c c0_def [symmetric] reader_tickets_def reader_holdings_def split: blocking.splits option.splits)
  have cok': "connection_ok limits k c"
    using cok pc pc' by (auto simp: c c0_def [symmetric] connection_ok_def reader_at_def split: blocking.splits option.splits)
  define H where "H = holdings s + reader_holdings c"
  have held: "slots_held pool H"
  proof (cases "\<exists>index. r = Returns (Some index)")
    case True
    then obtain index where r: "r = Returns (Some index)" by blast
    have "pool_holds (sv_pool s) index = None \<and> pool_holds pool = (pool_holds (sv_pool s))(index \<mapsto> co_id c0)"
      using claim r pool_claim.claim_some [OF inv owner] pool_resume.claim_some [OF inv owner] unfolding c0_def [symmetric] by blast
    moreover have "reader_holdings c = {#(co_id c0, index)#}" using pc' r by (simp add: c c0_def [symmetric] reader_holdings_def)
    ultimately show ?thesis using slots_held_claim [OF p(2) inv'] by (simp add: H_def)
  next
    case False
    then have "reader_holdings c = {#}" using pc' by (auto simp: c reader_holdings_def split: blocking.splits option.splits)
    moreover have "pool_holds pool = pool_holds (sv_pool s)" using claim_not_some [OF claim] False by blast
    ultimately show ?thesis using slots_held_same [OF p(2) inv'] by (simp add: H_def)
  qed
  have "answered c = answered c0" "co_outstanding c = co_outstanding c0" "co_asked c = co_asked c0"
    by (simp_all add: c c0_def answered_def)
  with quiet show "server_ok limits (set_connection k c (s\<lparr>sv_pool := pool\<rparr>))"
    by (intro connection_step [OF ok k cok' _ _ _ held _ bytes]) (simp_all add: c0_def H_def)
  show "sp_closed pool = sp_closed (sv_pool s)" by (rule closed)
qed

lemma reader_holding_release:
  assumes ok: "server_ok limits s" and k: "k < length (sv_connections s)"
    and h: "reader_holdings (sv_connections s ! k) = {#(co_id (sv_connections s ! k), index)#}"
  obtains pool H where "release (sv_pool s) index = Inr pool" "slots_held pool H" "sp_closed pool = sp_closed (sv_pool s)"
    "sp_bytes pool = sp_bytes (sv_pool s)" "holdings s = H + reader_holdings (sv_connections s ! k)"
proof -
  have "(co_id (sv_connections s ! k), index) \<in># sum_list (map reader_holdings (sv_connections s))"
    by (rule sum_list_mset_member [OF k]) (simp add: h)
  then obtain H where H: "holdings s = add_mset (co_id (sv_connections s ! k), index) H"
    by (metis holdings_def insert_DiffM union_iff)
  from slots_held_release [OF server_ok_parts(2) [OF ok, unfolded H]] that H h show thesis by (metis add_mset_add_single)
qed

lemma reader_receives_ok:
  assumes ok: "server_ok limits s" and life: "lifecycle_ok s" and k: "k < length (sv_connections s)"
    and pc: "co_reader (sv_connections s ! k) = R_Receiving header chain index"
  shows "server_ok limits (reader_receives k header chain index (sv_connections s ! k) s)"
    "lifecycle_ok (reader_receives k header chain index (sv_connections s ! k) s)"
proof -
  define c0 where "c0 = sv_connections s ! k"
  note p = server_ok_parts [OF ok] and cok = server_ok_parts(4) [OF ok k, folded c0_def]
  have h: "reader_holdings c0 = {#(co_id c0, index)#}" using pc by (simp add: c0_def reader_holdings_def)
  have "(co_id c0, index) \<in># holdings s"
    using sum_list_mset_member [OF k, of "(co_id c0, index)" reader_holdings] h by (simp add: holdings_def c0_def)
  then obtain a where a: "slot (sv_pool s) index = Inr a"
    using slots_held_index [OF p(2), of "co_id c0" index] by (cases "slot (sv_pool s) index") auto
  obtain r bytes inbound where rd: "read_exact (unat (rq_payload_len header)) (co_inbound c0) = (r, bytes, inbound)" by (metis prod_cases3)
  define m where "m = (sv_memory s)(index := bytes @ drop (length bytes) (sv_memory s index))"
  have keep: "answered (c0\<lparr>co_inbound := inbound, co_reader := pc'\<rparr>) = answered c0" for pc' by (simp add: answered_def)
  have t0: "reader_tickets c0 = {#}" using pc by (simp add: c0_def reader_tickets_def)
  show "server_ok limits (reader_receives k header chain index (sv_connections s ! k) s)"
    "lifecycle_ok (reader_receives k header chain index (sv_connections s ! k) s)"
  proof (atomize (full), cases "r = io_kOk")
    case True
    define c where "c = c0\<lparr>co_inbound := inbound, co_reader := R_Submitting (frame_of k header chain index)\<rparr>"
    have "connection_ok limits k c" using cok pc by (auto simp: c_def c0_def [symmetric] connection_ok_def reader_at_def frame_of_def)
    moreover have "reader_holdings c = reader_holdings c0" using h by (simp add: c_def reader_holdings_def frame_of_def)
    ultimately have "server_ok limits (set_connection k c (s\<lparr>sv_memory := m\<rparr>))"
      using connection_step_same [of limits "s\<lparr>sv_memory := m\<rparr>" k c] ok k keep t0
      by (simp add: c0_def [symmetric] c_def reader_tickets_def [of "c0\<lparr>co_inbound := inbound, co_reader := R_Submitting f\<rparr>" for f])
    moreover have "lifecycle_ok (set_connection k c (s\<lparr>sv_memory := m\<rparr>))"
      using lifecycle_set [of "s\<lparr>sv_memory := m\<rparr>" k c] life k by (simp add: lifecycle_fields c_def c0_def)
    ultimately show "server_ok limits (reader_receives k header chain index (sv_connections s ! k) s) \<and>
        lifecycle_ok (reader_receives k header chain index (sv_connections s ! k) s)"
      using True a rd by (simp add: reader_receives_def c0_def [symmetric] m_def c_def Let_def)
  next
    case False
    define c where "c = c0\<lparr>co_inbound := inbound, co_reader := R_Leaving\<rparr>"
    obtain pool H where rel: "release (sv_pool s) index = Inr pool" "slots_held pool H" "sp_closed pool = sp_closed (sv_pool s)"
        "sp_bytes pool = sp_bytes (sv_pool s)" "holdings s = H + reader_holdings c0"
      using reader_holding_release [OF ok k] h unfolding c0_def by blast
    have "connection_ok limits k c" using cok pc by (auto simp: c_def c0_def [symmetric] connection_ok_def reader_at_def)
    then have "server_ok limits (set_connection k c (s\<lparr>sv_memory := m, sv_pool := pool\<rparr>))"
      using connection_step [of limits "s\<lparr>sv_memory := m\<rparr>" k c pool H] ok k keep t0 rel
      by (simp add: c0_def [symmetric] c_def reader_tickets_def [of "c0\<lparr>co_inbound := inbound, co_reader := R_Leaving\<rparr>"]
          reader_holdings_def [of "c0\<lparr>co_inbound := inbound, co_reader := R_Leaving\<rparr>"])
    moreover have "lifecycle_ok (set_connection k c (s\<lparr>sv_memory := m, sv_pool := pool\<rparr>))"
      using lifecycle_set [of "s\<lparr>sv_memory := m, sv_pool := pool\<rparr>" k c] life k rel(3) by (simp add: lifecycle_fields c_def c0_def)
    ultimately show "server_ok limits (reader_receives k header chain index (sv_connections s ! k) s) \<and>
        lifecycle_ok (reader_receives k header chain index (sv_connections s ! k) s)"
      using False a rd rel(1) by (simp add: reader_receives_def reader_releases_def c0_def [symmetric] m_def c_def Let_def)
  qed
qed

lemma reader_submits_ok:
  assumes ok: "server_ok limits s" and k: "k < length (sv_connections s)" and pc: "co_reader (sv_connections s ! k) = R_Submitting f"
    and c: "c = (job_submitted (sv_connections s ! k))\<lparr>co_reader := R_Pushing f, co_asked := co_asked (sv_connections s ! k) @ [qf_seq_num f]\<rparr>"
  shows "server_ok limits (set_connection k c s)"
proof -
  define c0 where "c0 = sv_connections s ! k"
  define s' where "s' = set_connection k c s"
  note p = server_ok_parts [OF ok] and cok = server_ok_parts(4) [OF ok k, folded c0_def]
  have f: "qf_connection f = k" "co_id c0 = owner_id k" using cok pc by (simp_all add: connection_ok_def reader_at_def c0_def)
  have cf: "co_reader c = R_Pushing f" "co_id c = co_id c0" "co_outstanding c = co_outstanding c0 + 1"
      "co_asked c = co_asked c0 @ [qf_seq_num f]" "answered c = answered c0"
    by (simp_all add: c c0_def job_submitted_def answered_def)
  have t: "tickets s' = add_mset (frame_ticket f) (tickets s)"
    using tickets_set [OF k, of c] pc cf(1) by (simp add: s'_def reader_tickets_def)
  have "sum_list (map reader_holdings (sv_connections s')) + {#(co_id c0, qf_slot f)#} = sum_list (map reader_holdings (sv_connections s))"
    using sum_list_mset_update [OF k, of reader_holdings c] pc cf(1) by (simp add: s'_def reader_holdings_def c0_def)
  then have h: "holdings s' = holdings s" using t f by (simp add: holdings_def frame_ticket_def flip: union_assoc)
  have "jobs s' = add_mset k (jobs s)" "answers s' = add_mset (k, qf_seq_num f) (answers s)"
    using t f(1) by (simp_all add: jobs_def answers_def frame_ticket_def s'_def)
  moreover have "accounts (sv_connections s') (add_mset k (jobs s)) (add_mset (k, qf_seq_num f) (answers s))"
    unfolding s'_def set_connection_fields
    by (rule accounts_ask [OF p(1) k]) (simp_all add: cf c0_def)
  moreover have "connection_ok limits k c"
    using cok pc f cf by (auto simp: connection_ok_def reader_at_def c c0_def job_submitted_def)
  ultimately show ?thesis
    using p connections_ok_update [OF ok] h unfolding s'_def [symmetric] server_ok_def by (simp add: s'_def)
qed

lemma reader_pushes_ok:
  assumes ok: "server_ok limits s" and k: "k < length (sv_connections s)" and pc: "co_reader (sv_connections s ! k) = R_Pushing f"
    and push: "bq_push f (sv_queue s) = (Returns True, q)" and c: "c = (sv_connections s ! k)\<lparr>co_reader := R_Reading\<rparr>"
  shows "server_ok limits (set_connection k c (s\<lparr>sv_queue := q\<rparr>))"
proof -
  define c0 where "c0 = sv_connections s ! k"
  define s' where "s' = set_connection k c (s\<lparr>sv_queue := q\<rparr>)"
  note p = server_ok_parts [OF ok] and cok = server_ok_parts(4) [OF ok k, folded c0_def]
  have q: "bq_items q = bq_items (sv_queue s) @ [f]" "queue_inv q"
    using bq_push_cases [OF push] p(6) by (auto simp: queue_inv_def)
  have "sum_list (map reader_tickets (sv_connections s')) + {#frame_ticket f#} = sum_list (map reader_tickets (sv_connections s))"
    using sum_list_mset_update [OF k, of reader_tickets c] pc by (simp add: s'_def reader_tickets_def c)
  then have t: "tickets s' = tickets s" by (simp add: s'_def tickets_def q(1) flip: union_assoc)
  have "sum_list (map reader_holdings (sv_connections s')) = sum_list (map reader_holdings (sv_connections s))"
    unfolding s'_def set_connection_fields using sum_list_mset_same [OF k, of reader_holdings c] pc by (simp add: reader_holdings_def c)
  then have "holdings s' = holdings s" "jobs s' = jobs s" "answers s' = answers s"
    using t by (simp_all add: holdings_def jobs_def answers_def s'_def)
  moreover have "accounts (sv_connections s') (jobs s) (answers s)"
    using accounts_same [OF p(1) k, of c] by (simp add: s'_def c answered_def)
  moreover have "connection_ok limits k c" using cok pc by (auto simp: connection_ok_def reader_at_def c c0_def)
  ultimately show ?thesis
    using p q(2) connections_ok_update [OF ok] unfolding s'_def [symmetric] server_ok_def by (simp add: s'_def)
qed

lemma reader_leaves_ok:
  assumes ok: "server_ok limits s" and life: "lifecycle_ok s" and k: "k < length (sv_connections s)"
    and pc: "co_reader (sv_connections s ! k) = R_Leaving"
    and c: "c = (reader_finished (sv_connections s ! k))\<lparr>co_reader := R_Joining\<rparr>"
  shows "server_ok limits (set_connection k c s)" "lifecycle_ok (set_connection k c s)"
proof -
  have cok: "connection_ok limits k (sv_connections s ! k)" by (rule server_ok_parts(4) [OF ok k])
  have c': "connection_ok limits k c" "co_outstanding c = co_outstanding (sv_connections s ! k)" "co_finished c = co_finished (sv_connections s ! k)"
    "answered c = answered (sv_connections s ! k)" "co_asked c = co_asked (sv_connections s ! k)"
    using cok pc by (auto simp: c reader_finished_def connection_ok_def reader_at_def answered_def)
  show "server_ok limits (set_connection k c s)"
    by (rule connection_step_same [OF ok k c'(1,2)])
      (use c' pc server_ok_parts(2) [OF ok] in \<open>simp_all add: c reader_finished_def reader_tickets_def reader_holdings_def\<close>)
  show "lifecycle_ok (set_connection k c s)" using lifecycle_set [OF life k] c'(3) by simp
qed

lemma reader_joins_ok:
  assumes ok: "server_ok limits s" and life: "lifecycle_ok s" and k: "k < length (sv_connections s)"
    and pc: "co_reader (sv_connections s ! k) = R_Joining" "co_writer (sv_connections s ! k) = Wr_Done"
    and c: "c = (shutdown_both 0 (sv_connections s ! k))\<lparr>co_finished := True, co_reader := R_Done\<rparr>"
  shows "server_ok limits (set_connection k c s)" "lifecycle_ok (set_connection k c s)"
proof -
  have cok: "connection_ok limits k (sv_connections s ! k)" by (rule server_ok_parts(4) [OF ok k])
  have c': "connection_ok limits k c" using cok pc by (auto simp: c connection_ok_def reader_at_def)
  show "server_ok limits (set_connection k c s)"
    by (rule connection_step_same [OF ok k c'])
      (use pc server_ok_parts(2) [OF ok] in \<open>simp_all add: c answered_def reader_tickets_def reader_holdings_def\<close>)
  show "lifecycle_ok (set_connection k c s)" using lifecycle_set [OF life k, of c] by (simp add: c)
qed

text \<open>
  Every step of a reader keeps the invariant; a push is never refused, because the queue is open as long
  as the connection lives.
\<close>

lemma reader_step_ok:
  assumes ok: "server_ok limits s" and life: "lifecycle_ok s" and bound: "length (sv_connections s) < 2 ^ 64 - 1"
    and step: "reader_step limits k s = Some s'"
  shows "server_ok limits s' \<and> lifecycle_ok s'"
proof -
  define c where "c = sv_connections s ! k"
  have k: "k < length (sv_connections s)" using step by (cases "length (sv_connections s) \<le> k") (simp_all add: reader_step_def)
  note cok = server_ok_parts(4) [OF ok k, folded c_def]
  have b: "Suc k < 2 ^ 64 - 1 \<or> Suc k = length (sv_connections s)" "Suc k < 2 ^ 64 - 1" using k bound by linarith+
  have st: "reader_step limits k s = Some s'" "\<not> length (sv_connections s) \<le> k" using step k by auto
  show ?thesis
  proof (cases "co_reader c")
    case R_Reading
    note r = reader_reads_ok [OF cok R_Reading]
    have "server_ok limits (set_connection k (reader_reads limits c) s)"
      by (rule connection_step_same [OF ok k])
        (use r R_Reading server_ok_parts(2) [OF ok] in \<open>simp_all add: c_def reader_tickets_def reader_holdings_def\<close>)
    moreover have "lifecycle_ok (set_connection k (reader_reads limits c) s)" using lifecycle_set [OF life k] r(3) by (simp add: c_def)
    ultimately show ?thesis using st R_Reading by (simp add: reader_step_def c_def)
  next
    case (R_Claiming header chain)
    obtain r pool where cl: "claim (sv_pool s) (co_id c) = (r, pool)" by (cases "claim (sv_pool s) (co_id c)")
    define pc' where "pc' = (case r of Waits \<Rightarrow> R_Parked header chain | Returns None \<Rightarrow> R_Leaving | Returns (Some i) \<Rightarrow> R_Receiving header chain i)"
    have f: "server_ok limits (set_connection k (c\<lparr>co_reader := pc'\<rparr>) (s\<lparr>sv_pool := pool\<rparr>))" "sp_closed pool = sp_closed (sv_pool s)"
      by (rule reader_claims [OF ok k b(2), of header chain r pool _ pc']; use R_Claiming cl in \<open>simp add: c_def pc'_def split: blocking.splits option.splits\<close>)+
    have "s' = set_connection k (c\<lparr>co_reader := pc'\<rparr>) (s\<lparr>sv_pool := pool\<rparr>)"
      using st R_Claiming cl by (auto simp: reader_step_def c_def [symmetric] after_claim_def pc'_def split: blocking.splits option.splits)
    with f lifecycle_set [of "s\<lparr>sv_pool := pool\<rparr>" k "c\<lparr>co_reader := pc'\<rparr>"] life k show ?thesis
      by (simp add: lifecycle_fields c_def)
  next
    case (R_Parked header chain)
    obtain r pool where cl: "claim_resume (sv_pool s) (co_id c) = (r, pool)" by (cases "claim_resume (sv_pool s) (co_id c)")
    define pc' where "pc' = (case r of Waits \<Rightarrow> R_Parked header chain | Returns None \<Rightarrow> R_Leaving | Returns (Some i) \<Rightarrow> R_Receiving header chain i)"
    have f: "server_ok limits (set_connection k (c\<lparr>co_reader := pc'\<rparr>) (s\<lparr>sv_pool := pool\<rparr>))" "sp_closed pool = sp_closed (sv_pool s)"
      by (rule reader_claims [OF ok k b(2), of header chain r pool _ pc']; use R_Parked cl in \<open>simp add: c_def pc'_def split: blocking.splits option.splits\<close>)+
    have "s' = set_connection k (c\<lparr>co_reader := pc'\<rparr>) (s\<lparr>sv_pool := pool\<rparr>)"
      using st R_Parked cl by (auto simp: reader_step_def c_def [symmetric] after_claim_def pc'_def split: blocking.splits option.splits)
    with f lifecycle_set [of "s\<lparr>sv_pool := pool\<rparr>" k "c\<lparr>co_reader := pc'\<rparr>"] life k show ?thesis
      by (simp add: lifecycle_fields c_def)
  next
    case (R_Receiving header chain index)
    then show ?thesis using st reader_receives_ok [OF ok life k] by (simp add: reader_step_def c_def)
  next
    case (R_Submitting f)
    define c' where "c' = (job_submitted c)\<lparr>co_reader := R_Pushing f, co_asked := co_asked c @ [qf_seq_num f]\<rparr>"
    have s': "s' = set_connection k c' s" using st R_Submitting by (simp add: reader_step_def c_def [symmetric] c'_def)
    have "server_ok limits s'" unfolding s' by (rule reader_submits_ok [OF ok k]) (use R_Submitting in \<open>simp_all add: c'_def c_def\<close>)
    moreover have "lifecycle_ok s'" unfolding s' by (rule lifecycle_set [OF life k]) (simp add: c'_def c_def job_submitted_def)
    ultimately show ?thesis by blast
  next
    case (R_Pushing f)
    have "\<not> co_finished c" using cok R_Pushing by (simp add: connection_ok_def)
    then have opn: "\<not> bq_closed (sv_queue s)" using life k by (auto simp: lifecycle_ok_def c_def)
    obtain q where q: "bq_push f (sv_queue s) = (Returns True, q)" "s' = set_connection k (c\<lparr>co_reader := R_Reading\<rparr>) (s\<lparr>sv_queue := q\<rparr>)"
      using st R_Pushing opn by (auto simp: reader_step_def c_def [symmetric] bq_push_def Let_def split: if_splits)
    have "lifecycle_ok (s\<lparr>sv_queue := q\<rparr>)"
      using life opn work_queue.push_accepts [OF q(1)] by (auto simp: lifecycle_ok_def)
    from lifecycle_set [OF this, of k] reader_pushes_ok [OF ok k _ q(1)] R_Pushing k show ?thesis unfolding q(2) by (simp add: c_def)
  next
    case R_Leaving
    then show ?thesis using st reader_leaves_ok [OF ok life k] by (auto simp: reader_step_def Let_def c_def)
  next
    case R_Joining
    then show ?thesis using st reader_joins_ok [OF ok life k] by (auto simp: reader_step_def Let_def c_def split: if_splits)
  qed (use st cok in \<open>auto simp: reader_step_def c_def connection_ok_def reader_at_def\<close>)
qed

lemma writer_step_ok:
  assumes ok: "server_ok limits s" and life: "lifecycle_ok s" and step: "writer_step dir save k keep s = Some s'"
  shows "server_ok limits s' \<and> lifecycle_ok s'"
proof -
  define c where "c = sv_connections s ! k"
  have k: "k < length (sv_connections s)" using step by (cases "length (sv_connections s) \<le> k") (simp_all add: writer_step_def)
  note cok = server_ok_parts(4) [OF ok k, folded c_def]
  obtain alive where pc: "co_writer c = Wr_Running alive" using step k by (auto simp: writer_step_def Let_def c_def split: writer_pc.splits)
  show ?thesis
  proof (cases "ob_items (co_outbox c)")
    case Nil
    then have closed: "ob_closed (co_outbox c)" and s': "s' = set_connection k (c\<lparr>co_writer := Wr_Done\<rparr>) s"
      using step k pc by (auto simp: writer_step_def Let_def c_def outbox_pop_def split: if_splits)
    have "connection_ok limits k (c\<lparr>co_writer := Wr_Done\<rparr>)"
      using cok Nil closed by (auto simp: connection_ok_def)
    then have "server_ok limits s'" unfolding s'
      by (rule connection_step_same [OF ok k])
        (simp_all add: c_def answered_def reader_same [of "(sv_connections s ! k)\<lparr>co_writer := Wr_Done\<rparr>" "sv_connections s ! k"])
    then show ?thesis using lifecycle_set [OF life k] by (simp add: s' c_def)
  next
    case (Cons r rest)
    define c' where "c' = writer_answers dir save keep alive r (c\<lparr>co_outbox := (co_outbox c)\<lparr>ob_items := rest\<rparr>\<rparr>)"
    note w = writer_answers_ok [OF cok pc Cons c'_def]
    have s': "s' = set_connection k c' s"
      using step k pc Cons by (simp add: writer_step_def c_def [symmetric] outbox_pop_def c'_def split: if_splits)
    have "server_ok limits s'" unfolding s'
      by (rule connection_step_same [OF ok k]) (use w server_ok_parts(2) [OF ok] in \<open>simp_all add: c_def\<close>)
    then show ?thesis using lifecycle_set [OF life k, of c'] w(3) by (simp add: s' c_def)
  qed
qed

section \<open>Steps of the worker\<close>

lemma worker_move:
  assumes ok: "server_ok limits s" and same: "sv_connections s' = sv_connections s" "sv_pool s' = sv_pool s"
      "sv_next_connection_id s' = sv_next_connection_id s" "queue_inv (sv_queue s')"
    and moved: "tickets s' = tickets s" "worker_jobs (sv_worker s') = worker_jobs (sv_worker s)"
      "worker_answers (sv_worker s') = worker_answers (sv_worker s)" "sv_worker s' \<noteq> W_Crashed"
  shows "server_ok limits s'"
  using server_ok_parts [OF ok] same moved by (simp add: server_ok_def jobs_def answers_def holdings_def)

lemma worker_pops_ok:
  assumes ok: "server_ok limits s" and life: "lifecycle_ok s" and w: "sv_worker s = W_Top" and step: "worker_pops s = Some s'"
  shows "server_ok limits s' \<and> lifecycle_ok s'"
proof -
  have q: "queue_inv (sv_queue s)" by (rule server_ok_parts(6) [OF ok])
  show ?thesis
  proof (cases "bq_items (sv_queue s)")
    case Nil
    then have s': "s' = s\<lparr>sv_worker := W_Done\<rparr> \<and> bq_closed (sv_queue s) \<and> sv_in_flight s = [] \<or> s' = s\<lparr>sv_worker := W_Poll\<rparr>"
      using step by (auto simp: worker_pops_def bq_pop_def bq_try_pop_def split: if_splits)
    have "server_ok limits (s\<lparr>sv_worker := W_Done\<rparr>)" "server_ok limits (s\<lparr>sv_worker := W_Poll\<rparr>)"
      by (rule worker_move [OF ok]; use w q in \<open>simp add: tickets_def worker_parts\<close>)+
    moreover have "lifecycle_ok (s\<lparr>sv_worker := W_Poll\<rparr>)"
      "bq_closed (sv_queue s) \<Longrightarrow> sv_in_flight s = [] \<Longrightarrow> lifecycle_ok (s\<lparr>sv_worker := W_Done\<rparr>)"
      using life w Nil by (simp add: lifecycle_ok_def, auto simp: lifecycle_ok_def)
    ultimately show ?thesis using s' by blast
  next
    case (Cons f rest)
    then have s': "s' = s\<lparr>sv_queue := (sv_queue s)\<lparr>bq_items := rest\<rparr>, sv_worker := W_Submit f\<rparr>"
      using step by (auto simp: worker_pops_def bq_pop_def bq_try_pop_def split: if_splits)
    have "server_ok limits s'"
      by (rule worker_move [OF ok]) (use w q Cons in \<open>auto simp: s' tickets_def worker_parts queue_inv_def\<close>)
    moreover have "lifecycle_ok s'" using life w by (auto simp: s' lifecycle_ok_def)
    ultimately show ?thesis by blast
  qed
qed

lemma worker_release_ok:
  assumes ok: "server_ok limits s" and life: "lifecycle_ok s" and w: "sv_worker s = W_Release job response continue"
    and seq: "re_seq_num response = if_seq_num job"
  obtains pool where "release (sv_pool s) (if_slot job) = Inr pool"
    "server_ok limits (s\<lparr>sv_pool := pool, sv_worker := W_Push (if_connection job) response continue\<rparr>)"
    "lifecycle_ok (s\<lparr>sv_pool := pool, sv_worker := W_Push (if_connection job) response continue\<rparr>)"
proof -
  define s' where "s' pool = s\<lparr>sv_pool := pool, sv_worker := W_Push (if_connection job) response continue\<rparr>" for pool
  note p = server_ok_parts [OF ok]
  have t: "tickets s = add_mset (entry_ticket job) (tickets (s' pool))" for pool
    using w by (simp add: tickets_def worker_parts s'_def)
  have h: "holdings s = add_mset (owner_id (if_connection job), if_slot job) (holdings (s' pool))" for pool
    unfolding holdings_def t [of pool] by (simp add: entry_ticket_def s'_def)
  have ja: "jobs (s' pool) = jobs s" "answers (s' pool) = answers s" for pool
    using w seq unfolding jobs_def answers_def t [of pool] by (simp_all add: worker_parts entry_ticket_def s'_def)
  obtain pool where r: "release (sv_pool s) (if_slot job) = Inr pool" "slots_held pool (holdings (s' (sv_pool s)))"
      "sp_closed pool = sp_closed (sv_pool s)" "sp_bytes pool = sp_bytes (sv_pool s)"
    using slots_held_release [OF p(2) [unfolded h [of "sv_pool s"]]] by blast
  have "holdings (s' pool) = holdings (s' (sv_pool s))" by (simp add: holdings_def tickets_def s'_def)
  then have "server_ok limits (s' pool)" using p r ja by (simp add: server_ok_def) (simp add: s'_def)
  moreover have "lifecycle_ok (s' pool)" using life r(3) w by (auto simp: lifecycle_ok_def s'_def)
  ultimately show thesis using that r(1) by (simp add: s'_def)
qed

lemma worker_push_ok:
  assumes ok: "server_ok limits s" and life: "lifecycle_ok s" and w: "sv_worker s = W_Push k response continue"
    and s': "s' = (set_connection k (push_response response (sv_connections s ! k)) s)\<lparr>sv_worker := W_Retire k continue\<rparr>"
  shows "server_ok limits s' \<and> lifecycle_ok s'"
proof -
  note p = server_ok_parts [OF ok]
  define c where "c = push_response response (sv_connections s ! k)"
  have mem: "k \<in># jobs s" using w by (simp add: jobs_def worker_parts)
  note k = accounts_outstanding [OF p(1) mem]
  note cok = p(4) [OF k(1)]
  have opn: "\<not> ob_closed (co_outbox (sv_connections s ! k))" using cok k(2) by (auto simp: connection_ok_def)
  note c' = push_response_open [OF opn, of response, folded c_def]
  have f: "answered c = add_mset (re_seq_num response) (answered (sv_connections s ! k))" by (simp add: c' answered_def)
  have cok': "connection_ok limits k c" using cok opn unfolding c' connection_ok_def by auto
  have rt: "reader_tickets c = reader_tickets (sv_connections s ! k)" "reader_holdings c = reader_holdings (sv_connections s ! k)"
    by (rule reader_same; simp add: c')+
  have t: "tickets s' = tickets s"
    using w sum_list_mset_same [OF k(1) rt(1)] by (simp add: s' tickets_def worker_parts c_def)
  have h: "holdings s' = holdings s" using t sum_list_mset_same [OF k(1) rt(2)] by (simp add: holdings_def s' c_def)
  have "jobs s' = jobs s" "answers s = add_mset (k, re_seq_num response) (answers s')"
    using w t by (simp_all add: jobs_def answers_def worker_parts s')
  then have "accounts ((sv_connections s)[k := c]) (jobs s') (answers s')"
    using accounts_answer [of "sv_connections s" "jobs s" k "re_seq_num response" "answers s'" c] p(1) f by (simp add: c')
  then have "server_ok limits s'"
    using p h connections_ok_update [OF ok cok'] by (simp add: server_ok_def) (simp add: s' c_def)
  moreover have "lifecycle_ok (set_connection k c s)" by (rule lifecycle_set [OF life k(1)]) (simp add: c')
  then have "lifecycle_ok s'" using w by (auto simp: lifecycle_ok_def s' c_def)
  ultimately show ?thesis by blast
qed

lemma worker_retire_ok:
  assumes ok: "server_ok limits s" and life: "lifecycle_ok s" and w: "sv_worker s = W_Retire k continue"
    and s': "s' = (set_connection k (job_retired (sv_connections s ! k)) s)\<lparr>sv_worker := w', sv_frames_failed := n\<rparr>"
    and w': "w' = W_Poll \<or> (\<exists>cs. w' = W_Completions cs)"
  shows "server_ok limits s' \<and> lifecycle_ok s'"
proof -
  note p = server_ok_parts [OF ok]
  define c where "c = job_retired (sv_connections s ! k)"
  have mem: "k \<in># jobs s" using w by (simp add: jobs_def worker_parts)
  note k = accounts_outstanding [OF p(1) mem]
  note cok = p(4) [OF k(1)]
  have f: "answered c = answered (sv_connections s ! k)" "co_outstanding c = co_outstanding (sv_connections s ! k) - 1"
      "co_asked c = co_asked (sv_connections s ! k)" "co_finished c = co_finished (sv_connections s ! k)"
    by (simp_all add: c_def job_retired_def answered_def)
  have cok': "connection_ok limits k c" using cok k(2) by (auto simp: c_def job_retired_def connection_ok_def)
  have rt: "reader_tickets c = reader_tickets (sv_connections s ! k)" "reader_holdings c = reader_holdings (sv_connections s ! k)"
    by (rule reader_same; simp add: c_def job_retired_def)+
  have parts: "worker_tickets w' = {#}" "worker_jobs w' = {#}" "worker_answers w' = {#}" using w' by (auto simp: worker_parts)
  have t: "tickets s' = tickets s"
    using w parts sum_list_mset_same [OF k(1) rt(1)] by (simp add: s' tickets_def worker_tickets_def c_def)
  have h: "holdings s' = holdings s" using t sum_list_mset_same [OF k(1) rt(2)] by (simp add: holdings_def s' c_def)
  have ja: "jobs s = add_mset k (jobs s')" "answers s = answers s'"
    using w t parts by (simp_all add: jobs_def answers_def worker_jobs_def worker_answers_def s')
  have "fst ` set_mset (answers s') \<subseteq> set_mset (jobs s')" using parts by (auto simp: answers_def jobs_def s' image_iff split: prod.splits) force
  then have "accounts ((sv_connections s)[k := c]) (jobs s') (answers s')"
    using accounts_retire [OF p(1) [unfolded ja], of c] f ja by simp
  then have "server_ok limits s'"
    using p h w' connections_ok_update [OF ok cok'] by (simp add: server_ok_def) (auto simp: s' c_def)
  moreover have "lifecycle_ok (set_connection k c s)" by (rule lifecycle_set [OF life k(1)]) (simp add: f)
  then have "lifecycle_ok s'" using w w' by (auto simp: lifecycle_ok_def s' c_def)
  ultimately show ?thesis by blast
qed

section \<open>The worker and its backend\<close>

text \<open>Completions that were polled and not routed yet.\<close>

definition unrouted :: "worker_pc \<Rightarrow> completion list" where
  "unrouted w = (case w of
     W_Completions cs \<Rightarrow> cs
   | W_Release job response (Some cs) \<Rightarrow> cs
   | W_Push k response (Some cs) \<Rightarrow> cs
   | W_Retire k (Some cs) \<Rightarrow> cs
   | _ \<Rightarrow> [])"

text \<open>
  The in-flight table lists exactly the handles the backend still owes and those it delivered just now;
  \<open>start\<close> is the first handle.
\<close>

definition table_ok :: "job_handle set \<Rightarrow> worker_pc \<Rightarrow> (job_handle \<times> in_flight) list \<Rightarrow> bool" where
  "table_ok owed w table \<longleftrightarrow> distinct (map fst table) \<and> distinct (map cp_handle (unrouted w)) \<and>
     owed \<inter> cp_handle ` set (unrouted w) = {} \<and> fst ` set table = owed \<union> cp_handle ` set (unrouted w) \<and>
     (case w of W_Release job response continue \<Rightarrow> re_seq_num response = if_seq_num job | _ \<Rightarrow> True)"

definition ledger_ok :: "('b \<Rightarrow> bool) \<Rightarrow> ('b \<Rightarrow> nat) \<Rightarrow> ('b \<Rightarrow> job_handle set) \<Rightarrow> nat \<Rightarrow> 'b server \<Rightarrow> bool" where
  "ledger_ok ok next_id pending start s \<longleftrightarrow>
     ok (sv_backend s) \<and> next_id (sv_backend s) = start + sv_submissions s \<and>
     table_ok (pending (sv_backend s)) (sv_worker s) (sv_in_flight s)"

lemma mset_map_remove:
  assumes "distinct (map fst xs)" "map_of xs k = Some v"
  shows "mset (map (f \<circ> snd) xs) = add_mset (f v) (mset (map (f \<circ> snd) (filter (\<lambda>(h, _). h \<noteq> k) xs)))"
  using assms
proof (induction xs)
  case (Cons x xs)
  show ?case
  proof (cases "fst x = k")
    case True
    then have "filter (\<lambda>(h, _). h \<noteq> k) xs = xs" using Cons.prems(1) by (auto simp: filter_id_conv intro: rev_image_eqI)
    then show ?thesis using True Cons.prems by (cases x) auto
  next
    case False
    with Cons show ?thesis by (cases x) auto
  qed
qed simp

lemma worker_routes_ok:
  assumes ok: "server_ok limits s" and life: "lifecycle_ok s" and w: "sv_worker s = W_Completions (completion # rest)"
    and led: "ledger_ok bok next_id pending start s"
  shows "server_ok limits (worker_routes completion rest s)" "lifecycle_ok (worker_routes completion rest s)"
    "ledger_ok bok next_id pending start (worker_routes completion rest s)"
proof -
  have t: "table_ok (pending (sv_backend s)) (sv_worker s) (sv_in_flight s)" using led by (simp add: ledger_ok_def)
  have "cp_handle completion \<in> fst ` set (sv_in_flight s)" using t w by (auto simp: table_ok_def unrouted_def)
  then obtain job where job: "map_of (sv_in_flight s) (cp_handle completion) = Some job"
    by (cases "map_of (sv_in_flight s) (cp_handle completion)") (auto simp: map_of_eq_None_iff)
  have d: "distinct (map fst (sv_in_flight s))" using t by (simp add: table_ok_def)
  have seq: "re_seq_num (response_of job completion) = if_seq_num job" by (simp add: response_of_def Let_def)
  note m = mset_map_remove [OF d job, of entry_ticket]
  show "server_ok limits (worker_routes completion rest s)"
    by (rule worker_move [OF ok])
      (use w job m server_ok_parts(6) [OF ok] in \<open>simp_all add: worker_routes_def tickets_def worker_parts\<close>)
  show "lifecycle_ok (worker_routes completion rest s)" using life w job by (simp add: worker_routes_def lifecycle_ok_def)
  have "fst ` set (filter (\<lambda>(h, _). h \<noteq> cp_handle completion) (sv_in_flight s)) = fst ` set (sv_in_flight s) - {cp_handle completion}"
    by force
  moreover have "distinct (map fst (filter (\<lambda>(h, _). h \<noteq> cp_handle completion) (sv_in_flight s)))" using d by (rule distinct_map_filter)
  ultimately show "ledger_ok bok next_id pending start (worker_routes completion rest s)"
    using led t w job seq by (auto simp: ledger_ok_def table_ok_def worker_routes_def unrouted_def)
qed

text \<open>What the server needs of a backend beyond the ledger: a submission that throws promises nothing, and polling returns.\<close>

locale server_backend = job_ledger ok next_id pending "\<lambda>b job h b'. submit job b = Some (Inr h, b')" "\<lambda>b cs b'. poll b = (Inr cs, b')"
  for ok :: "'b \<Rightarrow> bool" and next_id :: "'b \<Rightarrow> nat" and pending :: "'b \<Rightarrow> job_handle set"
    and submit :: "frame_job \<Rightarrow> 'b \<Rightarrow> (job_handle result \<times> 'b) option" and poll :: "('b, completion list) action" +
  assumes refusal: "ok b \<Longrightarrow> submit job b = Some (Inl e, b') \<Longrightarrow> ok b' \<and> next_id b' = next_id b \<and> pending b' = pending b"
    and poll_returns: "ok b \<Longrightarrow> \<exists>cs b'. poll b = (Inr cs, b')"
begin

lemma worker_submits_ok:
  assumes sok: "server_ok limits s" and life: "lifecycle_ok s" and w: "sv_worker s = W_Submit f"
    and led: "ledger_ok ok next_id pending start s" and room: "start + sv_submissions s < 2 ^ 64 - 1"
    and step: "worker_submits submit f s = Some s'"
  shows "server_ok limits s' \<and> lifecycle_ok s' \<and> ledger_ok ok next_id pending start s'"
proof -
  have b: "ok (sv_backend s)" "next_id (sv_backend s) < 2 ^ 64 - 1"
    and t: "distinct (map fst (sv_in_flight s))" "fst ` set (sv_in_flight s) = pending (sv_backend s)"
    using led w room by (simp_all add: ledger_ok_def table_ok_def unrouted_def)
  have "frame_ticket f \<in># tickets s" using w by (simp add: tickets_def worker_parts)
  then have "(owner_id (qf_connection f), qf_slot f) \<in># holdings s" by (force simp: holdings_def frame_ticket_def)
  then obtain a where a: "slot (sv_pool s) (qf_slot f) = Inr a"
    using slots_held_index [OF server_ok_parts(2) [OF sok], of _ "qf_slot f"] by (cases "slot (sv_pool s) (qf_slot f)") auto
  obtain r b' where r: "submit (job_of f (sv_memory s (qf_slot f))) (sv_backend s) = Some (r, b')"
    using step a by (auto simp: worker_submits_def split: option.splits)
  note q = server_ok_parts(6) [OF sok]
  show ?thesis
  proof (cases r)
    case (Inr h)
    note l = submits_law [OF b r [unfolded Inr]]
    then have fresh: "map_of (sv_in_flight s) h = None" using t(2) by (simp add: map_of_eq_None_iff)
    then have s': "s' = s\<lparr>sv_backend := b', sv_in_flight := sv_in_flight s @ [(h, entry_of f)], sv_worker := W_Poll,
        sv_submissions := sv_submissions s + 1\<rparr>"
      using step a r Inr by (simp add: worker_submits_def emplace_in_flight_def)
    have "server_ok limits s'" by (rule worker_move [OF sok]) (use w q in \<open>simp_all add: s' tickets_def worker_parts\<close>)
    moreover have "lifecycle_ok s'" using life w by (simp add: s' lifecycle_ok_def)
    moreover have "ledger_ok ok next_id pending start s'"
      using led w l t by (auto simp: s' ledger_ok_def table_ok_def unrouted_def)
    ultimately show ?thesis by blast
  next
    case (Inl e)
    note l = refusal [OF b(1) r [unfolded Inl]]
    have s': "s' = s\<lparr>sv_backend := b', sv_worker := W_Release (entry_of f) (refused_response f) None\<rparr>"
      using step a r Inl by (simp add: worker_submits_def)
    have "server_ok limits s'" by (rule worker_move [OF sok]) (use w q in \<open>simp_all add: s' tickets_def worker_parts\<close>)
    moreover have "lifecycle_ok s'" using life w by (simp add: s' lifecycle_ok_def)
    moreover have "ledger_ok ok next_id pending start s'"
      using led w l by (simp add: s' ledger_ok_def table_ok_def unrouted_def entry_of_def refused_response_def error_response_def)
    ultimately show ?thesis by blast
  qed
qed

lemma worker_polls_ok:
  assumes sok: "server_ok limits s" and life: "lifecycle_ok s" and w: "sv_worker s = W_Poll" and led: "ledger_ok ok next_id pending start s"
    and p: "poll (sv_backend s) = (Inr cs, b')" and s': "s' = s\<lparr>sv_backend := b', sv_worker := W_Completions cs\<rparr>"
  shows "server_ok limits s' \<and> lifecycle_ok s' \<and> ledger_ok ok next_id pending start s'"
proof -
  have b: "ok (sv_backend s)" using led by (simp add: ledger_ok_def)
  have "server_ok limits s'"
    by (rule worker_move [OF sok]) (use w server_ok_parts(6) [OF sok] in \<open>simp_all add: s' tickets_def worker_parts\<close>)
  moreover have "lifecycle_ok s'" using life w by (simp add: s' lifecycle_ok_def)
  moreover have "ledger_ok ok next_id pending start s'"
    using led w polls_law [OF b p] by (auto simp: s' ledger_ok_def table_ok_def unrouted_def)
  ultimately show ?thesis by blast
qed

lemma worker_step_ok:
  assumes sok: "server_ok limits s" and life: "lifecycle_ok s" and led: "ledger_ok ok next_id pending start s"
    and room: "start + sv_submissions s < 2 ^ 64 - 1" and step: "worker_step submit poll s = Some s'"
  shows "server_ok limits s' \<and> lifecycle_ok s' \<and> ledger_ok ok next_id pending start s'"
proof (cases "sv_worker s")
  case W_Top
  then have p: "worker_pops s = Some s'" using step by (simp add: worker_step_def)
  have "sv_backend s' = sv_backend s" "sv_in_flight s' = sv_in_flight s" "sv_submissions s' = sv_submissions s"
      "sv_worker s' = W_Done \<or> sv_worker s' = W_Poll \<or> (\<exists>f. sv_worker s' = W_Submit f)"
    using p by (auto simp: worker_pops_def split: if_splits prod.splits option.splits blocking.splits)
  then have "ledger_ok ok next_id pending start s'"
    using led W_Top by (elim disjE exE) (simp_all add: ledger_ok_def table_ok_def unrouted_def)
  with worker_pops_ok [OF sok life W_Top p] show ?thesis by blast
next
  case (W_Submit f)
  then show ?thesis using step worker_submits_ok [OF sok life W_Submit led room] by (simp add: worker_step_def)
next
  case W_Poll
  obtain cs b' where "poll (sv_backend s) = (Inr cs, b')" using poll_returns [of "sv_backend s"] led by (auto simp: ledger_ok_def)
  then show ?thesis using step W_Poll worker_polls_ok [OF sok life W_Poll led, of cs b' s'] by (simp add: worker_step_def)
next
  case (W_Completions cs)
  show ?thesis
  proof (cases cs)
    case Nil
    then have s': "s' = s\<lparr>sv_worker := W_Top\<rparr>" using step W_Completions by (simp add: worker_step_def)
    have "server_ok limits s'"
      by (rule worker_move [OF sok]) (use W_Completions server_ok_parts(6) [OF sok] in \<open>simp_all add: s' tickets_def worker_parts\<close>)
    moreover have "lifecycle_ok s'" using life W_Completions by (simp add: s' lifecycle_ok_def)
    moreover have "ledger_ok ok next_id pending start s'"
      using led W_Completions Nil by (simp add: s' ledger_ok_def table_ok_def unrouted_def)
    ultimately show ?thesis by blast
  next
    case (Cons completion rest)
    then show ?thesis using step W_Completions worker_routes_ok [OF sok life _ led] by (simp add: worker_step_def)
  qed
next
  case (W_Release job response continue)
  have seq: "re_seq_num response = if_seq_num job" using led W_Release by (simp add: ledger_ok_def table_ok_def)
  obtain pool where p: "release (sv_pool s) (if_slot job) = Inr pool"
      "server_ok limits (s\<lparr>sv_pool := pool, sv_worker := W_Push (if_connection job) response continue\<rparr>)"
      "lifecycle_ok (s\<lparr>sv_pool := pool, sv_worker := W_Push (if_connection job) response continue\<rparr>)"
    by (rule worker_release_ok [OF sok life W_Release seq])
  then have s': "s' = s\<lparr>sv_pool := pool, sv_worker := W_Push (if_connection job) response continue\<rparr>"
    using step W_Release by (simp add: worker_step_def)
  have "ledger_ok ok next_id pending start s'" using led W_Release by (simp add: s' ledger_ok_def table_ok_def unrouted_def split: option.splits)
  with p s' show ?thesis by blast
next
  case (W_Push k response continue)
  then have s': "s' = (set_connection k (push_response response (sv_connections s ! k)) s)\<lparr>sv_worker := W_Retire k continue\<rparr>"
    using step by (simp add: worker_step_def)
  have "ledger_ok ok next_id pending start s'" using led W_Push by (simp add: s' ledger_ok_def table_ok_def unrouted_def split: option.splits)
  with worker_push_ok [OF sok life W_Push s'] show ?thesis by blast
next
  case (W_Retire k continue)
  define w' where "w' = (case continue of None \<Rightarrow> W_Poll | Some cs \<Rightarrow> W_Completions cs)"
  define n where "n = (if continue = None then sv_frames_failed s + 1 else sv_frames_failed s)"
  have s': "s' = (set_connection k (job_retired (sv_connections s ! k)) s)\<lparr>sv_worker := w', sv_frames_failed := n\<rparr>"
    using step W_Retire by (cases continue) (auto simp: worker_step_def Let_def w'_def n_def set_connection_def)
  have "w' = W_Poll \<or> (\<exists>cs. w' = W_Completions cs)" by (simp add: w'_def split: option.splits)
  note ok' = worker_retire_ok [OF sok life W_Retire s' this]
  have "ledger_ok ok next_id pending start s'"
    using led W_Retire by (simp add: s' w'_def ledger_ok_def table_ok_def unrouted_def split: option.splits)
  with ok' show ?thesis by blast
qed (use step in \<open>simp_all add: worker_step_def\<close>)

end

section \<open>Steps of the acceptor and of stop\<close>

lemma acceptor_step_ok:
  assumes ok: "server_ok limits s" and life: "lifecycle_ok s" and step: "acceptor_step offer s = Some s'"
  shows "server_ok limits s' \<and> lifecycle_ok s'"
proof (cases "sv_acceptor s")
  case A_Check
  then have s': "s' = s\<lparr>sv_acceptor := (if sv_running s then A_Accept else A_Done)\<rparr>" using step by (simp add: acceptor_step_def)
  have "server_ok limits s'" using ok by (simp add: s' server_ok_def jobs_def answers_def holdings_def tickets_def)
  moreover have "lifecycle_ok s'" using life A_Check by (auto simp: s' lifecycle_ok_def queue_shut_def)
  ultimately show ?thesis by blast
next
  case A_Accept
  define records where "records = reap_finished (sv_connections s) (sv_records s)"
  have early: "sv_stop s = S_Idle \<or> sv_stop s = S_Join_Acceptor" using life A_Accept by (auto simp: lifecycle_ok_def)
  have rec: "\<forall>k < length (sv_connections s). \<not> co_finished (sv_connections s ! k) \<longrightarrow> k \<in> set records"
      "set records \<subseteq> {..<length (sv_connections s)}"
    using life by (auto simp: lifecycle_ok_def records_def reap_finished_def)
  show ?thesis
  proof (cases offer)
    case None
    then have s': "s' = s\<lparr>sv_records := records, sv_acceptor := A_Check\<rparr>" using step A_Accept by (simp add: acceptor_step_def records_def)
    have "server_ok limits s'" using ok by (simp add: s' server_ok_def jobs_def answers_def holdings_def tickets_def)
    moreover have "lifecycle_ok s'" using life rec early by (auto simp: s' lifecycle_ok_def queue_shut_def)
    ultimately show ?thesis by blast
  next
    case (Some io)
    define c where "c = new_connection (sv_next_connection_id s) (fst io) (snd io)"
    define s1 where "s1 = s\<lparr>sv_connections := sv_connections s @ [c]\<rparr>"
    have s': "s' = s1\<lparr>sv_next_connection_id := sv_next_connection_id s + 1, sv_connections_accepted := sv_connections_accepted s + 1,
        sv_records := records @ [length (sv_connections s)], sv_acceptor := A_Check\<rparr>"
      using step A_Accept Some by (cases io) (simp add: acceptor_step_def records_def c_def s1_def Let_def)
    have t: "tickets s' = tickets s" "holdings s' = holdings s"
      by (simp_all add: s' s1_def tickets_def holdings_def c_def new_connection_def reader_tickets_def reader_holdings_def)
    have p: "accounts (sv_connections s) (jobs s) (answers s)" "sv_next_connection_id s = owner_id (length (sv_connections s))"
      using server_ok_parts [OF ok] by simp_all
    have "accounts (sv_connections s @ [c]) (jobs s) (answers s)"
      by (rule accounts_open [OF p(1)]) (simp_all add: c_def new_connection_def answered_def new_outbox_def)
    moreover have "connection_ok limits (length (sv_connections s)) c" unfolding c_def p(2) by (rule connection_ok_new)
    moreover have "owner_id (length (sv_connections s)) + 1 = owner_id (Suc (length (sv_connections s)))" by (simp add: owner_id_def)
    moreover have "jobs s' = jobs s" "answers s' = answers s" using t by (simp_all add: jobs_def answers_def s' s1_def)
    ultimately have "server_ok limits s'"
      using server_ok_parts [OF ok] t by (simp add: server_ok_def) (auto simp: s' s1_def nth_append less_Suc_eq)
    moreover have "lifecycle_ok s'"
    proof -
      have records: "\<forall>k < length (sv_connections s'). \<not> co_finished (sv_connections s' ! k) \<longrightarrow> k \<in> set (sv_records s')"
          "set (sv_records s') \<subseteq> {..<length (sv_connections s')}"
        using rec by (auto simp: s' s1_def nth_append less_Suc_eq)
      have shut: "\<not> queue_shut (sv_stop s)" using early by (auto simp: queue_shut_def)
      have "bq_closed (sv_queue s') \<longleftrightarrow> queue_shut (sv_stop s')" "sp_closed (sv_pool s') \<longleftrightarrow> queue_shut (sv_stop s') \<or> sv_stop s' = S_Join_Connections"
          "sv_running s' \<longleftrightarrow> sv_stop s' = S_Idle"
        using life by (simp_all add: s' s1_def lifecycle_ok_def)
      moreover have "sv_worker s = W_Done \<longrightarrow> bq_closed (sv_queue s) \<and> bq_items (sv_queue s) = [] \<and> sv_in_flight s = []"
        using life unfolding lifecycle_ok_def by blast
      then have "sv_worker s' = W_Done \<longrightarrow> bq_closed (sv_queue s') \<and> bq_items (sv_queue s') = [] \<and> sv_in_flight s' = []"
        by (simp add: s' s1_def)
      moreover have "sv_stop s' = S_Idle \<or> sv_stop s' = S_Join_Acceptor" "\<not> queue_shut (sv_stop s')"
        using early shut by (simp_all add: s' s1_def)
      ultimately show ?thesis unfolding lifecycle_ok_def using records by (elim disjE) (simp_all add: queue_shut_def)
    qed
    ultimately show ?thesis by blast
  qed
qed (use step in \<open>simp add: acceptor_step_def\<close>)

lemma shutdown_records_ok:
  assumes "server_ok limits s"
  shows "server_ok limits (s\<lparr>sv_connections := shutdown_records keep ks (sv_connections s)\<rparr>)"
  using assms
proof (induction ks arbitrary: s)
  case (Cons k ks)
  define s1 where "s1 = set_connection k (shutdown_both (keep k) (sv_connections s ! k)) s"
  have "server_ok limits s1"
  proof (cases "k < length (sv_connections s)")
    case True
    have "connection_ok limits k (shutdown_both (keep k) (sv_connections s ! k))"
      using server_ok_parts(4) [OF Cons.prems True] unfolding connection_ok_def shutdown_fields .
    then show ?thesis unfolding s1_def
      by (rule connection_step_same [OF Cons.prems True]) (simp_all add: answered_def reader_same [of "shutdown_both n c" c for n c])
  next
    case False
    then show ?thesis using Cons.prems by (simp add: s1_def set_connection_def list_update_beyond)
  qed
  from Cons.IH [OF this] show ?case by (simp add: s1_def set_connection_def shutdown_records_def)
qed (simp add: shutdown_records_def)

lemma shutdown_records_finished: "map co_finished (shutdown_records keep ks cs) = map co_finished cs"
proof (induction ks arbitrary: cs)
  case (Cons k ks)
  have "map co_finished (cs[k := shutdown_both (keep k) (cs ! k)]) = map co_finished cs"
    by (cases "k < length cs") (simp_all add: map_update list_update_same_conv list_update_beyond)
  with Cons show ?case by (simp add: shutdown_records_def)
qed (simp add: shutdown_records_def)

lemma lifecycle_finished:
  assumes "lifecycle_ok s" "map co_finished cs = map co_finished (sv_connections s)"
  shows "lifecycle_ok (s\<lparr>sv_connections := cs\<rparr>)"
proof -
  have len: "length cs = length (sv_connections s)" using assms(2) by (metis length_map)
  have "co_finished (cs ! k) = co_finished (sv_connections s ! k)" if "k < length cs" for k
    using assms(2) that len by (metis nth_map)
  then show ?thesis using assms(1) len by (auto simp: lifecycle_ok_def)
qed

lemma stop_step_ok:
  assumes ok: "server_ok limits s" and life: "lifecycle_ok s" and step: "stop_step keep s = Some s'"
  shows "server_ok limits s' \<and> lifecycle_ok s'"
proof (cases "sv_stop s")
  case S_Idle
  then have s': "s' = s\<lparr>sv_running := False, sv_stop := S_Join_Acceptor\<rparr>" using step by (auto simp: stop_step_def split: if_splits)
  have "server_ok limits s'" using ok by (simp add: s' server_ok_def jobs_def answers_def holdings_def tickets_def)
  moreover have "lifecycle_ok s'" using life S_Idle by (auto simp: s' lifecycle_ok_def queue_shut_def)
  ultimately show ?thesis by blast
next
  case S_Join_Acceptor
  define s1 where "s1 = s\<lparr>sv_connections := shutdown_records keep (sv_records s) (sv_connections s)\<rparr>"
  have s': "s' = s1\<lparr>sv_stop := S_Close_Pool\<rparr>" and a: "sv_acceptor s = A_Done"
    using step S_Join_Acceptor by (auto simp: stop_step_def s1_def split: if_splits)
  have "server_ok limits s1" "lifecycle_ok s1"
    using shutdown_records_ok [OF ok] lifecycle_finished [OF life shutdown_records_finished] by (simp_all add: s1_def)
  then have "server_ok limits s'" "lifecycle_ok s'"
    using a S_Join_Acceptor by (simp add: s' server_ok_def jobs_def answers_def holdings_def tickets_def,
        auto simp: s' s1_def lifecycle_ok_def queue_shut_def)
  then show ?thesis by blast
next
  case S_Close_Pool
  then have s': "s' = s\<lparr>sv_pool := pool_close (sv_pool s), sv_stop := S_Join_Connections\<rparr>" using step by (simp add: stop_step_def)
  have "pool_inv (pool_close (sv_pool s))" using server_ok_parts(2) [OF ok] by (simp add: close_inv slots_held_def)
  then have "slots_held (pool_close (sv_pool s)) (holdings s)"
    by (rule slots_held_same [OF server_ok_parts(2) [OF ok]]) (simp add: pool_holds_def pool_close_def fun_eq_iff)
  then have "server_ok limits s'"
    using server_ok_parts [OF ok] by (simp add: s' server_ok_def jobs_def answers_def holdings_def tickets_def pool_close_def)
  moreover have "lifecycle_ok s'" using life S_Close_Pool by (auto simp: s' lifecycle_ok_def queue_shut_def pool_close_def)
  ultimately show ?thesis by blast
next
  case S_Join_Connections
  then have s': "s' = s\<lparr>sv_records := [], sv_queue := bq_close (sv_queue s), sv_stop := S_Join_Worker\<rparr>"
    and fin: "\<forall>k \<in> set (sv_records s). co_finished (sv_connections s ! k)"
    using step by (auto simp: stop_step_def list_all_iff split: if_splits)
  have "server_ok limits s'"
    using ok by (simp add: s' server_ok_def jobs_def answers_def holdings_def tickets_def bq_close_def queue_inv_def)
  moreover have "lifecycle_ok s'" using life S_Join_Connections fin by (auto simp: s' lifecycle_ok_def queue_shut_def bq_close_def)
  ultimately show ?thesis by blast
next
  case S_Join_Worker
  then have s': "s' = s\<lparr>sv_stop := S_Stopped\<rparr>" and w: "sv_worker s = W_Done" using step by (auto simp: stop_step_def split: if_splits)
  have "server_ok limits s'" using ok by (simp add: s' server_ok_def jobs_def answers_def holdings_def tickets_def)
  moreover have "lifecycle_ok s'" using life S_Join_Worker w by (auto simp: s' lifecycle_ok_def queue_shut_def)
  ultimately show ?thesis by blast
qed (use step in \<open>simp add: stop_step_def\<close>)

end
