(* ===== verification/Server_Correct.thy ===== *)
theory Server_Correct
  imports Server_Inv Cuda_Backend
begin

text \<open>
  What holds in every state the server can reach, for any interleaving of its threads, any behaviour of
  the clients and the kernel, and any backend that keeps its contract; then for the two backends of
  the program.
\<close>

section \<open>Reachable states\<close>

text \<open>Only the worker touches the backend, the in-flight table and its own program counter.\<close>

definition worker_part :: "'b server \<Rightarrow> 'b \<times> (job_handle \<times> in_flight) list \<times> worker_pc \<times> nat" where
  "worker_part s = (sv_backend s, sv_in_flight s, sv_worker s, sv_submissions s)"

lemma worker_part_set [simp]: "worker_part (set_connection k c s) = worker_part s"
  by (simp add: worker_part_def)

lemma reader_step_fields:
  assumes "reader_step limits k s = Some s'"
  shows "worker_part s' = worker_part s" "length (sv_connections s') = length (sv_connections s)"
proof -
  have f: "worker_part (reader_releases k i c s) = worker_part s" "length (sv_connections (reader_releases k i c s)) = length (sv_connections s)"
      "worker_part (after_claim k h ops c r p s) = worker_part s" "length (sv_connections (after_claim k h ops c r p s)) = length (sv_connections s)"
    for i c h ops r p and s :: "'a server"
    by (simp_all add: reader_releases_def after_claim_def worker_part_def split: sum.splits)
  have g: "worker_part (reader_receives k h ops i c s) = worker_part s" "length (sv_connections (reader_receives k h ops i c s)) = length (sv_connections s)"
    for h ops i c
    by (simp_all add: reader_receives_def Let_def f split: sum.splits prod.splits) (simp_all add: worker_part_def)
  show "worker_part s' = worker_part s" "length (sv_connections s') = length (sv_connections s)"
    using assms by (auto simp: reader_step_def Let_def f g worker_part_def [of "_\<lparr>sv_pool := _\<rparr>"] worker_part_def [of "_\<lparr>sv_queue := _\<rparr>"]
        worker_part_def [of s] split: if_splits reader_pc.splits prod.splits blocking.splits bool.splits)
qed

lemma writer_step_fields:
  assumes "writer_step dir save k keep s = Some s'"
  shows "worker_part s' = worker_part s" "length (sv_connections s') = length (sv_connections s)"
  using assms by (auto simp: writer_step_def Let_def split: if_splits writer_pc.splits prod.splits blocking.splits option.splits)

lemma shutdown_records_length [simp]: "length (shutdown_records keep ks cs) = length cs"
  using shutdown_records_finished [of keep ks cs] by (metis length_map)

lemma stop_step_fields:
  assumes "stop_step keep s = Some s'"
  shows "worker_part s' = worker_part s" "length (sv_connections s') = length (sv_connections s)"
  using assms by (auto simp: stop_step_def worker_part_def split: stop_pc.splits if_splits)

lemma acceptor_step_fields:
  assumes "acceptor_step offer s = Some s'"
  shows "worker_part s' = worker_part s" "length (sv_connections s) \<le> length (sv_connections s')"
  using assms by (auto simp: acceptor_step_def worker_part_def Let_def split: acceptor_pc.splits option.splits)

lemma worker_step_fields:
  assumes "worker_step submit poll s = Some s'"
  shows "length (sv_connections s') = length (sv_connections s)" "sv_submissions s \<le> sv_submissions s'"
  using assms
  by (auto simp: worker_step_def worker_pops_def worker_submits_def worker_routes_def Let_def
      split: worker_pc.splits list.splits if_splits prod.splits blocking.splits option.splits sum.splits)

lemma server_step_grows:
  assumes "server_step env event s = Some s'"
  shows "length (sv_connections s) \<le> length (sv_connections s')" "sv_submissions s \<le> sv_submissions s'"
  using assms reader_step_fields [of _ _ s s'] writer_step_fields [of _ _ _ _ s s'] worker_step_fields [of _ _ s s']
    acceptor_step_fields [of _ s s'] stop_step_fields [of _ s s']
  by (auto simp: server_step_def worker_part_def split: server_event.splits)

lemma ledger_ok_part: "worker_part s' = worker_part s \<Longrightarrow> ledger_ok ok next_id pending start s' = ledger_ok ok next_id pending start s"
  by (simp add: ledger_ok_def worker_part_def)

lemma new_server_ok:
  assumes "new_slot_pool base (sc_num_slots config) (unat (sc_max_payload_bytes config)) cap = Inr pool"
  shows "server_ok (server_limits config) (new_server config pool b)" "lifecycle_ok (new_server config pool b)"
proof -
  have pool: "sp_bytes pool = unat (sc_max_payload_bytes config)" "\<not> sp_closed pool" "pool_holds pool i = None" for i
    using assms by (auto simp: new_slot_pool_def pool_holds_def split: option.splits if_splits)
  show "server_ok (server_limits config) (new_server config pool b)"
    using pool new_pool_inv [OF assms]
    by (simp add: server_ok_def new_server_def accounts_def jobs_def answers_def holdings_def tickets_def worker_parts slots_held_def
        server_limits_def owner_id_def new_queue_def queue_inv_def)
  show "lifecycle_ok (new_server config pool b)"
    using pool by (simp add: lifecycle_ok_def new_server_def new_queue_def queue_shut_def)
qed

context server_backend
begin

lemma server_step_ok:
  assumes "server_ok (server_limits (se_config env)) s" "lifecycle_ok s" "ledger_ok ok next_id pending start s"
    and "se_submit env = submit" "se_poll env = poll" "server_step env event s = Some s'"
    and "length (sv_connections s) < 2 ^ 64 - 1" "start + sv_submissions s < 2 ^ 64 - 1"
  shows "server_ok (server_limits (se_config env)) s' \<and> lifecycle_ok s' \<and> ledger_ok ok next_id pending start s'"
proof (cases event)
  case (Reader k)
  then have st: "reader_step (server_limits (se_config env)) k s = Some s'" using assms(6) by (simp add: server_step_def)
  show ?thesis using reader_step_ok [OF assms(1,2,7) st] ledger_ok_part [OF reader_step_fields(1) [OF st]] assms(3) by blast
next
  case (Writer k keep)
  then have st: "writer_step (sc_output_dir (se_config env)) (se_save env) k keep s = Some s'"
    using assms(6) by (simp add: server_step_def)
  show ?thesis using writer_step_ok [OF assms(1,2) st] ledger_ok_part [OF writer_step_fields(1) [OF st]] assms(3) by blast
next
  case Worker
  then have st: "worker_step submit poll s = Some s'" using assms(4-6) by (simp add: server_step_def)
  show ?thesis by (rule worker_step_ok [OF assms(1-3,8) st])
next
  case (Acceptor offer)
  then have st: "acceptor_step offer s = Some s'" using assms(6) by (simp add: server_step_def)
  show ?thesis using acceptor_step_ok [OF assms(1,2) st] ledger_ok_part [OF acceptor_step_fields(1) [OF st]] assms(3) by blast
next
  case (Stopper keep)
  then have st: "stop_step keep s = Some s'" using assms(6) by (simp add: server_step_def)
  show ?thesis using stop_step_ok [OF assms(1,2) st] ledger_ok_part [OF stop_step_fields(1) [OF st]] assms(3) by blast
qed

lemma reachable_ok:
  assumes "server_reachable env s0 s" "se_submit env = submit" "se_poll env = poll"
    and "worker_main_start (se_config env) made allocate = Inr s0"
    and made: "\<And>b n bytes base b'. made = Inr (Some b) \<Longrightarrow> allocate n bytes b = Inr (base, b') \<Longrightarrow>
      ok b' \<and> next_id b' = start \<and> pending b' = {}"
    and "length (sv_connections s) < 2 ^ 64 - 1" "start + sv_submissions s < 2 ^ 64 - 1"
  shows "server_ok (server_limits (se_config env)) s \<and> lifecycle_ok s \<and> ledger_ok ok next_id pending start s"
  using assms(1,6,7)
proof (induction rule: server_reachable.induct)
  case reachable_start
  obtain b base b' pool where s: "made = Inr (Some b)" "allocate (sc_num_slots (se_config env)) (unat (sc_max_payload_bytes (se_config env))) b = Inr (base, b')"
      "new_slot_pool base (sc_num_slots (se_config env)) (unat (sc_max_payload_bytes (se_config env))) (sc_slots_per_connection (se_config env)) = Inr pool"
      "s0 = new_server (se_config env) pool b'"
    using assms(4) by (auto simp: worker_main_start_def bind_result_eq_Inr split: option.splits)
  note b = made [OF s(1,2)]
  have "ledger_ok ok next_id pending start s0"
    using b by (simp add: s(4) ledger_ok_def table_ok_def new_server_def unrouted_def)
  with new_server_ok [OF s(3), of b'] show ?case by (simp add: s(4))
next
  case (reachable_step s event s')
  note g = server_step_grows [OF reachable_step.hyps(2)]
  have "length (sv_connections s) < 2 ^ 64 - 1" "start + sv_submissions s < 2 ^ 64 - 1" using g reachable_step.prems by linarith+
  with reachable_step.IH server_step_ok [OF _ _ _ assms(2,3) reachable_step.hyps(2)] show ?case by blast
qed

end

section \<open>Consequences of the invariant\<close>

lemma sum_list_mset_empty:
  fixes g :: "'a \<Rightarrow> 'b multiset"
  shows "\<forall>x \<in> set xs. g x = {#} \<Longrightarrow> sum_list (map g xs) = {#}"
  by (induction xs) simp_all

lemma finished_answered:
  assumes "server_ok limits s" "k < length (sv_connections s)" "co_finished (sv_connections s ! k)"
  shows "mset (co_asked (sv_connections s ! k)) = mset (map re_seq_num (co_taken (sv_connections s ! k)))" "k \<notin># jobs s"
proof -
  let ?c = "sv_connections s ! k"
  note p = server_ok_parts [OF assms(1)]
  have c: "ob_items (co_outbox ?c) = []" "co_outstanding ?c = 0" using p(4) [OF assms(2)] assms(3) by (auto simp: connection_ok_def)
  have a: "account ?c (count (jobs s) k) (owed_to k (answers s))" "fst ` set_mset (answers s) \<subseteq> set_mset (jobs s)"
    using p(1) assms(2) by (simp_all add: accounts_def)
  then show j: "k \<notin># jobs s" using c(2) by (simp add: account_def not_in_iff)
  with a(2) have "owed_to k (answers s) = {#}" by (intro owed_to_empty) blast
  with a(1) c(1) show "mset (co_asked ?c) = mset (map re_seq_num (co_taken ?c))" by (simp add: account_def answered_def)
qed

lemma no_tickets:
  assumes "server_ok limits s" "list_all co_finished (sv_connections s)"
  shows "tickets s = {#}" "worker_jobs (sv_worker s) = {#}" "holdings s = {#}"
proof -
  have fin: "co_finished (sv_connections s ! k)" if "k < length (sv_connections s)" for k using assms(2) that by (simp add: list_all_length)
  have "k \<notin># jobs s" for k
  proof (cases "k < length (sv_connections s)")
    case True
    then show ?thesis using finished_answered(2) [OF assms(1) True fin] by blast
  next
    case False
    then show ?thesis using server_ok_parts(1) [OF assms(1)] by (auto simp: accounts_def)
  qed
  then have "jobs s = {#}" by (metis multiset_nonemptyE)
  then show t: "tickets s = {#}" and "worker_jobs (sv_worker s) = {#}" by (simp_all add: jobs_def)
  have "reader_holdings c = {#}" if c: "c \<in> set (sv_connections s)" for c
  proof -
    obtain k where k: "k < length (sv_connections s)" "c = sv_connections s ! k" using c by (metis in_set_conv_nth)
    with fin server_ok_parts(4) [OF assms(1) k(1)] have "co_reader c = R_Done" by (auto simp: connection_ok_def)
    then show ?thesis by (simp add: reader_holdings_def)
  qed
  then have "sum_list (map reader_holdings (sv_connections s)) = {#}" by (simp add: sum_list_mset_empty)
  with t show "holdings s = {#}" by (simp add: holdings_def)
qed

lemma nothing_held:
  assumes "slots_held pool {#}"
  shows "pool_available pool = sp_count pool" "owner \<noteq> kNoOwner \<Longrightarrow> can_claim pool owner"
proof -
  have inv: "pool_inv pool" and none: "\<And>i. pool_holds pool i = None"
    using assms by (auto simp: slots_held_def) (metis option.exhaust zero_neq_one)
  have free: "\<And>i. i < sp_count pool \<Longrightarrow> sp_owner_of pool ! i = kNoOwner"
    using none by (metis option.distinct(1) pool_holds_def)
  have len: "length (sp_owner_of pool) = sp_count pool" "0 < sp_count pool" "0 < sp_per_owner_cap pool" using inv by (simp_all add: pool_inv_def)
  have "filter (\<lambda>x. x \<noteq> kNoOwner) (sp_owner_of pool) = []" using free len(1) by (auto simp: filter_empty_conv in_set_conv_nth)
  then show all: "pool_available pool = sp_count pool" using pool_partition [OF inv] by simp
  show "can_claim pool owner" if "owner \<noteq> kNoOwner"
  proof -
    have "owner \<notin> set (sp_owner_of pool)" using free len(1) that by (auto simp: in_set_conv_nth)
    then have "held_of pool owner = 0" by (simp add: held_of_def count_list_0_iff)
    then have "sp_held pool owner = None" using inv that by (simp add: pool_inv_def)
    then show ?thesis using all len(2) by (auto simp: can_claim_def pool_available_def)
  qed
qed

text \<open>
  When no reader, writer or worker can take a step, nothing is under way: every wait in the program has somebody
  else to end it.
\<close>

lemma quiet_worker:
  assumes "server_ok limits s" "lifecycle_ok s" "worker_step submit poll s = None" "\<And>job b. submit job b \<noteq> None"
  shows "sv_in_flight s = []" "bq_items (sv_queue s) = []" "worker_tickets (sv_worker s) = {#}" "worker_jobs (sv_worker s) = {#}"
    "sv_worker s = W_Done \<or> sv_worker s = W_Top \<and> \<not> bq_closed (sv_queue s)"
proof -
  have "sv_worker s = W_Done \<or> sv_worker s = W_Top \<and> \<not> bq_closed (sv_queue s) \<and> sv_in_flight s = [] \<and> bq_items (sv_queue s) = []"
  proof (cases "sv_worker s")
    case W_Top
    then show ?thesis using assms(3)
      by (auto simp: worker_step_def worker_pops_def bq_pop_def bq_try_pop_def split: if_splits list.splits)
  next
    case (W_Submit f)
    then show ?thesis
      using assms(3) assms(4) [of "job_of f (sv_memory s (qf_slot f))" "sv_backend s"]
      by (auto simp: worker_step_def worker_submits_def split: sum.splits option.splits)
  next
    case (W_Completions cs)
    then show ?thesis using assms(3) by (cases cs) (auto simp: worker_step_def)
  qed (use assms(3) server_ok_parts(7) [OF assms(1)] in \<open>auto simp: worker_step_def Let_def split: prod.splits sum.splits option.splits\<close>)
  with assms(2) show "sv_in_flight s = []" "bq_items (sv_queue s) = []" "worker_tickets (sv_worker s) = {#}" "worker_jobs (sv_worker s) = {#}"
    "sv_worker s = W_Done \<or> sv_worker s = W_Top \<and> \<not> bq_closed (sv_queue s)"
    by (auto simp: lifecycle_ok_def worker_parts)
qed

lemma quiet_reader:
  assumes ok: "server_ok limits s" and empty: "bq_items (sv_queue s) = []" and k: "k < length (sv_connections s)"
    and none: "reader_step limits k s = None"
  shows "reader_tickets (sv_connections s ! k) = {#}" "reader_holdings (sv_connections s ! k) = {#}"
    "co_reader (sv_connections s ! k) \<in> {R_Joining, R_Done} \<or> fst (claim_resume (sv_pool s) (co_id (sv_connections s ! k))) = Waits"
proof -
  have "0 < bq_capacity (sv_queue s)" using server_ok_parts(6) [OF ok] by (simp add: queue_inv_def)
  then have push: "fst (bq_push f (sv_queue s)) \<noteq> Waits" for f using empty by (simp add: bq_push_def Let_def)
  let ?c = "sv_connections s ! k"
  have "reader_tickets ?c = {#} \<and> reader_holdings ?c = {#} \<and>
      (co_reader ?c \<in> {R_Joining, R_Done} \<or> fst (claim_resume (sv_pool s) (co_id ?c)) = Waits)"
  proof (cases "co_reader ?c")
    case (R_Pushing f)
    then show ?thesis using none k push [of f]
      by (auto simp: reader_step_def Let_def split: prod.splits blocking.splits bool.splits)
  next
    case (R_Claiming header chain)
    then show ?thesis using none k by (auto simp: reader_step_def Let_def split: prod.splits blocking.splits)
  next
    case (R_Parked header chain)
    then show ?thesis using none k
      by (auto simp: reader_step_def Let_def reader_tickets_def reader_holdings_def split: prod.splits blocking.splits)
  qed (use none k server_ok_parts(4) [OF ok k] in \<open>simp_all add: reader_step_def Let_def reader_tickets_def reader_holdings_def
         connection_ok_def reader_at_def\<close>)
  then show "reader_tickets ?c = {#}" "reader_holdings ?c = {#}"
    "co_reader ?c \<in> {R_Joining, R_Done} \<or> fst (claim_resume (sv_pool s) (co_id ?c)) = Waits" by blast+
qed

lemma quiet_server:
  assumes ok: "server_ok limits s" and life: "lifecycle_ok s" and bound: "length (sv_connections s) < 2 ^ 64 - 1"
    and readers: "\<And>k. reader_step limits k s = None" and writers: "\<And>k. writer_step dir save k 0 s = None"
    and worker: "worker_step submit poll s = None" "\<And>job b. submit job b \<noteq> None"
  shows "list_all co_finished (sv_connections s)"
  unfolding list_all_length
proof (intro allI impI)
  fix k assume k: "k < length (sv_connections s)"
  note w = quiet_worker [OF ok life worker]
  have "\<forall>c \<in> set (sv_connections s). reader_tickets c = {#} \<and> reader_holdings c = {#}"
    using quiet_reader(1,2) [OF ok w(2) _ readers] by (metis in_set_conv_nth)
  then have z: "sum_list (map reader_tickets (sv_connections s)) = {#}" "sum_list (map reader_holdings (sv_connections s)) = {#}"
    by (simp_all add: sum_list_mset_empty)
  then have t: "tickets s = {#}" using w by (simp add: tickets_def)
  then have h: "holdings s = {#}" "jobs s = {#}" using z w by (simp_all add: holdings_def jobs_def)
  let ?c = "sv_connections s ! k"
  note cok = server_ok_parts(4) [OF ok k]
  have "co_id ?c \<noteq> kNoOwner" using cok owner_id_not_none [of k] k bound by (simp add: connection_ok_def)
  then have "can_claim (sv_pool s) (co_id ?c)" using nothing_held(2) server_ok_parts(2) [OF ok] h(1) by simp
  then have "fst (claim_resume (sv_pool s) (co_id ?c)) \<noteq> Waits" by (simp add: claim_resume_def split_def Let_def)
  then have pc: "co_reader ?c \<in> {R_Joining, R_Done}" using quiet_reader(3) [OF ok w(2) k readers] by blast
  have "co_outstanding ?c = 0" using server_ok_parts(1) [OF ok] k h(2) by (simp add: accounts_def account_def)
  then have "ob_closed (co_outbox ?c)" using cok pc by (auto simp: connection_ok_def)
  then have "co_writer ?c = Wr_Done"
    using writers [of k] k by (auto simp: writer_step_def Let_def outbox_pop_def split: writer_pc.splits list.splits)
  then show "co_finished ?c" using pc readers [of k] k cok by (auto simp: reader_step_def Let_def connection_ok_def)
qed

section \<open>The two backends\<close>

definition cpu_env :: "server_config \<Rightarrow> (string \<Rightarrow> image \<Rightarrow> bool) \<Rightarrow> (rat \<Rightarrow> rat) \<Rightarrow> cpu_backend server_env" where
  "cpu_env config save expf =
     \<lparr>se_config = config, se_save = save, se_submit = (\<lambda>job b. case cpu_submit expf job b of (h, b') \<Rightarrow> Some (Inr h, b')),
      se_poll = (\<lambda>b. case cpu_poll_completions b of (cs, b') \<Rightarrow> (Inr cs, b'))\<rparr>"

definition cpu_server_start :: "server_config \<Rightarrow> cpu_backend server result" where
  "cpu_server_start config = worker_main_start config (Inr (Some new_cpu_backend))
     (\<lambda>n bytes b. bind_result (cpu_allocate_slots n bytes b) (\<lambda>(base, b'). Inr (Some base, b')))"

definition cuda_env :: "server_config \<Rightarrow> (string \<Rightarrow> image \<Rightarrow> bool) \<Rightarrow> 'd cuda_driver \<Rightarrow> (rat \<Rightarrow> rat) \<Rightarrow> 'd cuda_backend server_env" where
  "cuda_env config save drv expf =
     \<lparr>se_config = config, se_save = save, se_submit = (\<lambda>job b. map_option (\<lambda>(h, b'). (Inr h, b')) (cuda_submit drv expf job b)),
      se_poll = cuda_poll_completions drv\<rparr>"

text \<open>The backend the factory made, after it allocated the slots.\<close>

definition cuda_server_start :: "server_config \<Rightarrow> 'd cuda_driver \<Rightarrow> 'd cuda_backend result \<Rightarrow> 'd cuda_backend server result" where
  "cuda_server_start config drv made = worker_main_start config (bind_result made (\<lambda>b. Inr (Some b)))
     (\<lambda>n bytes b. case allocate_slots drv (of_nat n) (of_nat bytes) b of (r, b') \<Rightarrow> bind_result r (\<lambda>base. Inr (Some base, b')))"

interpretation cpu_server: server_backend cpu_ok "\<lambda>b. unat (cb_next_handle b)" "\<lambda>b. dom (cpu_outcome b)"
    "\<lambda>job b. case cpu_submit expf job b of (h, b') \<Rightarrow> Some (Inr h, b')"
    "\<lambda>b. case cpu_poll_completions b of (cs, b') \<Rightarrow> (Inr cs, b')" for expf
proof unfold_locales
  fix b job h b'
  assume a: "cpu_ok b" "unat (cb_next_handle b) < 2 ^ 64 - 1" "(case cpu_submit expf job b of (h, b') \<Rightarrow> Some (Inr h, b')) = Some (Inr h, b')"
  then have "cpu_submit expf job b = (h, b')" by (auto split: prod.splits)
  from cpu.submits_law [OF a(1,2) this] show "cpu_ok b' \<and> unat h = unat (cb_next_handle b) \<and>
      unat (cb_next_handle b') = unat (cb_next_handle b) + 1 \<and> h \<notin> dom (cpu_outcome b) \<and> dom (cpu_outcome b') = insert h (dom (cpu_outcome b))" .
next
  fix b cs b'
  assume a: "cpu_ok b" "(case cpu_poll_completions b of (cs, b') \<Rightarrow> (Inr cs, b')) = (Inr cs, b')"
  then have "cpu_poll_completions b = (cs, b')" by (auto split: prod.splits)
  from cpu.polls_law [OF a(1) this] show "cpu_ok b' \<and> unat (cb_next_handle b') = unat (cb_next_handle b) \<and> distinct (map cp_handle cs) \<and>
      cp_handle ` set cs \<subseteq> dom (cpu_outcome b) \<and> dom (cpu_outcome b') = dom (cpu_outcome b) - cp_handle ` set cs" .
qed (auto split: prod.splits)

interpretation cuda_server: server_backend cuda_ok "\<lambda>b. unat (bk_next_handle b)" "\<lambda>b. set (cuda_handles b)"
    "\<lambda>job b. map_option (\<lambda>(h, b'). (Inr h, b')) (cuda_submit drv expf job b)" "cuda_poll_completions drv" for drv expf
proof unfold_locales
  fix b job h b'
  assume a: "cuda_ok b" "unat (bk_next_handle b) < 2 ^ 64 - 1" "map_option (\<lambda>(h, b'). (Inr h, b')) (cuda_submit drv expf job b) = Some (Inr h, b')"
  then have "cuda_submit drv expf job b = Some (h, b')" by auto
  from cuda_submit_law [OF a(1,2) this] show "cuda_ok b' \<and> unat h = unat (bk_next_handle b) \<and>
      unat (bk_next_handle b') = unat (bk_next_handle b) + 1 \<and> h \<notin> set (cuda_handles b) \<and> set (cuda_handles b') = insert h (set (cuda_handles b))" .
next
  fix b cs b'
  assume a: "cuda_ok b" "cuda_poll_completions drv b = (Inr cs, b')"
  then have "cuda_polls drv expf b cs b'" by (simp add: cuda_polls_def)
  from cuda_polls_law [OF a(1) this] show "cuda_ok b' \<and> unat (bk_next_handle b') = unat (bk_next_handle b) \<and> distinct (map cp_handle cs) \<and>
      cp_handle ` set cs \<subseteq> set (cuda_handles b) \<and> set (cuda_handles b') = set (cuda_handles b) - cp_handle ` set cs" .
qed (auto intro: cuda_poll_total)

lemma cpu_server_ok:
  assumes "cpu_server_start config = Inr s0" "server_reachable (cpu_env config save expf) s0 s"
    and "length (sv_connections s) < 2 ^ 64 - 1" "sv_submissions s < 2 ^ 64 - 2"
  shows "server_ok (server_limits config) s" "lifecycle_ok s"
proof -
  have "server_ok (server_limits (se_config (cpu_env config save expf))) s \<and> lifecycle_ok s \<and>
      ledger_ok cpu_ok (\<lambda>b. unat (cb_next_handle b)) (\<lambda>b. dom (cpu_outcome b)) 1 s"
  proof (rule cpu_server.reachable_ok [OF assms(2)])
    show "worker_main_start (se_config (cpu_env config save expf)) (Inr (Some new_cpu_backend))
        (\<lambda>n bytes b. bind_result (cpu_allocate_slots n bytes b) (\<lambda>(base, b'). Inr (Some base, b'))) = Inr s0"
      using assms(1) by (simp add: cpu_server_start_def cpu_env_def)
    fix b n bytes base b'
    assume "Inr (Some new_cpu_backend) = (Inr (Some b) :: cpu_backend option result)"
      "bind_result (cpu_allocate_slots n bytes b) (\<lambda>(base, b'). Inr (Some base, b')) = Inr (base, b')"
    then show "cpu_ok b' \<and> unat (cb_next_handle b') = 1 \<and> dom (cpu_outcome b') = {}"
      by (auto simp: cpu_allocate_slots_def new_cpu_backend_def cpu_ok_def cpu_outcome_def fun_eq_iff)
  qed (use assms(3,4) in \<open>simp_all add: cpu_env_def\<close>)
  then show "server_ok (server_limits config) s" "lifecycle_ok s" by (simp_all add: cpu_env_def)
qed

lemma cuda_server_ok_fresh:
  assumes "\<And>b. made = Inr b \<Longrightarrow> fresh_backend b" "cuda_server_start config drv made = Inr s0"
    and "server_reachable (cuda_env config save drv expf) s0 s"
    and "length (sv_connections s) < 2 ^ 64 - 1" "sv_submissions s < 2 ^ 64 - 2"
  shows "server_ok (server_limits config) s" "lifecycle_ok s"
proof -
  have "server_ok (server_limits (se_config (cuda_env config save drv expf))) s \<and> lifecycle_ok s \<and>
      ledger_ok cuda_ok (\<lambda>b. unat (bk_next_handle b)) (\<lambda>b. set (cuda_handles b)) 1 s"
  proof (rule cuda_server.reachable_ok [OF assms(3)])
    show "worker_main_start (se_config (cuda_env config save drv expf)) (bind_result made (\<lambda>b. Inr (Some b)))
        (\<lambda>n bytes b. case allocate_slots drv (of_nat n) (of_nat bytes) b of (r, b') \<Rightarrow> bind_result r (\<lambda>base. Inr (Some base, b'))) = Inr s0"
      using assms(2) by (simp add: cuda_server_start_def cuda_env_def)
    fix b n bytes base b'
    assume m: "bind_result made (\<lambda>b. Inr (Some b)) = Inr (Some b)"
      and a: "(case allocate_slots drv (of_nat n) (of_nat bytes) b of (r, b') \<Rightarrow> bind_result r (\<lambda>base. Inr (Some base, b'))) = Inr (base, b')"
    have made: "made = Inr b" using m by (auto simp: bind_result_eq_Inr)
    obtain r where r: "allocate_slots drv (of_nat n) (of_nat bytes) b = (r, b')" using a by (auto simp: bind_result_eq_Inr split: prod.splits)
    show "cuda_ok b' \<and> unat (bk_next_handle b') = 1 \<and> set (cuda_handles b') = {}"
      using allocate_slots_fresh [OF assms(1) [OF made] r] by simp
  qed (use assms(4,5) in \<open>simp_all add: cuda_env_def\<close>)
  then show "server_ok (server_limits config) s" "lifecycle_ok s" by (simp_all add: cuda_env_def)
qed

lemma cuda_server_ok:
  assumes "CudaBackend_new drv ordinal k tile tile_size constants d = (made, d')" "cuda_server_start config drv made = Inr s0"
    and "server_reachable (cuda_env config save drv expf) s0 s"
    and "length (sv_connections s) < 2 ^ 64 - 1" "sv_submissions s < 2 ^ 64 - 2"
  shows "server_ok (server_limits config) s" "lifecycle_ok s"
proof -
  have fresh: "fresh_backend b" if "made = Inr b" for b by (rule CudaBackend_new_fresh [OF assms(1) [unfolded that]])
  show "server_ok (server_limits config) s" "lifecycle_ok s" using cuda_server_ok_fresh [OF fresh assms(2-5)] by iprover+
qed

section \<open>A concrete run\<close>

fun run_events :: "'b server_env \<Rightarrow> server_event list \<Rightarrow> 'b server \<Rightarrow> 'b server option" where
  "run_events env [] s = Some s"
| "run_events env (e # es) s = (case server_step env e s of None \<Rightarrow> None | Some s' \<Rightarrow> run_events env es s')"

lemma run_events_reachable:
  "run_events env es s = Some s' \<Longrightarrow> server_reachable env s0 s \<Longrightarrow> server_reachable env s0 s'"
  by (induction es arbitrary: s) (auto split: option.splits intro: reachable_step)

text \<open>
  A server with one slot and a client that sends one image with an empty chain, then a header without magic:
  both are answered, and the connection ends.
\<close>

definition small_config :: server_config where
  "small_config = default_config\<lparr>sc_num_slots := 1, sc_max_payload_bytes := 4\<rparr>"

definition small_env :: "cpu_backend server_env" where
  "small_env = cpu_env small_config (\<lambda>_ _. True) (\<lambda>x. 1)"

definition small_server :: "cpu_backend server" where
  "small_server = projr (cpu_server_start small_config)"

definition two_frames :: "recv_event list" where
  "two_frames = [Arrived (encode_request_header (client_header 7 dot_image [] 1)), Recv_Interrupted, Arrived (7 # replicate 25 0)]"

definition two_frames_events :: "server_event list" where
  "two_frames_events = [Acceptor None, Acceptor (Some (two_frames, []))] @ replicate 5 (Reader 0) @ replicate 4 Worker @
     [Reader 0, Reader 0] @ replicate 4 Worker @ [Writer 0 0, Writer 0 0, Writer 0 0, Reader 0]"

definition after_two_frames :: "cpu_backend server" where
  "after_two_frames = the (run_events small_env two_frames_events small_server)"

lemma small_server_started: "cpu_server_start small_config = Inr small_server"
  by (simp add: small_server_def cpu_server_start_def worker_main_start_def small_config_def default_config_def cpu_allocate_slots_def
      new_cpu_backend_def new_slot_pool_def)

definition outcome_of :: "cpu_backend server \<Rightarrow> (u32 list \<times> u8 list \<times> bool) list \<times> nat \<times> bool \<times> bool" where
  "outcome_of s = (map (\<lambda>c. (co_asked c, map re_status (co_taken c), co_finished c)) (sv_connections s), sv_submissions s, sv_running s,
     case sv_worker s of W_Top \<Rightarrow> True | _ \<Rightarrow> False)"

lemma two_frames_run:
  "map_option outcome_of (run_events small_env two_frames_events small_server) = Some ([([7, 0], [1, 0], True)], 1, True, True)"
  by code_simp

lemma after_two_frames:
  "server_reachable small_env small_server after_two_frames" "length (sv_connections after_two_frames) = 1"
  "co_asked (sv_connections after_two_frames ! 0) = [7, 0]" "co_finished (sv_connections after_two_frames ! 0)"
  "sv_submissions after_two_frames = 1" "sv_running after_two_frames" "sv_worker after_two_frames = W_Top"
  "map re_status (co_taken (sv_connections after_two_frames ! 0)) = [1, 0]"
proof -
  obtain s where s: "run_events small_env two_frames_events small_server = Some s"
      "outcome_of s = ([([7, 0], [1, 0], True)], 1, True, True)" using two_frames_run by auto
  then have e: "after_two_frames = s" by (simp add: after_two_frames_def)
  show "server_reachable small_env small_server after_two_frames" unfolding e by (rule run_events_reachable [OF s(1) reachable_start])
  show "length (sv_connections after_two_frames) = 1" "co_asked (sv_connections after_two_frames ! 0) = [7, 0]"
    "co_finished (sv_connections after_two_frames ! 0)" "sv_submissions after_two_frames = 1" "sv_running after_two_frames"
    "sv_worker after_two_frames = W_Top" "map re_status (co_taken (sv_connections after_two_frames ! 0)) = [1, 0]"
    using s(2) by (auto simp: outcome_of_def e split: worker_pc.splits)
qed

end
