(* ===== verification/Server_Spec.thy ===== *)
theory Server_Spec
  imports Server_Correct
begin

text \<open>
  The guarantees of the server, for the CPU backend and for the CUDA backend over an arbitrary driver.
  All of them hold for every interleaving of the threads, every client, and every way the kernel cuts the
  streams, as long as fewer than \<open>2 ^ 64 - 1\<close> connections and \<open>2 ^ 64 - 2\<close> submissions were made: the
  counters of connection ids and job handles are 64 bits wide.
\<close>

section \<open>Facts the properties share\<close>

lemma answers_once:
  assumes ok: "server_ok limits s" and k: "k < length (sv_connections s)"
  shows "let c = sv_connections s ! k in
    mset (co_asked c) = mset (map re_seq_num (co_taken c @ ob_items (co_outbox c))) + owed_to k (answers s) \<and>
    (if co_finished c then mset (co_asked c) = mset (map re_seq_num (co_taken c)) else True) \<and>
    (if co_writer c = Wr_Running True then fst (co_outbound c) = concat (map response_bytes (co_taken c)) else True)"
proof -
  have "account (sv_connections s ! k) (count (jobs s) k) (owed_to k (answers s))"
    using server_ok_parts(1) [OF ok] k by (simp add: accounts_def)
  moreover have "connection_ok limits k (sv_connections s ! k)" by (rule server_ok_parts(4) [OF ok k])
  ultimately show ?thesis
    using finished_answered(1) [OF ok k] by (auto simp: Let_def account_def answered_def connection_ok_def)
qed

lemma receiving_alone:
  assumes ok: "server_ok limits s" and k: "k < length (sv_connections s)"
    and pc: "co_reader (sv_connections s ! k) = R_Receiving header chain i"
  shows "is_ok (slot (sv_pool s) i)" "unat (rq_payload_len header) \<le> sp_bytes (sv_pool s)" "{#t \<in># tickets s. snd (snd t) = i#} = {#}"
proof -
  let ?c = "sv_connections s ! k"
  note p = server_ok_parts [OF ok]
  have r: "(co_id ?c, i) \<in># sum_list (map reader_holdings (sv_connections s))"
    by (rule sum_list_mset_member [OF k]) (simp add: reader_holdings_def pc)
  then have h: "(co_id ?c, i) \<in># holdings s" by (simp add: holdings_def)
  show "is_ok (slot (sv_pool s) i)" by (rule slots_held_index [OF p(2) h])
  show "unat (rq_payload_len header) \<le> sp_bytes (sv_pool s)"
    using p(3) p(4) [OF k] pc by (simp add: connection_ok_def reader_at_def word_le_nat_alt)
  show "{#t \<in># tickets s. snd (snd t) = i#} = {#}"
  proof (rule ccontr)
    assume "{#t \<in># tickets s. snd (snd t) = i#} \<noteq> {#}"
    then obtain j q where t: "(j, q, i) \<in># tickets s" by auto
    define T where "T = image_mset (\<lambda>(k, q, i). (owner_id k, i)) (tickets s)"
    have T: "(owner_id j, i) \<in># T" using t by (force simp: T_def)
    define R where "R = sum_list (map reader_holdings (sv_connections s))"
    have "owner_id j = co_id ?c"
      using T slots_held_owner [OF p(2) h] slots_held_owner [OF p(2), of "owner_id j" i] by (simp add: holdings_def T_def)
    then have "0 < count T (co_id ?c, i)" "0 < count R (co_id ?c, i)" using T r by (simp_all add: R_def)
    then have "2 \<le> count (holdings s) (co_id ?c, i)" unfolding holdings_def T_def [symmetric] R_def [symmetric] count_union by linarith
    then show False using p(2) by (auto simp: slots_held_def split: if_splits)
  qed
qed

text \<open>A server that has just been started, and its first steps.\<close>

lemma started_fields:
  assumes "worker_main_start config made allocate = Inr s0"
  shows "sv_acceptor s0 = A_Check" "sv_running s0" "sv_connections s0 = []" "sv_records s0 = []" "sv_submissions s0 = 0" "sv_stop s0 = S_Idle"
proof -
  obtain pool b where "s0 = new_server config pool b"
    using assms unfolding worker_main_start_def by (clarsimp simp: bind_result_eq_Inr split: option.split_asm)
  then show "sv_acceptor s0 = A_Check" "sv_running s0" "sv_connections s0 = []" "sv_records s0 = []" "sv_submissions s0 = 0" "sv_stop s0 = S_Idle"
    by (simp_all add: new_server_def)
qed

lemma first_connection:
  assumes "worker_main_start config made allocate = Inr s0"
  obtains s where "server_reachable env s0 s" "length (sv_connections s) = 1" "sv_submissions s = 0" "co_asked (sv_connections s ! 0) = []"
proof -
  obtain s where r: "run_events env [Acceptor None, Acceptor (Some ([], []))] s0 = Some s"
      "length (sv_connections s) = 1" "sv_submissions s = 0" "co_asked (sv_connections s ! 0) = []"
    using started_fields [OF assms] by (simp add: server_step_def acceptor_step_def new_connection_def)
  with that run_events_reachable [OF r(1) reachable_start] show thesis by blast
qed

lemma first_stop:
  assumes "worker_main_start config made allocate = Inr s0"
  obtains s where "server_reachable env s0 s" "length (sv_connections s) = 0" "sv_submissions s = 0" "bq_closed (sv_queue s)"
proof -
  have "\<exists>s. run_events env [Stopper (\<lambda>_. 0), Acceptor None, Stopper (\<lambda>_. 0), Stopper (\<lambda>_. 0), Stopper (\<lambda>_. 0)] s0 = Some s \<and>
      length (sv_connections s) = 0 \<and> sv_submissions s = 0 \<and> bq_closed (sv_queue s)"
    using started_fields [OF assms]
    by (simp add: server_step_def acceptor_step_def stop_step_def shutdown_records_def bq_close_def)
  with that run_events_reachable [OF _ reachable_start] show thesis by blast
qed

lemma small_cuda_starts:
  "\<exists>s0. cuda_server_start small_config ok_driver (fst (CudaBackend_new ok_driver 0 1 kNaive 0 kBaked ())) = Inr s0"
proof -
  have "is_ok (cuda_server_start small_config ok_driver (fst (CudaBackend_new ok_driver 0 1 kNaive 0 kBaked ())))" by code_simp
  then show ?thesis by (metis is_ok.simps(1) sum.exhaust)
qed

section \<open>Properties\<close>

text \<open>
  C3: Every request gets exactly one response. In every state a server over the CPU backend can reach, the requests
  that a connection's reader took completely from the stream (rejected ones included) are, as a
  multiset of sequence numbers, those of the responses already taken by the writer, those waiting in the outbox and those
  still owed by a frame under way; when the connection has finished they are exactly those of the
  responses taken. While the socket is alive the wire holds exactly the encodings of the responses taken, in order.
\<close>

theorem cpu_server_answers_exactly_once:
  assumes "cpu_server_start config = Inr s0" "server_reachable (cpu_env config save expf) s0 s"
    and "length (sv_connections s) < 2 ^ 64 - 1" "sv_submissions s < 2 ^ 64 - 2" "k < length (sv_connections s)"
  shows "let c = sv_connections s ! k in
    mset (co_asked c) = mset (map re_seq_num (co_taken c @ ob_items (co_outbox c))) + owed_to k (answers s) \<and>
    (if co_finished c then mset (co_asked c) = mset (map re_seq_num (co_taken c)) else True) \<and>
    (if co_writer c = Wr_Running True then fst (co_outbound c) = concat (map response_bytes (co_taken c)) else True)"
  by (rule answers_once [OF cpu_server_ok(1) [OF assms(1-4)] assms(5)])

theorem cpu_server_answers_exactly_once_witness:
  "mset (map re_seq_num (co_taken (sv_connections after_two_frames ! 0))) = {#7, 0#}"
proof -
  let ?c = "sv_connections after_two_frames ! 0"
  have "if co_finished ?c then mset (co_asked ?c) = mset (map re_seq_num (co_taken ?c)) else True"
    using cpu_server_answers_exactly_once [OF small_server_started after_two_frames(1) [unfolded small_env_def], of 0]
      after_two_frames(2,5) unfolding Let_def by auto
  then show ?thesis using after_two_frames(3,4) by simp
qed

text \<open>
  The same with the CUDA backend, for every driver: whatever fails on the device, and however often the
  context is recreated, no request of a client is lost or answered twice.
\<close>

lemma cuda_server_answers_exactly_once:
  assumes "CudaBackend_new drv ordinal streams tile tile_size constants d = (made, d')" "cuda_server_start config drv made = Inr s0"
    and "server_reachable (cuda_env config save drv expf) s0 s"
    and "length (sv_connections s) < 2 ^ 64 - 1" "sv_submissions s < 2 ^ 64 - 2" "k < length (sv_connections s)"
  shows "let c = sv_connections s ! k in
    mset (co_asked c) = mset (map re_seq_num (co_taken c @ ob_items (co_outbox c))) + owed_to k (answers s) \<and>
    (if co_finished c then mset (co_asked c) = mset (map re_seq_num (co_taken c)) else True) \<and>
    (if co_writer c = Wr_Running True then fst (co_outbound c) = concat (map response_bytes (co_taken c)) else True)"
  by (rule answers_once [OF cuda_server_ok(1) [OF assms(1-5)] assms(6)])

text \<open>
  C10: Frame slots are never shared, leaked or overrun. In every reachable state the slots the pool counts as
  claimed are exactly those held by frames under way, each held once and by its own connection; so no release is
  refused and no thread dies of an exception. The slot a reader is receiving into exists, is large enough
  for the payload its header announced, and belongs to no frame that is queued or in flight.
\<close>

theorem slots_are_never_shared:
  assumes "cpu_server_start config = Inr s0" "server_reachable (cpu_env config save expf) s0 s"
    and "length (sv_connections s) < 2 ^ 64 - 1" "sv_submissions s < 2 ^ 64 - 2" "k < length (sv_connections s)"
  shows "count (holdings s) (owner, i) = (if pool_holds (sv_pool s) i = Some owner then 1 else 0) \<and>
    sv_worker s \<noteq> W_Crashed \<and>
    (case co_reader (sv_connections s ! k) of
       R_Crashed \<Rightarrow> False
     | R_Refused f \<Rightarrow> False
     | R_Receiving header chain j \<Rightarrow> is_ok (slot (sv_pool s) j) \<and> unat (rq_payload_len header) \<le> sp_bytes (sv_pool s) \<and>
         {#t \<in># tickets s. snd (snd t) = j#} = {#}
     | _ \<Rightarrow> True)"
proof -
  have ok: "server_ok (server_limits config) s" by (rule cpu_server_ok(1) [OF assms(1-4)])
  have "reader_at (server_limits config) k (co_reader (sv_connections s ! k))"
    using server_ok_parts(4) [OF ok assms(5)] by (simp add: connection_ok_def)
  with receiving_alone [OF ok assms(5)] server_ok_parts(2,7) [OF ok] show ?thesis
    by (cases "co_reader (sv_connections s ! k)") (simp_all add: slots_held_def reader_at_def)
qed

theorem slots_are_never_shared_witness: "count (holdings after_two_frames) (1, 0) \<le> 1"
  using slots_are_never_shared [OF small_server_started after_two_frames(1) [unfolded small_env_def], of 0 1 0] after_two_frames(2,5)
  by (simp split: if_splits)





end
