(* ===== verification/Server_Content.thy ===== *)
theory Server_Content
  imports Server_Spec
begin

text \<open>
  What the responses say. A history of the server records the frames its readers received completely. The worker's calls are a history of
  its backend (locale \<open>accepting_server\<close>), and every response either carries a completion that the backend delivered for the job made of a
  recorded frame of the same connection, or refuses a frame whose header or chain is bad. What a backend computes in every history
  is then what the server answers: here for the CPU backend, in \<open>Cuda_Server\<close> for the CUDA backend.
\<close>

section \<open>Histories\<close>

type_synonym arrival = "nat \<times> request_header \<times> op_chain \<times> u8 list"

text \<open>The frame that the event completes: the reader receives the whole payload into its slot.\<close>

definition arrivals :: "server_event \<Rightarrow> 'b server \<Rightarrow> arrival list" where
  "arrivals event s =
     (case event of
        Reader k \<Rightarrow>
          (if k < length (sv_connections s)
           then (case co_reader (sv_connections s ! k) of
                   R_Receiving header chain index \<Rightarrow>
                     (case read_exact (unat (rq_payload_len header)) (co_inbound (sv_connections s ! k)) of (r, bytes, rest) \<Rightarrow>
                        if r = io_kOk then [(k, header, chain, bytes)] else [])
                 | _ \<Rightarrow> [])
           else [])
      | _ \<Rightarrow> [])"

inductive server_history :: "'b server_env \<Rightarrow> 'b server \<Rightarrow> 'b server \<Rightarrow> arrival list \<Rightarrow> bool" for env start where
  history_begins: "server_history env start start []"
| history_steps: "server_history env start s received \<Longrightarrow> server_step env event s = Some s' \<Longrightarrow>
    server_history env start s' (received @ arrivals event s)"

lemma history_reachable: "server_history env start s received \<Longrightarrow> server_reachable env start s"
  by (induction rule: server_history.induct) (auto intro: reachable_start reachable_step)

section \<open>The answer to a frame\<close>

definition entry_for :: "arrival \<Rightarrow> nat \<Rightarrow> in_flight" where
  "entry_for = (\<lambda>(k, header, chain, payload) index. entry_of (frame_of k header chain index))"

text \<open>The job the worker makes of a frame: behind the payload the slot holds what an earlier frame left.\<close>

definition arrival_job :: "arrival \<Rightarrow> u8 list \<Rightarrow> frame_job" where
  "arrival_job = (\<lambda>(k, header, chain, payload) stale. job_of (frame_of k header chain 0) (payload @ stale))"

definition arrival_jobs :: "arrival set \<Rightarrow> frame_job set" where
  "arrival_jobs L = {arrival_job a stale | a stale. a \<in> L}"

lemma arrival_jobsI [intro]: "a \<in> L \<Longrightarrow> arrival_job a stale \<in> arrival_jobs L"
  unfolding arrival_jobs_def by blast

lemma job_of_slot: "job_of (frame_of k header chain i) bytes = job_of (frame_of k header chain 0) bytes"
  by (simp add: job_of_def frame_of_def)

lemma response_of_slot: "response_of (entry_for a i) c = response_of (entry_for a 0) c"
  by (simp add: response_of_def entry_for_def entry_of_def frame_of_def Let_def split: prod.splits)

lemma entry_for_connection [simp]: "if_connection (entry_for a i) = fst a"
  by (simp add: entry_for_def entry_of_def frame_of_def split: prod.splits)

text \<open>A frame that is queued or with the worker: its slot still holds what arrived.\<close>

definition frame_good :: "arrival set \<Rightarrow> (nat \<Rightarrow> u8 list) \<Rightarrow> queued_frame \<Rightarrow> bool" where
  "frame_good L m f \<longleftrightarrow> (\<exists>k header chain payload. (k, header, chain, payload) \<in> L \<and> f = frame_of k header chain (qf_slot f) \<and>
     take (length payload) (m (qf_slot f)) = payload)"

text \<open>
  \<open>J\<close> are the jobs submitted to the backend with their handles, \<open>D\<close> the completions it delivered. An entry of the
  table of frames in flight stands for an arrived frame that was submitted; a response answers such a frame with a
  completion of its handle.
\<close>

type_synonym job_log = "(job_handle \<times> frame_job) set"

definition owed :: "arrival set \<Rightarrow> job_log \<Rightarrow> job_handle \<Rightarrow> in_flight \<Rightarrow> bool" where
  "owed L J h e \<longleftrightarrow> (\<exists>a \<in> L. \<exists>stale. e = entry_for a (if_slot e) \<and> (h, arrival_job a stale) \<in> J)"

definition answers_frame :: "arrival set \<Rightarrow> job_log \<Rightarrow> completion set \<Rightarrow> arrival \<Rightarrow> response \<Rightarrow> bool" where
  "answers_frame L J D a r \<longleftrightarrow> a \<in> L \<and> (\<exists>c \<in> D. \<exists>stale. (cp_handle c, arrival_job a stale) \<in> J \<and> r = response_of (entry_for a 0) c)"

definition says :: "arrival set \<Rightarrow> job_log \<Rightarrow> completion set \<Rightarrow> nat \<Rightarrow> response \<Rightarrow> bool" where
  "says L J D k r \<longleftrightarrow> (\<exists>a. fst a = k \<and> answers_frame L J D a r) \<or>
     (\<exists>q status. r = error_response q status \<and> status \<noteq> kOk \<and> status \<noteq> kInternalError)"

lemma good_mono:
  assumes "L \<subseteq> L'" "J \<subseteq> J'" "D \<subseteq> D'"
  shows "frame_good L m f \<Longrightarrow> frame_good L' m f" "owed L J h e \<Longrightarrow> owed L' J' h e" "says L J D k r \<Longrightarrow> says L' J' D' k r"
  using assms by (unfold frame_good_def owed_def says_def answers_frame_def) blast+

section \<open>The invariant\<close>

definition reader_frames :: "reader_pc \<Rightarrow> queued_frame set" where
  "reader_frames pc = (case pc of R_Submitting f \<Rightarrow> {f} | R_Pushing f \<Rightarrow> {f} | _ \<Rightarrow> {})"

definition frames :: "'b server \<Rightarrow> queued_frame set" where
  "frames s = (\<Union>c \<in> set (sv_connections s). reader_frames (co_reader c)) \<union> set (bq_items (sv_queue s)) \<union>
     (case sv_worker s of W_Submit f \<Rightarrow> {f} | _ \<Rightarrow> {})"

definition worker_says :: "worker_pc \<Rightarrow> (nat \<times> response) set" where
  "worker_says w = (case w of W_Release job response continue \<Rightarrow> {(if_connection job, response)}
     | W_Push k response continue \<Rightarrow> {(k, response)} | _ \<Rightarrow> {})"

definition admitted :: "limits \<Rightarrow> request_header \<Rightarrow> op_chain \<Rightarrow> bool" where
  "admitted limits header chain \<longleftrightarrow> validate_request_header header limits = kOk \<and> canonical_chain chain"

definition reader_valid :: "limits \<Rightarrow> reader_pc \<Rightarrow> bool" where
  "reader_valid limits pc = (case pc of
     R_Claiming header chain \<Rightarrow> admitted limits header chain
   | R_Parked header chain \<Rightarrow> admitted limits header chain
   | R_Receiving header chain index \<Rightarrow> admitted limits header chain
   | _ \<Rightarrow> True)"

definition arrival_valid :: "limits \<Rightarrow> arrival \<Rightarrow> bool" where
  "arrival_valid limits = (\<lambda>(k, header, chain, payload).
     admitted limits header chain \<and> length payload = unat (rq_payload_len header))"

text \<open>The writer may have turned an answer into a failure, when the file could not be written.\<close>

definition taken_from :: "(string \<Rightarrow> image \<Rightarrow> bool) \<Rightarrow> string \<Rightarrow> u64 \<Rightarrow> (response \<Rightarrow> bool) \<Rightarrow> response \<Rightarrow> bool" where
  "taken_from save dir connection_id P r \<longleftrightarrow> (\<exists>r0. P r0 \<and> r = write_file_if_asked save dir connection_id r0)"

definition connection_says :: "limits \<Rightarrow> (string \<Rightarrow> image \<Rightarrow> bool) \<Rightarrow> string \<Rightarrow> (response \<Rightarrow> bool) \<Rightarrow> connection \<Rightarrow> bool" where
  "connection_says limits save dir P c \<longleftrightarrow> reader_valid limits (co_reader c) \<and>
     list_all P (ob_items (co_outbox c)) \<and> list_all (taken_from save dir (co_id c) P) (co_taken c)"

lemma connection_says_mono:
  "connection_says limits save dir P c \<Longrightarrow> (\<And>r. P r \<Longrightarrow> Q r) \<Longrightarrow> connection_says limits save dir Q c"
  unfolding connection_says_def taken_from_def list_all_iff by blast

definition content_ok :: "'b server_env \<Rightarrow> arrival set \<Rightarrow> job_log \<Rightarrow> completion set \<Rightarrow> 'b server \<Rightarrow> bool" where
  "content_ok env L J D s \<longleftrightarrow>
     (\<forall>a \<in> L. arrival_valid (server_limits (se_config env)) a) \<and>
     (\<forall>k < length (sv_connections s). connection_says (server_limits (se_config env)) (se_save env) (sc_output_dir (se_config env))
        (says L J D k) (sv_connections s ! k)) \<and>
     (\<forall>f \<in> frames s. frame_good L (sv_memory s) f) \<and>
     (\<forall>(k, r) \<in> worker_says (sv_worker s). says L J D k r) \<and>
     (\<forall>h e. map_of (sv_in_flight s) h = Some e \<longrightarrow> owed L J h e) \<and>
     set (unrouted (sv_worker s)) \<subseteq> D"

lemma content_parts:
  assumes "content_ok env L J D s"
  shows "\<And>a. a \<in> L \<Longrightarrow> arrival_valid (server_limits (se_config env)) a"
    "\<And>k. k < length (sv_connections s) \<Longrightarrow> connection_says (server_limits (se_config env)) (se_save env) (sc_output_dir (se_config env))
        (says L J D k) (sv_connections s ! k)"
    "\<And>f. f \<in> frames s \<Longrightarrow> frame_good L (sv_memory s) f" "\<And>k r. (k, r) \<in> worker_says (sv_worker s) \<Longrightarrow> says L J D k r"
    "\<And>h e. map_of (sv_in_flight s) h = Some e \<Longrightarrow> owed L J h e" "set (unrouted (sv_worker s)) \<subseteq> D"
  using assms unfolding content_ok_def by blast+

lemma contentI:
  assumes "\<And>a. a \<in> L \<Longrightarrow> arrival_valid (server_limits (se_config env)) a"
    "\<And>k. k < length (sv_connections s) \<Longrightarrow> connection_says (server_limits (se_config env)) (se_save env) (sc_output_dir (se_config env))
        (says L J D k) (sv_connections s ! k)"
    "\<And>f. f \<in> frames s \<Longrightarrow> frame_good L (sv_memory s) f" "\<And>k r. (k, r) \<in> worker_says (sv_worker s) \<Longrightarrow> says L J D k r"
    "\<And>h e. map_of (sv_in_flight s) h = Some e \<Longrightarrow> owed L J h e" "set (unrouted (sv_worker s)) \<subseteq> D"
  shows "content_ok env L J D s"
  using assms unfolding content_ok_def by blast

lemma content_mono:
  assumes ok: "content_ok env L J D s" and sub: "L \<subseteq> L'" "J \<subseteq> J'" "D \<subseteq> D'"
    and valid: "\<And>a. a \<in> L' \<Longrightarrow> arrival_valid (server_limits (se_config env)) a"
  shows "content_ok env L' J' D' s"
proof (rule contentI)
  note p = content_parts [OF ok] and m = good_mono [OF sub]
  show "arrival_valid (server_limits (se_config env)) a" if "a \<in> L'" for a by (rule valid [OF that])
  show "connection_says (server_limits (se_config env)) (se_save env) (sc_output_dir (se_config env)) (says L' J' D' k) (sv_connections s ! k)"
    if "k < length (sv_connections s)" for k by (rule connection_says_mono [OF p(2) [OF that] m(3)])
  show "frame_good L' (sv_memory s) f" if "f \<in> frames s" for f by (rule m(1) [OF p(3) [OF that]])
  show "says L' J' D' k r" if "(k, r) \<in> worker_says (sv_worker s)" for k r by (rule m(3) [OF p(4) [OF that]])
  show "owed L' J' h e" if "map_of (sv_in_flight s) h = Some e" for h e by (rule m(2) [OF p(5) [OF that]])
  show "set (unrouted (sv_worker s)) \<subseteq> D'" using p(6) sub(3) by blast
qed

section \<open>Steps of a connection\<close>

text \<open>A step that changes one connection and the queue, and brings no frame that was not there.\<close>

lemma content_connection:
  assumes ok: "content_ok env L J D s" and k: "k < length (sv_connections s)"
    and c: "connection_says (server_limits (se_config env)) (se_save env) (sc_output_dir (se_config env)) (says L J D k) c'"
    and conns: "sv_connections s' = (sv_connections s)[k := c']"
    and same: "worker_part s' = worker_part s" "sv_memory s' = sv_memory s"
    and frames: "reader_frames (co_reader c') \<subseteq> frames s" "set (bq_items (sv_queue s')) \<subseteq> frames s"
  shows "content_ok env L J D s'"
proof (rule contentI)
  note p = content_parts [OF ok]
  have eq: "sv_in_flight s' = sv_in_flight s" "sv_worker s' = sv_worker s"
    using same(1) by (simp_all add: worker_part_def)
  show "arrival_valid (server_limits (se_config env)) a" if "a \<in> L" for a by (rule p(1) [OF that])
  show "connection_says (server_limits (se_config env)) (se_save env) (sc_output_dir (se_config env)) (says L J D j) (sv_connections s' ! j)"
    if "j < length (sv_connections s')" for j using that c p(2) [of j] by (cases "j = k") (auto simp: conns)
  have "set (sv_connections s') \<subseteq> insert c' (set (sv_connections s))" unfolding conns by (rule set_update_subset_insert)
  then have "(\<Union>c \<in> set (sv_connections s'). reader_frames (co_reader c)) \<subseteq> frames s" using frames(1) by (auto simp: frames_def)
  moreover have "(case sv_worker s' of W_Submit f \<Rightarrow> {f} | _ \<Rightarrow> {}) \<subseteq> frames s" unfolding eq(2) by (auto simp: frames_def)
  ultimately have "frames s' \<subseteq> frames s" using frames(2) unfolding frames_def [of s'] by blast
  then show "frame_good L (sv_memory s') f" if "f \<in> frames s'" for f using p(3) [of f] that by (auto simp: same(2))
  show "says L J D j r" if "(j, r) \<in> worker_says (sv_worker s')" for j r using p(4) that by (simp add: eq)
  show "owed L J h e" if "map_of (sv_in_flight s') h = Some e" for h e using p(5) that by (simp add: eq)
  show "set (unrouted (sv_worker s')) \<subseteq> D" using p(6) by (simp add: eq)
qed

lemma queue_frames: "set (bq_items (sv_queue s)) \<subseteq> frames s"
  by (auto simp: frames_def)

lemma own_frames: "k < length (sv_connections s) \<Longrightarrow> reader_frames (co_reader (sv_connections s ! k)) \<subseteq> frames s"
  unfolding frames_def by (meson UN_upper le_supI1 nth_mem)

lemma read_request_rejects:
  assumes "read_request limits script = (Rejects q status goes_on, rest)"
  shows "status \<noteq> kOk \<and> status \<noteq> kInternalError"
proof -
  have r: "x = st" if "reject_frame h st n s = (Rejects q x goes_on, rest)" for h st n s x
    using that by (auto simp: reject_frame_def split: prod.splits if_splits)
  have v: "validate_request_header h limits \<noteq> kInternalError" for h by (simp add: validate_request_header_def status_defs)
  have "status = kBadChain \<or> (\<exists>h. status = validate_request_header h limits) \<and> status \<noteq> kOk"
    using assms by (auto simp: read_request_def Let_def split: prod.splits if_splits sum.splits dest: r)
  then show ?thesis using v by (auto simp: status_defs)
qed

lemma read_request_valid:
  assumes "read_request limits script = (Admits header chain, rest)"
  shows "admitted limits header chain"
proof -
  have no: "\<And>h st n s. reject_frame h st n s \<noteq> (Admits header chain, rest)" by (simp add: reject_frame_def split: prod.splits)
  show ?thesis using assms no parse_op_chain_canonical
    by (auto simp: read_request_def admitted_def Let_def split: prod.splits if_splits sum.splits)
qed

lemma reader_reads_says:
  assumes "connection_says limits save dir (says L J D k) c" "\<not> ob_closed (co_outbox c)"
  shows "connection_says limits save dir (says L J D k) (reader_reads limits c)" "reader_frames (co_reader (reader_reads limits c)) = {}"
proof -
  obtain found rest where r: "read_request limits (co_inbound c) = (found, rest)" by (cases "read_request limits (co_inbound c)")
  have "connection_says limits save dir (says L J D k) (reader_reads limits c) \<and> reader_frames (co_reader (reader_reads limits c)) = {}"
  proof (cases found)
    case (Rejects q status goes_on)
    then have "says L J D k (error_response q status)"
      using read_request_rejects [of limits "co_inbound c" q status goes_on rest] r unfolding says_def by blast
    with r Rejects assms show ?thesis
      by (simp add: reader_reads_def push_response_open connection_says_def reader_valid_def reader_frames_def)
  qed (use r assms read_request_valid in \<open>auto simp: reader_reads_def connection_says_def reader_valid_def reader_frames_def\<close>)
  then show "connection_says limits save dir (says L J D k) (reader_reads limits c)" "reader_frames (co_reader (reader_reads limits c)) = {}"
    by blast+
qed

lemma owner_id_inject:
  assumes "j < 2 ^ 64 - 1" "k < 2 ^ 64 - 1" "owner_id j = owner_id k"
  shows "j = k"
proof -
  have n: "unat (owner_id i) = Suc i" if "i < 2 ^ 64 - 1" for i
    using that unfolding owner_id_def by (simp only: unat_of_nat) (simp add: mod_less)
  have "Suc j = Suc k" unfolding n [OF assms(1), symmetric] n [OF assms(2), symmetric] assms(3) ..
  then show ?thesis by (rule Suc_inject)
qed

text \<open>A slot that a reader receives into belongs to no frame.\<close>

lemma receiving_apart:
  assumes ok: "server_ok limits s" and k: "k < length (sv_connections s)" and bound: "length (sv_connections s) < 2 ^ 64 - 1"
    and pc: "co_reader (sv_connections s ! k) = R_Receiving header chain i" and f: "f \<in> frames s"
  shows "qf_slot f \<noteq> i"
proof
  assume slot: "qf_slot f = i"
  have none: "frame_ticket f \<notin># tickets s" using receiving_alone(3) [OF ok k pc] slot by (auto simp: frame_ticket_def)
  note p = server_ok_parts [OF ok]
  from none have "f \<notin> set (bq_items (sv_queue s))" "f \<notin> (case sv_worker s of W_Submit f \<Rightarrow> {f} | _ \<Rightarrow> {})"
    by (auto simp: tickets_def worker_parts split: worker_pc.splits)
  then have "f \<in> (\<Union>c \<in> set (sv_connections s). reader_frames (co_reader c))" using f unfolding frames_def by blast
  then obtain j where j: "j < length (sv_connections s)" "f \<in> reader_frames (co_reader (sv_connections s ! j))"
    by (auto simp: in_set_conv_nth)
  have "co_reader (sv_connections s ! j) \<noteq> R_Pushing f"
    using none sum_list_mset_member [OF j(1), of "frame_ticket f" reader_tickets] by (auto simp: tickets_def reader_tickets_def)
  then have sub: "co_reader (sv_connections s ! j) = R_Submitting f" using j(2) by (auto simp: reader_frames_def split: reader_pc.splits)
  then have "(co_id (sv_connections s ! j), i) \<in># holdings s" "(co_id (sv_connections s ! k), i) \<in># holdings s"
    using sum_list_mset_member [OF j(1), of _ reader_holdings] sum_list_mset_member [OF k, of _ reader_holdings] pc slot
    by (simp_all add: holdings_def reader_holdings_def)
  then have "co_id (sv_connections s ! j) = co_id (sv_connections s ! k)" using slots_held_owner [OF p(2)] by (metis option.inject)
  then have "owner_id j = owner_id k" using p(4) j(1) k by (simp add: connection_ok_def)
  then have "j = k" using owner_id_inject [of j k] j(1) k bound by linarith
  with sub pc show False by simp
qed

lemma content_receives:
  assumes ok: "content_ok env L J D s" and sok: "server_ok (server_limits (se_config env)) s"
    and k: "k < length (sv_connections s)" and bound: "length (sv_connections s) < 2 ^ 64 - 1"
    and pc: "co_reader (sv_connections s ! k) = R_Receiving header chain i"
    and s': "s' = reader_receives k header chain i (sv_connections s ! k) s"
  shows "content_ok env (L \<union> set (arrivals (Reader k) s)) J D s'"
proof -
  let ?c = "sv_connections s ! k"
  obtain a where a: "slot (sv_pool s) i = Inr a" using receiving_alone(1) [OF sok k pc] by (cases "slot (sv_pool s) i") auto
  obtain r bytes rest where x: "read_exact (unat (rq_payload_len header)) (co_inbound ?c) = (r, bytes, rest)" by (metis prod_cases3)
  define m where "m = (sv_memory s)(i := bytes @ drop (length bytes) (sv_memory s i))"
  have mem: "content_ok env L J D (s\<lparr>sv_memory := m\<rparr>)"
  proof (rule contentI)
    note p = content_parts [OF ok]
    show "frame_good L (sv_memory (s\<lparr>sv_memory := m\<rparr>)) f" if "f \<in> frames (s\<lparr>sv_memory := m\<rparr>)" for f
      using p(3) [of f] receiving_apart [OF sok k bound pc, of f] that by (simp add: frames_def frame_good_def m_def)
  qed (use content_parts [OF ok] in simp_all)
  show ?thesis
  proof (cases "r = io_kOk")
    case True
    define L' where "L' = insert (k, header, chain, bytes) L"
    define f where "f = frame_of k header chain i"
    have arr: "L \<union> set (arrivals (Reader k) s) = L'" using k pc x True by (auto simp: arrivals_def L'_def)
    have "arrival_valid (server_limits (se_config env)) (k, header, chain, bytes)"
      using content_parts(2) [OF ok k] pc read_exact_spec [OF x] True stream_end_not_ok [of "co_inbound ?c"]
      by (auto simp: arrival_valid_def connection_says_def reader_valid_def split: if_splits)
    then have valid: "arrival_valid (server_limits (se_config env)) a" if "a \<in> L'" for a
      using that content_parts(1) [OF ok, of a] unfolding L'_def by blast
    have s1: "s' = set_connection k (?c\<lparr>co_inbound := rest, co_reader := R_Submitting f\<rparr>) (s\<lparr>sv_memory := m\<rparr>)"
      using a x True by (simp add: s' reader_receives_def m_def f_def Let_def)
    have old: "content_ok env L' J D (s\<lparr>sv_memory := m\<rparr>)" by (rule content_mono [OF mem _ subset_refl subset_refl valid]) (auto simp: L'_def)
    note p = content_parts [OF old]
    have good: "frame_good L' m f" unfolding frame_good_def
      by (rule exI [of _ k], rule exI [of _ header], rule exI [of _ chain], rule exI [of _ bytes]) (simp add: L'_def f_def frame_of_def m_def)
    have "content_ok env L' J D s'"
    proof (rule contentI)
      show "connection_says (server_limits (se_config env)) (se_save env) (sc_output_dir (se_config env)) (says L' J D j) (sv_connections s' ! j)"
        if "j < length (sv_connections s')" for j
        using that p(2) [of j] by (cases "j = k") (simp_all add: s1 connection_says_def reader_valid_def)
      show "frame_good L' (sv_memory s') g" if g: "g \<in> frames s'" for g
      proof -
        have "set (sv_connections s') \<subseteq> insert (?c\<lparr>co_inbound := rest, co_reader := R_Submitting f\<rparr>) (set (sv_connections s))"
          by (simp add: s1 set_update_subset_insert)
        then have "g = f \<or> g \<in> frames (s\<lparr>sv_memory := m\<rparr>)" using g by (auto simp: frames_def s1 reader_frames_def)
        then show ?thesis using good p(3) [of g] by (auto simp: s1)
      qed
    qed (use p in \<open>simp_all add: s1\<close>)
    then show ?thesis by (simp add: arr)
  next
    case False
    have arr: "L \<union> set (arrivals (Reader k) s) = L" using k pc x False by (simp add: arrivals_def)
    define pc' where "pc' = (case release (sv_pool s) i of Inl _ \<Rightarrow> R_Crashed | Inr _ \<Rightarrow> R_Leaving)"
    define pool where "pool = (case release (sv_pool s) i of Inl _ \<Rightarrow> sv_pool s | Inr pool \<Rightarrow> pool)"
    have s1: "s' = set_connection k (?c\<lparr>co_inbound := rest, co_reader := pc'\<rparr>) (s\<lparr>sv_memory := m, sv_pool := pool\<rparr>)"
      using a x False unfolding s' reader_receives_def reader_releases_def
      by (cases "release (sv_pool s) i") (simp_all add: m_def Let_def pc'_def pool_def)
    have "pc' = R_Crashed \<or> pc' = R_Leaving" by (simp add: pc'_def split: sum.splits)
    note s1 = s1 this
    have "content_ok env L J D s'"
      by (rule content_connection [OF mem, of k "?c\<lparr>co_inbound := rest, co_reader := pc'\<rparr>"])
        (use k content_parts(2) [OF ok k] s1 queue_frames [of s] in \<open>auto simp: connection_says_def reader_valid_def worker_part_def reader_frames_def frames_def\<close>)
    then show ?thesis by (simp add: arr)
  qed
qed

lemma content_reader:
  assumes ok: "content_ok env L J D s" and sok: "server_ok (server_limits (se_config env)) s"
    and bound: "length (sv_connections s) < 2 ^ 64 - 1" and step: "reader_step (server_limits (se_config env)) k s = Some s'"
  shows "content_ok env (L \<union> set (arrivals (Reader k) s)) J D s'"
proof -
  let ?c = "sv_connections s ! k" and ?limits = "server_limits (se_config env)"
  have k: "k < length (sv_connections s)" using step by (auto simp: reader_step_def Let_def split: if_splits)
  note c = content_parts(2) [OF ok k]
  show ?thesis
  proof (cases "\<exists>header chain i. co_reader ?c = R_Receiving header chain i")
    case True
    then obtain header chain i where pc: "co_reader ?c = R_Receiving header chain i" by blast
    then have "s' = reader_receives k header chain i ?c s" using step k by (simp add: reader_step_def Let_def)
    then show ?thesis by (rule content_receives [OF ok sok k bound pc])
  next
    case False
    have "arrivals (Reader k) s = []" by (cases "co_reader ?c") (use False in \<open>auto simp: arrivals_def\<close>)
    then have arr: "L \<union> set (arrivals (Reader k) s) = L" by simp
    have opn: "\<not> ob_closed (co_outbox ?c)" if "co_reader ?c = R_Reading" using server_ok_parts(4) [OF sok k] that by (simp add: connection_ok_def)
    have own: "reader_frames (co_reader ?c) \<subseteq> frames s" by (rule own_frames [OF k])
    let ?c' = "sv_connections s' ! k"
    have "connection_says ?limits (se_save env) (sc_output_dir (se_config env)) (says L J D k) ?c' \<and>
        sv_connections s' = (sv_connections s)[k := ?c'] \<and> worker_part s' = worker_part s \<and> sv_memory s' = sv_memory s \<and>
        reader_frames (co_reader ?c') \<subseteq> frames s \<and> set (bq_items (sv_queue s')) \<subseteq> frames s"
    proof (cases "co_reader ?c")
      case R_Reading
      with step k reader_reads_says [OF c opn [OF R_Reading]] queue_frames [of s] show ?thesis
        by (auto simp: reader_step_def Let_def)
    next
      case (R_Pushing f)
      then have "f \<in> frames s" using own by (simp add: reader_frames_def)
      with R_Pushing step k c queue_frames [of s] show ?thesis
        by (auto simp: reader_step_def Let_def bq_push_def connection_says_def reader_valid_def reader_frames_def worker_part_def split: if_splits)
    next
      case (R_Receiving header chain i)
      with False show ?thesis by blast
    next
      case (R_Submitting f)
      then have "f \<in> frames s" using own by (simp add: reader_frames_def)
      with R_Submitting step k c queue_frames [of s] show ?thesis
        by (auto simp: reader_step_def Let_def job_submitted_def connection_says_def reader_valid_def reader_frames_def)
    qed (use step k c queue_frames [of s] in \<open>auto simp: reader_step_def Let_def connection_says_def reader_valid_def reader_frames_def
           worker_part_def after_claim_def reader_releases_def job_retired_def reader_finished_def
           split: prod.splits blocking.splits option.splits sum.splits if_splits\<close>)
    then show ?thesis unfolding arr by (elim conjE) (rule content_connection [OF ok k])
  qed
qed

lemma content_writer:
  assumes ok: "content_ok env L J D s"
    and step: "writer_step (sc_output_dir (se_config env)) (se_save env) k keep s = Some s'"
  shows "content_ok env L J D s'"
proof -
  let ?c = "sv_connections s ! k"
  have k: "k < length (sv_connections s)" using step by (auto simp: writer_step_def Let_def split: if_splits)
  note c = content_parts(2) [OF ok k]
  obtain alive where w: "co_writer ?c = Wr_Running alive" using step k by (cases "co_writer ?c") (auto simp: writer_step_def Let_def)
  show ?thesis
  proof (cases "ob_items (co_outbox ?c)")
    case Nil
    then have s': "s' = set_connection k (?c\<lparr>co_writer := Wr_Done\<rparr>) s"
      using step k w by (auto simp: writer_step_def Let_def outbox_pop_def split: if_splits)
    show ?thesis
      by (rule content_connection [OF ok k, of "?c\<lparr>co_writer := Wr_Done\<rparr>"])
        (use c own_frames [OF k] queue_frames [of s] in \<open>simp_all add: s' connection_says_def\<close>)
  next
    case (Cons r rest)
    define c' where "c' = writer_answers (sc_output_dir (se_config env)) (se_save env) keep alive r (?c\<lparr>co_outbox := (co_outbox ?c)\<lparr>ob_items := rest\<rparr>\<rparr>)"
    have s': "s' = set_connection k c' s" using step k w Cons by (simp add: writer_step_def Let_def outbox_pop_def c'_def)
    have f: "ob_items (co_outbox c') = rest" "co_reader c' = co_reader ?c" "co_id c' = co_id ?c"
        "co_taken c' = co_taken ?c @ [write_file_if_asked (se_save env) (sc_output_dir (se_config env)) (co_id ?c) r]"
      by (simp_all add: c'_def writer_answers_def Let_def split: prod.splits)
    have "connection_says (server_limits (se_config env)) (se_save env) (sc_output_dir (se_config env)) (says L J D k) c'"
      using c Cons unfolding connection_says_def f by (auto simp: taken_from_def)
    then show ?thesis
      by (rule content_connection [OF ok k]) (use own_frames [OF k] queue_frames [of s] in \<open>simp_all add: s' f\<close>)
  qed
qed

section \<open>Steps of the acceptor and of stop\<close>

text \<open>The parts of a connection that the statements above look at.\<close>

definition spoken :: "connection \<Rightarrow> reader_pc \<times> response list \<times> response list \<times> u64" where
  "spoken c = (co_reader c, ob_items (co_outbox c), co_taken c, co_id c)"

lemma connection_says_spoken: "spoken c' = spoken c \<Longrightarrow> connection_says limits save dir P c' = connection_says limits save dir P c"
  by (simp add: spoken_def connection_says_def)

lemma frames_spoken:
  assumes "map spoken (sv_connections s') = map spoken (sv_connections s)" "bq_items (sv_queue s') = bq_items (sv_queue s)"
    "sv_worker s' = sv_worker s"
  shows "frames s' = frames s"
proof -
  have e: "(\<Union>c \<in> set cs. reader_frames (co_reader c)) = (\<Union>x \<in> set (map spoken cs). reader_frames (fst x))" for cs
    by (simp add: spoken_def)
  show ?thesis unfolding frames_def e using assms by simp
qed

lemma content_spoken:
  assumes ok: "content_ok env L J D s" and same: "map spoken (sv_connections s') = map spoken (sv_connections s)"
    "bq_items (sv_queue s') = bq_items (sv_queue s)" "worker_part s' = worker_part s" "sv_memory s' = sv_memory s"
  shows "content_ok env L J D s'"
proof (rule contentI)
  note p = content_parts [OF ok]
  have eq: "sv_in_flight s' = sv_in_flight s" "sv_worker s' = sv_worker s"
    using same(3) by (simp_all add: worker_part_def)
  show "connection_says (server_limits (se_config env)) (se_save env) (sc_output_dir (se_config env)) (says L J D j) (sv_connections s' ! j)"
    if "j < length (sv_connections s')" for j
  proof -
    have j: "j < length (sv_connections s)" using that map_eq_imp_length_eq [OF same(1)] by simp
    then have "spoken (sv_connections s' ! j) = spoken (sv_connections s ! j)" using same(1) that by (metis nth_map)
    from connection_says_spoken [OF this] p(2) [OF j] show ?thesis by blast
  qed
qed (use content_parts [OF ok] frames_spoken [OF same(1,2)] same(3,4) in \<open>simp_all add: worker_part_def\<close>)

lemma shutdown_records_spoken: "map spoken (shutdown_records keep ks cs) = map spoken cs"
proof (induction ks arbitrary: cs)
  case (Cons k ks)
  have "map spoken (cs[k := shutdown_both (keep k) (cs ! k)]) = map spoken cs"
    by (cases "k < length cs") (simp_all add: map_update list_update_same_conv list_update_beyond spoken_def)
  with Cons show ?case by (simp add: shutdown_records_def)
qed (simp add: shutdown_records_def)

lemma content_stop: "content_ok env L J D s \<Longrightarrow> stop_step keep s = Some s' \<Longrightarrow> content_ok env L J D s'"
  by (rule content_spoken, assumption)
    (auto simp: stop_step_def worker_part_def shutdown_records_spoken bq_close_def split: stop_pc.splits if_splits)

lemma content_acceptor:
  assumes ok: "content_ok env L J D s" and step: "acceptor_step offer s = Some s'"
  shows "content_ok env L J D s'"
proof (cases "sv_acceptor s = A_Accept \<and> offer \<noteq> None")
  case False
  then have "sv_connections s' = sv_connections s" "sv_queue s' = sv_queue s" "worker_part s' = worker_part s" "sv_memory s' = sv_memory s"
    using step by (auto simp: acceptor_step_def worker_part_def Let_def split: acceptor_pc.splits option.splits)
  then show ?thesis by (intro content_spoken [OF ok]) simp_all
next
  case True
  then obtain inbound sends where "sv_acceptor s = A_Accept" "offer = Some (inbound, sends)" by force
  then have s': "sv_connections s' = sv_connections s @ [new_connection (sv_next_connection_id s) inbound sends]" "sv_queue s' = sv_queue s"
      "sv_worker s' = sv_worker s" "sv_in_flight s' = sv_in_flight s" "sv_memory s' = sv_memory s"
    using step by (auto simp: acceptor_step_def Let_def)
  have "frames s' = frames s" by (simp add: s' frames_def new_connection_def reader_frames_def)
  moreover have "connection_says limits save dir P (new_connection q inbound sends)" for limits save dir P q
    by (simp add: connection_says_def new_connection_def new_outbox_def reader_valid_def)
  ultimately show ?thesis
    by (intro contentI) (use content_parts [OF ok] in \<open>auto simp: s' nth_append less_Suc_eq\<close>)
qed

section \<open>Steps of the worker\<close>

text \<open>A move of the worker that touches at most what connection \<open>k\<close> says.\<close>

lemma content_move:
  assumes ok: "content_ok env L J D s"
    and conns: "sv_connections s' = (sv_connections s)[k := c']" "co_reader c' = co_reader (sv_connections s ! k)"
    and c: "k < length (sv_connections s) \<Longrightarrow>
      connection_says (server_limits (se_config env)) (se_save env) (sc_output_dir (se_config env)) (says L J D k) c'"
    and same: "sv_memory s' = sv_memory s"
      "set (bq_items (sv_queue s')) \<union> (case sv_worker s' of W_Submit f \<Rightarrow> {f} | _ \<Rightarrow> {}) \<subseteq> frames s"
    and says: "\<And>k r. (k, r) \<in> worker_says (sv_worker s') \<Longrightarrow> says L J D k r"
    and table: "\<And>h e. map_of (sv_in_flight s') h = Some e \<Longrightarrow> map_of (sv_in_flight s) h = Some e"
    and routes: "set (unrouted (sv_worker s')) \<subseteq> D"
  shows "content_ok env L J D s'"
proof (rule contentI)
  note p = content_parts [OF ok]
  have "map co_reader (sv_connections s') = map co_reader (sv_connections s)"
    by (cases "k < length (sv_connections s)") (simp_all add: conns map_update list_update_same_conv list_update_beyond)
  then have "(\<Union>c \<in> set (sv_connections s'). reader_frames (co_reader c)) = (\<Union>c \<in> set (sv_connections s). reader_frames (co_reader c))"
    by (metis image_image image_set)
  then have sub: "frames s' \<subseteq> frames s" using same(2) unfolding frames_def [of s'] by (auto simp: frames_def [of s])
  show "frame_good L (sv_memory s') f" if "f \<in> frames s'" for f using p(3) [of f] sub that by (auto simp: same(1))
  show "connection_says (server_limits (se_config env)) (se_save env) (sc_output_dir (se_config env)) (says L J D j) (sv_connections s' ! j)"
    if "j < length (sv_connections s')" for j using that c p(2) [of j] by (cases "j = k") (auto simp: conns)
  show "owed L J h e" if "map_of (sv_in_flight s') h = Some e" for h e by (rule p(5) [OF table [OF that]])
qed (use content_parts [OF ok] says routes in blast)+

lemma content_still:
  assumes "content_ok env L J D s" "sv_connections s' = sv_connections s" "sv_memory s' = sv_memory s"
    "set (bq_items (sv_queue s')) \<union> (case sv_worker s' of W_Submit f \<Rightarrow> {f} | _ \<Rightarrow> {}) \<subseteq> frames s"
    "\<And>k r. (k, r) \<in> worker_says (sv_worker s') \<Longrightarrow> says L J D k r"
    "\<And>h e. map_of (sv_in_flight s') h = Some e \<Longrightarrow> map_of (sv_in_flight s) h = Some e" "set (unrouted (sv_worker s')) \<subseteq> D"
  shows "content_ok env L J D s'"
  by (rule content_move [OF assms(1) _ refl _ assms(3-7), of "length (sv_connections s)"]) (simp_all add: assms(2) list_update_beyond)

lemma map_of_erase: "map_of (filter (\<lambda>(h, _). h \<noteq> k) xs) = (map_of xs)(k := None)"
  by (induction xs) (auto simp: fun_eq_iff)

lemma content_routes:
  assumes ok: "content_ok env L J D s" and w: "sv_worker s = W_Completions (completion # rest)"
  shows "content_ok env L J D (worker_routes completion rest s)"
proof (cases "map_of (sv_in_flight s) (cp_handle completion)")
  case None
  then have s': "worker_routes completion rest s = s\<lparr>sv_worker := W_Completions rest\<rparr>" by (simp add: worker_routes_def)
  show ?thesis unfolding s'
    by (rule content_still [OF ok])
      (use w queue_frames [of s] content_parts(6) [OF ok] in \<open>auto simp: worker_says_def unrouted_def\<close>)
next
  case (Some job)
  define r where "r = response_of job completion"
  obtain n m where s': "worker_routes completion rest s = s\<lparr>sv_in_flight := filter (\<lambda>(h, _). h \<noteq> cp_handle completion) (sv_in_flight s),
      sv_frames_completed := n, sv_frames_failed := m, sv_worker := W_Release job r (Some rest)\<rparr>"
    using Some by (simp add: worker_routes_def r_def)
  have "completion \<in> D" using content_parts(6) [OF ok] w by (simp add: unrouted_def)
  moreover obtain a stale where a: "a \<in> L" "job = entry_for a (if_slot job)" "(cp_handle completion, arrival_job a stale) \<in> J"
    using content_parts(5) [OF ok Some] by (auto simp: owed_def)
  moreover have "r = response_of (entry_for a 0) completion" unfolding r_def using a(2) response_of_slot by metis
  moreover have "fst a = if_connection job" using a(2) entry_for_connection by metis
  ultimately have "says L J D (if_connection job) r" unfolding says_def answers_frame_def by blast
  then show ?thesis unfolding s'
    by (intro content_still [OF ok])
      (use w queue_frames [of s] content_parts(6) [OF ok] in \<open>auto simp: worker_says_def unrouted_def map_of_erase split: if_splits\<close>)
qed

text \<open>
  The worker is a client of the backend: what it does with it is a history of submissions and polls, and the
  table of frames in flight is a view of that history. The backends of the program refuse no submission: a job they
  cannot run is completed with an error.
\<close>

locale accepting_server = server_backend ok next_id pending submit poll
  for ok :: "'b \<Rightarrow> bool" and next_id :: "'b \<Rightarrow> nat" and pending :: "'b \<Rightarrow> job_handle set"
    and submit :: "frame_job \<Rightarrow> 'b \<Rightarrow> (job_handle result \<times> 'b) option" and poll :: "('b, completion list) action" +
  assumes accepts: "ok b \<Longrightarrow> submit job b \<noteq> Some (Inl e, b')"
begin

abbreviation served :: "'b \<Rightarrow> 'b \<Rightarrow> (job_handle \<times> frame_job) list \<Rightarrow> completion list \<Rightarrow> bool" where
  "served \<equiv> backend_history (\<lambda>b job h b'. submit job b = Some (Inr h, b')) (\<lambda>b cs b'. poll b = (Inr cs, b'))"

definition logged :: "'b server_env \<Rightarrow> 'b \<Rightarrow> arrival set \<Rightarrow> 'b server \<Rightarrow> bool" where
  "logged env b0 L s \<longleftrightarrow> (\<exists>submitted delivered. served b0 (sv_backend s) submitted delivered \<and>
     length submitted = sv_submissions s \<and> snd ` set submitted \<subseteq> arrival_jobs L \<and> content_ok env L (set submitted) (set delivered) s)"

lemma loggedI:
  assumes "served b0 (sv_backend s) submitted delivered" "length submitted = sv_submissions s" "snd ` set submitted \<subseteq> arrival_jobs L"
    "content_ok env L (set submitted) (set delivered) s"
  shows "logged env b0 L s"
  using assms unfolding logged_def by blast

lemma logged_same:
  assumes "logged env b0 L s" "L \<subseteq> L'" "sv_backend s' = sv_backend s" "sv_submissions s' = sv_submissions s"
    and "\<And>J D. content_ok env L J D s \<Longrightarrow> content_ok env L' J D s'"
  shows "logged env b0 L' s'"
proof -
  have "arrival_jobs L \<subseteq> arrival_jobs L'" using assms(2) unfolding arrival_jobs_def by blast
  moreover obtain submitted delivered where t: "served b0 (sv_backend s) submitted delivered" "length submitted = sv_submissions s"
      "snd ` set submitted \<subseteq> arrival_jobs L" "content_ok env L (set submitted) (set delivered) s"
    using assms(1) unfolding logged_def by blast
  ultimately show ?thesis using assms(3-5) by (intro loggedI [where submitted = submitted and delivered = delivered]) auto
qed

lemma logged_submits:
  assumes log: "logged env b0 L s" and w: "sv_worker s = W_Submit f"
    and led: "ledger_ok ok next_id pending start s" and room: "start + sv_submissions s < 2 ^ 64 - 1"
    and step: "worker_submits submit f s = Some s'" and alive: "sv_worker s' \<noteq> W_Crashed"
  shows "logged env b0 L s'"
proof -
  obtain submitted delivered where t: "served b0 (sv_backend s) submitted delivered" "length submitted = sv_submissions s"
      "snd ` set submitted \<subseteq> arrival_jobs L" "content_ok env L (set submitted) (set delivered) s" using log unfolding logged_def by blast
  note p = content_parts [OF t(4)]
  have b: "ok (sv_backend s)" "next_id (sv_backend s) < 2 ^ 64 - 1" and tab: "fst ` set (sv_in_flight s) = pending (sv_backend s)"
    using led w room by (simp_all add: ledger_ok_def table_ok_def unrouted_def)
  have "f \<in> frames s" using w by (simp add: frames_def)
  from p(3) [OF this] obtain k header chain payload where a: "(k, header, chain, payload) \<in> L"
      "f = frame_of k header chain (qf_slot f)" "take (length payload) (sv_memory s (qf_slot f)) = payload"
    unfolding frame_good_def by blast
  define stale where "stale = drop (length payload) (sv_memory s (qf_slot f))"
  define job where "job = job_of f (sv_memory s (qf_slot f))"
  have "sv_memory s (qf_slot f) = payload @ stale" using a(3) by (metis append_take_drop_id stale_def)
  then have job: "job = arrival_job (k, header, chain, payload) stale"
    unfolding job_def arrival_job_def prod.case using a(2) job_of_slot by metis
  obtain h b' where r: "submit job (sv_backend s) = Some (Inr h, b')"
    using step alive accepts [OF b(1)] by (auto simp: worker_submits_def job_def split: sum.splits option.splits)
  have "h \<notin> pending (sv_backend s)" using submits_law [OF b r] by blast
  then have fresh: "map_of (sv_in_flight s) h = None" using tab by (simp add: map_of_eq_None_iff)
  have s': "s' = s\<lparr>sv_backend := b', sv_in_flight := sv_in_flight s @ [(h, entry_of f)], sv_worker := W_Poll,
      sv_submissions := sv_submissions s + 1\<rparr>"
    using step alive r fresh by (auto simp: worker_submits_def emplace_in_flight_def job_def split: sum.splits)
  have entry: "entry_of f = entry_for (k, header, chain, payload) (if_slot (entry_of f))"
    unfolding entry_for_def prod.case using a(2) by (simp add: entry_of_def)
  define J where "J = set (submitted @ [(h, job)])"
  have "content_ok env L J (set delivered) s" by (rule content_mono [OF t(4) _ _ _ p(1)]) (auto simp: J_def)
  note p = content_parts [OF this]
  have new: "owed L J h (entry_of f)" unfolding owed_def using a(1) entry job by (auto simp: J_def)
  have "content_ok env L J (set delivered) s'"
  proof (rule contentI)
    show "owed L J h' e" if "map_of (sv_in_flight s') h' = Some e" for h' e
      using that p(5) [of h' e] new fresh by (cases "h' = h") (auto simp: s' map_add_Some_iff)
    show "frame_good L (sv_memory s') g" if "g \<in> frames s'" for g
      using that p(3) [of g] by (auto simp: s' frames_def)
  qed (use p in \<open>auto simp: s' unrouted_def worker_says_def\<close>)
  moreover have "served b0 (sv_backend s') (submitted @ [(h, job)]) delivered" using history_submit [OF t(1) r] by (simp add: s')
  moreover have "snd ` set (submitted @ [(h, job)]) \<subseteq> arrival_jobs L" using t(3) a(1) job by auto
  moreover have "length (submitted @ [(h, job)]) = sv_submissions s'" using t(2) by (simp add: s')
  ultimately show ?thesis unfolding J_def using loggedI by blast
qed

lemma logged_still:
  assumes log: "logged env b0 L s" and same: "sv_backend s' = sv_backend s" "sv_submissions s' = sv_submissions s"
      "sv_connections s' = sv_connections s" "sv_memory s' = sv_memory s" "sv_in_flight s' = sv_in_flight s"
    and "set (bq_items (sv_queue s')) \<union> (case sv_worker s' of W_Submit f \<Rightarrow> {f} | _ \<Rightarrow> {}) \<subseteq> frames s"
    and "worker_says (sv_worker s') \<subseteq> worker_says (sv_worker s)" "set (unrouted (sv_worker s')) \<subseteq> set (unrouted (sv_worker s))"
  shows "logged env b0 L s'"
proof (rule logged_same [OF log subset_refl same(1,2)])
  fix J D assume ok: "content_ok env L J D s"
  show "content_ok env L J D s'"
    by (rule content_still [OF ok same(3,4) assms(7)])
      (use assms(8,9) content_parts(4,6) [OF ok] same(5) in auto)
qed

lemma logged_worker:
  assumes log: "logged env b0 L s" and led: "ledger_ok ok next_id pending start s" and room: "start + sv_submissions s < 2 ^ 64 - 1"
    and step: "worker_step submit poll s = Some s'" and alive: "sv_worker s' \<noteq> W_Crashed"
  shows "logged env b0 L s'"
proof -
  note q = queue_frames [of s]
  have b: "ok (sv_backend s)" using led by (simp add: ledger_ok_def)
  show ?thesis
  proof (cases "sv_worker s")
    case W_Top
    then have "worker_pops s = Some s'" using step by (simp add: worker_step_def)
    then have s': "sv_connections s' = sv_connections s" "sv_memory s' = sv_memory s" "sv_backend s' = sv_backend s"
        "sv_in_flight s' = sv_in_flight s" "sv_submissions s' = sv_submissions s" "worker_says (sv_worker s') = {}" "unrouted (sv_worker s') = []"
        "set (bq_items (sv_queue s')) \<union> (case sv_worker s' of W_Submit f \<Rightarrow> {f} | _ \<Rightarrow> {}) \<subseteq> frames s"
      using W_Top q by (auto simp: worker_pops_def bq_pop_def bq_try_pop_def worker_says_def unrouted_def split: if_splits list.splits)
    show ?thesis by (rule logged_still [OF log]) (use s' in auto)
  next
    case (W_Submit f)
    then show ?thesis using step alive logged_submits [OF log W_Submit led room] by (simp add: worker_step_def)
  next
    case W_Poll
    obtain cs b' where c: "poll (sv_backend s) = (Inr cs, b')" using poll_returns [OF b] by blast
    have s': "s' = s\<lparr>sv_backend := b', sv_worker := W_Completions cs\<rparr>" using step W_Poll c by (simp add: worker_step_def)
    obtain submitted delivered where t: "served b0 (sv_backend s) submitted delivered" "length submitted = sv_submissions s"
        "snd ` set submitted \<subseteq> arrival_jobs L" "content_ok env L (set submitted) (set delivered) s" using log unfolding logged_def by blast
    have "content_ok env L (set submitted) (set (delivered @ cs)) s"
      by (rule content_mono [OF t(4) _ _ _ content_parts(1) [OF t(4)]]) auto
    then have "content_ok env L (set submitted) (set (delivered @ cs)) s'"
      by (rule content_still) (use q in \<open>auto simp: s' worker_says_def unrouted_def\<close>)
    moreover have "served b0 (sv_backend s') submitted (delivered @ cs)" using history_poll [OF t(1) c] by (simp add: s')
    moreover have "length submitted = sv_submissions s'" using t(2) by (simp add: s')
    ultimately show ?thesis using t(3) loggedI by blast
  next
    case (W_Completions cs)
    show ?thesis
    proof (cases cs)
      case Nil
      then have s': "s' = s\<lparr>sv_worker := W_Top\<rparr>" using step W_Completions by (simp add: worker_step_def)
      show ?thesis using q by (intro logged_still [OF log]) (auto simp: s' worker_says_def unrouted_def)
    next
      case (Cons completion rest)
      then have s': "s' = worker_routes completion rest s" using step W_Completions by (simp add: worker_step_def)
      have same: "sv_backend s' = sv_backend s" "sv_submissions s' = sv_submissions s"
        by (simp_all add: s' worker_routes_def Let_def split: option.split)
      show ?thesis
        by (rule logged_same [OF log subset_refl same], unfold s') (rule content_routes, assumption, simp add: W_Completions Cons)
    qed
  next
    case (W_Release job response continue)
    show ?thesis using q step W_Release alive
      by (intro logged_still [OF log]) (auto simp: worker_step_def worker_says_def unrouted_def split: sum.splits option.splits)
  next
    case (W_Push k response continue)
    let ?c' = "push_response response (sv_connections s ! k)"
    have s': "s' = (set_connection k ?c' s)\<lparr>sv_worker := W_Retire k continue\<rparr>" using step W_Push by (simp add: worker_step_def)
    show ?thesis
    proof (rule logged_same [OF log subset_refl])
      fix J D assume ok: "content_ok env L J D s"
      have "says L J D k response" using content_parts(4) [OF ok] W_Push by (simp add: worker_says_def)
      then have c: "connection_says (server_limits (se_config env)) (se_save env) (sc_output_dir (se_config env)) (says L J D k) ?c'"
        if "k < length (sv_connections s)" using content_parts(2) [OF ok that] by (auto simp: connection_says_def push_response_def outbox_push_def)
      show "content_ok env L J D s'" using q W_Push content_parts(6) [OF ok]
        by (intro content_move [OF ok _ _ c]) (auto simp: s' worker_says_def unrouted_def push_response_def split: option.splits)
    qed (simp_all add: s')
  next
    case (W_Retire k continue)
    let ?c' = "job_retired (sv_connections s ! k)"
    show ?thesis
    proof (rule logged_same [OF log subset_refl])
      fix J D assume ok: "content_ok env L J D s"
      have c: "connection_says (server_limits (se_config env)) (se_save env) (sc_output_dir (se_config env)) (says L J D k) ?c'"
        if "k < length (sv_connections s)" using content_parts(2) [OF ok that] by (simp add: connection_says_def job_retired_def)
      show "content_ok env L J D s'" using q W_Retire step content_parts(6) [OF ok]
        by (intro content_move [OF ok _ _ c])
          (auto simp: worker_step_def Let_def worker_says_def unrouted_def job_retired_def split: option.splits)
    qed (use step W_Retire in \<open>auto simp: worker_step_def Let_def split: option.splits\<close>)
  qed (use step in \<open>simp_all add: worker_step_def\<close>)
qed

end

context accepting_server
begin

lemma history_logged:
  assumes "server_history env s0 s received" "se_submit env = submit" "se_poll env = poll"
    and start: "worker_main_start (se_config env) made allocate = Inr s0"
    and made: "\<And>b n bytes base b'. made = Inr (Some b) \<Longrightarrow> allocate n bytes b = Inr (base, b') \<Longrightarrow>
      ok b' \<and> next_id b' = first \<and> pending b' = {}"
    and "length (sv_connections s) < 2 ^ 64 - 1" "first + sv_submissions s < 2 ^ 64 - 1"
  shows "logged env (sv_backend s0) (set received) s"
  using assms(1,6,7)
proof (induction rule: server_history.induct)
  case history_begins
  obtain pool b where s0: "s0 = new_server (se_config env) pool b"
    using start unfolding worker_main_start_def by (clarsimp simp: bind_result_eq_Inr split: option.split_asm)
  have "content_ok env (set []) (set []) (set []) s0"
    by (intro contentI) (simp_all add: s0 new_server_def frames_def new_queue_def worker_says_def unrouted_def)
  then show ?case by (intro loggedI [where submitted = "[]" and delivered = "[]"]) (simp_all add: history_start started_fields(5) [OF start])
next
  case (history_steps s received event s')
  note step = history_steps.hyps(2)
  note g = server_step_grows [OF step]
  have b: "length (sv_connections s) < 2 ^ 64 - 1" "first + sv_submissions s < 2 ^ 64 - 1" using g history_steps.prems by linarith+
  note IH = history_steps.IH [OF b]
  note r = history_reachable [OF history_steps.hyps(1)]
  have inv: "server_ok (server_limits (se_config env)) s" "ledger_ok ok next_id pending first s"
    using reachable_ok [OF r assms(2,3) start _ b] made by blast+
  have inv': "server_ok (server_limits (se_config env)) s'"
    using reachable_ok [OF reachable_step [OF r step] assms(2,3) start _ history_steps.prems] made by blast
  show ?case
  proof (cases event)
    case (Reader k)
    then have st: "reader_step (server_limits (se_config env)) k s = Some s'" using step by (simp add: server_step_def)
    then show ?thesis using logged_same [OF IH _, of _ s'] content_reader [OF _ inv(1) b(1) st] reader_step_fields(1) [OF st] Reader
      by (simp add: worker_part_def)
  next
    case (Writer k keep)
    then have st: "writer_step (sc_output_dir (se_config env)) (se_save env) k keep s = Some s'" using step by (simp add: server_step_def)
    then show ?thesis using logged_same [OF IH _, of _ s'] content_writer [OF _ st] writer_step_fields(1) [OF st] Writer
      by (simp add: worker_part_def arrivals_def)
  next
    case Worker
    then show ?thesis using logged_worker [OF IH inv(2) b(2)] step assms(2,3) server_ok_parts(7) [OF inv']
      by (simp add: server_step_def arrivals_def)
  next
    case (Acceptor offer)
    then have st: "acceptor_step offer s = Some s'" using step by (simp add: server_step_def)
    then show ?thesis using logged_same [OF IH _, of _ s'] content_acceptor [OF _ st] acceptor_step_fields(1) [OF st] Acceptor
      by (simp add: worker_part_def arrivals_def)
  next
    case (Stopper keep)
    then have st: "stop_step keep s = Some s'" using step by (simp add: server_step_def)
    then show ?thesis using logged_same [OF IH _, of _ s'] content_stop [OF _ st] stop_step_fields(1) [OF st] Stopper
      by (simp add: worker_part_def arrivals_def)
  qed
qed

text \<open>What the writers took, in terms of one history of the backend in which each handle is used once.\<close>

lemma logged_responses:
  assumes log: "logged env b0 L s" and start: "ok b0" "pending b0 = {}" "next_id b0 + sv_submissions s < 2 ^ 64"
  obtains submitted delivered where "served b0 (sv_backend s) submitted delivered" "length submitted = sv_submissions s"
    "snd ` set submitted \<subseteq> arrival_jobs L" "distinct (map fst submitted)"
    "content_ok env L (set submitted) (set delivered) s"
proof -
  obtain submitted delivered where t: "served b0 (sv_backend s) submitted delivered" "length submitted = sv_submissions s"
      "snd ` set submitted \<subseteq> arrival_jobs L" "content_ok env L (set submitted) (set delivered) s"
    using log unfolding logged_def by blast
  have "distinct (map fst submitted)" using history_jobs(1) [OF t(1) start(1,2)] start(3) t(2) by simp
  with t that show thesis by blast
qed

end

section \<open>The CPU backend follows the op chain\<close>

text \<open>The image a frame carries.\<close>

definition sent_image :: "request_header \<Rightarrow> u8 list \<Rightarrow> image" where
  "sent_image header payload =
     \<lparr>im_width = sint (rq_width header), im_height = sint (rq_height header), im_channels = uint (rq_channels header),
      im_stride = nat (sint (rq_width header)) * nat (uint (rq_channels header)), im_pixels = payload\<rparr>"

lemma positive_sint:
  assumes "0 < sint (w :: u32)"
  shows "unat w = nat (sint w)" "sint w < 2 ^ 31" "unat w < 2 ^ 31"
proof -
  have lt: "sint w < 2 ^ 31" using sint_lt [of w] by simp
  have "uint w = uint (word_of_int (sint w) :: u32)" by simp
  also have "\<dots> = sint w" using assms lt by (subst uint_word_of_int_eq) (simp add: take_bit_int_eq_self)
  finally show "unat w = nat (sint w)" "sint w < 2 ^ 31" "unat w < 2 ^ 31" using lt assms by (simp_all add: unat_eq_nat_uint)
qed

lemma sent_image_wf:
  assumes "validate_request_header header limits = kOk" "length payload = unat (rq_payload_len header)"
    and "0 < sint (rq_width header)" "0 < sint (rq_height header)"
  shows "image_wf (sent_image header payload)"
proof -
  note w = positive_sint [OF assms(3)] and h = positive_sint [OF assms(4)]
  have c: "is_supported_channel_count (uint (rq_channels header))" "dimension_product header = ucast (rq_payload_len header)"
    using assms(1) by (simp_all add: validate_ok_iff)
  have "unat (rq_payload_len header) = unat (dimension_product header)" using c(2) by (simp add: unat_ucast_up)
  also have "\<dots> = unat (rq_width header) * unat (rq_height header) * unat (rq_channels header)"
    by (rule dimension_product_exact [OF w(3) h(3) supported_channels_small [OF c(1)]])
  finally have "length payload = nat (sint (rq_width header)) * nat (sint (rq_height header)) * unat (rq_channels header)"
    by (simp only: assms(2) w(1) h(1))
  then show ?thesis using assms(3,4) c(1) by (simp add: image_wf_def sent_image_def ac_simps)
qed

lemma cpu_process_frame:
  assumes "validate_request_header header limits = kOk" "length payload = unat (rq_payload_len header)"
  shows "cpu_process expf (job_of (frame_of k header chain i) (payload @ stale)) =
    (if 0 < sint (rq_width header) \<and> 0 < sint (rq_height header) then apply_chain expf (sent_image header payload) chain
     else bind_result (new_image (sint (rq_width header)) (sint (rq_height header)) (uint (rq_channels header))) (\<lambda>_. Inr empty_image))"
proof (cases "0 < sint (rq_width header) \<and> 0 < sint (rq_height header)")
  case True
  then have wf: "image_wf (sent_image header payload)" using sent_image_wf [OF assms] by blast
  have "uint (rq_channels header) \<in> {1, 3, 4}" using assms(1) by (simp add: validate_ok_iff is_supported_channel_count_def)
  then have "unat ((word_of_int (sint (rq_width header)) :: u64) * word_of_int (uint (rq_channels header))) =
      im_stride (sent_image header payload)"
    unfolding sent_image_def using True positive_sint(2) [of "rq_width header"] by (simp only: image.simps stride_exact)
  with True image_from_bytes_same [OF wf, of stale] show ?thesis
    by (simp add: cpu_process_def job_of_def frame_of_def sent_image_def)
next
  case False
  then obtain e where e: "new_image (sint (rq_width header)) (sint (rq_height header)) (uint (rq_channels header)) = Inl e"
    by (auto simp: new_image_def not_less)
  show ?thesis unfolding if_not_P [OF False] by (simp add: cpu_process_def job_of_def frame_of_def image_from_bytes_def e)
qed

lemma cpu_process_arrival:
  assumes "arrival_valid limits a"
  shows "cpu_process expf (arrival_job a stale) = cpu_process expf (arrival_job a [])"
proof -
  obtain k header chain payload where a: "a = (k, header, chain, payload)" by (cases a)
  have v: "validate_request_header header limits = kOk" "length payload = unat (rq_payload_len header)"
    using assms by (simp_all add: a arrival_valid_def admitted_def)
  show ?thesis unfolding a arrival_job_def prod.case cpu_process_frame [OF v] ..
qed

definition answer_to :: "(frame_job \<Rightarrow> image result) \<Rightarrow> arrival \<Rightarrow> response" where
  "answer_to reference a = response_of (entry_for a 0) (completion_of 0 (reference (arrival_job a [])))"

lemma response_of_completion: "response_of e (completion_of h x) = response_of e (completion_of 0 x)"
  by (simp add: response_of_def completion_of_def split: sum.splits)

text \<open>When the completions are the oracle's, so are the answers.\<close>

lemma says_oracle:
  assumes "says L J D k r" "D \<subseteq> (\<lambda>(h, job). completion_of h (cpu_process expf job)) ` J"
    and one: "\<And>h x y. (h, x) \<in> J \<Longrightarrow> (h, y) \<in> J \<Longrightarrow> x = y" and valid: "\<And>a. a \<in> L \<Longrightarrow> arrival_valid limits a"
  shows "(\<exists>a \<in> L. fst a = k \<and> r = answer_to (cpu_process expf) a) \<or>
    (\<exists>q status. r = error_response q status \<and> status \<noteq> kOk \<and> status \<noteq> kInternalError)"
proof (cases "\<exists>a. fst a = k \<and> answers_frame L J D a r")
  case True
  then obtain a c stale where a: "fst a = k" "a \<in> L" "c \<in> D" "(cp_handle c, arrival_job a stale) \<in> J" "r = response_of (entry_for a 0) c"
    unfolding answers_frame_def by blast
  obtain h job where c: "(h, job) \<in> J" "c = completion_of h (cpu_process expf job)" using assms(2) a(3) by auto
  then have "job = arrival_job a stale" using one a(4) by simp
  then have "r = response_of (entry_for a 0) (completion_of 0 (cpu_process expf (arrival_job a stale)))"
    unfolding a(5) c(2) by (simp only: response_of_completion [of _ h])
  then have "r = answer_to (cpu_process expf) a" unfolding answer_to_def cpu_process_arrival [OF valid [OF a(2)], of expf stale] .
  with a show ?thesis by blast
next
  case False
  then show ?thesis using assms(1) by (auto simp: says_def)
qed

interpretation cpu_server: accepting_server cpu_ok "\<lambda>b. unat (cb_next_handle b)" "\<lambda>b. dom (cpu_outcome b)"
    "\<lambda>job b. case cpu_submit expf job b of (h, b') \<Rightarrow> Some (Inr h, b')" "\<lambda>b. case cpu_poll_completions b of (cs, b') \<Rightarrow> (Inr cs, b')" for expf
  by unfold_locales (auto split: prod.splits)

lemma cpu_start:
  assumes "cpu_server_start config = Inr s0"
  shows "cpu_ok (sv_backend s0)" "dom (cpu_outcome (sv_backend s0)) = {}" "unat (cb_next_handle (sv_backend s0)) = 1"
  using assms
  by (auto simp: cpu_server_start_def worker_main_start_def bind_result_eq_Inr new_server_def cpu_allocate_slots_def new_cpu_backend_def
      cpu_ok_def cpu_outcome_def fun_eq_iff split: option.splits)

lemma cpu_history_logged:
  assumes "cpu_server_start config = Inr s0" "server_history (cpu_env config save expf) s0 s received"
    and "length (sv_connections s) < 2 ^ 64 - 1" "sv_submissions s < 2 ^ 64 - 2"
  shows "cpu_server.logged expf (cpu_env config save expf) (sv_backend s0) (set received) s"
proof (rule cpu_server.history_logged [OF assms(2)])
  show "worker_main_start (se_config (cpu_env config save expf)) (Inr (Some new_cpu_backend))
      (\<lambda>n bytes b. bind_result (cpu_allocate_slots n bytes b) (\<lambda>(base, b'). Inr (Some base, b'))) = Inr s0"
    using assms(1) by (simp add: cpu_server_start_def cpu_env_def)
  fix b n bytes base b'
  assume "Inr (Some new_cpu_backend) = (Inr (Some b) :: cpu_backend option result)"
    "bind_result (cpu_allocate_slots n bytes b) (\<lambda>(base, b'). Inr (Some base, b')) = Inr (base, b')"
  then show "cpu_ok b' \<and> unat (cb_next_handle b') = 1 \<and> dom (cpu_outcome b') = {}"
    by (auto simp: cpu_allocate_slots_def new_cpu_backend_def cpu_ok_def cpu_outcome_def fun_eq_iff)
qed (use assms(3,4) in \<open>simp_all add: cpu_env_def\<close>)

lemma cpu_calls:
  "(\<lambda>b job h b'. (case cpu_submit expf job b of (h, b') \<Rightarrow> Some (Inr h, b')) = Some (Inr h :: job_handle result, b')) =
     (\<lambda>b job h b'. cpu_submit expf job b = (h, b'))"
  "(\<lambda>b cs b'. (case cpu_poll_completions b of (cs, b') \<Rightarrow> (Inr cs, b')) = (Inr cs :: completion list result, b')) =
     (\<lambda>b cs b'. cpu_poll_completions b = (cs, b'))"
  by (auto simp: fun_eq_iff split: prod.splits)

lemma cpu_history_content:
  assumes "cpu_server_start config = Inr s0" "server_history (cpu_env config save expf) s0 s received"
    and "length (sv_connections s) < 2 ^ 64 - 1" "sv_submissions s < 2 ^ 64 - 2"
  obtains J D where "content_ok (cpu_env config save expf) (set received) J D s" "D \<subseteq> (\<lambda>(h, job). completion_of h (cpu_process expf job)) ` J"
    "\<And>h x y. (h, x) \<in> J \<Longrightarrow> (h, y) \<in> J \<Longrightarrow> x = y"
proof -
  note start = cpu_start [OF assms(1)]
  have "unat (cb_next_handle (sv_backend s0)) + sv_submissions s < 2 ^ 64" using start(3) assms(4) by simp
  from cpu_server.logged_responses [OF cpu_history_logged [OF assms] start(1,2) this]
  obtain submitted delivered where t: "cpu_server.served expf (sv_backend s0) (sv_backend s) submitted delivered"
      "length submitted = sv_submissions s" "distinct (map fst submitted)"
      "content_ok (cpu_env config save expf) (set received) (set submitted) (set delivered) s" by metis
  have "cpu.follows_reference expf (sv_backend s, submitted, delivered)"
    by (rule cpu.history_reference [OF t(1) [unfolded cpu_calls] start(1,2)]) (use start(3) t(2) assms(4) in simp)
  then show thesis using that [OF t(4) _ eq_key_imp_eq_value [OF t(3)]] by (auto simp: cpu.follows_reference_def)
qed

text \<open>What an answer says, spelled out.\<close>

lemma answer_means:
  assumes "arrival_valid limits (k, header, chain, payload)" and r: "r = answer_to (cpu_process expf) (k, header, chain, payload)"
  shows "re_seq_num r = rq_seq_num header" "re_echo r = (rq_flags header AND kFlagEcho \<noteq> 0)"
    "if 0 < sint (rq_width header) \<and> 0 < sint (rq_height header)
     then re_status r = kOk \<and> image_wf (sent_image header payload) \<and> apply_chain expf (sent_image header payload) chain = Inr (re_image r) \<and>
       re_write_file r = (rq_flags header AND kFlagServerWrite \<noteq> 0)
     else re_status r = kInternalError"
proof -
  have v: "validate_request_header header limits = kOk" "length payload = unat (rq_payload_len header)"
    using assms(1) by (simp_all add: arrival_valid_def admitted_def)
  note res = cpu_process_frame [OF v, of expf k chain 0 "[]", simplified]
  show "re_seq_num r = rq_seq_num header" "re_echo r = (rq_flags header AND kFlagEcho \<noteq> 0)"
    by (simp_all add: r answer_to_def response_of_def entry_for_def entry_of_def frame_of_def Let_def)
  show "if 0 < sint (rq_width header) \<and> 0 < sint (rq_height header)
     then re_status r = kOk \<and> image_wf (sent_image header payload) \<and> apply_chain expf (sent_image header payload) chain = Inr (re_image r) \<and>
       re_write_file r = (rq_flags header AND kFlagServerWrite \<noteq> 0)
     else re_status r = kInternalError"
  proof (cases "0 < sint (rq_width header) \<and> 0 < sint (rq_height header)")
    case True
    then have wf: "image_wf (sent_image header payload)" using sent_image_wf [OF v] by blast
    obtain out where out: "apply_chain expf (sent_image header payload) chain = Inr out" using apply_chain_frame [OF wf] by blast
    have "cpu_process expf (arrival_job (k, header, chain, payload) []) = Inr out" unfolding arrival_job_def prod.case append_Nil2 res if_P [OF True] by (rule out)
    with True wf out show ?thesis
      by (simp add: r answer_to_def completion_of_def response_of_def entry_for_def entry_of_def frame_of_def Let_def)
  next
    case False
    then obtain e where e: "new_image (sint (rq_width header)) (sint (rq_height header)) (uint (rq_channels header)) = Inl e"
      by (auto simp: new_image_def not_less)
    have "cpu_process expf (arrival_job (k, header, chain, payload) []) = Inl e" unfolding arrival_job_def prod.case append_Nil2 res if_not_P [OF False] by (simp add: e)
    then show ?thesis unfolding if_not_P [OF False] by (simp add: r answer_to_def completion_of_def response_of_def Let_def)
  qed
qed

lemma reachable_history: "server_reachable env start s \<Longrightarrow> \<exists>received. server_history env start s received"
  by (induction rule: server_reachable.induct) (blast intro: history_begins history_steps)+

text \<open>What a writer took, in terms of what it was given.\<close>

lemma taken_answer:
  assumes ok: "content_ok env L J D s" and D: "D \<subseteq> (\<lambda>(h, job). completion_of h (cpu_process expf job)) ` J"
    and one: "\<And>h x y. (h, x) \<in> J \<Longrightarrow> (h, y) \<in> J \<Longrightarrow> x = y"
    and k: "k < length (sv_connections s)" and r: "r \<in> set (co_taken (sv_connections s ! k))"
    and env: "se_save env = save" "se_config env = config" "L = set received"
  shows "if re_status r = kOk \<or> re_status r = kInternalError
    then \<exists>header chain payload. (k, header, chain, payload) \<in> set received \<and>
      re_seq_num r = rq_seq_num header \<and> re_echo r = (rq_flags header AND kFlagEcho \<noteq> 0) \<and>
      (if re_status r = kOk
       then image_wf (sent_image header payload) \<and> apply_chain expf (sent_image header payload) chain = Inr (re_image r)
       else sint (rq_width header) \<le> 0 \<or> sint (rq_height header) \<le> 0 \<or>
         rq_flags header AND kFlagServerWrite \<noteq> 0 \<and>
         \<not> save (output_path (sc_output_dir config) (co_id (sv_connections s ! k)) r) (re_image r))
    else re_image r = empty_image"
proof -
  obtain r0 where r0: "says L J D k r0" "r = write_file_if_asked save (sc_output_dir config) (co_id (sv_connections s ! k)) r0"
    using content_parts(2) [OF ok k] r by (auto simp: connection_says_def taken_from_def list_all_iff env)
  have io: "kInternalError \<noteq> kOk" by (simp add: status_defs)
  have "(\<exists>a \<in> set received. fst a = k \<and> r0 = answer_to (cpu_process expf) a) \<or>
      (\<exists>q status. r0 = error_response q status \<and> status \<noteq> kOk \<and> status \<noteq> kInternalError)"
    unfolding env(3) [symmetric] by (rule says_oracle [OF r0(1) D one content_parts(1) [OF ok]])
  then consider (refused) q status where "r0 = error_response q status" "status \<noteq> kOk" "status \<noteq> kInternalError"
    | (answered) header chain payload where "(k, header, chain, payload) \<in> set received" "r0 = answer_to (cpu_process expf) (k, header, chain, payload)"
    by (metis prod_cases4 fst_conv)
  then show ?thesis
  proof cases
    case refused
    then show ?thesis using r0(2) by (simp add: write_file_if_asked_def error_response_def)
  next
    case answered
    note m = answer_means [OF content_parts(1) [OF ok, unfolded env(3), OF answered(1)] answered(2)]
    have path: "output_path d i (r0\<lparr>re_status := x\<rparr>) = output_path d i r0" for d i x by (simp add: output_path_def)
    show ?thesis
    proof (cases "0 < sint (rq_width header) \<and> 0 < sint (rq_height header)")
      case True
      with m answered(1) r0(2) io path show ?thesis
        by (auto simp: write_file_if_asked_def intro!: exI [of _ header] exI [of _ chain] exI [of _ payload])
    next
      case False
      then have "r = r0" using m(3) r0(2) io by (auto simp: write_file_if_asked_def)
      with m False answered(1) io show ?thesis
        by (auto simp: not_less intro!: exI [of _ header] exI [of _ chain] exI [of _ payload])
    qed
  qed
qed

section \<open>Properties\<close>

text \<open>
  C1: The server computes what it was asked. Over any interleaving of its threads, every response that the writer of a connection
  takes with status ok is the answer to a frame that arrived whole on the same connection: it carries the frame's sequence number and
  echo flag, and its image is the frame's op chain applied, by the CPU ops, to the image whose pixels are
  the frame's payload. Status 6 only answers a frame that arrived and has a dimension of 2147483648 or more (the length
  check wraps there) or asks for a file that could not be written; every other status refuses a frame that was not admitted.
\<close>

theorem server_computes_the_chain:
  assumes "cpu_server_start config = Inr s0" "server_history (cpu_env config save expf) s0 s received"
    and "length (sv_connections s) < 2 ^ 64 - 1" "sv_submissions s < 2 ^ 64 - 2"
    and "k < length (sv_connections s)" "r \<in> set (co_taken (sv_connections s ! k))"
  shows "if re_status r = kOk \<or> re_status r = kInternalError
    then \<exists>header chain payload. (k, header, chain, payload) \<in> set received \<and>
      re_seq_num r = rq_seq_num header \<and> re_echo r = (rq_flags header AND kFlagEcho \<noteq> 0) \<and>
      (if re_status r = kOk
       then image_wf (sent_image header payload) \<and> apply_chain expf (sent_image header payload) chain = Inr (re_image r)
       else sint (rq_width header) \<le> 0 \<or> sint (rq_height header) \<le> 0 \<or>
         rq_flags header AND kFlagServerWrite \<noteq> 0 \<and>
         \<not> save (output_path (sc_output_dir config) (co_id (sv_connections s ! k)) r) (re_image r))
    else re_image r = empty_image"
proof -
  obtain J D where t: "content_ok (cpu_env config save expf) (set received) J D s" "D \<subseteq> (\<lambda>(h, job). completion_of h (cpu_process expf job)) ` J"
      "\<And>h x y. (h, x) \<in> J \<Longrightarrow> (h, y) \<in> J \<Longrightarrow> x = y" using cpu_history_content [OF assms(1-4)] by blast
  show ?thesis by (rule taken_answer [OF t assms(5,6)]) (simp_all add: cpu_env_def)
qed

theorem server_computes_the_chain_witness:
  "\<exists>received header chain payload r. server_history small_env small_server after_two_frames received \<and>
     r \<in> set (co_taken (sv_connections after_two_frames ! 0)) \<and> (0, header, chain, payload) \<in> set received \<and>
     apply_chain (\<lambda>x. 1) (sent_image header payload) chain = Inr (re_image r)"
proof -
  obtain received where h: "server_history small_env small_server after_two_frames received"
    using reachable_history [OF after_two_frames(1)] by blast
  have "kOk \<in> set (map re_status (co_taken (sv_connections after_two_frames ! 0)))"
    unfolding after_two_frames(8) by (simp add: status_defs)
  then obtain r where r: "r \<in> set (co_taken (sv_connections after_two_frames ! 0))" "re_status r = kOk" by auto
  have b: "length (sv_connections after_two_frames) < 2 ^ 64 - 1" "sv_submissions after_two_frames < 2 ^ 64 - 2" "0 < length (sv_connections after_two_frames)"
    using after_two_frames(2,5) by simp_all
  from server_computes_the_chain [OF small_server_started h [unfolded small_env_def] b r(1)] r(2)
  have "\<exists>header chain payload. (0, header, chain, payload) \<in> set received \<and>
      apply_chain (\<lambda>x. 1) (sent_image header payload) chain = Inr (re_image r)" by auto
  with h r(1) show ?thesis by blast
qed

end
