(* ===== verification/Tool_Args.thy ===== *)
theory Tool_Args
  imports Cpp_Text Codegen
begin

text \<open>
  What the command line programs (\<open>tools/*.cpp\<close>, \<open>bench/imgjit-bench.cpp\<close>) share: reading numbers, the loop over
  \<open>argv\<close>, and how a run ends. An end is the exit status and what the program wrote to standard error; progress
  lines on standard output are not modelled.
\<close>

section \<open>Numbers\<close>

text \<open>
  \<open>strtol\<close> in base 10: leading space, a sign, digits, clamped to a 64-bit \<open>long\<close>; \<open>atol\<close> is its value and
  \<open>atoi\<close> the value narrowed to \<open>int\<close>, as the C libraries of the supported platforms define it.
\<close>

definition atol :: "string \<Rightarrow> int" where
  "atol text =
     (let s = dropWhile c_isspace text;
          negative = (s \<noteq> [] \<and> hd s = CHR ''-'');
          s = (if s \<noteq> [] \<and> (hd s = CHR ''-'' \<or> hd s = CHR ''+'') then tl s else s);
          n = int (digits_value (takeWhile is_digit s))
      in if negative then max (- (2 ^ 63)) (- n) else min (2 ^ 63 - 1) n)"

definition atoi :: "string \<Rightarrow> int" where
  "atoi text = sint (word_of_int (atol text) :: u32)"

section \<open>The loop over the arguments\<close>

type_synonym tool_exit = "int \<times> string"

text \<open>
  \<open>with_value\<close> handles the options of the form \<open>argument == name && i + 1 < argc\<close>, which consume the next argument;
  \<open>alone\<close> is the rest of the \<open>if\<close> chain.
\<close>

fun arguments_loop :: "(string \<Rightarrow> string \<Rightarrow> 'o \<Rightarrow> (tool_exit + 'o) option) \<Rightarrow> (string \<Rightarrow> 'o \<Rightarrow> tool_exit + 'o) \<Rightarrow>
    string list \<Rightarrow> 'o \<Rightarrow> tool_exit + 'o" where
  "arguments_loop with_value alone [] options = Inr options"
| "arguments_loop with_value alone [argument] options = alone argument options"
| "arguments_loop with_value alone (argument # value # rest) options =
     (case with_value argument value options of
        Some r \<Rightarrow> bind_result r (arguments_loop with_value alone rest)
      | None \<Rightarrow> bind_result (alone argument options) (arguments_loop with_value alone (value # rest)))"

definition is_option :: "string \<Rightarrow> bool" where
  "is_option argument \<longleftrightarrow> take 2 argument = ''--''"

text \<open>The two options that the command line programs spell the same way.\<close>

definition parse_tile :: "string \<Rightarrow> tile_variant \<times> int" where
  "parse_tile value = (if value = ''naive'' then (kNaive, 0) else (kTiled, atoi value))"

definition parse_constants :: "string \<Rightarrow> string \<Rightarrow> tool_exit + constants_mode" where
  "parse_constants tool value =
     (if value \<noteq> ''baked'' \<and> value \<noteq> ''parameterized''
      then Inl (2, tool @ '': --constants must be baked or parameterized'' @ nl)
      else Inr (if value = ''baked'' then kBaked else kParameterized))"

definition unexpected :: "string \<Rightarrow> string \<Rightarrow> string \<Rightarrow> tool_exit" where
  "unexpected tool usage argument = (2, tool @ '': unexpected argument: '' @ argument @ nl @ usage)"

text \<open>The handler around \<open>main\<close>.\<close>

definition catches :: "string \<Rightarrow> string \<Rightarrow> tool_exit" where
  "catches tool message = (1, tool @ '': '' @ message @ nl)"

section \<open>Facts\<close>

lemma arguments_loop_keeps:
  assumes "arguments_loop with_value alone args start = Inr options" "P start"
    and "\<And>argument value o1 o2. P o1 \<Longrightarrow> with_value argument value o1 = Some (Inr o2) \<Longrightarrow> P o2"
    and "\<And>argument o1 o2. P o1 \<Longrightarrow> alone argument o1 = Inr o2 \<Longrightarrow> P o2"
  shows "P options"
  using assms(1,2)
proof (induction args arbitrary: start rule: induct_list012)
  case (3 x y rest)
  show ?case
  proof (cases "with_value x y start")
    case None
    with 3 assms(4) [of start x] show ?thesis by (auto simp: bind_result_eq_Inr)
  next
    case (Some r)
    with 3 assms(3) [of start x y] show ?thesis by (auto simp: bind_result_eq_Inr)
  qed
qed (use assms(4) in auto)

lemma atoi_range: "- (2 ^ 31) \<le> atoi text" "atoi text < 2 ^ 31"
  using sint_ge [of "word_of_int (atol text) :: u32"] sint_lt [of "word_of_int (atol text) :: u32"] by (simp_all add: atoi_def)

lemma sint_u32: "0 \<le> i \<Longrightarrow> i < 2 ^ 31 \<Longrightarrow> sint (word_of_int i :: u32) = i"
  by (simp add: int_word_sint)

lemma show_nat_not_space: "c_isspace (hd (show_nat n)) = False"
  using show_nat_digits [of n] show_nat_not_Nil [of n] by (cases "show_nat n") (auto simp: is_digit_def c_isspace_def)

lemma atoi_show_nat:
  assumes "n < 2 ^ 31"
  shows "atoi (show_nat n) = int n"
proof -
  have d: "\<forall>x \<in> set (show_nat n). is_digit x" by (rule show_nat_digits)
  then have h: "is_digit (hd (show_nat n))" by simp
  then have h: "hd (show_nat n) \<noteq> CHR ''-''" "hd (show_nat n) \<noteq> CHR ''+''" by (auto simp: is_digit_def)
  have "dropWhile c_isspace (show_nat n) = show_nat n"
    using show_nat_not_space [of n] by (metis dropWhile.simps(2) list.collapse show_nat_not_Nil)
  moreover have "takeWhile is_digit (show_nat n) = show_nat n" using d by (simp add: takeWhile_eq_all_conv)
  ultimately have "atol (show_nat n) = min (2 ^ 63 - 1) (int n)"
    unfolding atol_def Let_def by (simp only: h simp_thms if_False digits_value_show_nat)
  then have n: "atol (show_nat n) = int n" using assms by simp
  show ?thesis unfolding atoi_def n by (rule sint_u32) (use assms in simp_all)
qed

end
