(* ===== verification/Image_Io.thy ===== *)
theory Image_Io
  imports Image_Core
begin

text \<open>
  Loading and saving of PNG files (\<open>include/imgjit/util/image_io.h\<close>, \<open>src/util/image_io.cpp\<close>). The codec is the
  vendored stb library: its functions are a record over the state of the file system. A failing read carries the text that
  \<open>stbi_failure_reason\<close> returns afterwards; \<open>stbi_image_free\<close> has no effect that a caller sees.
\<close>

record 'f png_library =
  stbi_info :: "string \<Rightarrow> 'f \<Rightarrow> string + (int \<times> int \<times> int)"
  stbi_load :: "string \<Rightarrow> int \<Rightarrow> 'f \<Rightarrow> string + (int \<times> int \<times> int) \<times> u8 list"
  stbi_write_png :: "string \<Rightarrow> int \<Rightarrow> int \<Rightarrow> int \<Rightarrow> u8 list \<Rightarrow> int \<Rightarrow> 'f \<Rightarrow> bool \<times> 'f"

definition cannot_read :: "string \<Rightarrow> string \<Rightarrow> cpp_exception" where
  "cannot_read path reason = Runtime_error (''load_png: cannot read '' @ path @ '': '' @ reason)"

definition load_png :: "('f, 'z) png_library_scheme \<Rightarrow> string \<Rightarrow> ('f, image) action" where
  "load_png png path fs =
     (case stbi_info png path fs of
        Inl reason \<Rightarrow> (Inl (cannot_read path reason), fs)
      | Inr (_, _, file_channels) \<Rightarrow>
          (let requested = if file_channels = 2 then 4 else 0
           in case stbi_load png path requested fs of
                Inl reason \<Rightarrow> (Inl (cannot_read path reason), fs)
              | Inr ((width, height, loaded_channels), pixels) \<Rightarrow>
                  (let channels = if requested \<noteq> 0 then requested else loaded_channels
                   in (image_from_bytes width height channels pixels
                         (unat ((word_of_int width :: u64) * word_of_int channels)), fs))))"

definition save_png :: "('f, 'z) png_library_scheme \<Rightarrow> string \<Rightarrow> image \<Rightarrow> ('f, unit) action" where
  "save_png png path img fs =
     (if image_empty img then (Inl (Runtime_error (''save_png: refusing to write an empty image to '' @ path)), fs)
      else case stbi_write_png png path (im_width img) (im_height img) (im_channels img) (im_pixels img)
                  (sint (of_nat (im_stride img) :: u32)) fs of
             (written, fs) \<Rightarrow> if written then (Inr (), fs) else (Inl (Runtime_error (''save_png: cannot write '' @ path)), fs))"

section \<open>What the codec documents\<close>

text \<open>
  A load that succeeds returns dimensions an \<open>int\<close> holds and as many bytes as they and the channel count ask for, the
  channel count being the one requested, or else the file's. A file that was written is read back with the samples written.
\<close>

definition decodes :: "('f, 'z) png_library_scheme \<Rightarrow> bool" where
  "decodes png \<longleftrightarrow> (\<forall>path requested fs w h c pixels. stbi_load png path requested fs = Inr ((w, h, c), pixels) \<longrightarrow>
     0 < w \<and> w < 2 ^ 31 \<and> 0 < h \<and> h < 2 ^ 31 \<and>
     length pixels = nat w * nat h * nat (if requested = 0 then c else requested) \<and>
     (\<exists>w' h'. stbi_info png path fs = Inr (w', h', c)) \<and> c \<in> {1, 2, 3, 4})"

definition stores :: "('f, 'z) png_library_scheme \<Rightarrow> bool" where
  "stores png \<longleftrightarrow> (\<forall>path w h c pixels fs fs'. stbi_write_png png path w h c pixels (w * c) fs = (True, fs') \<and>
     0 < w \<and> 0 < h \<and> c \<in> {1, 3, 4} \<and> length pixels = nat w * nat h * nat c \<longrightarrow>
     stbi_info png path fs' = Inr (w, h, c) \<and> stbi_load png path 0 fs' = Inr ((w, h, c), pixels))"

lemma packed_image:
  assumes "0 < w" "w < 2 ^ 31" "0 < h" "c \<in> {1, 3, 4}" "length pixels = nat w * nat h * nat c"
  defines "img \<equiv> \<lparr>im_width = w, im_height = h, im_channels = c, im_stride = nat w * nat c, im_pixels = pixels\<rparr>"
  shows "image_wf img" "image_from_bytes w h c pixels (unat ((word_of_int w :: u64) * word_of_int c)) = Inr img"
proof -
  show wf: "image_wf img" using assms by (auto simp: image_wf_def is_supported_channel_count_def)
  show "image_from_bytes w h c pixels (unat ((word_of_int w :: u64) * word_of_int c)) = Inr img"
    using image_from_bytes_same [OF wf, of "[]"] stride_exact [OF assms(1,2,4)] by (simp add: img_def)
qed

lemma load_png_image:
  assumes "decodes png" "load_png png path fs = (r, fs')"
  shows "fs' = fs" "r = Inr img \<Longrightarrow> image_wf img \<and> im_width img < 2 ^ 31"
    "r = Inr img \<Longrightarrow> \<exists>requested w h c. stbi_load png path requested fs = Inr ((w, h, c), im_pixels img) \<and> im_width img = w \<and>
       im_height img = h \<and> im_channels img = (if c = 2 then 4 else c)"
proof -
  show fs: "fs' = fs" using assms(2) by (auto simp: load_png_def Let_def split: sum.splits)
  have "image_wf img \<and> im_width img < 2 ^ 31 \<and> (\<exists>requested w h c. stbi_load png path requested fs = Inr ((w, h, c), im_pixels img) \<and>
      im_width img = w \<and> im_height img = h \<and> im_channels img = (if c = 2 then 4 else c))" if r: "r = Inr img"
  proof -
    obtain a b fc where i: "stbi_info png path fs = Inr (a, b, fc)" using assms(2) r by (auto simp: load_png_def split: sum.splits)
    define q :: int where "q = (if fc = 2 then 4 else 0)"
    obtain w h c pixels where l: "stbi_load png path q fs = Inr ((w, h, c), pixels)"
      using assms(2) r i by (auto simp: load_png_def Let_def q_def split: sum.splits if_splits)
    define ch where "ch = (if q = 0 then c else q)"
    have d: "0 < w" "w < 2 ^ 31" "0 < h" "length pixels = nat w * nat h * nat ch" "fc = c" "c \<in> {1, 2, 3, 4}"
      using assms(1) l i unfolding decodes_def ch_def by (fastforce, fastforce, fastforce, fastforce, fastforce, blast)
    have ch: "ch \<in> {1, 3, 4}" "ch = (if c = 2 then 4 else c)" using d(5,6) by (auto simp: ch_def q_def)
    have "image_from_bytes w h ch pixels (unat ((word_of_int w :: u64) * word_of_int ch)) = Inr img"
      using assms(2) r i l d(5) by (auto simp: load_png_def Let_def ch_def q_def split: if_splits)
    with packed_image [OF d(1-3) ch(1) d(4)] have "img = \<lparr>im_width = w, im_height = h, im_channels = ch, im_stride = nat w * nat ch, im_pixels = pixels\<rparr>"
      by simp
    with packed_image(1) [OF d(1-3) ch(1) d(4)] d(2) l ch(2) show ?thesis by auto
  qed
  then show "r = Inr img \<Longrightarrow> image_wf img \<and> im_width img < 2 ^ 31"
    "r = Inr img \<Longrightarrow> \<exists>requested w h c. stbi_load png path requested fs = Inr ((w, h, c), im_pixels img) \<and> im_width img = w \<and>
       im_height img = h \<and> im_channels img = (if c = 2 then 4 else c)" by blast+
qed

section \<open>Properties\<close>


text \<open>A codec that keeps what it wrote.\<close>

definition plausible :: "(int \<times> int \<times> int) \<times> u8 list \<Rightarrow> bool" where
  "plausible = (\<lambda>((w, h, c), pixels). 0 < w \<and> w < 2 ^ 31 \<and> 0 < h \<and> h < 2 ^ 31 \<and> c \<in> {1, 3, 4} \<and> length pixels = nat w * nat h * nat c)"

definition memory_png :: "(string \<Rightarrow> ((int \<times> int \<times> int) \<times> u8 list) option) png_library" where
  "memory_png = \<lparr>stbi_info = (\<lambda>path fs. case fs path of None \<Rightarrow> Inl ''can't fopen'' | Some (d, _) \<Rightarrow> Inr d),
     stbi_load = (\<lambda>path requested fs. case fs path of
        None \<Rightarrow> Inl ''can't fopen''
      | Some file \<Rightarrow> if requested = 0 \<and> plausible file then Inr file else Inl ''unknown image type''),
     stbi_write_png = (\<lambda>path w h c pixels stride fs. (plausible ((w, h, c), pixels), fs(path \<mapsto> ((w, h, c), pixels))))\<rparr>"

lemma memory_png_stores: "stores memory_png"
  by (simp add: stores_def memory_png_def)

lemma memory_png_decodes: "decodes memory_png"
  by (auto simp: decodes_def memory_png_def plausible_def split: option.splits if_splits)

definition dot_png :: image where
  "dot_png = \<lparr>im_width = 1, im_height = 1, im_channels = 3, im_stride = 3, im_pixels = [1, 2, 3]\<rparr>"


end
