(* ===== verification/Cli_Tool.thy ===== *)
theory Cli_Tool
  imports Tool_Args Image_Io Cuda_Backend
begin

text \<open>
  The command line program \<open>tools/imgjit-cli.cpp\<close>: a file in, a file out, through the backend interface. The file system is a
  parameter (the PNG codec, and opening a file for writing); whether the build found a CUDA toolkit is the argument \<open>enable_cuda\<close>.
\<close>

section \<open>Files\<close>

record 'f file_system = "'f png_library" +
  fs_write :: "string \<Rightarrow> string \<Rightarrow> 'f \<Rightarrow> bool \<times> 'f"

definition write_file :: "'f file_system \<Rightarrow> string \<Rightarrow> string \<Rightarrow> ('f, unit) action" where
  "write_file files path contents f =
     (case fs_write files path contents f of (opened, f) \<Rightarrow>
        if opened then (Inr (), f) else (Inl (Runtime_error (''cannot write '' @ path)), f))"

section \<open>Options\<close>

record cli_options =
  cli_chain_text :: string
  cli_backend_name :: string
  cli_input_path :: string
  cli_output_path :: string
  cli_dump_source_path :: string
  cli_dump_ptx_path :: string
  cli_repeat :: int
  cli_tile :: tile_variant
  cli_tile_size :: int
  cli_constants :: constants_mode

definition cli_defaults :: cli_options where
  "cli_defaults = \<lparr>cli_chain_text = [], cli_backend_name = ''cpu'', cli_input_path = [], cli_output_path = [],
     cli_dump_source_path = [], cli_dump_ptx_path = [], cli_repeat = 1, cli_tile = kNaive, cli_tile_size = 0, cli_constants = kBaked\<rparr>"

definition cli_usage :: string where
  "cli_usage =
     ''usage: imgjit-cli [options] <input.png> <output.png>'' @ nl @
     ''  --ops '' @ dq @ ''<chain>'' @ dq @ ''      grayscale, invert, brightness:<-1..1>,'' @ nl @
     ''                       threshold:<0..1>, gaussian:<0.1..4>, sobel'' @ nl @
     ''                       (comma-separated, order matters)'' @ nl @
     ''  --backend cpu|cuda   default cpu'' @ nl @
     ''  --tile naive|<n>     stencil kernels: naive (default), or tiled through an'' @ nl @
     ''                       n x n __shared__ tile, n in 1..32'' @ nl @
     ''                       big win on gaussian; no win on sobel, whose radius-1'' @ nl @
     ''                       apron is too small to be worth tiling (bench/phase7_results.md)'' @ nl @
     ''  --constants baked|parameterized'' @ nl @
     ''                       op parameters as kernel literals (default) or launch'' @ nl @
     ''                       arguments; parameterized needs --tile naive'' @ nl @
     ''  --dump-source <file> write the generated CUDA source (works without a GPU)'' @ nl @
     ''  --dump-ptx <file>    write the PTX NVRTC produced (--backend cuda only)'' @ nl @
     ''  --repeat <n>         run the chain n times; run 1 is cold, the rest warm'' @ nl"

definition cli_with_value :: "string \<Rightarrow> string \<Rightarrow> cli_options \<Rightarrow> (tool_exit + cli_options) option" where
  "cli_with_value argument value options =
     (if argument = ''--ops'' then Some (Inr (options\<lparr>cli_chain_text := value\<rparr>))
      else if argument = ''--backend'' then Some (Inr (options\<lparr>cli_backend_name := value\<rparr>))
      else if argument = ''--tile''
      then Some (Inr (options\<lparr>cli_tile := fst (parse_tile value), cli_tile_size := snd (parse_tile value)\<rparr>))
      else if argument = ''--constants''
      then Some (bind_result (parse_constants ''imgjit-cli'' value) (\<lambda>constants. Inr (options\<lparr>cli_constants := constants\<rparr>)))
      else if argument = ''--dump-source'' then Some (Inr (options\<lparr>cli_dump_source_path := value\<rparr>))
      else if argument = ''--dump-ptx'' then Some (Inr (options\<lparr>cli_dump_ptx_path := value\<rparr>))
      else if argument = ''--repeat'' then Some (Inr (options\<lparr>cli_repeat := atoi value\<rparr>))
      else None)"

definition cli_alone :: "string \<Rightarrow> cli_options \<Rightarrow> tool_exit + cli_options" where
  "cli_alone argument options =
     (if is_option argument then Inl (unexpected ''imgjit-cli'' cli_usage argument)
      else if cli_input_path options = [] then Inr (options\<lparr>cli_input_path := argument\<rparr>)
      else if cli_output_path options = [] then Inr (options\<lparr>cli_output_path := argument\<rparr>)
      else Inl (2, ''imgjit-cli: too many positional arguments'' @ nl @ cli_usage))"

definition cli_arguments :: "string list \<Rightarrow> tool_exit + cli_options" where
  "cli_arguments args = arguments_loop cli_with_value cli_alone args cli_defaults"

definition cli_check :: "bool \<Rightarrow> cli_options \<Rightarrow> tool_exit + op_chain" where
  "cli_check enable_cuda options =
     (if cli_input_path options = [] \<or> cli_output_path options = [] then Inl (2, cli_usage)
      else if cli_repeat options < 1 then Inl (2, ''imgjit-cli: --repeat must be at least 1'' @ nl)
      else if \<not> is_supported_tile (cli_tile options) (cli_tile_size options)
      then Inl (2, ''imgjit-cli: --tile must be naive or a tile edge in 1..'' @ show_int kMaxTileSize @ nl)
      else if \<not> is_supported_constants (cli_constants options) (cli_tile options)
      then Inl (2, ''imgjit-cli: --constants parameterized needs --tile naive'' @ nl)
      else if cli_backend_name options \<noteq> ''cpu'' \<and> cli_backend_name options \<noteq> ''cuda''
      then Inl (2, ''imgjit-cli: unknown backend '' @ dq @ cli_backend_name options @ dq @ '' (expected cpu or cuda)'' @ nl)
      else if \<not> enable_cuda \<and> cli_backend_name options = ''cuda''
      then Inl (2, ''imgjit-cli: this build has no CUDA backend '' @ em_dash @ '' it was configured with no CUDA'' @ nl @
                   ''            toolkit present. --dump-source still works.'' @ nl)
      else case parse_op_chain (cli_chain_text options) of
             Inl parse_error \<Rightarrow> Inl (2, ''imgjit-cli: bad op chain: '' @ parse_error @ nl)
           | Inr chain \<Rightarrow> Inr chain)"

section \<open>Running the chain\<close>

definition cli_key :: "cli_options \<Rightarrow> op_chain \<Rightarrow> image \<Rightarrow> kernel_key" where
  "cli_key options chain input =
     \<lparr>key_chain = chain, key_channels = im_channels input, key_tile = cli_tile options, key_tile_size = cli_tile_size options,
      key_constants = cli_constants options\<rparr>"

definition cli_dump_source :: "'f file_system \<Rightarrow> (rat \<Rightarrow> rat) \<Rightarrow> cli_options \<Rightarrow> kernel_key \<Rightarrow> ('f, unit) action" where
  "cli_dump_source files expf options key f =
     (if cli_dump_source_path options = [] then (Inr (), f)
      else case emit_cuda_source expf key of
             Inl e \<Rightarrow> (Inl e, f)
           | Inr program \<Rightarrow> write_file files (cli_dump_source_path options) (gp_source program) f)"

text \<open>The slot holds exactly the image's bytes.\<close>

definition cli_job :: "image \<Rightarrow> op_chain \<Rightarrow> frame_job" where
  "cli_job input chain =
     \<lparr>job_input = Some (im_pixels input), job_width = im_width input, job_height = im_height input,
      job_channels = im_channels input, job_stride = im_stride input, job_chain = chain\<rparr>"

text \<open>\<open>while (completions.empty()) completions = backend->poll_completions()\<close>; \<open>None\<close> when it never ends.\<close>

partial_function (option) poll_until :: "('b, completion list) action \<Rightarrow> 'b \<Rightarrow> (completion list result \<times> 'b) option" where
  "poll_until poll b =
     (case poll b of
        (Inl e, b') \<Rightarrow> Some (Inl e, b')
      | (Inr completions, b') \<Rightarrow> if completions = [] then poll_until poll b' else Some (Inr completions, b'))"

fun cli_runs :: "(frame_job \<Rightarrow> 'b \<Rightarrow> (job_handle result \<times> 'b) option) \<Rightarrow> ('b, completion list) action \<Rightarrow> frame_job \<Rightarrow>
    nat \<Rightarrow> image \<Rightarrow> 'b \<Rightarrow> ((tool_exit + image) \<times> 'b) option" where
  "cli_runs submit poll job 0 result b = Some (Inr result, b)"
| "cli_runs submit poll job (Suc n) result b =
     (case submit job b of
        None \<Rightarrow> None
      | Some (Inl e, b) \<Rightarrow> Some (Inl (catches ''imgjit-cli'' (what e)), b)
      | Some (Inr handle, b) \<Rightarrow>
          (case poll_until poll b of
             None \<Rightarrow> None
           | Some (Inl e, b) \<Rightarrow> Some (Inl (catches ''imgjit-cli'' (what e)), b)
           | Some (Inr completions, b) \<Rightarrow>
               (let completion = hd completions
                in if length completions \<noteq> 1 \<or> cp_handle completion \<noteq> handle
                   then Some (Inl (1, ''imgjit-cli: backend returned '' @ show_nat (length completions) @
                                      '' completions, expected 1'' @ nl), b)
                   else if cp_status completion \<noteq> job_kOk
                   then Some (Inl (1, ''imgjit-cli: processing failed: '' @ cp_error completion @ nl), b)
                   else cli_runs submit poll job n (cp_output completion) b)))"

definition cli_save :: "'f file_system \<Rightarrow> cli_options \<Rightarrow> image \<Rightarrow> 'f \<Rightarrow> tool_exit \<times> 'f" where
  "cli_save files options result f =
     (case save_png files (cli_output_path options) result f of
        (Inl e, f) \<Rightarrow> (catches ''imgjit-cli'' (what e), f)
      | (Inr _, f) \<Rightarrow> ((0, []), f))"

definition cli_on_cpu :: "'f file_system \<Rightarrow> (rat \<Rightarrow> rat) \<Rightarrow> cli_options \<Rightarrow> op_chain \<Rightarrow> image \<Rightarrow> 'f \<Rightarrow> (tool_exit \<times> 'f) option" where
  "cli_on_cpu files expf options chain input f =
     (case cpu_allocate_slots 1 (byte_count input) new_cpu_backend of
        Inl e \<Rightarrow> Some (catches ''imgjit-cli'' (what e), f)
      | Inr (_, b) \<Rightarrow>
          (case cli_runs (\<lambda>job b. case cpu_submit expf job b of (h, b') \<Rightarrow> Some (Inr h, b'))
                  (\<lambda>b. case cpu_poll_completions b of (cs, b') \<Rightarrow> (Inr cs, b'))
                  (cli_job input chain) (nat (cli_repeat options)) empty_image b of
             None \<Rightarrow> None
           | Some (Inl ends, _) \<Rightarrow> Some (ends, f)
           | Some (Inr result, _) \<Rightarrow> Some (cli_save files options result f)))"

text \<open>The PTX of the chain, from the cache of the backend that ran it.\<close>

definition cli_dump_ptx :: "'f file_system \<Rightarrow> 'd cuda_driver \<Rightarrow> (rat \<Rightarrow> rat) \<Rightarrow> cli_options \<Rightarrow> kernel_key \<Rightarrow>
    ('f \<times> 'd cuda_backend, unit) action" where
  "cli_dump_ptx files drv expf options key = (\<lambda>(f, b).
     if cli_dump_ptx_path options \<noteq> [] \<and> key_chain key \<noteq> []
     then (case on_cache (cache_get drv expf key) b of
             (Inl e, b) \<Rightarrow> (Inl e, (f, b))
           | (Inr compiled, b) \<Rightarrow> (case write_file files (cli_dump_ptx_path options) (ch_ptx compiled) f of (r, f) \<Rightarrow> (r, (f, b))))
     else (Inr (), (f, b)))"

text \<open>The backend is destroyed on every way out.\<close>

definition cli_on_cuda :: "'f file_system \<Rightarrow> 'd cuda_driver \<Rightarrow> (rat \<Rightarrow> rat) \<Rightarrow> cli_options \<Rightarrow> op_chain \<Rightarrow> image \<Rightarrow> 'f \<Rightarrow> 'd \<Rightarrow>
    (tool_exit \<times> 'f \<times> 'd) option" where
  "cli_on_cuda files drv expf options chain input f d =
     (case CudaBackend_new drv 0 kDefaultStreams (cli_tile options) (cli_tile_size options) (cli_constants options) d of
        (Inl e, d) \<Rightarrow> Some (catches ''imgjit-cli'' (what e), f, d)
      | (Inr b, _) \<Rightarrow>
          (case then_act (on_driver (compute_arch drv (the (bk_context b))))
                  (\<lambda>_. allocate_slots drv 1 (of_nat (byte_count input))) b of
             (Inl e, b) \<Rightarrow> Some (catches ''imgjit-cli'' (what e), f, CudaBackend_delete drv b)
           | (Inr _, b) \<Rightarrow>
               (case cli_runs (\<lambda>job b. map_option (\<lambda>(h, b'). (Inr h, b')) (cuda_submit drv expf job b)) (cuda_poll_completions drv)
                       (cli_job input chain) (nat (cli_repeat options)) empty_image b of
                  None \<Rightarrow> None
                | Some (Inl ends, b) \<Rightarrow> Some (ends, f, CudaBackend_delete drv b)
                | Some (Inr result, b) \<Rightarrow>
                    (case cli_dump_ptx files drv expf options (cli_key options chain input) (f, b) of
                       (Inl e, (f, b)) \<Rightarrow> Some (catches ''imgjit-cli'' (what e), f, CudaBackend_delete drv b)
                     | (Inr _, (f, b)) \<Rightarrow>
                         (case cli_save files options result f of (ends, f) \<Rightarrow> Some (ends, f, CudaBackend_delete drv b))))))"

definition cli_main :: "bool \<Rightarrow> 'f file_system \<Rightarrow> 'd cuda_driver \<Rightarrow> (rat \<Rightarrow> rat) \<Rightarrow> string list \<Rightarrow> 'f \<Rightarrow> 'd \<Rightarrow>
    (tool_exit \<times> 'f \<times> 'd) option" where
  "cli_main enable_cuda files drv expf args f d =
     (case bind_result (cli_arguments args) (\<lambda>options. bind_result (cli_check enable_cuda options) (\<lambda>chain. Inr (options, chain))) of
        Inl ends \<Rightarrow> Some (ends, f, d)
      | Inr (options, chain) \<Rightarrow>
          (case load_png files (cli_input_path options) f of
             (Inl e, f) \<Rightarrow> Some (catches ''imgjit-cli'' (what e), f, d)
           | (Inr input, f) \<Rightarrow>
               (case cli_dump_source files expf options (cli_key options chain input) f of
                  (Inl e, f) \<Rightarrow> Some (catches ''imgjit-cli'' (what e), f, d)
                | (Inr _, f) \<Rightarrow>
                    (if enable_cuda \<and> cli_backend_name options = ''cuda'' then cli_on_cuda files drv expf options chain input f d
                     else map_option (\<lambda>(ends, f). (ends, f, d)) (cli_on_cpu files expf options chain input f)))))"

section \<open>Facts\<close>

text \<open>The CPU backend completes a job inside \<open>submit\<close>, so one poll is enough.\<close>

lemma cpu_poll_until:
  assumes "cb_completed b \<noteq> []"
  shows "poll_until (\<lambda>b. case cpu_poll_completions b of (cs, b') \<Rightarrow> (Inr cs, b')) b = Some (Inr (cb_completed b), b\<lparr>cb_completed := []\<rparr>)"
  using assms by (subst poll_until.simps) (simp add: cpu_poll_completions_def)

lemma cli_runs_cpu:
  assumes "cpu_process expf job = Inr out" "cb_completed b = []"
  shows "\<exists>b'. cli_runs (\<lambda>job b. case cpu_submit expf job b of (h, b') \<Rightarrow> Some (Inr h, b'))
      (\<lambda>b. case cpu_poll_completions b of (cs, b') \<Rightarrow> (Inr cs, b')) job n result b = Some (Inr (if n = 0 then result else out), b')"
  using assms(2)
proof (induction n arbitrary: result b)
  case (Suc n)
  define b1 where "b1 = b\<lparr>cb_next_handle := cb_next_handle b + 1, cb_completed := []\<rparr>"
  obtain b' where "cli_runs (\<lambda>job b. case cpu_submit expf job b of (h, b') \<Rightarrow> Some (Inr h, b'))
      (\<lambda>b. case cpu_poll_completions b of (cs, b') \<Rightarrow> (Inr cs, b')) job n out b1 = Some (Inr out, b')"
    using Suc.IH [of b1 out] by (auto simp: b1_def)
  then show ?case using Suc.prems assms(1) by (simp add: cpu_submit_def cpu_poll_until Let_def completion_of_def b1_def)
qed simp

lemma cli_check_accepts:
  assumes "cli_check enable_cuda options = Inr chain"
  shows "parse_op_chain (cli_chain_text options) = Inr chain" "1 \<le> cli_repeat options"
    "is_supported_tile (cli_tile options) (cli_tile_size options)" "is_supported_constants (cli_constants options) (cli_tile options)"
    "cli_backend_name options = ''cuda'' \<Longrightarrow> enable_cuda"
  using assms by (auto simp: cli_check_def split: if_splits sum.splits)

section \<open>Properties\<close>


definition memory_files :: "(string \<Rightarrow> ((int \<times> int \<times> int) \<times> u8 list) option) file_system" where
  "memory_files = png_library.extend memory_png \<lparr>fs_write = (\<lambda>_ _ f. (False, f))\<rparr>"

lemma memory_files_decodes: "decodes memory_files"
  using memory_png_decodes by (simp add: decodes_def memory_files_def png_library.defs)


text \<open>
  Options that the program accepts always generate code. For every accepted command line and every well-formed input image
  the key it builds is one that code generation supports, so dumping the source can only fail on opening the file.
\<close>

lemma accepted_options_generate_code:
  assumes "cli_arguments args = Inr options" "cli_check enable_cuda options = Inr chain" "image_wf input"
  shows "\<exists>program. emit_cuda_source expf (cli_key options chain input) = Inr program \<and>
    cli_dump_source files expf options (cli_key options chain input) f =
      (if cli_dump_source_path options = [] then (Inr (), f)
       else write_file files (cli_dump_source_path options) (gp_source program) f)"
proof -
  note c = cli_check_accepts [OF assms(2)]
  have "canonical_chain chain" using parse_op_chain_canonical [OF c(1)] .
  then obtain program where "emit_cuda_source expf (cli_key options chain input) = Inr program"
    using emit_cuda_source_ok [of "cli_key options chain input" expf] c(3,4) assms(3)
    by (auto simp: cli_key_def supported_key_def image_wf_def)
  then show ?thesis by (simp add: cli_dump_source_def)
qed

end
