(* ===== verification/Client_Tool.thy ===== *)
theory Client_Tool
  imports Tool_Args Image_Io Server "HOL-Library.Multiset"
begin

text \<open>
  The reference client \<open>tools/imgjit-client.cpp\<close>: it sends all its frames before it reads a response, and matches the responses by
  number. \<open>connect host port\<close> is what the constructor of \<open>Client\<close> gives, \<open>clock\<close> the readings of the clock.
\<close>

section \<open>Options\<close>

record client_options =
  ct_host :: string
  ct_port :: u16
  ct_chain_text :: string
  ct_input_path :: string
  ct_output_path :: string
  ct_repeat :: int
  ct_echo :: bool
  ct_server_write :: bool

definition client_defaults :: client_options where
  "client_defaults = \<lparr>ct_host = ''127.0.0.1'', ct_port = 0, ct_chain_text = [], ct_input_path = [], ct_output_path = [], ct_repeat = 1,
     ct_echo = True, ct_server_write = False\<rparr>"

definition client_usage :: string where
  "client_usage =
     ''usage: imgjit-client [options] <input.png> [output.png]'' @ nl @
     ''  --host <ip>      default 127.0.0.1'' @ nl @
     ''  --port <n>       required'' @ nl @
     ''  --ops '' @ dq @ ''<chain>'' @ dq @ ''  op chain to request'' @ nl @
     ''  --repeat <n>     send n frames before reading any response (default 1)'' @ nl @
     ''  --no-echo        do not ask for the result back over the wire'' @ nl @
     ''  --server-write   also ask the server to write the result as a PNG'' @ nl"

definition client_with_value :: "string \<Rightarrow> string \<Rightarrow> client_options \<Rightarrow> (tool_exit + client_options) option" where
  "client_with_value argument value options =
     (if argument = ''--host'' then Some (Inr (options\<lparr>ct_host := value\<rparr>))
      else if argument = ''--port'' then Some (Inr (options\<lparr>ct_port := word_of_int (atoi value)\<rparr>))
      else if argument = ''--ops'' then Some (Inr (options\<lparr>ct_chain_text := value\<rparr>))
      else if argument = ''--repeat'' then Some (Inr (options\<lparr>ct_repeat := atoi value\<rparr>))
      else None)"

definition client_alone :: "string \<Rightarrow> client_options \<Rightarrow> tool_exit + client_options" where
  "client_alone argument options =
     (if argument = ''--no-echo'' then Inr (options\<lparr>ct_echo := False\<rparr>)
      else if argument = ''--server-write'' then Inr (options\<lparr>ct_server_write := True\<rparr>)
      else if is_option argument then Inl (unexpected ''imgjit-client'' client_usage argument)
      else if ct_input_path options = [] then Inr (options\<lparr>ct_input_path := argument\<rparr>)
      else if ct_output_path options = [] then Inr (options\<lparr>ct_output_path := argument\<rparr>)
      else Inl (2, ''imgjit-client: too many positional arguments'' @ nl))"

definition client_arguments :: "string list \<Rightarrow> tool_exit + client_options" where
  "client_arguments args =
     bind_result (arguments_loop client_with_value client_alone args client_defaults) (\<lambda>options.
       if ct_port options = 0 \<or> ct_input_path options = [] \<or> ct_repeat options < 1 then Inl (2, client_usage) else Inr options)"

definition client_flags :: "client_options \<Rightarrow> u8" where
  "client_flags options = (if ct_echo options then kFlagEcho else 0) OR (if ct_server_write options then kFlagServerWrite else 0)"

section \<open>The run\<close>

fun client_sends :: "(nat \<Rightarrow> int) \<Rightarrow> image \<Rightarrow> string \<Rightarrow> u8 \<Rightarrow> nat \<Rightarrow> (client, unit) action" where
  "client_sends clock input chain flags 0 c = (Inr (), c)"
| "client_sends clock input chain flags (Suc n) c =
     then_act (client_send (clock n) input chain flags) (\<lambda>_. client_sends clock input chain flags n) c"

record client_tally =
  ty_first_result :: image
  ty_failures :: int
  ty_errors :: string

fun client_receives :: "nat \<Rightarrow> client_tally \<Rightarrow> client \<Rightarrow> (tool_exit + client_tally) \<times> client" where
  "client_receives 0 tally c = (Inr tally, c)"
| "client_receives (Suc n) tally c =
     (case client_receive c of
        (Inl e, c) \<Rightarrow> (Inl (1, ty_errors tally @ snd (catches ''imgjit-client'' (what e))), c)
      | (Inr response, c) \<Rightarrow>
          if \<not> cr_matched response
          then (Inl (1, ty_errors tally @ ''imgjit-client: response for seq '' @ show_nat (unat (cr_seq_num response)) @ '' was never sent'' @ nl), c)
          else if cr_status response \<noteq> kOk
          then client_receives n (tally\<lparr>ty_failures := ty_failures tally + 1,
                 ty_errors := ty_errors tally @ ''imgjit-client: seq '' @ show_nat (unat (cr_seq_num response)) @ '' failed: '' @
                   status_message (cr_status response) @ nl\<rparr>) c
          else client_receives n (if image_empty (ty_first_result tally) then tally\<lparr>ty_first_result := cr_image response\<rparr> else tally) c)"

definition client_finish :: "('f, 'z) png_library_scheme \<Rightarrow> client_options \<Rightarrow> client_tally \<Rightarrow> 'f \<Rightarrow> tool_exit \<times> 'f" where
  "client_finish png options tally f =
     (case (if ct_output_path options \<noteq> [] \<and> \<not> image_empty (ty_first_result tally)
            then save_png png (ct_output_path options) (ty_first_result tally) f else (Inr (), f)) of
        (Inl e, f) \<Rightarrow> ((1, ty_errors tally @ snd (catches ''imgjit-client'' (what e))), f)
      | (Inr _, f) \<Rightarrow> ((if ty_failures tally = 0 then 0 else 1, ty_errors tally), f))"

definition client_main :: "('f, 'z) png_library_scheme \<Rightarrow> (nat \<Rightarrow> int) \<Rightarrow> (string \<Rightarrow> u16 \<Rightarrow> client result) \<Rightarrow> string list \<Rightarrow> 'f \<Rightarrow> tool_exit \<times> 'f" where
  "client_main png clock connect args f =
     (case client_arguments args of
        Inl ends \<Rightarrow> (ends, f)
      | Inr options \<Rightarrow>
          (case load_png png (ct_input_path options) f of
             (Inl e, f) \<Rightarrow> (catches ''imgjit-client'' (what e), f)
           | (Inr input, f) \<Rightarrow>
               (case connect (ct_host options) (ct_port options) of
                  Inl e \<Rightarrow> (catches ''imgjit-client'' (what e), f)
                | Inr c \<Rightarrow>
                    (case client_sends clock input (ct_chain_text options) (client_flags options) (nat (ct_repeat options)) c of
                       (Inl e, c) \<Rightarrow> (catches ''imgjit-client'' (what e), f)
                     | (Inr _, c) \<Rightarrow>
                         (case client_receives (nat (ct_repeat options)) \<lparr>ty_first_result = empty_image, ty_failures = 0, ty_errors = []\<rparr> c of
                            (Inl ends, c) \<Rightarrow> (ends, f)
                          | (Inr tally, c) \<Rightarrow> client_finish png options tally f)))))"

section \<open>Facts\<close>

lemma client_sends_open:
  assumes "snd (cl_outbound c) = []"
  shows "\<exists>c'. client_sends clock input chain flags n c = (Inr (), c') \<and> cl_inbound c' = cl_inbound c \<and>
    dom (cl_pending c') = dom (cl_pending c) \<union> (\<lambda>i. cl_next_seq_num c + of_nat i) ` {..<n}"
  using assms
proof (induction n arbitrary: c)
  case (Suc n)
  obtain q c1 where c1: "client_send (clock n) input chain flags c = (Inr q, c1)" "snd (cl_outbound c1) = []" "cl_inbound c1 = cl_inbound c"
    using client_send_open [OF Suc.prems] by blast
  note p = client_send_pending [OF c1(1)]
  have "(\<lambda>i. cl_next_seq_num c + of_nat i) ` {..<Suc n} = insert q ((\<lambda>i. cl_next_seq_num c1 + of_nat i) ` {..<n})"
    by (simp add: p(1,2) lessThan_Suc_eq_insert_0 image_image add.assoc)
  then show ?case using Suc.IH [OF c1(2)] c1 p(3) by auto
qed simp

definition failed :: "response list \<Rightarrow> nat" where
  "failed rs = length (filter (\<lambda>r. re_status r \<noteq> kOk) rs)"

definition first_echo :: "response list \<Rightarrow> image" where
  "first_echo rs = (case filter (\<lambda>r. re_status r = kOk \<and> re_echo r) rs of [] \<Rightarrow> empty_image | r # _ \<Rightarrow> re_image r)"

lemma client_receives_all:
  assumes "list_all answerable rs" "distinct (map re_seq_num rs)" "re_seq_num ` set rs \<subseteq> dom (cl_pending c)"
    and "stream_bytes (cl_inbound c) = concat (map response_bytes rs) @ rest"
  shows "\<exists>tally' c'. client_receives (length rs) tally c = (Inr tally', c') \<and> stream_bytes (cl_inbound c') = rest \<and>
    dom (cl_pending c') = dom (cl_pending c) - re_seq_num ` set rs \<and>
    ty_failures tally' = ty_failures tally + int (failed rs) \<and>
    ty_first_result tally' = (if image_empty (ty_first_result tally) \<and> first_echo rs \<noteq> empty_image then first_echo rs
      else if image_empty (ty_first_result tally) \<and> failed rs < length rs then empty_image else ty_first_result tally)"
  using assms
proof (induction rs arbitrary: c tally)
  case Nil
  then show ?case by (simp add: failed_def first_echo_def)
next
  case (Cons r rs)
  have "stream_bytes (cl_inbound c) = response_bytes r @ concat (map response_bytes rs) @ rest" using Cons.prems(4) by simp
  moreover have a: "answerable r" using Cons.prems(1) by simp
  ultimately obtain response c1 where c1: "client_receive c = (Inr response, c1)" "cr_status response = re_status r" "cr_seq_num response = re_seq_num r"
      "cr_image response = (if re_status r = kOk \<and> re_echo r then re_image r else empty_image)"
      "stream_bytes (cl_inbound c1) = concat (map response_bytes rs) @ rest" "cl_pending c1 = (cl_pending c)(re_seq_num r := None)"
      "case cl_pending c (re_seq_num r) of None \<Rightarrow> \<not> cr_matched response | Some request \<Rightarrow> cr_matched response \<and> cr_request response = request"
    using receive_response [of r c] by blast
  have m: "cr_matched response" using c1(7) Cons.prems(3) by (auto split: option.splits)
  have "re_seq_num r \<notin> re_seq_num ` set rs" "re_seq_num ` set rs \<subseteq> dom (cl_pending c)" using Cons.prems(2,3) by auto
  then have "re_seq_num ` set rs \<subseteq> dom (cl_pending c1)" unfolding c1(6) dom_fun_upd by (simp add: subset_Diff_insert)
  note IH = Cons.IH [OF _ _ this c1(5)]
  have D: "dom (cl_pending c) - re_seq_num ` set (r # rs) = dom (cl_pending c1) - re_seq_num ` set rs"
    unfolding c1(6) dom_fun_upd by auto
  have ne: "\<not> image_empty (re_image r)" "re_image r \<noteq> empty_image" if "re_status r = kOk"
  proof -
    have "image_wf (re_image r)" using a that by (simp add: answerable_def sendable_def)
    then have "im_pixels (re_image r) \<noteq> []" using image_wf_channels by (fastforce simp: image_wf_def)
    then show "\<not> image_empty (re_image r)" "re_image r \<noteq> empty_image" by (auto simp: image_empty_def empty_image_def)
  qed
  have e: "image_empty empty_image" by (simp add: image_empty_def empty_image_def)
  show ?case
  proof (cases "re_status r = kOk")
    case True
    define t1 where "t1 = (if image_empty (ty_first_result tally) then tally\<lparr>ty_first_result := cr_image response\<rparr> else tally)"
    have step: "client_receives (length (r # rs)) tally c = client_receives (length rs) t1 c1"
      using c1(1,2) m True by (simp add: t1_def)
    have f: "failed (r # rs) = failed rs" "failed rs < length (r # rs)" "first_echo (r # rs) = (if re_echo r then re_image r else first_echo rs)"
      using True by (simp_all add: failed_def first_echo_def less_Suc_eq_le length_filter_le)
    show ?thesis unfolding step f D using IH [of t1] Cons.prems(1,2) c1(4) True ne e f(2) by (auto simp: t1_def)
  next
    case False
    define t1 where "t1 = tally\<lparr>ty_failures := ty_failures tally + 1, ty_errors := ty_errors tally @ ''imgjit-client: seq '' @
        show_nat (unat (cr_seq_num response)) @ '' failed: '' @ status_message (cr_status response) @ nl\<rparr>"
    have step: "client_receives (length (r # rs)) tally c = client_receives (length rs) t1 c1"
      using c1(1,2) m False by (simp add: t1_def)
    have f: "failed (r # rs) = Suc (failed rs)" "first_echo (r # rs) = first_echo rs" using False by (simp_all add: failed_def first_echo_def)
    show ?thesis unfolding step f D using IH [of t1] Cons.prems(1,2) by (auto simp: t1_def)
  qed
qed

section \<open>Properties\<close>

text \<open>
  C27: The client tool takes responses in any order. When the server answers the frames \<open>1, \<dots>, repeat\<close> that the tool pipelined, in
  whatever order and however the kernel cuts the stream, every response is matched to its frame, nothing stays pending, the
  failures counted are exactly the responses with an error status, and the image that goes to the output file is the one of the
  first response that succeeded with an echo.
\<close>

theorem client_takes_responses_in_any_order:
  assumes "client_arguments args = Inr options" "load_png png (ct_input_path options) f = (Inr input, f1)"
    and "connect (ct_host options) (ct_port options) = Inr (new_client inbound [])"
    and "list_all answerable rs" "mset (map re_seq_num rs) = mset (map of_nat [1..<Suc (nat (ct_repeat options))])"
    and "stream_bytes inbound = concat (map response_bytes rs) @ rest"
  shows "\<exists>tally. client_main png clock connect args f = client_finish png options tally f1 \<and>
    ty_failures tally = int (failed rs) \<and> ty_first_result tally = first_echo rs"
proof -
  define n where "n = nat (ct_repeat options)"
  have big: "n < 2 ^ 31"
  proof -
    have loop: "arguments_loop client_with_value client_alone args client_defaults = Inr options"
      using assms(1) by (auto simp: client_arguments_def bind_result_eq_Inr split: if_splits)
    have a: "atoi v < 2147483648" for v using atoi_range(2) [of v] by simp
    have "ct_repeat options < 2147483648"
      by (rule arguments_loop_keeps [OF loop]) (auto simp: client_defaults_def client_with_value_def client_alone_def a split: if_splits)
    then show ?thesis by (simp add: n_def)
  qed
  have "unat (of_nat i :: u32) = i" if "i < Suc n" for i using that big by (simp only: unat_of_nat) (simp add: mod_less)
  then have inj: "inj_on (\<lambda>i. of_nat i :: u32) {1..<Suc n}" by (intro inj_onI) (metis atLeastLessThan_iff)
  have "distinct (map (\<lambda>i. of_nat i :: u32) [1..<Suc n])" unfolding distinct_map set_upt by (simp only: inj distinct_upt simp_thms)
  then have d: "distinct (map re_seq_num rs)" using mset_eq_imp_distinct_iff [OF assms(5)] unfolding n_def by iprover
  have len: "length rs = n" using arg_cong [OF assms(5), of size] by (simp add: n_def)
  have set: "re_seq_num ` set rs = (\<lambda>i. of_nat i) ` {1..<Suc n}"
    using arg_cong [OF assms(5), of set_mset] unfolding set_mset_mset set_map set_upt n_def .
  obtain c where c: "client_sends clock input (ct_chain_text options) (client_flags options) n (new_client inbound []) = (Inr (), c)"
      "cl_inbound c = inbound" "dom (cl_pending c) = (\<lambda>i. 1 + of_nat i) ` {..<n}"
    using client_sends_open [of "new_client inbound []" clock input "ct_chain_text options" "client_flags options" n] by (auto simp: new_client_def)
  have "(\<lambda>i. of_nat i :: u32) ` {1..<Suc n} = (\<lambda>i. 1 + of_nat i) ` {..<n}"
    unfolding atLeastLessThanSuc_atLeastAtMost image_Suc_lessThan [symmetric] image_image by simp
  then have sub: "re_seq_num ` set rs \<subseteq> dom (cl_pending c)" using set c(3) by simp
  have e: "image_empty empty_image" by (simp add: image_empty_def empty_image_def)
  from client_receives_all [OF assms(4) d sub, of rest "\<lparr>ty_first_result = empty_image, ty_failures = 0, ty_errors = []\<rparr>"] assms(6) c(2) len e
  obtain tally c' where t: "client_receives n \<lparr>ty_first_result = empty_image, ty_failures = 0, ty_errors = []\<rparr> c = (Inr tally, c')"
      "ty_failures tally = int (failed rs)" "ty_first_result tally = first_echo rs" by auto
  show ?thesis by (intro exI [of _ tally]) (use assms(1-3) c(1) t in \<open>simp add: client_main_def n_def [symmetric]\<close>)
qed

definition two_answers :: "response list" where
  "two_answers = [dot_response\<lparr>re_seq_num := 2\<rparr>, error_response 1 kBadChain]"

theorem client_takes_responses_in_any_order_witness:
  "fst (fst (client_main memory_png (\<lambda>_. 0) (\<lambda>_ _. Inr (new_client [Arrived (concat (map response_bytes two_answers))] []))
     [''--port'', ''9000'', ''--repeat'', ''2'', ''in.png''] [''in.png'' \<mapsto> ((1, 1, 3), [1, 2, 3])])) = 1"
proof -
  let ?args = "[''--port'', ''9000'', ''--repeat'', ''2'', ''in.png'']" and ?f = "[''in.png'' \<mapsto> ((1, 1, 3), [1, 2, 3 :: u8])]"
  let ?connect = "\<lambda>_ _. Inr (new_client [Arrived (concat (map response_bytes two_answers))] [])"
  define options where "options = client_defaults\<lparr>ct_port := 9000, ct_repeat := 2, ct_input_path := ''in.png''\<rparr>"
  have n: "atoi ''9000'' = 9000" "atoi ''2'' = 2" by code_simp+
  have a: "client_arguments ?args = Inr options"
    by (simp add: client_arguments_def client_with_value_def client_alone_def is_option_def client_defaults_def options_def n)
  have l: "load_png memory_png (ct_input_path options) ?f = (Inr dot_png, ?f)"
    using packed_image(2) [of 1 1 3 "[1, 2, 3]"] by (simp add: load_png_def memory_png_def options_def plausible_def dot_png_def)
  have r: "list_all answerable two_answers"
    by (simp add: two_answers_def answerable_def dot_response_def error_response_def sendable_def image_wf_def dot_image_def byte_count_def
        kMaxPayloadBytes_def is_supported_channel_count_def status_defs)
  have p: "mset (map re_seq_num two_answers) = mset (map of_nat [1..<Suc (nat (ct_repeat options))])"
    by (simp add: two_answers_def error_response_def options_def upt_conv_Cons numeral_2_eq_2 add_mset_commute)
  have s: "stream_bytes [Arrived (concat (map response_bytes two_answers))] = concat (map response_bytes two_answers) @ []" by simp
  obtain tally where t: "client_main memory_png (\<lambda>_. 0) ?connect ?args ?f = client_finish memory_png options tally ?f"
      "ty_failures tally = int (failed two_answers)"
    using client_takes_responses_in_any_order [OF a l _ r p s, of ?connect "\<lambda>_. 0"] by auto
  have "ct_output_path options = []" by (simp add: options_def client_defaults_def)
  moreover have "failed two_answers = 1" by (simp add: failed_def two_answers_def dot_response_def error_response_def status_defs)
  ultimately show ?thesis using t by (simp add: client_finish_def)
qed

end
