(* ===== verification/Server_Tool.thy ===== *)
theory Server_Tool
  imports Tool_Args Server_Spec
begin

text \<open>
  The server program \<open>tools/imgjit-server.cpp\<close>: its options, the factory that makes the backend on the worker thread and warms its
  kernel cache, and the start of the server. From there on the program is the server of the theory \<open>Server_Steps\<close>: an interrupt
  makes \<open>main\<close> the thread that takes the steps of \<open>stop\<close>, and the exit status is 0 once it returns. Whether the build found a
  CUDA toolkit is the argument \<open>enable_cuda\<close>.
\<close>

section \<open>Options\<close>

record prewarm_entry =
  pw_chain :: op_chain
  pw_channels :: int

record server_options =
  so_config :: server_config
  so_backend_name :: string
  so_prewarm :: "prewarm_entry list"
  so_stream_count :: nat
  so_tile :: tile_variant
  so_tile_size :: int
  so_constants :: constants_mode

definition server_defaults :: server_options where
  "server_defaults = \<lparr>so_config = default_config, so_backend_name = ''cpu'', so_prewarm = [], so_stream_count = 4, so_tile = kNaive,
     so_tile_size = 0, so_constants = kBaked\<rparr>"

definition server_usage :: string where
  "server_usage =
     ''usage: imgjit-server [options]'' @ nl @
     ''  --port <n>            listen port (0 = ephemeral, printed at startup)'' @ nl @
     ''  --backend cpu|cuda    default cpu'' @ nl @
     ''  --streams <n>         CUDA streams kept in flight (default 4; 1 ='' @ nl @
     ''                        the Phase 5 synchronous baseline)'' @ nl @
     ''  --tile naive|<n>      stencil kernels: naive (default), or tiled through'' @ nl @
     ''                        an n x n __shared__ tile, n in 1..32 (cuda only)'' @ nl @
     ''                        big win on gaussian; no win on sobel, whose radius-1'' @ nl @
     ''                        apron is too small to be worth tiling (bench/phase7_results.md)'' @ nl @
     ''  --constants baked|parameterized'' @ nl @
     ''                        op parameters as kernel literals (default) or launch'' @ nl @
     ''                        arguments; parameterized needs --tile naive (cuda only)'' @ nl @
     ''  --prewarm '' @ dq @ ''<chain>[@ch]'' @ dq @ ''  compile a chain at startup; repeatable'' @ nl @
     ''                        (channels default 3; --backend cuda only)'' @ nl @
     ''  --slots <n>           frame slots in the pool (default 8)'' @ nl @
     ''  --slots-per-conn <n>  per-connection cap on held slots (default 2)'' @ nl @
     ''  --max-payload <n>     bytes; doubles as the slot size (default 8 MiB)'' @ nl @
     ''  --queue <n>           bounded job queue capacity (default 16)'' @ nl @
     ''  --output-dir <dir>    where flags-bit-1 results are written'' @ nl"

text \<open>\<open>std::string::rfind\<close> of a character.\<close>

definition rfind_char :: "char \<Rightarrow> string \<Rightarrow> nat option" where
  "rfind_char c s = (if c \<in> set s then Some (length s - 1 - length (takeWhile (\<lambda>x. x \<noteq> c) (rev s))) else None)"

definition parse_prewarm :: "string \<Rightarrow> tool_exit + prewarm_entry" where
  "parse_prewarm argument =
     (let position = rfind_char CHR ''@'' argument;
          chain_text = (case position of None \<Rightarrow> argument | Some i \<Rightarrow> take i argument);
          channels = (case position of None \<Rightarrow> 3 | Some i \<Rightarrow> atoi (drop (i + 1) argument))
      in if position \<noteq> None \<and> \<not> is_supported_channel_count channels
         then Inl (2, ''imgjit-server: --prewarm channels must be 1, 3 or 4'' @ nl)
         else case parse_op_chain chain_text of
                Inl parse_error \<Rightarrow> Inl (2, ''imgjit-server: bad --prewarm chain: '' @ parse_error @ nl)
              | Inr parsed \<Rightarrow> Inr \<lparr>pw_chain = parsed, pw_channels = channels\<rparr>)"

text \<open>\<open>static_cast<std::size_t>\<close> of an \<open>int\<close>.\<close>

definition size_of_int :: "int \<Rightarrow> nat" where
  "size_of_int n = unat (word_of_int n :: u64)"

definition server_with_value :: "string \<Rightarrow> string \<Rightarrow> server_options \<Rightarrow> (tool_exit + server_options) option" where
  "server_with_value argument value options =
     (let config = so_config options
      in if argument = ''--port'' then Some (Inr (options\<lparr>so_config := config\<lparr>sc_port := word_of_int (atoi value)\<rparr>\<rparr>))
         else if argument = ''--backend'' then Some (Inr (options\<lparr>so_backend_name := value\<rparr>))
         else if argument = ''--streams'' then Some (Inr (options\<lparr>so_stream_count := size_of_int (atoi value)\<rparr>))
         else if argument = ''--tile''
         then Some (Inr (options\<lparr>so_tile := fst (parse_tile value), so_tile_size := snd (parse_tile value)\<rparr>))
         else if argument = ''--constants''
         then Some (bind_result (parse_constants ''imgjit-server'' value) (\<lambda>constants. Inr (options\<lparr>so_constants := constants\<rparr>)))
         else if argument = ''--prewarm''
         then Some (bind_result (parse_prewarm value) (\<lambda>entry. Inr (options\<lparr>so_prewarm := so_prewarm options @ [entry]\<rparr>)))
         else if argument = ''--slots'' then Some (Inr (options\<lparr>so_config := config\<lparr>sc_num_slots := size_of_int (atoi value)\<rparr>\<rparr>))
         else if argument = ''--slots-per-conn''
         then Some (Inr (options\<lparr>so_config := config\<lparr>sc_slots_per_connection := size_of_int (atoi value)\<rparr>\<rparr>))
         else if argument = ''--max-payload''
         then Some (Inr (options\<lparr>so_config := config\<lparr>sc_max_payload_bytes := word_of_int (atol value)\<rparr>\<rparr>))
         else if argument = ''--queue'' then Some (Inr (options\<lparr>so_config := config\<lparr>sc_queue_capacity := size_of_int (atoi value)\<rparr>\<rparr>))
         else if argument = ''--output-dir'' then Some (Inr (options\<lparr>so_config := config\<lparr>sc_output_dir := value\<rparr>\<rparr>))
         else None)"

definition server_alone :: "string \<Rightarrow> server_options \<Rightarrow> tool_exit + server_options" where
  "server_alone argument options = Inl (unexpected ''imgjit-server'' server_usage argument)"

definition server_check :: "bool \<Rightarrow> server_options \<Rightarrow> tool_exit + server_options" where
  "server_check enable_cuda options =
     (if so_backend_name options \<noteq> ''cpu'' \<and> so_backend_name options \<noteq> ''cuda''
      then Inl (2, ''imgjit-server: unknown backend '' @ dq @ so_backend_name options @ dq @ '' (expected cpu or cuda)'' @ nl)
      else if \<not> enable_cuda \<and> so_backend_name options = ''cuda''
      then Inl (2, ''imgjit-server: this build has no CUDA backend '' @ em_dash @ '' it was configured with no'' @ nl @
                   ''               CUDA toolkit present.'' @ nl)
      else if so_prewarm options \<noteq> [] \<and> so_backend_name options \<noteq> ''cuda''
      then Inl (2, ''imgjit-server: --prewarm needs --backend cuda (nothing else compiles)'' @ nl)
      else if so_stream_count options = 0
      then Inl (2, ''imgjit-server: --streams must be at least 1'' @ nl)
      else if so_tile options \<noteq> kNaive \<and> so_backend_name options \<noteq> ''cuda''
      then Inl (2, ''imgjit-server: --tile needs --backend cuda (nothing else tiles)'' @ nl)
      else if so_constants options \<noteq> kBaked \<and> so_backend_name options \<noteq> ''cuda''
      then Inl (2, ''imgjit-server: --constants needs --backend cuda (nothing else compiles)'' @ nl)
      else if enable_cuda \<and> \<not> is_supported_tile (so_tile options) (so_tile_size options)
      then Inl (2, ''imgjit-server: --tile must be naive or a tile edge in 1..'' @ show_int kMaxTileSize @ nl)
      else if enable_cuda \<and> \<not> is_supported_constants (so_constants options) (so_tile options)
      then Inl (2, ''imgjit-server: --constants parameterized needs --tile naive'' @ nl)
      else Inr options)"

definition server_arguments :: "bool \<Rightarrow> string list \<Rightarrow> tool_exit + server_options" where
  "server_arguments enable_cuda args =
     bind_result (arguments_loop server_with_value server_alone args server_defaults) (server_check enable_cuda)"

section \<open>The backend\<close>

text \<open>The factory of the CUDA server; when it throws, the backend it made is destroyed.\<close>

fun prewarm_all :: "'d cuda_driver \<Rightarrow> (rat \<Rightarrow> rat) \<Rightarrow> prewarm_entry list \<Rightarrow> ('d cuda_backend, unit) action" where
  "prewarm_all drv expf [] = return_act ()"
| "prewarm_all drv expf (entry # entries) = then_act (prewarm drv expf (pw_chain entry) (pw_channels entry)) (\<lambda>_. prewarm_all drv expf entries)"

definition cuda_factory :: "'d cuda_driver \<Rightarrow> (rat \<Rightarrow> rat) \<Rightarrow> server_options \<Rightarrow> 'd \<Rightarrow> 'd cuda_backend result \<times> 'd" where
  "cuda_factory drv expf options d =
     (case CudaBackend_new drv 0 (so_stream_count options) (so_tile options) (so_tile_size options) (so_constants options) d of
        (Inl e, d) \<Rightarrow> (Inl e, d)
      | (Inr b, d) \<Rightarrow>
          (case then_act (on_driver (compute_arch drv (the (bk_context b)))) (\<lambda>_. prewarm_all drv expf (so_prewarm options)) b of
             (Inl e, b) \<Rightarrow> (Inl e, CudaBackend_delete drv b)
           | (Inr _, b) \<Rightarrow> (Inr b, bk_driver b)))"

section \<open>The program\<close>

datatype 'd running_server = Cpu_Server int "cpu_backend server" | Cuda_Server int "'d cuda_backend server"

text \<open>The two ways in which \<open>main\<close> constructs and starts a server, up to where it waits for an interrupt.\<close>

definition start_cpu :: "'o net_os \<Rightarrow> (string \<Rightarrow> ('o, unit) action) \<Rightarrow> server_options \<Rightarrow> ('o, 'd running_server) action" where
  "start_cpu os make_dirs options =
     then_act (server_start os make_dirs (Inr (Some new_cpu_backend))
         (\<lambda>n bytes b. bind_result (cpu_allocate_slots n bytes b) (\<lambda>(base, b'). Inr (Some base, b'))) False (so_config options))
       (\<lambda>(listener, s). return_act (Cpu_Server listener s))"

definition start_cuda :: "'o net_os \<Rightarrow> (string \<Rightarrow> ('o, unit) action) \<Rightarrow> 'd cuda_driver \<Rightarrow> (rat \<Rightarrow> rat) \<Rightarrow> server_options \<Rightarrow> 'd \<Rightarrow>
    ('o, 'd running_server) action" where
  "start_cuda os make_dirs drv expf options d =
     then_act (server_start os make_dirs (bind_result (fst (cuda_factory drv expf options d)) (\<lambda>b. Inr (Some b)))
         (\<lambda>n bytes b. case allocate_slots drv (of_nat n) (of_nat bytes) b of (r, b') \<Rightarrow> bind_result r (\<lambda>base. Inr (Some base, b')))
         False (so_config options))
       (\<lambda>(listener, s). return_act (Cuda_Server listener s))"

definition server_main :: "bool \<Rightarrow> 'o net_os \<Rightarrow> (string \<Rightarrow> ('o, unit) action) \<Rightarrow> 'd cuda_driver \<Rightarrow> (rat \<Rightarrow> rat) \<Rightarrow> string list \<Rightarrow> 'd \<Rightarrow> 'o \<Rightarrow>
    (tool_exit + 'd running_server) \<times> 'o" where
  "server_main enable_cuda os make_dirs drv expf args d o1 =
     (case server_arguments enable_cuda args of
        Inl ends \<Rightarrow> (Inl ends, o1)
      | Inr options \<Rightarrow>
          (case (if enable_cuda \<and> so_backend_name options = ''cuda'' then start_cuda os make_dirs drv expf options d
                 else start_cpu os make_dirs options) o1 of
             (Inl e, o1) \<Rightarrow> (Inl (catches ''imgjit-server'' (what e)), o1)
           | (Inr running, o1) \<Rightarrow> (Inr running, o1)))"

text \<open>The rest of \<open>main\<close>, over the steps that all threads take: it ends with status 0 when \<open>stop\<close> has returned.\<close>

definition server_serves :: "'b server_env \<Rightarrow> server_event list \<Rightarrow> 'b server \<Rightarrow> tool_exit option" where
  "server_serves env events s =
     (case run_events env events s of
        None \<Rightarrow> None
      | Some s \<Rightarrow> if sv_stop s = S_Stopped then Some (0, []) else None)"

section \<open>Facts\<close>

lemma parse_prewarm_entry:
  assumes "parse_prewarm argument = Inr entry"
  shows "canonical_chain (pw_chain entry) \<and> is_supported_channel_count (pw_channels entry)"
proof -
  have "is_supported_channel_count 3" by (simp add: is_supported_channel_count_def)
  then show ?thesis using assms parse_op_chain_canonical
    by (fastforce simp: parse_prewarm_def Let_def split: if_splits sum.splits option.splits)
qed

lemma server_arguments_accepted:
  assumes "server_arguments enable_cuda args = Inr options"
  shows "\<forall>entry \<in> set (so_prewarm options). canonical_chain (pw_chain entry) \<and> is_supported_channel_count (pw_channels entry)"
    "so_stream_count options \<noteq> 0" "so_prewarm options \<noteq> [] \<Longrightarrow> enable_cuda \<and> so_backend_name options = ''cuda''"
    "enable_cuda \<Longrightarrow> is_supported_tile (so_tile options) (so_tile_size options) \<and> is_supported_constants (so_constants options) (so_tile options)"
proof -
  obtain parsed where p: "arguments_loop server_with_value server_alone args server_defaults = Inr parsed" "server_check enable_cuda parsed = Inr options"
    using assms by (auto simp: server_arguments_def bind_result_eq_Inr)
  then have same: "parsed = options" by (simp add: server_check_def split: if_splits)
  show "\<forall>entry \<in> set (so_prewarm options). canonical_chain (pw_chain entry) \<and> is_supported_channel_count (pw_channels entry)"
    by (rule arguments_loop_keeps [OF p(1) [unfolded same]])
      (auto simp: server_defaults_def server_with_value_def server_alone_def Let_def bind_result_eq_Inr split: if_splits dest!: parse_prewarm_entry)
  show "so_stream_count options \<noteq> 0" "so_prewarm options \<noteq> [] \<Longrightarrow> enable_cuda \<and> so_backend_name options = ''cuda''"
    "enable_cuda \<Longrightarrow> is_supported_tile (so_tile options) (so_tile_size options) \<and> is_supported_constants (so_constants options) (so_tile options)"
    using p(2) unfolding same by (auto simp: server_check_def split: if_splits)
qed

text \<open>What warming chains leaves in the cache.\<close>

definition cached_keys :: "'d cuda_backend \<Rightarrow> kernel_key set" where
  "cached_keys b = fst ` set (kc_entries (bk_cache b))"

definition warm_cache :: "(rat \<Rightarrow> rat) \<Rightarrow> 'd cuda_backend \<Rightarrow> bool" where
  "warm_cache expf b \<longleftrightarrow> cache_inv expf (bk_cache b) \<and> kc_compile_count (bk_cache b) = of_nat (length (kc_entries (bk_cache b)))"

lemma prewarm_effect:
  assumes "warm_cache expf b" "canonical_chain chain" "prewarm drv expf chain channels b = (Inr (), b')"
  shows "warm_cache expf b'" "key_for c n b' = key_for c n b" "cached_keys b \<subseteq> cached_keys b'"
    "length (kc_entries (bk_cache b')) \<le> Suc (length (kc_entries (bk_cache b)))"
    "chain \<noteq> [] \<Longrightarrow> \<exists>k \<in> cached_keys b'. key_eq k (key_for chain channels b)"
proof -
  let ?key = "key_for chain channels b"
  have "warm_cache expf b' \<and> key_for c n b' = key_for c n b \<and> cached_keys b \<subseteq> cached_keys b' \<and>
    length (kc_entries (bk_cache b')) \<le> Suc (length (kc_entries (bk_cache b))) \<and> (chain \<noteq> [] \<longrightarrow> (\<exists>k \<in> cached_keys b'. key_eq k ?key))"
  proof (cases "chain = []")
    case True
    then show ?thesis using assms(1,3) by (simp add: prewarm_def)
  next
    case False
    then obtain entry cache' d' where g: "cache_get drv expf ?key (bk_cache b, bk_driver b) = (Inr entry, (cache', d'))"
        and b': "b' = b\<lparr>bk_cache := cache', bk_driver := d'\<rparr>"
      using assms(3) by (auto simp: prewarm_def on_cache_def elim!: then_act_cases split: prod.splits)
    have c: "canonical_chain (key_chain ?key)" using assms(2) by (simp add: key_for_def)
    have inv: "cache_inv expf cache'" using cache_get_inv [OF _ c g] assms(1) by (simp add: warm_cache_def)
    obtain k where "cache_find ?key cache' = Some (k, entry)" using cache_get_serves(3) [OF _ c g] assms(1) by (auto simp: warm_cache_def)
    from cache_find_Some [OF this] have "k \<in> fst ` set (kc_entries cache') \<and> key_eq k ?key" by force
    moreover have "kc_compile_count cache' = of_nat (length (kc_entries cache')) \<and>
        fst ` set (kc_entries (bk_cache b)) \<subseteq> fst ` set (kc_entries cache') \<and> length (kc_entries cache') \<le> Suc (length (kc_entries (bk_cache b)))"
      using g by (cases rule: cache_get_cases) (use assms(1) in \<open>auto simp: warm_cache_def\<close>)
    ultimately show ?thesis using inv by (auto simp: b' warm_cache_def cached_keys_def key_for_def)
  qed
  then show "warm_cache expf b'" "key_for c n b' = key_for c n b" "cached_keys b \<subseteq> cached_keys b'"
    "length (kc_entries (bk_cache b')) \<le> Suc (length (kc_entries (bk_cache b)))"
    "chain \<noteq> [] \<Longrightarrow> \<exists>k \<in> cached_keys b'. key_eq k ?key" by blast+
qed

lemma prewarm_all_effect:
  assumes "warm_cache expf b" "\<forall>entry \<in> set entries. canonical_chain (pw_chain entry)" "prewarm_all drv expf entries b = (Inr (), b')"
  shows "warm_cache expf b' \<and> key_for c n b' = key_for c n b \<and> cached_keys b \<subseteq> cached_keys b' \<and>
    length (kc_entries (bk_cache b')) \<le> length (kc_entries (bk_cache b)) + length entries \<and>
    (\<forall>entry \<in> set entries. pw_chain entry \<noteq> [] \<longrightarrow>
       (\<exists>k \<in> cached_keys b'. key_eq k (key_for (pw_chain entry) (pw_channels entry) b)))"
  using assms
proof (induction entries arbitrary: b c n)
  case (Cons entry entries)
  obtain b1 where b1: "prewarm drv expf (pw_chain entry) (pw_channels entry) b = (Inr (), b1)" "prewarm_all drv expf entries b1 = (Inr (), b')"
    using Cons.prems(3) by (auto elim!: then_act_cases)
  have c: "canonical_chain (pw_chain entry)" using Cons.prems(2) by simp
  note p = prewarm_effect [OF Cons.prems(1) c b1(1)]
  have rest: "\<forall>e \<in> set entries. canonical_chain (pw_chain e)" using Cons.prems(2) by simp
  note IH = Cons.IH [OF p(1) this b1(2)]
  have "\<exists>k \<in> cached_keys b'. key_eq k (key_for (pw_chain e) (pw_channels e) b)" if "e \<in> set (entry # entries)" "pw_chain e \<noteq> []" for e
  proof (cases "e = entry")
    case True
    then show ?thesis using p(5) IH [of c n] that(2) by (meson subsetD)
  next
    case False
    then have "e \<in> set entries" using that(1) by simp
    then show ?thesis unfolding p(2) [of "pw_chain e" "pw_channels e", symmetric] using IH that(2) by blast
  qed
  moreover have "cached_keys b \<subseteq> cached_keys b'" using p(3) IH [of c n] by blast
  ultimately show ?case using IH [of c n] p(2) [of c n] p(4) by simp
qed simp

definition same_cache :: "'d cuda_backend \<Rightarrow> 'd cuda_backend \<Rightarrow> bool" where
  "same_cache b b' \<longleftrightarrow> bk_cache b' = bk_cache b \<and> (\<forall>c k. key_for c k b' = key_for c k b)"

lemma same_cache_order: "reflp same_cache" "transp same_cache"
  by (auto simp: reflp_def transp_def same_cache_def)

lemma same_cache_driver: "keeps same_cache (on_driver m)"
  by (simp add: keeps_def same_cache_def key_for_def on_driver_def case_prod_unfold)

lemma same_cache_emplace: "keeps same_cache (emplace_slots drv n)"
proof (induction n)
  case (Suc n)
  have "keeps same_cache (\<lambda>b'. emplace_slots drv n (b'\<lparr>bk_streams := bk_streams b' @ [slot]\<rparr>))" for slot
    using Suc by (auto simp: keeps_def same_cache_def key_for_def)
  then have "keeps same_cache (then_act (on_driver m) (\<lambda>slot b'. emplace_slots drv n (b'\<lparr>bk_streams := bk_streams b' @ [slot]\<rparr>)))" for m
    by (intro keeps_then same_cache_order same_cache_driver)
  then show ?case by (simp add: keeps_def)
qed (simp add: keeps_def same_cache_def)

lemma allocate_slots_same_cache: "keeps same_cache (allocate_slots drv n bytes)"
proof -
  have "keeps same_cache (build_stream_slots drv)"
    using same_cache_emplace [of drv]
    by (auto simp: keeps_def build_stream_slots_def Let_def clear_streams_def same_cache_def key_for_def)
  then have "keeps same_cache (then_act (build_stream_slots drv) (\<lambda>_. return_act x))" for x :: nat
    by (intro keeps_then same_cache_order keeps_return)
  then have "keeps same_cache (\<lambda>b. then_act (build_stream_slots drv) (\<lambda>_. return_act x) (b\<lparr>bk_host_slots := h, bk_slot_bytes := z\<rparr>))" for x :: nat and h z
    by (auto simp: keeps_def same_cache_def key_for_def)
  then have "keeps same_cache (then_act (on_driver m) (\<lambda>buffer b1. then_act (build_stream_slots drv) (\<lambda>_. return_act (rb_memory buffer))
      (b1\<lparr>bk_host_slots := Some buffer, bk_slot_bytes := unat bytes\<rparr>)))" for m
    by (intro keeps_then same_cache_order same_cache_driver)
  then show ?thesis by (auto simp: keeps_def allocate_slots_def same_cache_def)
qed

section \<open>Properties\<close>

text \<open>
  C22: A chain that was warmed at startup is a cache hit. Whenever the factory of the CUDA server returns, whatever the driver
  did meanwhile, every chain the command line asked to warm is found for its channel count by the very lookup that \<open>submit\<close>
  makes, after the slots are allocated, without a driver call and without a compile, and it is the program that the key generates; and
  the factory compiled each key once, at most one for each request.
\<close>

theorem prewarmed_chains_are_hits:
  assumes "server_arguments True args = Inr options" "cuda_factory drv expf options d = (Inr b0, d0)"
    and "allocate_slots drv n bytes b0 = (r, b)" "entry \<in> set (so_prewarm options)" "pw_chain entry \<noteq> []"
  shows "(\<exists>served. cache_get drv expf (key_for (pw_chain entry) (pw_channels entry) b) (bk_cache b, d1) = (Inr served, (bk_cache b, d1)) \<and>
      emit_cuda_source expf (key_for (pw_chain entry) (pw_channels entry) b) = Inr (ch_program served)) \<and>
    kc_compile_count (bk_cache b) = of_nat (length (kc_entries (bk_cache b))) \<and> length (kc_entries (bk_cache b)) \<le> length (so_prewarm options)"
proof -
  obtain bn dn arch b1 where new: "CudaBackend_new drv 0 (so_stream_count options) (so_tile options) (so_tile_size options) (so_constants options) d = (Inr bn, dn)"
      "on_driver (compute_arch drv (the (bk_context bn))) bn = (Inr arch, b1)" "prewarm_all drv expf (so_prewarm options) b1 = (Inr (), b0)"
    using assms(2) by (auto simp: cuda_factory_def elim!: then_act_cases split: prod.splits sum.splits)
  obtain a where "bk_cache bn = new_kernel_cache a"
    using new(1) by (auto simp: CudaBackend_new_def split: prod.splits sum.splits if_splits)
  moreover have "same_cache bn b1" using same_cache_driver [of "compute_arch drv (the (bk_context bn))"] new(2) unfolding keeps_def by (metis snd_conv)
  ultimately have b1: "warm_cache expf b1" "kc_entries (bk_cache b1) = []"
    by (simp_all add: warm_cache_def same_cache_def new_kernel_cache_def cache_inv_def)
  have canonical: "\<forall>entry \<in> set (so_prewarm options). canonical_chain (pw_chain entry)"
    using server_arguments_accepted(1) [OF assms(1)] by blast
  have sc: "same_cache b0 b" using allocate_slots_same_cache [of drv n bytes] assms(3) unfolding keeps_def by (metis snd_conv)
  define key where "key = key_for (pw_chain entry) (pw_channels entry) b"
  note w = prewarm_all_effect [OF b1(1) canonical new(3), of "pw_chain entry" "pw_channels entry"]
  have "key = key_for (pw_chain entry) (pw_channels entry) b1" using w sc by (simp add: key_def same_cache_def)
  then have hit: "\<exists>k \<in> fst ` set (kc_entries (bk_cache b)). key_eq k key" and inv: "cache_inv expf (bk_cache b)"
    using w assms(4,5) sc by (auto simp: same_cache_def warm_cache_def cached_keys_def)
  obtain k served where f: "cache_find key (bk_cache b) = Some (k, served)"
    using hit cache_find_None [of key "bk_cache b"] by (metis option.exhaust surj_pair)
  then have g: "cache_get drv expf key (bk_cache b, d1) = (Inr served, (bk_cache b, d1))" by (simp add: cache_get_def)
  have "canonical_chain (key_chain key)" using canonical assms(4) by (simp add: key_def key_for_def)
  from cache_get_serves(1) [OF inv this g] g
  have "\<exists>served. cache_get drv expf key (bk_cache b, d1) = (Inr served, (bk_cache b, d1)) \<and> emit_cuda_source expf key = Inr (ch_program served)"
    by blast
  moreover have "kc_compile_count (bk_cache b) = of_nat (length (kc_entries (bk_cache b))) \<and> length (kc_entries (bk_cache b)) \<le> length (so_prewarm options)"
    using w sc b1(2) by (simp add: same_cache_def warm_cache_def)
  ultimately show ?thesis unfolding key_def by (rule conjI)
qed

lemma ok_calls:
  "get_function ok_driver m name d = (Inr 1, ())" "CudaModule_new ok_driver ptx d = (Inr 1, ())"
  "compute_arch ok_driver context d = (Inr (''compute_'' @ show_int 7 @ show_int 7), ())"
  by (simp_all add: get_function_def CudaModule_new_def compute_arch_def CU_CHECK_def cu_check_def ok_driver_def ok_call_def CUDA_SUCCESS_def then_act_def)

lemma ok_compile_to_ptx: "\<exists>ptx. compile_to_ptx ok_driver cuda name arch d = (Inr ptx, ())"
  by (simp add: compile_to_ptx_def nvrtc_outputs_def nvrtc_results_def read_sized_def NVRTC_CHECK_def nvrtc_check_def then_act_def ok_driver_def ok_call_def)

lemma ok_get_functions: "\<exists>fs. get_functions ok_driver m stages d = (Inr fs, ())"
proof (induction stages)
  case (Cons stage stages)
  then obtain fs where "get_functions ok_driver m stages () = (Inr fs, ())" by auto
  then show ?case by (simp add: ok_calls(1) then_act_def)
qed simp

lemma ok_compile_entry:
  assumes "emit_cuda_source expf key = Inr program"
  shows "\<exists>entry. compile_entry ok_driver expf arch key d = (Inr entry, ())"
proof -
  obtain ptx where "compile_to_ptx ok_driver (gp_source program) ''imgjit_chain.cu'' arch d = (Inr ptx, ())" using ok_compile_to_ptx by blast
  moreover obtain fs where "get_functions ok_driver 1 (gp_stages program) () = (Inr fs, ())" using ok_get_functions by blast
  ultimately show ?thesis using assms by (simp add: compile_entry_def then_act_def ok_calls(2) load_functions_def)
qed

text \<open>A server that warms \<open>invert\<close> for four channels.\<close>

theorem prewarmed_chains_are_hits_witness:
  "\<exists>options b served. server_arguments True [''--backend'', ''cuda'', ''--prewarm'', ''invert@4''] = Inr options \<and>
     cuda_factory ok_driver (\<lambda>x. 1) options () = (Inr b, ()) \<and>
     cache_get ok_driver (\<lambda>x. 1) (key_for [\<lparr>kind = kInvert, param = 0\<rparr>] 4 b) (bk_cache b, ()) = (Inr served, (bk_cache b, ()))"
proof -
  let ?args = "[''--backend'', ''cuda'', ''--prewarm'', ''invert@4'']" and ?chain = "[\<lparr>kind = kInvert, param = 0\<rparr>]"
  define options where "options = server_defaults\<lparr>so_backend_name := ''cuda'', so_prewarm := [\<lparr>pw_chain = ?chain, pw_channels = 4\<rparr>]\<rparr>"
  have "parse_prewarm ''invert@4'' = Inr \<lparr>pw_chain = ?chain, pw_channels = 4\<rparr>" by code_simp
  then have a: "server_arguments True ?args = Inr options"
    by (simp add: server_arguments_def server_with_value_def server_check_def server_defaults_def options_def
        is_supported_tile_def is_supported_constants_def)
  obtain b0 d where new: "CudaBackend_new ok_driver 0 4 kNaive 0 kBaked () = (Inr b0, d)" "bk_tile b0 = kNaive" "bk_tile_size b0 = 0" "bk_constants b0 = kBaked"
    by (simp add: CudaBackend_new_def CudaContext_new_def compute_arch_def then_act_def CU_CHECK_def cu_check_def ok_driver_def ok_call_def
        CUDA_SUCCESS_def is_supported_tile_def is_supported_constants_def)
  have same: "on_driver (compute_arch ok_driver c) b0 = (Inr (''compute_'' @ show_int 7 @ show_int 7), b0)" for c
    by (simp add: on_driver_def ok_calls)
  have b0: "cuda_factory ok_driver (\<lambda>x. 1) options () =
      (case prewarm ok_driver (\<lambda>x. 1) ?chain 4 b0 of (Inl e, b) \<Rightarrow> (Inl e, CudaBackend_delete ok_driver b) | (Inr _, b) \<Rightarrow> (Inr b, bk_driver b))"
    using new(1) by (simp add: cuda_factory_def options_def server_defaults_def same then_act_def split: prod.split sum.split)
  have chain: "canonical_chain ?chain" using server_arguments_accepted(1) [OF a] by (simp add: options_def)
  then obtain program where "emit_cuda_source (\<lambda>x. 1) (key_for ?chain 4 b0) = Inr program"
    using emit_cuda_source_ok [of "key_for ?chain 4 b0" "\<lambda>x. 1"] new(2-4)
    by (auto simp: supported_key_def key_for_def is_supported_channel_count_def is_supported_tile_def is_supported_constants_def)
  then obtain entry where "compile_entry ok_driver (\<lambda>x. 1) (kc_gpu_architecture (bk_cache b0)) (key_for ?chain 4 b0) (bk_driver b0) = (Inr entry, ())"
    using ok_compile_entry by blast
  then have "\<exists>b. prewarm ok_driver (\<lambda>x. 1) ?chain 4 b0 = (Inr (), b)"
    by (auto simp: prewarm_def on_cache_def cache_get_def then_act_def split: option.split)
  then obtain b where b: "cuda_factory ok_driver (\<lambda>x. 1) options () = (Inr b, ())" using b0 by auto
  have "allocate_slots ok_driver 0 0 b = (fst (allocate_slots ok_driver 0 0 b), b)"
    by (simp add: allocate_slots_def)
  from prewarmed_chains_are_hits [OF a b this, of "\<lparr>pw_chain = ?chain, pw_channels = 4\<rparr>" "()"] a b show ?thesis
    by (auto simp: options_def)
qed

text \<open>
  Counts go through \<open>static_cast<std::size_t>\<close> before they are checked, so a negative one is not refused: the check that \<open>--streams\<close>
  is at least 1 lets \<open>-1\<close> pass as the largest \<open>size_t\<close>, and so do \<open>--slots\<close> and \<open>--queue\<close>.
\<close>

lemma negative_counts_pass:
  "server_arguments enable_cuda [''--streams'', ''-1''] = Inr (server_defaults\<lparr>so_stream_count := 2 ^ 64 - 1\<rparr>)"
proof -
  have "atoi ''-1'' = - 1" by code_simp
  then have "size_of_int (atoi ''-1'') = 2 ^ 64 - 1" by (simp add: size_of_int_def unsigned_minus_1_eq_mask mask_eq_exp_minus_1)
  then show ?thesis
    by (simp add: server_arguments_def server_with_value_def server_check_def server_defaults_def is_supported_tile_def is_supported_constants_def)
qed


section \<open>From the command line to the responses\<close>

lemma prewarm_all_fresh: "keeps (\<lambda>b b'. fresh_backend b \<longrightarrow> fresh_backend b') (prewarm_all drv expf entries)"
proof (induction entries)
  case (Cons entry entries)
  have order: "reflp (\<lambda>b b'. fresh_backend b \<longrightarrow> fresh_backend b')" "transp (\<lambda>b b'. fresh_backend b \<longrightarrow> fresh_backend b')"
    by (auto simp: reflp_def transp_def)
  have "keeps (\<lambda>b b'. fresh_backend b \<longrightarrow> fresh_backend b') (on_cache m)" for m :: "(kernel_cache \<times> 'a, compiled_chain) action"
    by (auto simp: keeps_def on_cache_def fresh_backend_def split: prod.splits)
  then have "keeps (\<lambda>b b'. fresh_backend b \<longrightarrow> fresh_backend b') (then_act (on_cache m) (\<lambda>_. return_act ()))"
    for m :: "(kernel_cache \<times> 'a, compiled_chain) action"
    by (intro keeps_then order keeps_return)
  then have "keeps (\<lambda>b b'. fresh_backend b \<longrightarrow> fresh_backend b') (prewarm drv expf chain channels)" for chain channels
    by (simp add: keeps_def prewarm_def)
  then show ?case unfolding prewarm_all.simps by (intro keeps_then order Cons.IH)
qed (simp add: keeps_def)

lemma cuda_factory_fresh:
  assumes "fst (cuda_factory drv expf options d) = Inr b"
  shows "fresh_backend b"
proof -
  obtain bn dn arch b1 where new: "CudaBackend_new drv 0 (so_stream_count options) (so_tile options) (so_tile_size options) (so_constants options) d = (Inr bn, dn)"
      "on_driver (compute_arch drv (the (bk_context bn))) bn = (Inr arch, b1)" "prewarm_all drv expf (so_prewarm options) b1 = (Inr (), b)"
    using assms by (auto simp: cuda_factory_def elim!: then_act_cases split: prod.splits sum.splits)
  have "fresh_backend b1" using CudaBackend_new_fresh [OF new(1)] new(2) by (auto simp: on_driver_def fresh_backend_def split: prod.splits)
  then show ?thesis using prewarm_all_fresh [of drv expf "so_prewarm options"] new(3) unfolding keeps_def by (metis snd_conv)
qed

lemma server_start_started:
  assumes "server_start os make_dirs made allocate running config o1 = (Inr (listener, s0), o2)"
  shows "worker_main_start config made allocate = Inr s0"
  using assms by (auto simp: server_start_def throw_closing_def elim!: then_act_cases split: if_splits sum.splits prod.splits)

lemma server_main_cuda:
  assumes "server_main enable_cuda os make_dirs drv expf args d o1 = (Inr (Cuda_Server listener s0), o2)"
  obtains options where "server_arguments enable_cuda args = Inr options"
    "cuda_server_start (so_config options) drv (fst (cuda_factory drv expf options d)) = Inr s0"
proof -
  obtain options o3 where o: "server_arguments enable_cuda args = Inr options" "start_cuda os make_dirs drv expf options d o1 = (Inr (Cuda_Server listener s0), o3)"
    using assms by (auto simp: server_main_def start_cpu_def elim!: then_act_cases split: sum.splits prod.splits if_splits)
  have "cuda_server_start (so_config options) drv (fst (cuda_factory drv expf options d)) = Inr s0"
    unfolding cuda_server_start_def using o(2)
    by (auto simp: start_cuda_def elim!: then_act_cases intro!: server_start_started)
  with o(1) that show thesis by blast
qed

text \<open>An operating system on which listening succeeds, and a command line for one stream and one slot of four bytes.\<close>

definition open_os :: "unit net_os" where
  "open_os = \<lparr>os_socket = (\<lambda>o1. (3, o1)), os_setsockopt = (\<lambda>_ _ o1. o1), os_bind = (\<lambda>_ _ o1. (0, o1)), os_listen = (\<lambda>_ _ o1. (0, o1)),
     os_getsockname = (\<lambda>_ o1. ((0, 9000), o1)), os_inet_pton = (\<lambda>_. Some 0), os_connect = (\<lambda>_ _ _ o1. (0, o1)), os_poll = (\<lambda>_ _ o1. (0, o1)),
     os_accept = (\<lambda>_ o1. (-1, o1)), os_close = (\<lambda>_ o1. o1), os_strerror = (\<lambda>_. []), os_has_nosigpipe = False\<rparr>"

definition small_args :: "string list" where
  "small_args = [''--backend'', ''cuda'', ''--streams'', ''1'', ''--slots'', ''1'', ''--max-payload'', ''4'']"

definition small_options :: server_options where
  "small_options = server_defaults\<lparr>so_backend_name := ''cuda'', so_stream_count := 1, so_config := small_config\<rparr>"

lemma small_options_fields [simp]:
  "so_config small_options = small_config" "so_stream_count small_options = 1" "so_tile small_options = kNaive" "so_tile_size small_options = 0"
  "so_constants small_options = kBaked" "so_prewarm small_options = []"
  by (simp_all add: small_options_def server_defaults_def)

lemma small_arguments: "server_arguments True small_args = Inr small_options"
proof -
  have n: "size_of_int (atoi ''1'') = 1" "word_of_int (atol ''4'') = (4 :: u32)" by code_simp+
  show ?thesis
    by (simp add: small_args_def small_options_def server_arguments_def server_with_value_def server_check_def server_defaults_def small_config_def n
        is_supported_tile_def is_supported_constants_def)
qed

lemma small_program:
  assumes "cuda_server_start small_config drv (fst (cuda_factory drv expf small_options d)) = Inr s0"
  shows "server_main True open_os (\<lambda>_. return_act ()) drv expf small_args d () = (Inr (Cuda_Server 3 s0), ())"
proof -
  have "listen_on open_os (sc_port small_config) (sc_backlog small_config) () = (Inr 3, ())"
    by (simp add: listen_on_def open_os_def socket_valid_def suppress_sigpipe_def)
  with assms small_arguments show ?thesis
    by (simp add: server_main_def start_cuda_def server_start_def then_act_def small_options_def small_config_def cuda_server_start_def)
qed

text \<open>
  C11: From the command line to the last response: once the server program runs with the CUDA backend, whichever options it accepted and
  whatever chains it warmed, and however the driver fails at any time, every request that a connection's reader took from the stream is
  in exactly one of three places as a multiset of sequence numbers: answered, waiting in the outbox, or owed by a frame under way; a connection
  that has finished has answered them all, and while its socket is alive the wire holds the encodings of the responses in order.
\<close>

theorem server_program_answers_exactly_once:
  assumes "server_main enable_cuda os make_dirs drv expf args d o1 = (Inr (Cuda_Server listener s0), o2)"
    and "server_arguments enable_cuda args = Inr options" "server_reachable (cuda_env (so_config options) save drv expf) s0 s"
    and "length (sv_connections s) < 2 ^ 64 - 1" "sv_submissions s < 2 ^ 64 - 2" "k < length (sv_connections s)"
  shows "let c = sv_connections s ! k in
    mset (co_asked c) = mset (map re_seq_num (co_taken c @ ob_items (co_outbox c))) + owed_to k (answers s) \<and>
    (if co_finished c then mset (co_asked c) = mset (map re_seq_num (co_taken c)) else True) \<and>
    (if co_writer c = Wr_Running True then fst (co_outbound c) = concat (map response_bytes (co_taken c)) else True)"
proof -
  have s0: "cuda_server_start (so_config options) drv (fst (cuda_factory drv expf options d)) = Inr s0"
    by (rule server_main_cuda [OF assms(1)]) (use assms(2) in simp)
  show ?thesis by (rule answers_once [OF cuda_server_ok_fresh(1) [OF cuda_factory_fresh s0 assms(3-5)] assms(6)])
qed

theorem server_program_answers_exactly_once_witness:
  "\<exists>s0 s. server_main True open_os (\<lambda>_. return_act ()) ok_driver (\<lambda>x. 1) small_args () () = (Inr (Cuda_Server 3 s0), ()) \<and>
     server_reachable (cuda_env small_config (\<lambda>_ _. True) ok_driver (\<lambda>x. 1)) s0 s \<and> length (sv_connections s) = 1 \<and>
     ob_items (co_outbox (sv_connections s ! 0)) = []"
proof -
  obtain s0 where s0: "cuda_server_start small_config ok_driver (fst (CudaBackend_new ok_driver 0 1 kNaive 0 kBaked ())) = Inr s0"
    using small_cuda_starts by blast
  obtain b where b: "CudaBackend_new ok_driver 0 1 kNaive 0 kBaked () = (Inr b, ())"
    using s0 by (cases "CudaBackend_new ok_driver 0 1 kNaive 0 kBaked ()"; cases "fst (CudaBackend_new ok_driver 0 1 kNaive 0 kBaked ())")
      (auto simp: cuda_server_start_def worker_main_start_def)
  have "cuda_factory ok_driver (\<lambda>x. 1) small_options () = (Inr b, ())"
    using b by (simp add: cuda_factory_def on_driver_def ok_calls then_act_def)
  then have m: "server_main True open_os (\<lambda>_. return_act ()) ok_driver (\<lambda>x. 1) small_args () () = (Inr (Cuda_Server 3 s0), ())"
    using s0 b by (intro small_program) simp
  obtain s where s: "server_reachable (cuda_env small_config (\<lambda>_ _. True) ok_driver (\<lambda>x. 1)) s0 s" "length (sv_connections s) = 1"
      "sv_submissions s = 0" "co_asked (sv_connections s ! 0) = []"
    by (rule first_connection [OF s0 [unfolded cuda_server_start_def]])
  from server_program_answers_exactly_once [OF m small_arguments, unfolded small_options_fields, OF s(1), of 0] s(2-4)
  have "ob_items (co_outbox (sv_connections s ! 0)) = []" by (simp add: Let_def)
  with m s show ?thesis by blast
qed

end
