(* ===== verification/Spike.thy ===== *)
theory Spike
  imports Cli_Tool
begin

text \<open>
  The driver spike \<open>tools/imgjit-spike.cpp\<close>: one kernel, loaded once from PTX made ahead of time and once compiled at run time, each
  compared with a loop on the CPU. The driver calls that only this program makes are fields of their own; the contents of
  a file are a parameter, and so is the path of the PTX, which the build defines.
\<close>

section \<open>The kernel and its oracle\<close>

definition kBlockSize :: u32 where "kBlockSize = 256"

definition invert_sample :: "u8 \<Rightarrow> u8" where
  "invert_sample b = word_of_int (255 - uint b)"

definition kInvertSource :: string where
  "kInvertSource = nl @
     ''extern '' @ dq @ ''C'' @ dq @ '' __global__ void invert_u8(unsigned char* data, int count) {'' @ nl @
     ''  const int i = blockIdx.x * blockDim.x + threadIdx.x;'' @ nl @
     ''  if (i < count) {'' @ nl @
     ''    data[i] = (unsigned char)(255 - data[i]);'' @ nl @
     ''  }'' @ nl @
     ''}'' @ nl"

text \<open>What a thread of the kernel does; \<open>None\<close> is an access outside the buffer.\<close>

definition thread_index :: "nat \<times> nat \<Rightarrow> int" where
  "thread_index = (\<lambda>(block_idx, thread_idx). sint (of_nat block_idx * kBlockSize + of_nat thread_idx :: u32))"

definition invert_u8 :: "int \<Rightarrow> nat \<times> nat \<Rightarrow> u8 list \<Rightarrow> u8 list option" where
  "invert_u8 n_bytes thread data =
     (let i = thread_index thread
      in if i < n_bytes
         then if 0 \<le> i \<and> nat i < length data then Some (data[nat i := invert_sample (data ! nat i)]) else None
         else Some data)"

fun run_threads :: "int \<Rightarrow> (nat \<times> nat) list \<Rightarrow> u8 list \<Rightarrow> u8 list option" where
  "run_threads n_bytes [] data = Some data"
| "run_threads n_bytes (thread # threads) data =
     (case invert_u8 n_bytes thread data of None \<Rightarrow> None | Some data \<Rightarrow> run_threads n_bytes threads data)"

definition grid_threads :: "nat \<Rightarrow> (nat \<times> nat) list" where
  "grid_threads grid = List.product [0..<grid] [0..<unat kBlockSize]"

definition invert_cpu :: "u8 list \<Rightarrow> u8 list" where
  "invert_cpu input = fold (\<lambda>i output. output[i := invert_sample (input ! i)]) [0..<length input] (replicate (length input) 0)"

section \<open>Running it\<close>

record 'd spike_driver =
  sk_driver :: "'d cuda_driver"
  cuMemcpyHtoD :: "nat \<Rightarrow> u8 list \<Rightarrow> ('d, unit) cu_operation"
  cuMemcpyDtoH :: "nat \<Rightarrow> nat \<Rightarrow> ('d, u8 list) cu_operation"
  cuCtxSynchronize :: "('d, unit) cu_operation"

definition kSpikeFile :: string where "kSpikeFile = ''tools/imgjit-spike.cpp''"

definition int_count :: "u8 list \<Rightarrow> int" where
  "int_count input = sint (of_nat (length input) :: u32)"

definition spike_grid :: "int \<Rightarrow> nat" where
  "spike_grid n_bytes = unat ((word_of_int n_bytes + kBlockSize - 1) div kBlockSize)"

text \<open>An object that lives to the end of a scope, also when the rest of the scope throws.\<close>

definition scoped :: "('s, 'a) action \<Rightarrow> ('a \<Rightarrow> 's \<Rightarrow> 's) \<Rightarrow> ('a \<Rightarrow> ('s, 'b) action) \<Rightarrow> ('s, 'b) action" where
  "scoped acquire release body = then_act acquire (\<lambda>x s. case body x s of (r, s) \<Rightarrow> (r, release x s))"

definition invert_gpu :: "'d spike_driver \<Rightarrow> nat \<Rightarrow> u8 list \<Rightarrow> ('d, u8 list) action" where
  "invert_gpu sk m input =
     (let drv = sk_driver sk; n_bytes = int_count input
      in then_act (get_function drv m ''invert_u8'') (\<lambda>kernel.
         scoped (DeviceBuffer_new drv (length input)) (DeviceBuffer_delete drv) (\<lambda>buffer.
           then_act (CU_CHECK drv ''cuMemcpyHtoD(buffer.get(), input.data(), input.size())'' kSpikeFile 77
             (cuMemcpyHtoD sk buffer input)) (\<lambda>_.
           then_act (CU_CHECK drv ''cuLaunchKernel(kernel, grid, 1, 1, kBlockSize, 1, 1, 0, nullptr, arguments, nullptr)'' kSpikeFile 83
             (cuLaunchKernel drv kernel (spike_grid n_bytes, 1) (unat kBlockSize, 1) 0 [Pointer_Arg buffer, Int_Arg n_bytes])) (\<lambda>_.
           then_act (CU_CHECK drv ''cuCtxSynchronize()'' kSpikeFile 84 (cuCtxSynchronize sk)) (\<lambda>_.
           CU_CHECK drv ''cuMemcpyDtoH(output.data(), buffer.get(), output.size())'' kSpikeFile 87
             (cuMemcpyDtoH sk buffer (length input))))))))"

section \<open>The program\<close>

record spike_options =
  sk_input_path :: string
  sk_output_path :: string
  sk_dump_ptx_path :: string

definition spike_usage :: string where
  "spike_usage = ''usage: imgjit-spike <input.png> [--out <output.png>] [--dump-ptx <file.ptx>]'' @ nl"

definition spike_with_value :: "string \<Rightarrow> string \<Rightarrow> spike_options \<Rightarrow> (tool_exit + spike_options) option" where
  "spike_with_value argument value options =
     (if argument = ''--out'' then Some (Inr (options\<lparr>sk_output_path := value\<rparr>))
      else if argument = ''--dump-ptx'' then Some (Inr (options\<lparr>sk_dump_ptx_path := value\<rparr>))
      else None)"

definition spike_alone :: "string \<Rightarrow> spike_options \<Rightarrow> tool_exit + spike_options" where
  "spike_alone argument options =
     (if sk_input_path options = [] \<and> \<not> is_option argument then Inr (options\<lparr>sk_input_path := argument\<rparr>)
      else Inl (2, ''unexpected argument: '' @ argument @ nl @ spike_usage))"

definition spike_arguments :: "string list \<Rightarrow> tool_exit + spike_options" where
  "spike_arguments args =
     bind_result (arguments_loop spike_with_value spike_alone args \<lparr>sk_input_path = [], sk_output_path = [], sk_dump_ptx_path = []\<rparr>) (\<lambda>options.
       if sk_input_path options = [] then Inl (2, spike_usage) else Inr options)"

definition read_file :: "(string \<Rightarrow> 'f \<Rightarrow> string option) \<Rightarrow> string \<Rightarrow> ('f, string) action" where
  "read_file contents path f =
     (case contents path f of None \<Rightarrow> (Inl (Runtime_error (''cannot open '' @ path)), f) | Some s \<Rightarrow> (Inr s, f))"

definition on_files :: "('f, 'a) action \<Rightarrow> ('f \<times> 'd, 'a) action" where
  "on_files m = (\<lambda>(f, d). case m f of (r, f) \<Rightarrow> (r, (f, d)))"

definition on_device :: "('d, 'a) action \<Rightarrow> ('f \<times> 'd, 'a) action" where
  "on_device m = (\<lambda>(f, d). case m d of (r, d) \<Rightarrow> (r, (f, d)))"

definition spike_verdict :: "'f file_system \<Rightarrow> spike_options \<Rightarrow> int \<times> int \<times> int \<Rightarrow> u8 list \<Rightarrow> u8 list \<Rightarrow> u8 list \<Rightarrow> ('f, tool_exit) action" where
  "spike_verdict files options shape expected aot_result jit_result f =
     (let (width, height, channels) = shape;
          (written, f) = (if sk_output_path options = [] then (True, f)
             else stbi_write_png files (sk_output_path options) width height channels jit_result (width * channels) f)
      in (Inr (if \<not> written then (1, ''imgjit-spike: cannot write '' @ sk_output_path options @ nl)
               else if aot_result = expected \<and> jit_result = expected then (0, []) else (1, [])), f))"

definition spike_compare :: "'f file_system \<Rightarrow> (string \<Rightarrow> 'f \<Rightarrow> string option) \<Rightarrow> string \<Rightarrow> 'd spike_driver \<Rightarrow> spike_options \<Rightarrow>
    int \<times> int \<times> int \<Rightarrow> u8 list \<Rightarrow> ('f \<times> 'd, tool_exit) action" where
  "spike_compare files contents aot_path sk options shape input =
     (let drv = sk_driver sk;
          in_module = (\<lambda>ptx body. scoped (on_device (CudaModule_new drv ptx)) (\<lambda>m. map_prod id (CudaModule_delete drv m)) body)
      in scoped (on_device (CudaContext_new drv 0)) (\<lambda>context. map_prod id (CudaContext_delete drv context)) (\<lambda>context.
         then_act (on_device (compute_arch drv context)) (\<lambda>_.
         then_act (on_files (read_file contents aot_path)) (\<lambda>aot_ptx.
         in_module aot_ptx (\<lambda>aot_module.
         then_act (on_device (invert_gpu sk aot_module input)) (\<lambda>aot_result.
         then_act (on_device (compute_arch drv context)) (\<lambda>arch.
         then_act (on_device (compile_to_ptx drv kInvertSource ''invert.cu'' arch)) (\<lambda>jit_ptx.
         then_act (if sk_dump_ptx_path options = [] then return_act () else on_files (write_file files (sk_dump_ptx_path options) jit_ptx)) (\<lambda>_.
         in_module jit_ptx (\<lambda>jit_module.
         then_act (on_device (invert_gpu sk jit_module input)) (\<lambda>jit_result.
         on_files (spike_verdict files options shape (invert_cpu input) aot_result jit_result))))))))))))"

definition spike_main :: "'f file_system \<Rightarrow> (string \<Rightarrow> 'f \<Rightarrow> string option) \<Rightarrow> string \<Rightarrow> 'd spike_driver \<Rightarrow> string list \<Rightarrow> 'f \<times> 'd \<Rightarrow>
    tool_exit \<times> 'f \<times> 'd" where
  "spike_main files contents aot_path sk args s =
     (case spike_arguments args of
        Inl ends \<Rightarrow> (ends, s)
      | Inr options \<Rightarrow>
          (case stbi_load files (sk_input_path options) 0 (fst s) of
             Inl reason \<Rightarrow> ((1, ''imgjit-spike: cannot load '' @ sk_input_path options @ '': '' @ reason @ nl), s)
           | Inr ((width, height, channels), pixels) \<Rightarrow>
               (case spike_compare files contents aot_path sk options (width, height, channels)
                       (take (nat width * nat height * nat channels) pixels) s of
                  (Inl e, s) \<Rightarrow> (catches ''imgjit-spike'' (what e), s)
                | (Inr ends, s) \<Rightarrow> (ends, s))))"

section \<open>Facts\<close>

definition flat_index :: "nat \<times> nat \<Rightarrow> nat" where
  "flat_index = (\<lambda>(block_idx, thread_idx). block_idx * 256 + thread_idx)"

lemma thread_index_flat:
  assumes "flat_index thread < 2 ^ 31"
  shows "thread_index thread = int (flat_index thread)"
proof -
  have "thread_index thread = sint (word_of_int (int (flat_index thread)) :: u32)"
    by (simp add: thread_index_def flat_index_def kBlockSize_def split: prod.split)
  then show ?thesis using sint_u32 [of "int (flat_index thread)"] assms by (simp del: of_int_of_nat_eq)
qed

lemma flat_index_inj: "inj_on flat_index (A \<times> {..<256})"
proof (rule inj_onI)
  fix s t
  assume a: "s \<in> A \<times> {..<256}" "t \<in> A \<times> {..<256}" "flat_index s = flat_index t"
  obtain b i c j where s: "s = (b, i)" "t = (c, j)" by fastforce
  then have "i < 256" "j < 256" "b * 256 + i = c * 256 + j" using a by (auto simp: flat_index_def)
  moreover have "(x * 256 + y) div 256 = x" "(x * 256 + y) mod 256 = y" if "y < 256" for x y :: nat using that by simp_all
  ultimately have "b = c \<and> i = j" by metis
  then show "s = t" using s by simp
qed

lemma invert_cpu_map: "invert_cpu input = map invert_sample input"
proof -
  have "fold (\<lambda>i output. output[i := invert_sample (input ! i)]) [0..<k] (replicate (length input) 0) =
      map invert_sample (take k input) @ replicate (length input - k) 0" if "k \<le> length input" for k
    using that
  proof (induction k)
    case (Suc k)
    then have "replicate (length input - k) (0 :: u8) = 0 # replicate (length input - Suc k) 0"
      by (simp add: Suc_diff_Suc flip: replicate_Suc)
    with Suc show ?case by (simp add: list_update_append take_Suc_conv_app_nth)
  qed simp
  from this [of "length input"] show ?thesis by (simp add: invert_cpu_def)
qed

text \<open>However the threads are ordered, the samples they own are inverted once and no other sample changes.\<close>

lemma run_threads_inverts:
  assumes "distinct (map flat_index threads)" "\<forall>t \<in> set threads. flat_index t < 2 ^ 31"
  shows "\<exists>out. run_threads (int (length data)) threads data = Some out \<and> length out = length data \<and>
    (\<forall>i < length data. out ! i = (if i \<in> flat_index ` set threads then invert_sample (data ! i) else data ! i))"
  using assms
proof (induction threads arbitrary: data)
  case (Cons t threads)
  define data1 where "data1 = (if flat_index t < length data then data[flat_index t := invert_sample (data ! flat_index t)] else data)"
  have step: "invert_u8 (int (length data)) t data = Some data1" "length data1 = length data"
    using thread_index_flat [of t] Cons.prems(2) by (auto simp: invert_u8_def data1_def)
  obtain out where out: "run_threads (int (length data1)) threads data1 = Some out" "length out = length data1"
      "\<forall>i < length data1. out ! i = (if i \<in> flat_index ` set threads then invert_sample (data1 ! i) else data1 ! i)"
    using Cons.IH [of data1] Cons.prems by auto
  have "out ! i = (if i \<in> flat_index ` set (t # threads) then invert_sample (data ! i) else data ! i)" if "i < length data" for i
    using that out(3) step(2) Cons.prems(1) by (cases "i = flat_index t") (auto simp: data1_def)
  with out(1,2) step show ?case by (intro exI [of _ out]) simp
qed simp

lemma spike_grid_covers:
  assumes "n < 2 ^ 31"
  shows "n \<le> spike_grid (int n) * 256" "spike_grid (int n) * 256 \<le> 2 ^ 31"
proof -
  have "unat ((word_of_int (int n) + kBlockSize - 1 :: u32)) = n + 255"
    using assms by (simp add: kBlockSize_def unat_word_ariths unat_of_nat)
  then have "spike_grid (int n) = (n + 255) div 256" by (simp add: spike_grid_def unat_div kBlockSize_def)
  then show "n \<le> spike_grid (int n) * 256" "spike_grid (int n) * 256 \<le> 2 ^ 31" using assms by simp_all
qed

lemma launch_inverts:
  assumes "length data < 2 ^ 31" "distinct order" "set order = set (grid_threads (spike_grid (int (length data))))"
  shows "run_threads (int (length data)) order data = Some (invert_cpu data)"
proof -
  let ?g = "spike_grid (int (length data))"
  note g = spike_grid_covers [OF assms(1)]
  have o: "set order = {..<?g} \<times> {..<256}" using assms(3) by (auto simp: grid_threads_def kBlockSize_def)
  have inj: "inj_on flat_index (set order)" unfolding o by (rule flat_index_inj)
  have small: "flat_index t < ?g * 256" if "t \<in> set order" for t
    using that unfolding o by (cases t) (auto simp: flat_index_def)
  have "i \<in> flat_index ` set order" if "i < length data" for i
  proof -
    have "(i div 256, i mod 256) \<in> set order" unfolding o using that g(1) by (simp add: less_mult_imp_div_less)
    then show ?thesis by (rule rev_image_eqI) (simp add: flat_index_def)
  qed
  moreover obtain out where "run_threads (int (length data)) order data = Some out" "length out = length data"
      "\<forall>i < length data. out ! i = (if i \<in> flat_index ` set order then invert_sample (data ! i) else data ! i)"
    using run_threads_inverts [of order data] small g(2) inj assms(2) by (fastforce simp: distinct_map)
  ultimately show ?thesis by (simp add: invert_cpu_map list_eq_iff_nth_eq)
qed

section \<open>Properties\<close>

text \<open>
  What the driver documents of a module that holds the kernel, over the contents \<open>memory\<close> of device buffers: a copy that succeeds moves
  the bytes, and once a launch and the synchronisation behind it have succeeded, every thread of the grid has run, in an order of the
  driver's choosing.
\<close>

definition holds_invert :: "'d spike_driver \<Rightarrow> ('d \<Rightarrow> nat \<Rightarrow> u8 list) \<Rightarrow> nat \<Rightarrow> bool" where
  "holds_invert sk memory m \<longleftrightarrow>
     (\<forall>p bytes d d'. cuMemcpyHtoD sk p bytes d = ((0, ()), d') \<longrightarrow> memory d' p = bytes) \<and>
     (\<forall>p n d d' bytes. cuMemcpyDtoH sk p n d = ((0, bytes), d') \<longrightarrow> bytes = take n (memory d p)) \<and>
     (\<forall>kernel d0 d1 grid p n d d' d''. cuModuleGetFunction (sk_driver sk) m ''invert_u8'' d0 = ((0, kernel), d1) \<longrightarrow>
        cuLaunchKernel (sk_driver sk) kernel (grid, 1) (unat kBlockSize, 1) 0 [Pointer_Arg p, Int_Arg n] d = ((0, ()), d') \<longrightarrow>
        cuCtxSynchronize sk d' = ((0, ()), d'') \<longrightarrow>
        (\<exists>order. distinct order \<and> set order = set (grid_threads grid) \<and>
           (\<forall>out. run_threads n order (memory d p) = Some out \<longrightarrow> memory d'' p = out)))"

lemma scoped_cases:
  assumes "scoped acquire release body s = (Inr r, s')"
  obtains x s1 s2 where "acquire s = (Inr x, s1)" "body x s1 = (Inr r, s2)"
  using assms by (auto simp: scoped_def elim!: then_act_cases split: prod.splits)

lemma invert_gpu_inverts:
  assumes "holds_invert sk memory m" "length input < 2 ^ 31" "invert_gpu sk m input d = (Inr out, d')"
  shows "out = invert_cpu input"
proof -
  define n where "n = int (length input)"
  have n: "int_count input = n" using sint_u32 [of n] assms(2) by (simp add: int_count_def n_def)
  obtain kernel d1 buffer d2 d3 d4 d5 d6 where c: "cuModuleGetFunction (sk_driver sk) m ''invert_u8'' d = ((0, kernel), d1)"
      "cuMemcpyHtoD sk buffer input d2 = ((0, ()), d3)"
      "cuLaunchKernel (sk_driver sk) kernel (spike_grid n, 1) (unat kBlockSize, 1) 0 [Pointer_Arg buffer, Int_Arg n] d3 = ((0, ()), d4)"
      "cuCtxSynchronize sk d4 = ((0, ()), d5)" "cuMemcpyDtoH sk buffer (length input) d5 = ((0, out), d6)"
    using assms(3) unfolding invert_gpu_def Let_def n
    by (elim then_act_cases scoped_cases) (auto simp: get_function_def dest!: CU_CHECK_returns)
  have "memory d3 buffer = input" "out = take (length input) (memory d5 buffer)" using assms(1) c(2,5) by (auto simp: holds_invert_def)
  moreover obtain order where "distinct order" "set order = set (grid_threads (spike_grid n))"
      "\<forall>out. run_threads n order (memory d3 buffer) = Some out \<longrightarrow> memory d5 buffer = out"
    using assms(1) [unfolded holds_invert_def, THEN conjunct2, THEN conjunct2, rule_format, OF c(1,3,4)] by blast
  ultimately have "memory d5 buffer = invert_cpu input" using launch_inverts [of input order] assms(2) by (simp add: n_def)
  then show ?thesis using \<open>out = take (length input) (memory d5 buffer)\<close> by (simp add: invert_cpu_map)
qed


lemma on_device_cases:
  assumes "on_device m s = (Inr r, s')"
  obtains d d' where "m d = (Inr r, d')"
  using assms by (cases s) (auto simp: on_device_def split: prod.splits)

lemma spike_compare_matches:
  assumes "\<forall>ptx d m d'. cuModuleLoadData (sk_driver sk) ptx d = ((0, m), d') \<longrightarrow> holds_invert sk memory m" "length input < 2 ^ 31"
    and "spike_compare files contents aot_path sk options shape input s = (Inr ends, s')"
  shows "ends = (0, []) \<or> ends = (1, ''imgjit-spike: cannot write '' @ sk_output_path options @ nl)"
proof -
  have inverts: "out = invert_cpu input"
    if "on_device (CudaModule_new (sk_driver sk) ptx) s0 = (Inr m, s1)" "on_device (invert_gpu sk m input) s2 = (Inr out, s3)" for ptx s0 m s1 s2 out s3
  proof -
    have "holds_invert sk memory m"
      using that(1) assms(1) by (elim on_device_cases) (auto simp: CudaModule_new_def dest!: CU_CHECK_returns)
    with that(2) assms(2) show ?thesis by (elim on_device_cases) (rule invert_gpu_inverts)
  qed
  have verdict: ?thesis
    if "on_files (spike_verdict files options shape (invert_cpu input) aot_result jit_result) s1 = (Inr ends, s2)"
      "aot_result = invert_cpu input" "jit_result = invert_cpu input" for aot_result jit_result s1 s2
    using that by (cases s1) (auto simp: on_files_def spike_verdict_def split: prod.splits if_splits)
  from assms(3) show ?thesis unfolding spike_compare_def Let_def
    by (elim then_act_cases scoped_cases) (simp_all only: sum.distinct, rule verdict, assumption, (rule inverts, assumption, assumption)+)
qed

text \<open>
  C38: The spike reports a mismatch only for a broken device. When every module the driver loads holds the kernel, whatever
  order the threads of a launch run in, both results equal the loop on the CPU for every image below 2 GiB: the program exits with 0, or
  it names an error (an unreadable or unwritable file, a failed driver call).
\<close>

theorem spike_never_reports_a_mismatch:
  assumes "\<forall>ptx d m d'. cuModuleLoadData (sk_driver sk) ptx d = ((0, m), d') \<longrightarrow> holds_invert sk memory m"
    and "spike_arguments args = Inr options" "spike_main files contents aot_path sk args (f, d) = ((status, errors), s)"
    and "\<forall>w h c pixels. stbi_load files (sk_input_path options) 0 f = Inr ((w, h, c), pixels) \<longrightarrow> nat w * nat h * nat c < 2 ^ 31"
  shows "status = 0 \<or> errors \<noteq> []"
proof (cases "stbi_load files (sk_input_path options) 0 f")
  case (Inl reason)
  then show ?thesis using assms(2,3) by (auto simp: spike_main_def)
next
  case (Inr loaded)
  obtain w h c pixels where l: "loaded = ((w, h, c), pixels)" by (metis surj_pair)
  define input where "input = take (nat w * nat h * nat c) pixels"
  have "nat w * nat h * nat c < 2 ^ 31" using assms(4) Inr l by blast
  then have small: "length input < 2 ^ 31" by (simp add: input_def)
  obtain r s1 where r: "spike_compare files contents aot_path sk options (w, h, c) input (f, d) = (r, s1)" by (metis surj_pair)
  show ?thesis
  proof (cases r)
    case (Inl e)
    then show ?thesis using assms(2,3) Inr l r by (auto simp: spike_main_def input_def catches_def)
  next
    case ends: (Inr ends)
    then show ?thesis
      using spike_compare_matches [OF assms(1) small r [unfolded ends]] assms(2,3) Inr l r by (auto simp: spike_main_def input_def)
  qed
qed

text \<open>A device whose state is the contents of its buffers, and which runs the threads of a launch one after the other.\<close>

definition memory_driver :: "(nat \<Rightarrow> u8 list) cuda_driver" where
  "memory_driver = \<lparr>cuGetErrorName = (\<lambda>_. None), cuGetErrorString = (\<lambda>_. None), cuInit = ok_call (), cuDeviceGet = (\<lambda>_. ok_call 1),
     cuDeviceGetAttribute = (\<lambda>_ _. ok_call 7), cuCtxCreate = (\<lambda>_. ok_call 1), cuCtxDestroy = (\<lambda>_. ok_call ()),
     cuModuleLoadData = (\<lambda>_. ok_call 1), cuModuleGetFunction = (\<lambda>_ _. ok_call 1), cuModuleUnload = (\<lambda>_. ok_call ()),
     cuMemAlloc = (\<lambda>_. ok_call 1), cuMemFree = (\<lambda>_. ok_call ()), cuMemAllocHost = (\<lambda>_. ok_call 1), cuMemFreeHost = (\<lambda>_. ok_call ()),
     cuMemHostRegister = (\<lambda>_ _. ok_call ()), cuMemHostUnregister = (\<lambda>_. ok_call ()),
     cuStreamCreate = ok_call 1, cuStreamDestroy = (\<lambda>_. ok_call ()), cuEventCreate = (\<lambda>_. ok_call 1), cuEventDestroy = (\<lambda>_. ok_call ()),
     cuEventRecord = (\<lambda>_ _. ok_call ()), cuEventQuery = (\<lambda>_. ok_call ()), cuEventSynchronize = (\<lambda>_. ok_call ()),
     cuEventElapsedTime = (\<lambda>_ _. ok_call 1), cuMemcpyHtoDAsync = (\<lambda>_ _ _ _. ok_call ()), cuMemcpyDtoHAsync = (\<lambda>_ _ _ _. ok_call ()),
     cuLaunchKernel = (\<lambda>_ (grid, _) _ _ arguments d. ((0, ()), case arguments of
        [Pointer_Arg p, Int_Arg n] \<Rightarrow> (case run_threads n (grid_threads grid) (d p) of None \<Rightarrow> d | Some out \<Rightarrow> d(p := out)) | _ \<Rightarrow> d)),
     host_bytes = (\<lambda>_ _. []), operator_new = (\<lambda>_ _ d. (4096, d)),
     operator_delete = (\<lambda>_ d. d), sysconf_page_size = 4096, nvrtcGetErrorString = (\<lambda>_. ''error''),
     nvrtcCreateProgram = (\<lambda>_ _. ok_call 1), nvrtcDestroyProgram = (\<lambda>_. ok_call ()), nvrtcCompileProgram = (\<lambda>_ _. ok_call ()),
     nvrtcGetProgramLogSize = (\<lambda>_. ok_call 1), nvrtcGetProgramLog = (\<lambda>_. ok_call []), nvrtcGetPTXSize = (\<lambda>_. ok_call 4),
     nvrtcGetPTX = (\<lambda>_. ok_call ''ptx'')\<rparr>"

definition memory_spike :: "(nat \<Rightarrow> u8 list) spike_driver" where
  "memory_spike = \<lparr>sk_driver = memory_driver, cuMemcpyHtoD = (\<lambda>p bytes d. ((0, ()), d(p := bytes))),
     cuMemcpyDtoH = (\<lambda>p n d. ((0, take n (d p)), d)), cuCtxSynchronize = ok_call ()\<rparr>"

lemma memory_spike_holds: "holds_invert memory_spike (\<lambda>d. d) m"
proof -
  have "distinct (grid_threads grid)" for grid by (simp add: grid_threads_def distinct_product)
  then show ?thesis
    unfolding holds_invert_def by (auto simp: memory_spike_def memory_driver_def ok_call_def intro: exI [of _ "grid_threads grid" for grid])
qed

lemma memory_device:
  "\<exists>out d'. invert_gpu memory_spike m input d = (Inr out, d')"
  "CudaModule_new memory_driver ptx d = (Inr 1, d)" "CudaContext_new memory_driver 0 d = (Inr \<lparr>cc_device = 1, cc_context = 1\<rparr>, d)"
  "\<exists>arch. compute_arch memory_driver c d = (Inr arch, d)" "\<exists>ptx. compile_to_ptx memory_driver cuda name arch d = (Inr ptx, d)"
proof -
  note calls = memory_driver_def ok_call_def CUDA_SUCCESS_def then_act_def scoped_def CU_CHECK_def cu_check_def NVRTC_CHECK_def nvrtc_check_def
  show "\<exists>out d'. invert_gpu memory_spike m input d = (Inr out, d')"
    by (simp add: calls invert_gpu_def Let_def get_function_def DeviceBuffer_new_def memory_spike_def split: prod.split)
  show "CudaModule_new memory_driver ptx d = (Inr 1, d)" "CudaContext_new memory_driver 0 d = (Inr \<lparr>cc_device = 1, cc_context = 1\<rparr>, d)"
      "\<exists>arch. compute_arch memory_driver c d = (Inr arch, d)"
    by (simp_all add: calls CudaModule_new_def CudaContext_new_def compute_arch_def)
  show "\<exists>ptx. compile_to_ptx memory_driver cuda name arch d = (Inr ptx, d)"
    by (simp add: calls compile_to_ptx_def nvrtc_outputs_def nvrtc_results_def read_sized_def)
qed

lemma memory_compare:
  assumes "sk_output_path options = []" "sk_dump_ptx_path options = []"
  shows "\<exists>ends s'. spike_compare files (\<lambda>_ _. Some ''ptx'') path memory_spike options shape input (f, d) = (Inr ends, s') \<and> snd ends = []"
proof -
  obtain aot d1 where 1: "invert_gpu memory_spike 1 input d = (Inr aot, d1)" using memory_device(1) by blast
  obtain jit d2 where 2: "invert_gpu memory_spike 1 input d1 = (Inr jit, d2)" using memory_device(1) by blast
  obtain arch0 arch where 3: "compute_arch memory_driver \<lparr>cc_device = 1, cc_context = 1\<rparr> d = (Inr arch0, d)"
      "compute_arch memory_driver \<lparr>cc_device = 1, cc_context = 1\<rparr> d1 = (Inr arch, d1)" using memory_device(4) by meson
  obtain ptx where 4: "compile_to_ptx memory_driver kInvertSource ''invert.cu'' arch d1 = (Inr ptx, d1)" using memory_device(5) by blast
  have "sk_driver memory_spike = memory_driver" by (simp add: memory_spike_def)
  with 1 2 3 4 assms show ?thesis
    by (simp add: spike_compare_def scoped_def then_act_def on_device_def on_files_def memory_device(2,3) read_file_def spike_verdict_def
        split: prod.splits)
qed

theorem spike_never_reports_a_mismatch_witness:
  "fst (fst (spike_main memory_files (\<lambda>_ _. Some ''ptx'') ''invert.ptx'' memory_spike [''in.png''] ([''in.png'' \<mapsto> ((1, 1, 3), [1, 2, 3])], \<lambda>_. []))) = 0"
proof -
  let ?f = "[''in.png'' \<mapsto> ((1, 1, 3), [1, 2, 3 :: u8])]"
  define options where "options = \<lparr>sk_input_path = ''in.png'', sk_output_path = [], sk_dump_ptx_path = []\<rparr>"
  have a: "spike_arguments [''in.png''] = Inr options" by (simp add: spike_arguments_def spike_alone_def is_option_def options_def)
  obtain status errors s where main: "spike_main memory_files (\<lambda>_ _. Some ''ptx'') ''invert.ptx'' memory_spike [''in.png''] (?f, \<lambda>_. []) = ((status, errors), s)"
    by (metis surj_pair)
  have load: "stbi_load memory_files (sk_input_path options) 0 ?f = Inr ((1, 1, 3), [1, 2, 3])"
    by (simp add: memory_files_def png_library.defs memory_png_def options_def plausible_def)
  have "status = 0 \<or> errors \<noteq> []"
    by (rule spike_never_reports_a_mismatch [OF _ a main]) (use memory_spike_holds load in auto)
  moreover have o: "sk_output_path options = []" "sk_dump_ptx_path options = []" by (simp_all add: options_def)
  moreover obtain ends s' where "spike_compare memory_files (\<lambda>_ _. Some ''ptx'') ''invert.ptx'' memory_spike options (1, 1, 3) [1, 2, 3] (?f, \<lambda>_. []) = (Inr ends, s')"
      "snd ends = []"
    using memory_compare [of options memory_files "''invert.ptx''" "(1, 1, 3)" "[1, 2, 3]" ?f "\<lambda>_. []"] o by blast
  then have "errors = []" using main a load by (simp add: spike_main_def)
  ultimately show ?thesis using main by simp
qed

end
