(* ===== verification/Bench.thy ===== *)
theory Bench
  imports Tool_Args Client Backend
begin

text \<open>
  The timing harness \<open>bench/imgjit-bench.cpp\<close>: the synthetic frame, the closed loop of a connection, the percentiles and the
  summary. A duration is a \<open>double\<close> number of milliseconds between two readings of \<open>steady_clock\<close>, which counts nanoseconds;
  \<open>clock n\<close> is the reading number \<open>n\<close> of the connection's thread.
\<close>

section \<open>The synthetic frame\<close>

definition lcg_next :: "u32 \<Rightarrow> u32" where
  "lcg_next state = state * 1664525 + 1013904223"

definition lcg_sample :: "u32 \<Rightarrow> u8" where
  "lcg_sample state = ucast (drop_bit 24 state)"

definition write_sample :: "nat \<Rightarrow> nat \<Rightarrow> nat \<Rightarrow> u32 \<times> image \<Rightarrow> u32 \<times> image" where
  "write_sample x y c = (\<lambda>(state, image).
     let state = lcg_next state in (state, set_at image x y c (lcg_sample state)))"

definition synthetic_frame :: "int \<Rightarrow> int \<Rightarrow> int \<Rightarrow> image result" where
  "synthetic_frame width height channels =
     bind_result (new_image width height channels) (\<lambda>image.
       Inr (snd (fold (\<lambda>y. fold (\<lambda>x. fold (write_sample x y) [0..<nat channels]) [0..<nat width]) [0..<nat height]
                   (0x9e3779b9, image))))"

section \<open>Percentiles\<close>

definition percentile :: "rat list \<Rightarrow> rat \<Rightarrow> rat" where
  "percentile sample fraction =
     (if sample = [] then 0
      else let rank = nat \<lceil>f64 (fraction * f64 (of_nat (length sample)))\<rceil>;
               index = (if rank = 0 then 0 else rank - 1)
           in sample ! min index (length sample - 1))"

definition milliseconds_between :: "int \<Rightarrow> int \<Rightarrow> rat" where
  "milliseconds_between started now = f64 (f64 (of_int (now - started)) / 1000000)"

section \<open>One connection\<close>

record bench_result =
  br_latencies_ms :: "rat list"
  br_first_frame_ms :: rat
  br_failures :: u64
  br_error :: string

definition no_result :: bench_result where
  "no_result = \<lparr>br_latencies_ms = [], br_first_frame_ms = 0, br_failures = 0, br_error = []\<rparr>"

record bench_loop =
  bl_client :: client
  bl_sent :: int
  bl_received :: int
  bl_result :: bench_result
  bl_reads :: nat

text \<open>\<open>Inl\<close> is a loop that ended early, by \<open>return\<close> or by an exception.\<close>

definition bench_send :: "(nat \<Rightarrow> int) \<Rightarrow> image \<Rightarrow> string \<Rightarrow> u8 \<Rightarrow> bench_loop \<Rightarrow> bench_loop + bench_loop" where
  "bench_send clock frame chain flags l =
     (case client_send (clock (bl_reads l)) frame chain flags (bl_client l) of
        (Inl e, c) \<Rightarrow> Inl (l\<lparr>bl_client := c, bl_reads := bl_reads l + 1, bl_result := (bl_result l)\<lparr>br_error := what e\<rparr>\<rparr>)
      | (Inr _, c) \<Rightarrow> Inr (l\<lparr>bl_client := c, bl_reads := bl_reads l + 1, bl_sent := bl_sent l + 1\<rparr>))"

fun bench_fill :: "(nat \<Rightarrow> int) \<Rightarrow> image \<Rightarrow> string \<Rightarrow> u8 \<Rightarrow> nat \<Rightarrow> bench_loop \<Rightarrow> bench_loop + bench_loop" where
  "bench_fill clock frame chain flags 0 l = Inr l"
| "bench_fill clock frame chain flags (Suc n) l =
     bind_result (bench_send clock frame chain flags l) (bench_fill clock frame chain flags n)"

definition bench_record :: "client_response \<Rightarrow> int \<Rightarrow> rat \<Rightarrow> bench_result \<Rightarrow> bench_result" where
  "bench_record response received latency_ms result =
     (if cr_status response \<noteq> kOk then result\<lparr>br_failures := br_failures result + 1\<rparr>
      else if received = 1 then result\<lparr>br_first_frame_ms := latency_ms\<rparr>
      else result\<lparr>br_latencies_ms := br_latencies_ms result @ [latency_ms]\<rparr>)"

definition bench_round :: "(nat \<Rightarrow> int) \<Rightarrow> image \<Rightarrow> string \<Rightarrow> u8 \<Rightarrow> int \<Rightarrow> bench_loop \<Rightarrow> bench_loop + bench_loop" where
  "bench_round clock frame chain flags frames l =
     (case client_receive (bl_client l) of
        (Inl e, c) \<Rightarrow> Inl (l\<lparr>bl_client := c, bl_result := (bl_result l)\<lparr>br_error := what e\<rparr>\<rparr>)
      | (Inr response, c) \<Rightarrow>
          (let latency_ms = (if cr_matched response then milliseconds_between (pf_sent_at (cr_request response)) (clock (bl_reads l)) else 0);
               l = l\<lparr>bl_client := c, bl_received := bl_received l + 1, bl_reads := bl_reads l + (if cr_matched response then 1 else 0)\<rparr>
           in if \<not> cr_matched response
              then Inl (l\<lparr>bl_result := (bl_result l)\<lparr>br_error := ''server answered a seq_num that was never sent''\<rparr>\<rparr>)
              else let l = l\<lparr>bl_result := bench_record response (bl_received l) latency_ms (bl_result l)\<rparr>
                   in if bl_sent l < frames then bench_send clock frame chain flags l else Inr l))"

lemma bench_send_fields:
  assumes "bench_send clock frame chain flags l = Inr l'"
  shows "bl_received l' = bl_received l" "bl_sent l' = bl_sent l + 1" "bl_result l' = bl_result l"
  using assms by (auto simp: bench_send_def split: prod.splits sum.splits)

lemma bench_round_received: "bench_round clock frame chain flags frames l = Inr l' \<Longrightarrow> bl_received l' = bl_received l + 1"
  by (auto simp: bench_round_def Let_def dest: bench_send_fields split: prod.splits sum.splits if_splits)

function bench_while :: "(nat \<Rightarrow> int) \<Rightarrow> image \<Rightarrow> string \<Rightarrow> u8 \<Rightarrow> int \<Rightarrow> bench_loop \<Rightarrow> bench_loop + bench_loop" where
  "bench_while clock frame chain flags frames l =
     (if bl_received l < frames
      then (case bench_round clock frame chain flags frames l of
              Inl ended \<Rightarrow> Inl ended
            | Inr l' \<Rightarrow> bench_while clock frame chain flags frames l')
      else Inr l)"
  by pat_completeness auto
termination
  by (relation "measure (\<lambda>(clock, frame, chain, flags, frames, l). nat (frames - bl_received l))")
    (auto dest: bench_round_received)

declare bench_while.simps [simp del]

text \<open>The constructor of the client may throw as well.\<close>

definition run_connection :: "(nat \<Rightarrow> int) \<Rightarrow> client result \<Rightarrow> image \<Rightarrow> string \<Rightarrow> int \<Rightarrow> int \<Rightarrow> u8 \<Rightarrow> bench_result" where
  "run_connection clock made frame chain frames window flags =
     (case made of
        Inl e \<Rightarrow> no_result\<lparr>br_error := what e\<rparr>
      | Inr c \<Rightarrow>
          (case bind_result (bench_fill clock frame chain flags (nat (min window frames))
                  \<lparr>bl_client = c, bl_sent = 0, bl_received = 0, bl_result = no_result, bl_reads = 0\<rparr>)
                (bench_while clock frame chain flags frames) of
             Inl l \<Rightarrow> bl_result l
           | Inr l \<Rightarrow> bl_result l))"

section \<open>Options and summary\<close>

record bench_options =
  bo_host :: string
  bo_port :: u16
  bo_connections :: int
  bo_frames :: int
  bo_window :: int
  bo_width :: int
  bo_height :: int
  bo_channels :: int
  bo_echo :: bool
  bo_label :: string
  bo_csv_path :: string
  bo_chains :: "string list"

definition bench_defaults :: bench_options where
  "bench_defaults = \<lparr>bo_host = ''127.0.0.1'', bo_port = 0, bo_connections = 1, bo_frames = 100, bo_window = 2, bo_width = 512,
     bo_height = 512, bo_channels = 3, bo_echo = True, bo_label = ''run'', bo_csv_path = [], bo_chains = []\<rparr>"

definition bench_usage :: string where
  "bench_usage =
     ''usage: imgjit-bench [options]'' @ nl @
     ''  --host <ip>          default 127.0.0.1'' @ nl @
     ''  --port <n>           required'' @ nl @
     ''  --connections <n>    concurrent clients (default 1)'' @ nl @
     ''  --frames <n>         frames per connection (default 100)'' @ nl @
     ''  --window <n>         frames in flight per connection (default 2)'' @ nl @
     ''  --width/--height <n> synthetic frame size (default 512x512)'' @ nl @
     ''  --channels <1|3|4>   default 3'' @ nl @
     ''  --ops '' @ dq @ ''<chain>'' @ dq @ ''      repeatable; connection i uses chain i % count'' @ nl @
     ''  --no-echo            do not ask for the result back over the wire'' @ nl @
     ''  --label <name>       tag for the CSV row (default '' @ dq @ ''run'' @ dq @ '')'' @ nl @
     ''  --csv <file>         append one row, writing the header if new'' @ nl"

definition bench_with_value :: "string \<Rightarrow> string \<Rightarrow> bench_options \<Rightarrow> (tool_exit + bench_options) option" where
  "bench_with_value argument value options =
     (if argument = ''--host'' then Some (Inr (options\<lparr>bo_host := value\<rparr>))
      else if argument = ''--port'' then Some (Inr (options\<lparr>bo_port := word_of_int (atoi value)\<rparr>))
      else if argument = ''--connections'' then Some (Inr (options\<lparr>bo_connections := atoi value\<rparr>))
      else if argument = ''--frames'' then Some (Inr (options\<lparr>bo_frames := atoi value\<rparr>))
      else if argument = ''--window'' then Some (Inr (options\<lparr>bo_window := atoi value\<rparr>))
      else if argument = ''--width'' then Some (Inr (options\<lparr>bo_width := atoi value\<rparr>))
      else if argument = ''--height'' then Some (Inr (options\<lparr>bo_height := atoi value\<rparr>))
      else if argument = ''--channels'' then Some (Inr (options\<lparr>bo_channels := atoi value\<rparr>))
      else if argument = ''--ops'' then Some (Inr (options\<lparr>bo_chains := bo_chains options @ [value]\<rparr>))
      else if argument = ''--label'' then Some (Inr (options\<lparr>bo_label := value\<rparr>))
      else if argument = ''--csv'' then Some (Inr (options\<lparr>bo_csv_path := value\<rparr>))
      else None)"

definition bench_alone :: "string \<Rightarrow> bench_options \<Rightarrow> tool_exit + bench_options" where
  "bench_alone argument options =
     (if argument = ''--no-echo'' then Inr (options\<lparr>bo_echo := False\<rparr>)
      else Inl (unexpected ''imgjit-bench'' bench_usage argument))"

definition bench_check :: "bench_options \<Rightarrow> tool_exit + bench_options" where
  "bench_check options =
     (if bo_port options = 0 \<or> bo_connections options < 1 \<or> bo_frames options < 1 \<or> bo_window options < 1 \<or>
         bo_width options < 1 \<or> bo_height options < 1 \<or> \<not> is_supported_channel_count (bo_channels options)
      then Inl (2, bench_usage)
      else Inr (if bo_chains options = [] then options\<lparr>bo_chains := [[]]\<rparr> else options))"

definition bench_arguments :: "string list \<Rightarrow> tool_exit + bench_options" where
  "bench_arguments args = bind_result (arguments_loop bench_with_value bench_alone args bench_defaults) bench_check"

record bench_summary =
  bs_latencies :: "rat list"
  bs_cold_first_ms :: rat
  bs_failures :: u64

text \<open>The loop over the results; a connection that died is reported and makes the run fail.\<close>

definition bench_collect :: "bench_result list \<Rightarrow> string \<times> bench_summary" where
  "bench_collect results =
     fold (\<lambda>result (errors, summary).
       if br_error result \<noteq> []
       then (errors @ ''imgjit-bench: connection failed: '' @ br_error result @ nl, summary)
       else (errors, summary\<lparr>bs_latencies := bs_latencies summary @ br_latencies_ms result,
                             bs_cold_first_ms := max (bs_cold_first_ms summary) (br_first_frame_ms result),
                             bs_failures := bs_failures summary + br_failures result\<rparr>))
       results ([], \<lparr>bs_latencies = [], bs_cold_first_ms = 0, bs_failures = 0\<rparr>)"

record bench_row =
  row_fps :: rat
  row_req_mb_per_s :: rat
  row_p50 :: rat
  row_p99 :: rat
  row_mean :: rat
  row_max :: rat
  row_cold_first_ms :: rat
  row_failures :: u64

definition bench_row_of :: "bench_options \<Rightarrow> nat \<Rightarrow> rat \<Rightarrow> bench_summary \<Rightarrow> bench_row" where
  "bench_row_of options payload_bytes elapsed_ms summary =
     (let latencies = sort (bs_latencies summary);
          total = foldl (\<lambda>mean value. f64 (mean + value)) 0 latencies;
          total_frames = f64 (of_int (bo_connections options) * of_int (bo_frames options));
          seconds = f64 (elapsed_ms / 1000)
      in \<lparr>row_fps = (if elapsed_ms > 0 then f64 (total_frames / seconds) else 0),
          row_req_mb_per_s = (if elapsed_ms > 0
            then f64 (f64 (f64 (total_frames * f64 (of_nat payload_bytes)) / seconds) / (1024 * 1024)) else 0),
          row_p50 = percentile latencies (f64 (50 / 100)), row_p99 = percentile latencies (f64 (99 / 100)),
          row_mean = (if latencies = [] then 0 else f64 (total / f64 (of_nat (length latencies)))),
          row_max = (if latencies = [] then 0 else last latencies),
          row_cold_first_ms = bs_cold_first_ms summary, row_failures = bs_failures summary\<rparr>)"

text \<open>
  \<open>connect i\<close> is the client that connection \<open>i\<close> gets, \<open>clocks i\<close> its clock, \<open>elapsed_ms\<close> the duration of the run, and
  \<open>can_append\<close> whether the CSV file opens. The row is what goes to the file.
\<close>

definition bench_main :: "(nat \<Rightarrow> nat \<Rightarrow> int) \<Rightarrow> (nat \<Rightarrow> client result) \<Rightarrow> rat \<Rightarrow> (string \<Rightarrow> bool) \<Rightarrow> string list \<Rightarrow>
    tool_exit \<times> bench_row option" where
  "bench_main clocks connect elapsed_ms can_append args =
     (case bench_arguments args of
        Inl ends \<Rightarrow> (ends, None)
      | Inr options \<Rightarrow>
          (let flags = (if bo_echo options then kFlagEcho else 0)
           in case synthetic_frame (bo_width options) (bo_height options) (bo_channels options) of
                Inl e \<Rightarrow> (catches ''imgjit-bench'' (what e), None)
              | Inr frame \<Rightarrow>
                  (let results = map (\<lambda>i. run_connection (clocks i) (connect i) frame
                         (bo_chains options ! (i mod length (bo_chains options))) (bo_frames options) (bo_window options) flags)
                         [0..<nat (bo_connections options)]
                   in case bench_collect results of (errors, summary) \<Rightarrow>
                        if errors \<noteq> [] then ((1, errors), None)
                        else let row = bench_row_of options (byte_count frame) elapsed_ms summary;
                                 failed = (if bs_failures summary > 0
                                   then ''imgjit-bench: '' @ show_nat (unat (bs_failures summary)) @ '' frames came back with an error status'' @ nl else [])
                             in if bo_csv_path options \<noteq> [] \<and> \<not> can_append (bo_csv_path options)
                                then ((1, failed @ ''imgjit-bench: cannot write '' @ bo_csv_path options @ nl), None)
                                else ((if bs_failures summary = 0 then 0 else 1, failed),
                                      if bo_csv_path options \<noteq> [] then Some row else None))))"

section \<open>The closed loop\<close>

text \<open>The states between two rounds.\<close>

inductive bench_visited :: "(nat \<Rightarrow> int) \<Rightarrow> client \<Rightarrow> image \<Rightarrow> string \<Rightarrow> int \<Rightarrow> int \<Rightarrow> u8 \<Rightarrow> bench_loop \<Rightarrow> bool"
  for clock c frame chain frames window flags where
  visited_start: "bench_fill clock frame chain flags (nat (min window frames))
      \<lparr>bl_client = c, bl_sent = 0, bl_received = 0, bl_result = no_result, bl_reads = 0\<rparr> = Inr l \<Longrightarrow>
    bench_visited clock c frame chain frames window flags l"
| visited_round: "bench_visited clock c frame chain frames window flags l \<Longrightarrow> bl_received l < frames \<Longrightarrow>
    bench_round clock frame chain flags frames l = Inr l' \<Longrightarrow> bench_visited clock c frame chain frames window flags l'"

text \<open>The pending table holds one entry per frame in flight, under numbers already used.\<close>

definition in_step :: "bench_loop \<Rightarrow> bool" where
  "in_step l \<longleftrightarrow> 0 \<le> bl_received l \<and> bl_received l \<le> bl_sent l \<and> cl_next_seq_num (bl_client l) = of_int (bl_sent l + 1) \<and>
     (\<forall>q \<in> dom (cl_pending (bl_client l)). uint q \<le> bl_sent l) \<and> finite (dom (cl_pending (bl_client l))) \<and>
     int (card (dom (cl_pending (bl_client l)))) = bl_sent l - bl_received l \<and>
     (\<exists>first \<in> {0, 1}. int (length (br_latencies_ms (bl_result l))) + uint (br_failures (bl_result l)) + first = bl_received l)"

lemma in_step_send:
  assumes "in_step l" "bench_send clock frame chain flags l = Inr l'" "bl_sent l + 1 < 2 ^ 31"
  shows "in_step l'"
proof -
  obtain q c' where c: "client_send (clock (bl_reads l)) frame chain flags (bl_client l) = (Inr q, c')"
      "l' = l\<lparr>bl_client := c', bl_reads := bl_reads l + 1, bl_sent := bl_sent l + 1\<rparr>"
    using assms(2) by (auto simp: bench_send_def split: prod.splits sum.splits)
  note p = client_send_pending [OF c(1)]
  have s: "0 \<le> bl_sent l" "cl_next_seq_num (bl_client l) = of_int (bl_sent l + 1)" using assms(1) by (auto simp: in_step_def)
  have q: "uint q = bl_sent l + 1"
    unfolding p(1) s(2) using s(1) assms(3) by (subst uint_word_of_int_eq, intro take_bit_int_eq_self) auto
  then have "q \<notin> dom (cl_pending (bl_client l))" using assms(1) unfolding in_step_def by force
  moreover have "q + 1 = of_int (bl_sent l + 1 + 1)" using p(1) s(2) by simp
  moreover have "\<forall>q \<in> dom (cl_pending (bl_client l)). uint q \<le> bl_sent l + 1" using assms(1) unfolding in_step_def by force
  ultimately show ?thesis using assms(1) p q unfolding in_step_def c(2) by (auto simp del: dom_def)
qed

lemma bench_record_counts:
  assumes "result' = bench_record response (received + 1) latency result"
    and "\<exists>first \<in> {0, 1}. int (length (br_latencies_ms result)) + uint (br_failures result) + first = received" "received < 2 ^ 31"
  shows "\<exists>first \<in> {0, 1}. int (length (br_latencies_ms result')) + uint (br_failures result') + first = received + 1"
proof -
  obtain first where f: "first \<in> {0, 1 :: int}" "int (length (br_latencies_ms result)) + uint (br_failures result) + first = received"
    using assms(2) by blast
  have n: "0 \<le> uint (br_failures result)" by simp
  then have "uint (br_failures result) + uint (1 :: u64) < 2 ^ LENGTH(64)" using f assms(3) by auto
  then have inc: "uint (br_failures result + 1) = uint (br_failures result) + 1" by (simp only: uint_add_lem) simp
  show ?thesis
  proof (cases "cr_status response = kOk \<and> received + 1 = 1")
    case True
    then have "br_latencies_ms result' = br_latencies_ms result" "br_failures result' = br_failures result"
      using assms(1) by (simp_all add: bench_record_def)
    moreover have "0 \<le> first" "received = 0" using f(1) True by auto
    then have "first = 0" "int (length (br_latencies_ms result)) = 0" "uint (br_failures result) = 0" using f(2) n by linarith+
    ultimately show ?thesis using f True by (intro bexI [of _ 1]) auto
  next
    case False
    then have "int (length (br_latencies_ms result')) + uint (br_failures result') = int (length (br_latencies_ms result)) + uint (br_failures result) + 1"
      using assms(1) inc by (auto simp: bench_record_def)
    then show ?thesis using f by (intro bexI [of _ first]) auto
  qed
qed

lemma in_step_round:
  assumes "in_step l" "bench_round clock frame chain flags frames l = Inr l'" "frames < 2 ^ 31" "bl_received l < frames" "bl_sent l \<le> frames"
    "bl_received l < bl_sent l"
  shows "in_step l' \<and> bl_sent l' = min frames (bl_sent l + 1)"
proof -
  obtain response c' where c: "client_receive (bl_client l) = (Inr response, c')" "cr_matched response"
    using assms(2) by (auto simp: bench_round_def Let_def split: prod.splits sum.splits if_splits)
  note p = client_receive_pending [OF c]
  define latency where "latency = milliseconds_between (pf_sent_at (cr_request response)) (clock (bl_reads l))"
  define l1 where "l1 = l\<lparr>bl_client := c', bl_received := bl_received l + 1, bl_reads := bl_reads l + 1,
      bl_result := bench_record response (bl_received l + 1) latency (bl_result l)\<rparr>"
  have l': "(if bl_sent l1 < frames then bench_send clock frame chain flags l1 else Inr l1) = Inr l'"
    using assms(2) c by (cases "bl_sent l < frames") (auto simp: bench_round_def Let_def l1_def latency_def)
  obtain q where q: "q \<in> dom (cl_pending (bl_client l))" "dom (cl_pending c') = dom (cl_pending (bl_client l)) - {q}" using p(2) by blast
  have "finite (dom (cl_pending (bl_client l)))" by simp
  then have "Suc (card (dom (cl_pending c'))) = card (dom (cl_pending (bl_client l)))" unfolding q(2) by (rule card_Suc_Diff1 [OF _ q(1)])
  moreover have "\<exists>first \<in> {0, 1}. int (length (br_latencies_ms (bl_result l1))) + uint (br_failures (bl_result l1)) + first = bl_received l + 1"
    by (rule bench_record_counts [of _ response _ latency "bl_result l"]) (use assms(1,3,4) in \<open>auto simp: l1_def in_step_def\<close>)
  ultimately have "in_step l1" using assms(1,6) p(1) q(2) unfolding in_step_def by (auto simp: l1_def)
  then show ?thesis using l' in_step_send [of l1] bench_send_fields(2) [of clock frame chain flags l1 l'] assms(3,5)
    by (auto simp: l1_def min_def split: if_splits)
qed

lemma in_step_fill:
  assumes "in_step l" "bench_fill clock frame chain flags n l = Inr l'" "bl_sent l + int n < 2 ^ 31"
  shows "in_step l' \<and> bl_sent l' = bl_sent l + int n \<and> bl_received l' = bl_received l"
  using assms
proof (induction n arbitrary: l)
  case (Suc n)
  obtain l1 where l1: "bench_send clock frame chain flags l = Inr l1" "bench_fill clock frame chain flags n l1 = Inr l'"
    using Suc.prems(2) by (auto simp: bind_result_eq_Inr)
  have "in_step l1" by (rule in_step_send [OF Suc.prems(1) l1(1)]) (use Suc.prems(3) in simp)
  from Suc.IH [OF this l1(2)] bench_send_fields [OF l1(1)] Suc.prems(3) show ?case by simp
qed simp

lemma bench_while_visits:
  assumes "bench_while clock frame chain flags frames l = Inr l'" "bench_visited clock c frame chain frames window flags l"
  shows "bench_visited clock c frame chain frames window flags l' \<and> frames \<le> bl_received l'"
  using assms
proof (induction clock frame chain flags frames l rule: bench_while.induct)
  case (1 clock frame chain flags frames l)
  show ?case
  proof (cases "bl_received l < frames")
    case True
    then obtain l1 where l1: "bench_round clock frame chain flags frames l = Inr l1" "bench_while clock frame chain flags frames l1 = Inr l'"
      using 1(2) by (subst (asm) bench_while.simps) (auto split: sum.splits)
    from 1(1) [OF True l1(1) l1(2) visited_round [OF 1(3) True l1(1)]] show ?thesis .
  next
    case False
    then show ?thesis using 1(2,3) by (subst (asm) bench_while.simps) simp
  qed
qed

lemma visited_in_step:
  assumes "bench_visited clock (new_client inbound sends) frame chain frames window flags l" "1 \<le> window" "1 \<le> frames" "frames < 2 ^ 31"
  shows "in_step l \<and> bl_sent l = min frames (bl_received l + window) \<and> bl_received l \<le> frames"
  using assms(1)
proof (induction rule: bench_visited.induct)
  case (visited_start l)
  define l0 where "l0 = \<lparr>bl_client = new_client inbound sends, bl_sent = 0, bl_received = 0, bl_result = no_result, bl_reads = 0\<rparr>"
  have "in_step l0" by (simp add: in_step_def l0_def new_client_def no_result_def)
  from in_step_fill [OF this visited_start [folded l0_def]] assms(2-4) show ?case by (auto simp: l0_def min_def split: if_splits)
next
  case (visited_round l l')
  from visited_round.IH in_step_round [OF _ visited_round.hyps(3) assms(4) visited_round.hyps(2)] bench_round_received [OF visited_round.hyps(3)]
    visited_round.hyps(2) assms(2) show ?case by (auto simp: min_def split: if_splits)
qed

section \<open>The pixels of the synthetic frame\<close>

definition filled :: "image \<Rightarrow> nat \<Rightarrow> nat \<Rightarrow> u32 \<times> image" where
  "filled img room n = ((lcg_next ^^ n) 0x9e3779b9,
     img\<lparr>im_pixels := map (\<lambda>i. lcg_sample ((lcg_next ^^ Suc i) 0x9e3779b9)) [0..<n] @ replicate (room - n) 0\<rparr>)"

lemma write_sample_filled:
  assumes "pixel_pos img x y c = n" "n < room"
  shows "write_sample x y c (filled img room n) = filled img room (Suc n)"
proof -
  have "pixel_pos (snd (filled img room n)) x y c = n" using assms(1) by (simp add: filled_def pixel_pos_def)
  moreover have "replicate (room - n) 0 = (0 :: u8) # replicate (room - Suc n) 0"
    using assms(2) by (metis Suc_diff_Suc replicate_Suc)
  ultimately show ?thesis by (simp add: write_sample_def filled_def set_at_def Let_def list_update_append)
qed

lemma fold_filled:
  assumes "\<And>i. i < k \<Longrightarrow> f i (filled img room (start + i * width)) = filled img room (start + Suc i * width)"
  shows "fold f [0..<k] (filled img room start) = filled img room (start + k * width)"
  using assms by (induction k) simp_all

lemma synthetic_frame_filled:
  assumes "new_image w h c = Inr img"
  shows "synthetic_frame w h c = Inr (snd (filled img (nat w * nat c * nat h) (nat w * nat c * nat h)))"
proof -
  let ?t = "nat w * nat c * nat h"
  note n = new_image_Inr [OF assms]
  have st: "im_stride img = nat w * nat c" "nat (im_channels img) = nat c" using n by (auto simp: image_wf_def)
  have less: "y * (nat w * nat c) + x * nat c + i < ?t" if "x < nat w" "y < nat h" "i < nat c" for x y i
  proof -
    have "x * nat c + i < nat w * nat c" using that by (intro mult_add_less)
    then have "y * (nat w * nat c) + (x * nat c + i) < nat h * (nat w * nat c)" using that by (intro mult_add_less)
    then show ?thesis by (simp add: ac_simps)
  qed
  have inner: "fold (write_sample x y) [0..<nat c] (filled img ?t (y * (nat w * nat c) + x * nat c)) =
      filled img ?t (y * (nat w * nat c) + Suc x * nat c)" if "x < nat w" "y < nat h" for x y
    using fold_filled [of "nat c" "write_sample x y" img ?t "y * (nat w * nat c) + x * nat c" 1] that less
    by (simp add: write_sample_filled pixel_pos_def st add.assoc add.commute [of "nat c"])
  have row: "fold (\<lambda>x. fold (write_sample x y) [0..<nat c]) [0..<nat w] (filled img ?t (0 + y * (nat w * nat c))) =
      filled img ?t (0 + Suc y * (nat w * nat c))" if "y < nat h" for y
    using fold_filled [of "nat w" "\<lambda>x. fold (write_sample x y) [0..<nat c]" img ?t "y * (nat w * nat c)" "nat c"] inner that
    by (simp add: add.commute)
  have "im_pixels img = replicate ?t 0" using assms by (auto simp: new_image_def Let_def split: if_splits)
  then have "filled img ?t 0 = (0x9e3779b9, img)" by (simp add: filled_def)
  moreover have "fold (\<lambda>y. fold (\<lambda>x. fold (write_sample x y) [0..<nat c]) [0..<nat w]) [0..<nat h] (filled img ?t 0) = filled img ?t ?t"
    using fold_filled [of "nat h" "\<lambda>y. fold (\<lambda>x. fold (write_sample x y) [0..<nat c]) [0..<nat w]" img ?t 0 "nat w * nat c", OF row]
    by (simp add: ac_simps)
  ultimately show ?thesis using assms by (simp add: synthetic_frame_def)
qed

section \<open>Ranks\<close>

definition rank_of :: "rat \<Rightarrow> nat \<Rightarrow> nat" where
  "rank_of fraction n = max 1 (min n (nat \<lceil>f64 (fraction * f64 (of_nat n))\<rceil>))"

lemma percentile_rank:
  assumes "sample \<noteq> []"
  shows "percentile sample fraction = sample ! (rank_of fraction (length sample) - 1)" "rank_of fraction (length sample) \<le> length sample"
    "1 \<le> rank_of fraction (length sample)"
proof -
  have n: "1 \<le> length sample" using assms by (cases sample) auto
  have "min (if k = 0 then 0 else k - 1) (length sample - 1) = max 1 (min (length sample) k) - 1" for k :: nat using n by auto
  then show "percentile sample fraction = sample ! (rank_of fraction (length sample) - 1)"
    using assms by (simp add: percentile_def rank_of_def Let_def)
  show "rank_of fraction (length sample) \<le> length sample" "1 \<le> rank_of fraction (length sample)"
    using n by (simp_all add: rank_of_def)
qed

lemma rank_of_mono:
  assumes "a \<le> b"
  shows "rank_of a n \<le> rank_of b n"
proof -
  have "0 \<le> f64 (of_nat n)" by (simp add: f64_def rnd_nonneg)
  then have "a * f64 (of_nat n) \<le> b * f64 (of_nat n)" using assms by (rule mult_right_mono [rotated])
  then have "f64 (a * f64 (of_nat n)) \<le> f64 (b * f64 (of_nat n))" unfolding f64_def by (rule rnd_mono) simp
  then have "nat \<lceil>f64 (a * f64 (of_nat n))\<rceil> \<le> nat \<lceil>f64 (b * f64 (of_nat n))\<rceil>" by (intro nat_mono ceiling_mono)
  then show ?thesis unfolding rank_of_def by (intro max.mono min.mono order_refl)
qed

lemma sorted_rank:
  fixes sample :: "rat list"
  assumes "sorted sample" "1 \<le> k" "k \<le> length sample" and r: "r = sample ! (k - 1)"
  shows "k \<le> length (filter (\<lambda>x. x \<le> r) sample)" "length (filter (\<lambda>x. x < r) sample) < k"
proof -
  have "filter (\<lambda>x. x \<le> r) (take k sample) = take k sample"
    using assms by (intro filter_True) (auto simp: in_set_conv_nth sorted_iff_nth_mono)
  moreover have split: "length (filter P (take m sample)) + length (filter P (drop m sample)) = length (filter P sample)" for P m
    by (metis append_take_drop_id filter_append length_append)
  ultimately show "k \<le> length (filter (\<lambda>x. x \<le> r) sample)" using split [of "\<lambda>x. x \<le> r" k] assms(3) by simp
  have "filter (\<lambda>x. x < r) (drop (k - 1) sample) = []"
    using assms by (intro filter_False) (auto simp: in_set_conv_nth sorted_iff_nth_mono not_less)
  then show "length (filter (\<lambda>x. x < r) sample) < k"
    using split [of "\<lambda>x. x < r" "k - 1"] length_filter_le [of "\<lambda>x. x < r" "take (k - 1) sample"] assms(2,3) by simp
qed

section \<open>Properties\<close>

text \<open>
  C37: A benchmark connection keeps its window full and never exceeds it. In every state between two rounds of the loop the number of
  frames sent is the number answered plus the window, capped by the number of frames; the client's pending table has exactly one entry
  for each frame in flight; and every answered frame is counted once, as a latency, as a failure or as the first frame.
  When the loop ends, every frame was sent and answered and nothing is pending.
\<close>

theorem bench_keeps_its_window:
  assumes "bench_visited clock (new_client inbound sends) frame chain frames window flags l" "1 \<le> window" "1 \<le> frames" "frames < 2 ^ 31"
  shows "bl_sent l = min frames (bl_received l + window) \<and> int (card (dom (cl_pending (bl_client l)))) = bl_sent l - bl_received l \<and>
    bl_sent l - bl_received l \<le> window \<and>
    (\<exists>first \<in> {0, 1}. int (length (br_latencies_ms (bl_result l))) + uint (br_failures (bl_result l)) + first = bl_received l) \<and>
    (if bench_while clock frame chain flags frames l = Inr l'
     then bl_sent l' = frames \<and> bl_received l' = frames \<and> dom (cl_pending (bl_client l')) = {} else True)"
proof -
  have v: "in_step m \<and> bl_sent m = min frames (bl_received m + window) \<and> bl_received m \<le> frames"
    if "bench_visited clock (new_client inbound sends) frame chain frames window flags m" for m
    by (rule visited_in_step [OF that assms(2-4)])
  have "bl_sent l' = frames \<and> bl_received l' = frames \<and> dom (cl_pending (bl_client l')) = {}"
    if "bench_while clock frame chain flags frames l = Inr l'"
    using v [of l'] bench_while_visits [OF that assms(1)] assms(2) by (auto simp: in_step_def)
  with v [OF assms(1)] assms(2) show ?thesis by (auto simp: in_step_def)
qed

definition tiny_frame :: image where
  "tiny_frame = \<lparr>im_width = 1, im_height = 1, im_channels = 1, im_stride = 1, im_pixels = [7]\<rparr>"

theorem bench_keeps_its_window_witness:
  "\<exists>l. bench_visited (\<lambda>_. 0) (new_client [] []) tiny_frame [] 5 2 1 l \<and> card (dom (cl_pending (bl_client l))) = 2"
proof -
  have "\<exists>l'. bench_send (\<lambda>_. 0) tiny_frame [] 1 l = Inr l' \<and> snd (cl_outbound (bl_client l')) = []" if "snd (cl_outbound (bl_client l)) = []" for l
    using client_send_open [OF that, of 0 tiny_frame "[]" 1] by (auto simp: bench_send_def)
  then have fill: "\<exists>l'. bench_fill (\<lambda>_. 0) tiny_frame [] 1 n l = Inr l'" if "snd (cl_outbound (bl_client l)) = []" for n l
    using that by (induction n arbitrary: l) fastforce+
  define l0 where "l0 = \<lparr>bl_client = new_client [] [], bl_sent = 0, bl_received = 0, bl_result = no_result, bl_reads = 0\<rparr>"
  have l0: "snd (cl_outbound (bl_client l0)) = []" "in_step l0" "bl_sent l0 = 0" "bl_received l0 = 0"
    by (simp_all add: l0_def new_client_def in_step_def no_result_def)
  obtain l where l: "bench_fill (\<lambda>_. 0) tiny_frame [] 1 (nat (min 2 5)) l0 = Inr l" using fill [OF l0(1)] by blast
  have rec: "bl_received l = 0" using in_step_fill [OF l0(2) l] l0(3,4) by simp
  have v: "bench_visited (\<lambda>_. 0) (new_client [] []) tiny_frame [] 5 2 1 l" using l unfolding l0_def by (rule visited_start)
  from bench_keeps_its_window [OF v, of l] rec have "card (dom (cl_pending (bl_client l))) = 2" by simp
  with v show ?thesis by blast
qed

text \<open>
  The synthetic frame is a fixed function of its size: for every accepted size the generator yields a well-formed image whose
  sample number \<open>i\<close>, in memory order, is the top byte of the state after \<open>i + 1\<close> steps of the 32-bit linear congruence from the seed, so two
  runs of the benchmark send the same bytes.
\<close>

lemma synthetic_frame_is_fixed:
  assumes "0 < w" "0 < h" "is_supported_channel_count c"
  shows "\<exists>img. synthetic_frame w h c = Inr img \<and> image_wf img \<and> im_width img = w \<and> im_height img = h \<and> im_channels img = c \<and>
    im_pixels img = map (\<lambda>i. ucast (drop_bit 24 ((lcg_next ^^ Suc i) 0x9e3779b9))) [0..<nat w * nat c * nat h]"
proof -
  obtain img where n: "new_image w h c = Inr img" using assms by (simp add: new_image_def Let_def)
  note f = new_image_Inr [OF n]
  have "image_wf (snd (filled img (nat w * nat c * nat h) (nat w * nat c * nat h)))"
    using f by (auto simp: filled_def image_wf_def)
  with synthetic_frame_filled [OF n] f show ?thesis by (simp add: filled_def lcg_sample_def)
qed

text \<open>
  A percentile is a nearest rank. On a sorted sample the result is a member of the sample; with the rank that the \<open>double\<close> product
  gives, clipped to the sample, at least that many values are at most the result and fewer than that many are below it;
  and a larger fraction never gives a smaller percentile.
\<close>

lemma percentile_is_nearest_rank:
  assumes "sorted sample" "sample \<noteq> []"
  shows "percentile sample fraction \<in> set sample \<and>
    rank_of fraction (length sample) \<le> length (filter (\<lambda>x. x \<le> percentile sample fraction) sample) \<and>
    length (filter (\<lambda>x. x < percentile sample fraction) sample) < rank_of fraction (length sample) \<and>
    (if fraction \<le> larger then percentile sample fraction \<le> percentile sample larger else True)"
proof -
  note r = percentile_rank [OF assms(2)]
  have "percentile sample fraction \<in> set sample" using r(1-3) [of fraction] by simp
  moreover have "percentile sample fraction \<le> percentile sample larger" if "fraction \<le> larger"
    using r [of fraction] r [of larger] rank_of_mono [OF that, of "length sample"] assms(1)
    by (auto simp: sorted_iff_nth_mono intro!: diff_le_mono)
  ultimately show ?thesis using sorted_rank [OF assms(1) r(3,2) [of fraction] r(1) [of fraction]] by simp
qed

end
