(* ===== verification/Server_Run.thy ===== *)
theory Server_Run
  imports Server_Content
begin

text \<open>
  One frame through the server, step by step, with any backend that takes its job: a grey pixel with the chain \<open>invert\<close> arrives on the
  first connection, is queued, submitted, completed and answered.
\<close>

section \<open>The frame\<close>

definition pixel_image :: image where
  "pixel_image = \<lparr>im_width = 1, im_height = 1, im_channels = 1, im_stride = 1, im_pixels = [10]\<rparr>"
definition pixel_header :: request_header where
  "pixel_header = client_header 7 pixel_image ''invert'' 1"
definition pixel_script :: "recv_event list" where
  "pixel_script = [Arrived (encode_request_header pixel_header @ text_bytes ''invert'' @ [10])]"
abbreviation invert_chain :: op_chain where
  "invert_chain \<equiv> [\<lparr>kind = kInvert, param = 0\<rparr>]"

lemma pixel_header_fields: "rq_payload_len pixel_header = 1" "rq_width pixel_header = 1" "rq_height pixel_header = 1"
    "rq_channels pixel_header = 1" "rq_seq_num pixel_header = 7" "rq_flags pixel_header = 1" "rq_chain_len pixel_header = 6"
    "rq_magic pixel_header = kMagic" "rq_version pixel_header = kVersion"
  by (simp_all add: pixel_header_def client_header_def pixel_image_def byte_count_def)

lemma read_front:
  assumes "0 < n" "length xs = n" and "ys \<noteq> []"
  shows "read_exact n [Arrived (xs @ ys)] = (io_kOk, xs, [Arrived ys])"
proof -
  obtain b bs where xs: "xs = b # bs" using assms by (cases xs) auto
  have "recv_call n [Arrived (xs @ ys)] = (Received (b # bs), [Arrived ys])" using assms xs by auto
  then have "read_loop n [] [Arrived (xs @ ys)] = read_loop 0 xs [Arrived ys]"
    using assms(1,2) xs by (subst read_loop.simps) simp
  then show ?thesis by (simp add: read_exact_def read_loop.simps)
qed

lemma pixel_read: "read_request (server_limits small_config) pixel_script = (Admits pixel_header invert_chain, [Arrived [10]])"
proof -
  have "length (encode_request_header pixel_header) = kRequestHeaderBytes" "0 < kRequestHeaderBytes"
    by (simp_all add: encode_request_bytes kRequestHeaderBytes_def)
  from read_front [OF this(2,1)] have "read_exact kRequestHeaderBytes pixel_script =
      (io_kOk, encode_request_header pixel_header, [Arrived (text_bytes ''invert'' @ [10])])" by (simp add: pixel_script_def text_bytes_def)
  moreover have "validate_request_header pixel_header (server_limits small_config) = kOk"
    by (simp add: validate_ok_iff pixel_header_fields server_limits_def default_limits_def small_config_def kMaxChainLen_def
        is_supported_channel_count_def dimension_product_def)
  moreover have "read_chain pixel_header [Arrived (text_bytes ''invert'' @ [10])] = (io_kOk, text_bytes ''invert'', [Arrived [10]])"
    using read_front [of 6 "text_bytes ''invert''" "[10]"] by (simp add: read_chain_def pixel_header_fields text_bytes_def)
  moreover have "parse_op_chain ''invert'' = Inr invert_chain" by code_simp
  ultimately show ?thesis by (simp add: read_request_def request_decode_encode Let_def)
qed

lemma pixel_rest: "read_exact (Suc 0) [Arrived [10]] = (io_kOk, [10], [])"
  by code_simp

section \<open>From the accept to the queue\<close>

lemma quiet_step:
  "server_history env start s received \<Longrightarrow> server_step env event s = Some s' \<Longrightarrow> arrivals event s = [] \<Longrightarrow> server_history env start s' received"
  using history_steps [of env start s received event s'] by simp

definition pixel_frame :: queued_frame where
  "pixel_frame = frame_of 0 pixel_header invert_chain 0"

text \<open>The connection when its reader has claimed a slot, and when it goes on to the next frame.\<close>

definition receiving_pixel :: connection where
  "receiving_pixel = (new_connection 1 pixel_script [])\<lparr>co_inbound := [Arrived [10]], co_reader := R_Receiving pixel_header invert_chain 0\<rparr>"

definition pixel_connection :: connection where
  "pixel_connection = (new_connection 1 pixel_script [])\<lparr>co_inbound := [], co_outstanding := 1, co_asked := [7]\<rparr>"

lemma pixel_claims:
  fixes env :: "'b server_env"
  assumes env: "se_config env = small_config" and pool: "new_slot_pool (Some base) 1 4 cap = Inr pool"
  obtains s where "server_history env (new_server small_config pool b) s []"
    "sv_connections s = [receiving_pixel]" "sv_queue s = new_queue (sc_queue_capacity small_config)"
    "sv_memory s 0 = [0, 0, 0, 0]" "worker_part s = (b, [], W_Top, 0)" "is_ok (slot (sv_pool s) 0)" "is_ok (release (sv_pool s) 0)"
proof -
  define c0 where "c0 = new_connection 1 pixel_script []"
  define c1 where "c1 = c0\<lparr>co_inbound := [Arrived [10]], co_reader := R_Claiming pixel_header invert_chain\<rparr>"
  define pool1 where "pool1 = snd (claim pool 1)"
  have p: "claim pool 1 = (Returns (Some 0), pool1)" "is_ok (slot pool1 0)" "is_ok (release pool1 0)" "sp_bytes pool = 4"
    using pool by (auto simp: new_slot_pool_def claim_def can_claim_def claim_take_def slot_def release_def pool1_def kNoOwner_def)
  define s0 where "s0 = new_server small_config pool b"
  have h0: "server_history env s0 s0 []" by (rule history_begins)
  define s1 where "s1 = s0\<lparr>sv_acceptor := A_Accept\<rparr>"
  have h1: "server_history env s0 s1 []"
    by (rule quiet_step [OF h0, of "Acceptor None"]) (simp_all add: s1_def s0_def new_server_def server_step_def acceptor_step_def arrivals_def)
  define s2 where "s2 = s1\<lparr>sv_connections := [c0], sv_next_connection_id := 2, sv_connections_accepted := 1, sv_records := [0], sv_acceptor := A_Check\<rparr>"
  have h2: "server_history env s0 s2 []"
    by (rule quiet_step [OF h1, of "Acceptor (Some (pixel_script, []))"])
      (simp_all add: s2_def s1_def s0_def c0_def new_server_def server_step_def acceptor_step_def arrivals_def reap_finished_def)
  define s3 where "s3 = s2\<lparr>sv_connections := [c1]\<rparr>"
  have h3: "server_history env s0 s3 []"
    by (rule quiet_step [OF h2, of "Reader 0"])
      (simp_all add: s3_def s2_def c1_def c0_def new_connection_def server_step_def reader_step_def reader_reads_def pixel_read set_connection_def env arrivals_def Let_def)
  define s4 where "s4 = s3\<lparr>sv_connections := [receiving_pixel], sv_pool := pool1\<rparr>"
  have f3: "sv_connections s3 = [c1]" "sv_pool s3 = pool" "co_reader c1 = R_Claiming pixel_header invert_chain" "co_id c1 = 1"
    by (simp_all add: s3_def s2_def s1_def s0_def new_server_def c1_def c0_def new_connection_def)
  have "server_history env s0 s4 []"
    by (rule quiet_step [OF h3, of "Reader 0"])
      (simp_all add: f3 s4_def receiving_pixel_def c1_def c0_def new_connection_def server_step_def reader_step_def after_claim_def p set_connection_def env arrivals_def Let_def)
  then show thesis unfolding s0_def
    by (rule that) (simp_all add: s4_def s3_def s2_def s1_def s0_def new_server_def worker_part_def p numeral_eq_Suc)
qed

lemma pixel_arrives:
  fixes env :: "'b server_env"
  assumes env: "se_config env = small_config" and pool: "new_slot_pool (Some base) 1 4 cap = Inr pool"
  obtains s where "server_history env (new_server small_config pool b) s [(0, pixel_header, invert_chain, [10])]"
    "sv_connections s = [pixel_connection]" "sv_queue s = (new_queue (sc_queue_capacity small_config))\<lparr>bq_items := [pixel_frame], bq_high_water := 1\<rparr>"
    "sv_memory s 0 = [10, 0, 0, 0]" "worker_part s = (b, [], W_Top, 0)" "is_ok (slot (sv_pool s) 0)" "is_ok (release (sv_pool s) 0)"
proof -
  let ?L = "[(0, pixel_header, invert_chain, [10])] :: arrival list"
  define c3 where "c3 = receiving_pixel\<lparr>co_inbound := [], co_reader := R_Submitting pixel_frame\<rparr>"
  define c4 where "c4 = (job_submitted c3)\<lparr>co_reader := R_Pushing pixel_frame, co_asked := [7]\<rparr>"
  define s0 where "s0 = new_server small_config pool b"
  obtain s where h: "server_history env s0 s []" and s: "sv_connections s = [receiving_pixel]" "sv_queue s = new_queue (sc_queue_capacity small_config)"
      "sv_memory s 0 = [0, 0, 0, 0]" "worker_part s = (b, [], W_Top, 0)" "is_ok (slot (sv_pool s) 0)" "is_ok (release (sv_pool s) 0)"
    unfolding s0_def by (rule pixel_claims [OF env pool])
  obtain place where place: "slot (sv_pool s) 0 = Inr place" using s(5) by (cases "slot (sv_pool s) 0") simp_all
  note c = receiving_pixel_def new_connection_def
  define s5 where "s5 = s\<lparr>sv_connections := [c3], sv_memory := (sv_memory s)(0 := [10, 0, 0, 0])\<rparr>"
  have "server_step env (Reader 0) s = Some s5" "arrivals (Reader 0) s = ?L"
    by (simp_all add: s place s5_def c3_def c pixel_frame_def server_step_def reader_step_def reader_receives_def set_connection_def env arrivals_def Let_def
        pixel_header_fields pixel_rest)
  with history_steps [OF h] have h5: "server_history env s0 s5 ?L" by fastforce
  define s6 where "s6 = s5\<lparr>sv_connections := [c4]\<rparr>"
  have h6: "server_history env s0 s6 ?L"
    by (rule quiet_step [OF h5, of "Reader 0"])
      (simp_all add: s6_def s5_def c4_def c3_def c server_step_def reader_step_def set_connection_def env arrivals_def Let_def
        job_submitted_def pixel_frame_def frame_of_def pixel_header_fields)
  define s7 where "s7 = s6\<lparr>sv_connections := [pixel_connection],
    sv_queue := (new_queue (sc_queue_capacity small_config))\<lparr>bq_items := [pixel_frame], bq_high_water := 1\<rparr>\<rparr>"
  have "server_history env s0 s7 ?L"
    by (rule quiet_step [OF h6, of "Reader 0"])
      (simp_all add: s7_def s6_def s5_def s c4_def c3_def c server_step_def reader_step_def set_connection_def env arrivals_def Let_def
        job_submitted_def bq_push_def new_queue_def small_config_def default_config_def pixel_connection_def)
  then show thesis unfolding s0_def
    by (rule that) (use s in \<open>simp_all add: s7_def s6_def s5_def worker_part_def\<close>)
qed

section \<open>From the queue to the writer\<close>

definition slot_job :: frame_job where
  "slot_job = \<lparr>job_input = Some [10, 0, 0, 0], job_width = 1, job_height = 1, job_channels = 1, job_stride = 1,
     job_chain = invert_chain\<rparr>"

lemma one_frame_run:
  fixes env :: "'b server_env"
  assumes env: "se_config env = small_config" and pool: "new_slot_pool (Some base) 1 4 cap = Inr pool"
    and submit: "se_submit env slot_job b1 = Some (Inr 1, b2)"
    and poll: "se_poll env b2 = (Inr [c], b3)" "cp_handle c = 1"
  obtains s where "server_history env (new_server small_config pool b1) s [(0, pixel_header, invert_chain, [10])]"
    "length (sv_connections s) = 1" "sv_submissions s = 1"
    "co_taken (sv_connections s ! 0) = [write_file_if_asked (se_save env) (sc_output_dir small_config) 1 (response_of (entry_for (0, pixel_header, invert_chain, [10]) 0) c)]"
proof -
  let ?L = "[(0, pixel_header, invert_chain, [10])] :: arrival list"
  define e where "e = entry_of pixel_frame"
  obtain s where h: "server_history env (new_server small_config pool b1) s ?L" and s: "sv_connections s = [pixel_connection]" "sv_queue s = (new_queue (sc_queue_capacity small_config))\<lparr>bq_items := [pixel_frame], bq_high_water := 1\<rparr>"
      "sv_memory s 0 = [10, 0, 0, 0]" "worker_part s = (b1, [], W_Top, 0)" "is_ok (slot (sv_pool s) 0)" "is_ok (release (sv_pool s) 0)"
    by (rule pixel_arrives [OF env pool])
  have w: "sv_backend s = b1" "sv_in_flight s = []" "sv_worker s = W_Top" "sv_submissions s = 0" using s(4) by (simp_all add: worker_part_def)
  have f: "qf_slot pixel_frame = 0" "job_of pixel_frame [10, 0, 0, 0] = slot_job"
    by (simp_all add: pixel_frame_def frame_of_def job_of_def slot_job_def pixel_header_fields)
  define s1 where "s1 = s\<lparr>sv_queue := (sv_queue s)\<lparr>bq_items := []\<rparr>, sv_worker := W_Submit pixel_frame\<rparr>"
  have h1: "server_history env (new_server small_config pool b1) s1 ?L"
    by (rule quiet_step [OF h, of Worker])
      (simp_all add: s1_def s w server_step_def worker_step_def worker_pops_def bq_pop_def new_queue_def arrivals_def)
  define s2 where "s2 = s1\<lparr>sv_backend := b2, sv_in_flight := [(1, e)], sv_worker := W_Poll, sv_submissions := 1\<rparr>"
  obtain place where place: "slot (sv_pool s) 0 = Inr place" using s(5) by (cases "slot (sv_pool s) 0") simp_all
  have h2: "server_history env (new_server small_config pool b1) s2 ?L"
    by (rule quiet_step [OF h1, of Worker])
      (simp_all add: s2_def s1_def s w f place submit e_def server_step_def worker_step_def worker_submits_def emplace_in_flight_def arrivals_def)
  define s3 where "s3 = s2\<lparr>sv_backend := b3, sv_worker := W_Completions [c]\<rparr>"
  have h3: "server_history env (new_server small_config pool b1) s3 ?L"
    by (rule quiet_step [OF h2, of Worker]) (simp_all add: s3_def s2_def poll server_step_def worker_step_def arrivals_def)
  define r where "r = response_of e c"
  define s4 where "s4 = worker_routes c [] s3"
  have h4: "server_history env (new_server small_config pool b1) s4 ?L"
    by (rule quiet_step [OF h3, of Worker]) (simp_all add: s4_def s3_def server_step_def worker_step_def arrivals_def)
  have f4: "sv_worker s4 = W_Release e r (Some [])" "sv_pool s4 = sv_pool s" "sv_connections s4 = [pixel_connection]" "sv_submissions s4 = 1"
    by (simp_all add: s4_def s3_def s2_def s1_def worker_routes_def poll(2) r_def s)
  obtain pool' where pool': "release (sv_pool s) 0 = Inr pool'" using s(6) by (cases "release (sv_pool s) 0") simp_all
  have e: "if_slot e = 0" "if_connection e = 0" by (simp_all add: e_def entry_of_def pixel_frame_def frame_of_def)
  define s5 where "s5 = s4\<lparr>sv_pool := pool', sv_worker := W_Push 0 r (Some [])\<rparr>"
  have h5: "server_history env (new_server small_config pool b1) s5 ?L"
    by (rule quiet_step [OF h4, of Worker]) (simp_all add: s5_def f4 e pool' server_step_def worker_step_def arrivals_def)
  define s6 where "s6 = s5\<lparr>sv_connections := [push_response r pixel_connection], sv_worker := W_Retire 0 (Some [])\<rparr>"
  have h6: "server_history env (new_server small_config pool b1) s6 ?L"
    by (rule quiet_step [OF h5, of Worker]) (simp_all add: s6_def s5_def f4 server_step_def worker_step_def set_connection_def arrivals_def)
  obtain s7 where s7: "server_step env (Writer 0 0) s6 = Some s7" "sv_submissions s7 = 1" "length (sv_connections s7) = 1"
      "co_taken (sv_connections s7 ! 0) = [write_file_if_asked (se_save env) (sc_output_dir small_config) 1 r]"
    by (simp add: s6_def s5_def f4 server_step_def writer_step_def set_connection_def env push_response_def outbox_push_def outbox_pop_def
        pixel_connection_def new_connection_def new_outbox_def writer_answers_def Let_def split: prod.splits)
  have "r = response_of (entry_for (0, pixel_header, invert_chain, [10]) 0) c" by (simp add: r_def e_def entry_for_def pixel_frame_def)
  then show thesis using that [OF quiet_step [OF h6 s7(1)] s7(3,2)] s7(4) by (simp add: arrivals_def)
qed
end
