(* ===== verification/Cuda_Device.thy ===== *)
theory Cuda_Device
  imports Cuda_Backend
begin

text \<open>
  A device that executes what the CUDA backend gives it. The driver stays a parameter; here is what its documentation
  promises of streams, events, copies, allocations, NVRTC and modules, as a predicate \<open>executes\<close> over a \<^emph>\<open>view\<close> of the
  driver state: which memory a stream may use, which bytes the work queued on it will find, which bytes are in
  page-locked memory once an event is complete. The one promise about the kernels is that a launch
  of a generated function does what \<open>Kernel_Sem\<close> says its text means. A call that does not succeed promises no bytes.

  From it follows what one frame does on one stream: the bytes that are in the staging buffer when the slot's event is complete are
  those of the CPU oracle.
\<close>

section \<open>What the backend can know of a driver state\<close>

datatype resource = Buffer nat | Pinned nat | Event nat

text \<open>
  \<open>dv_own d s r n\<close>: \<open>r\<close> is allocated with at least \<open>n\<close> bytes, and no stream but \<open>s\<close> was given work on it.
  \<open>dv_holds d s p bytes\<close>: work queued next on \<open>s\<close> finds \<open>bytes\<close> at the device pointer \<open>p\<close>. \<open>dv_copied d s p bytes\<close>: when the
  work queued on \<open>s\<close> so far is done, the page-locked memory \<open>p\<close> starts with \<open>bytes\<close>; \<open>dv_due d e p bytes\<close>: when the event \<open>e\<close> is complete, it
  does; \<open>dv_landed d p bytes\<close>: it does now. The others say which source a program, a compiled program, a
  PTX text, a module and a function come from.
\<close>

record 'd device_view =
  dv_own :: "'d \<Rightarrow> nat \<Rightarrow> resource \<Rightarrow> nat \<Rightarrow> bool"
  dv_holds :: "'d \<Rightarrow> nat \<Rightarrow> nat \<Rightarrow> u8 list \<Rightarrow> bool"
  dv_copied :: "'d \<Rightarrow> nat \<Rightarrow> nat \<Rightarrow> u8 list \<Rightarrow> bool"
  dv_due :: "'d \<Rightarrow> nat \<Rightarrow> nat \<Rightarrow> u8 list \<Rightarrow> bool"
  dv_landed :: "'d \<Rightarrow> nat \<Rightarrow> u8 list \<Rightarrow> bool"
  dv_program :: "'d \<Rightarrow> nat \<Rightarrow> string \<Rightarrow> bool"
  dv_compiled :: "'d \<Rightarrow> nat \<Rightarrow> string \<Rightarrow> bool"
  dv_ptx :: "string \<Rightarrow> string \<Rightarrow> bool"
  dv_module :: "'d \<Rightarrow> nat \<Rightarrow> string \<Rightarrow> bool"
  dv_kernel :: "'d \<Rightarrow> nat \<Rightarrow> string \<Rightarrow> string \<Rightarrow> bool"

text \<open>
  \<open>leaves view S R d d'\<close>: from \<open>d\<close> to \<open>d'\<close> nothing was queued except on the streams \<open>S\<close> and nothing touched except \<open>R\<close>.
\<close>

definition leaves :: "'d device_view \<Rightarrow> nat set \<Rightarrow> resource set \<Rightarrow> 'd \<Rightarrow> 'd \<Rightarrow> bool" where
  "leaves view S R d d' \<longleftrightarrow>
     (\<forall>s r n. dv_own view d s r n \<longrightarrow> s \<in> S \<or> r \<notin> R \<longrightarrow> dv_own view d' s r n) \<and>
     (\<forall>e p bytes. dv_due view d e p bytes \<longrightarrow> Event e \<notin> R \<longrightarrow> Pinned p \<notin> R \<longrightarrow> dv_due view d' e p bytes) \<and>
     (\<forall>m source. dv_module view d m source \<longrightarrow> dv_module view d' m source) \<and>
     (\<forall>f source name. dv_kernel view d f source name \<longrightarrow> dv_kernel view d' f source name)"

abbreviation undisturbed :: "'d device_view \<Rightarrow> 'd \<Rightarrow> 'd \<Rightarrow> bool" where
  "undisturbed view \<equiv> leaves view {} {}"

lemma leaves_refl [simp]: "leaves view S R d d"
  by (simp add: leaves_def)

lemma leavesD:
  assumes "leaves view S R d d'"
  shows "dv_own view d s r n \<Longrightarrow> s \<in> S \<or> r \<notin> R \<Longrightarrow> dv_own view d' s r n"
    "dv_due view d e p bytes \<Longrightarrow> Event e \<notin> R \<Longrightarrow> Pinned p \<notin> R \<Longrightarrow> dv_due view d' e p bytes"
    "dv_module view d m source \<Longrightarrow> dv_module view d' m source"
    "dv_kernel view d f source name \<Longrightarrow> dv_kernel view d' f source name"
  using assms unfolding leaves_def by blast+

lemma leavesI:
  assumes "\<And>s r n. dv_own view d s r n \<Longrightarrow> s \<in> S \<or> r \<notin> R \<Longrightarrow> dv_own view d' s r n"
    "\<And>e p bytes. dv_due view d e p bytes \<Longrightarrow> Event e \<notin> R \<Longrightarrow> Pinned p \<notin> R \<Longrightarrow> dv_due view d' e p bytes"
    "\<And>m source. dv_module view d m source \<Longrightarrow> dv_module view d' m source"
    "\<And>f source name. dv_kernel view d f source name \<Longrightarrow> dv_kernel view d' f source name"
  shows "leaves view S R d d'"
  unfolding leaves_def using assms by blast

text \<open>Nothing that was allocated or is under way is the new resource.\<close>

definition unused :: "'d device_view \<Rightarrow> 'd \<Rightarrow> resource \<Rightarrow> bool" where
  "unused view d r \<longleftrightarrow> (\<forall>s n. \<not> dv_own view d s r n) \<and> (\<forall>e p bytes. dv_due view d e p bytes \<longrightarrow> r \<noteq> Event e \<and> r \<noteq> Pinned p)"

lemma leaves_trans:
  assumes "leaves view S R d d1" "leaves view S R d1 d2"
  shows "leaves view S R d d2"
  by (rule leavesI) (blast intro: leavesD [OF assms(1)] leavesD [OF assms(2)])+

lemma leaves_mono:
  assumes "leaves view S R d d1" "R \<subseteq> R'" "S \<subseteq> S'" "S = S' \<or> R = {}"
  shows "leaves view S' R' d d1"
proof (rule leavesI)
  show "dv_own view d1 s r n" if "dv_own view d s r n" "s \<in> S' \<or> r \<notin> R'" for s r n
    by (rule leavesD(1) [OF assms(1) that(1)]) (use assms(2-4) that(2) in auto)
  show "dv_due view d1 e p bytes" if "dv_due view d e p bytes" "Event e \<notin> R'" "Pinned p \<notin> R'" for e p bytes
    by (rule leavesD(2) [OF assms(1) that(1)]) (use assms(2) that(2,3) in auto)
qed (rule leavesD(3,4) [OF assms(1)], assumption)+

lemma leaves_unused:
  assumes "leaves view {} R d d'" "\<forall>r \<in> R. unused view d r"
  shows "undisturbed view d d'"
proof (rule leavesI)
  show "dv_own view d' s r n" if "dv_own view d s r n" for s r n
    by (rule leavesD(1) [OF assms(1) that]) (use assms(2) that in \<open>auto simp: unused_def\<close>)
  show "dv_due view d' e p bytes" if due: "dv_due view d e p bytes" for e p bytes
  proof (rule leavesD(2) [OF assms(1) due])
    show "Event e \<notin> R" "Pinned p \<notin> R" using assms(2) due unfolding unused_def by blast+
  qed
qed (rule leavesD(3,4) [OF assms(1)], assumption)+

lemma unused_back: "undisturbed view d d' \<Longrightarrow> unused view d' r \<Longrightarrow> unused view d r"
  unfolding unused_def leaves_def by blast

section \<open>What the driver documents\<close>

text \<open>Creating any of the owned resources; a call that fails leaves everything as it was.\<close>

definition creates :: "'d device_view \<Rightarrow> (nat \<Rightarrow> resource) \<Rightarrow> nat \<Rightarrow> ('d, nat) cu_operation \<Rightarrow> bool" where
  "creates view mk n create \<longleftrightarrow> (\<forall>d r v d'. create d = ((r, v), d') \<longrightarrow> undisturbed view d d' \<and>
     (r = CUDA_SUCCESS \<longrightarrow> unused view d (mk v) \<and> (\<forall>s. dv_own view d' s (mk v) n)))"

definition touches :: "'d device_view \<Rightarrow> resource set \<Rightarrow> ('d, 'a) cu_operation \<Rightarrow> bool" where
  "touches view R operation \<longleftrightarrow> (\<forall>d. leaves view {} R d (snd (operation d)))"

definition allocation_works :: "'d cuda_driver \<Rightarrow> 'd device_view \<Rightarrow> bool" where
  "allocation_works drv view \<longleftrightarrow>
     (\<forall>n. creates view Buffer n (cuMemAlloc drv n) \<and> creates view Pinned n (cuMemAllocHost drv n)) \<and>
     (\<forall>timing. creates view Event 0 (cuEventCreate drv timing)) \<and> touches view {} (cuStreamCreate drv) \<and>
     (\<forall>h. touches view {Buffer h} (cuMemFree drv h) \<and> touches view {Pinned h} (cuMemFreeHost drv h) \<and>
          touches view {Event h} (cuEventDestroy drv h) \<and> touches view {} (cuStreamDestroy drv h)) \<and>
     (\<forall>p n. touches view {} (cuMemHostRegister drv p n)) \<and> (\<forall>n k d. undisturbed view d (snd (operator_new drv n k d)))"

text \<open>Copies on a stream.\<close>

definition copies_work :: "'d cuda_driver \<Rightarrow> 'd device_view \<Rightarrow> bool" where
  "copies_work drv view \<longleftrightarrow>
     (\<forall>p input n s d u d' m. cuMemcpyHtoDAsync drv p input n s d = ((CUDA_SUCCESS, u), d') \<longrightarrow>
        dv_own view d s (Buffer p) m \<longrightarrow> n \<le> m \<longrightarrow> n \<le> length input \<longrightarrow>
        dv_holds view d' s p (take n input) \<and> leaves view {s} {Buffer p} d d') \<and>
     (\<forall>q p n s d u d' m bytes. cuMemcpyDtoHAsync drv q p n s d = ((CUDA_SUCCESS, u), d') \<longrightarrow>
        dv_own view d s (Pinned q) m \<longrightarrow> n \<le> m \<longrightarrow> dv_holds view d s p bytes \<longrightarrow> n = length bytes \<longrightarrow>
        dv_copied view d' s q bytes \<and> leaves view {s} {Pinned q} d d')"

text \<open>
  Events. An event records what was queued on its stream before it; a query that succeeds, whatever other frames
  did in the meantime, means that this has happened. What has landed in a page-locked buffer
  stays there until work on it is queued again.
\<close>

definition events_work :: "'d cuda_driver \<Rightarrow> 'd device_view \<Rightarrow> bool" where
  "events_work drv view \<longleftrightarrow>
     (\<forall>e s d u d'. cuEventRecord drv e s d = ((CUDA_SUCCESS, u), d') \<longrightarrow> leaves view {s} {Event e} d d' \<and>
        (\<forall>p bytes. dv_holds view d s p bytes \<longrightarrow> dv_holds view d' s p bytes) \<and>
        (\<forall>p bytes. dv_own view d s (Event e) 0 \<longrightarrow> dv_copied view d s p bytes \<longrightarrow> dv_due view d' e p bytes)) \<and>
     (\<forall>e d r u d'. cuEventQuery drv e d = ((r, u), d') \<longrightarrow> r = CUDA_SUCCESS \<or> r = CUDA_ERROR_NOT_READY \<longrightarrow> undisturbed view d d' \<and>
        (r = CUDA_SUCCESS \<longrightarrow> (\<forall>p bytes. dv_due view d e p bytes \<longrightarrow> dv_landed view d' p bytes))) \<and>
     (\<forall>e1 e2 d ms d'. cuEventElapsedTime drv e1 e2 d = ((CUDA_SUCCESS, ms), d') \<longrightarrow> undisturbed view d d' \<and>
        (\<forall>p bytes. dv_landed view d p bytes \<longrightarrow> dv_landed view d' p bytes)) \<and>
     (\<forall>e d u d'. cuEventSynchronize drv e d = ((CUDA_SUCCESS, u), d') \<longrightarrow> undisturbed view d d') \<and>
     (\<forall>d p bytes. dv_landed view d p bytes \<longrightarrow> take (length bytes) (host_bytes drv p d) = bytes)"

text \<open>NVRTC, and loading what it returns. The reported size counts the terminating null character.\<close>

definition queries_program :: "'d device_view \<Rightarrow> nat \<Rightarrow> (string \<Rightarrow> 'a \<Rightarrow> bool) \<Rightarrow> ('d, 'a) cu_operation \<Rightarrow> bool" where
  "queries_program view p answer operation \<longleftrightarrow> (\<forall>d r v d'. operation d = ((r, v), d') \<longrightarrow> undisturbed view d d' \<and>
     (\<forall>ptx. dv_compiled view d p ptx \<longrightarrow> dv_compiled view d' p ptx \<and> (r = 0 \<longrightarrow> answer ptx v)))"

definition compiler_works :: "'d cuda_driver \<Rightarrow> 'd device_view \<Rightarrow> bool" where
  "compiler_works drv view \<longleftrightarrow>
     (\<forall>source name d r p d'. nvrtcCreateProgram drv source name d = ((r, p), d') \<longrightarrow> undisturbed view d d' \<and>
        (r = 0 \<longrightarrow> dv_program view d' p source)) \<and>
     (\<forall>p options d r u d'. nvrtcCompileProgram drv p options d = ((r, u), d') \<longrightarrow> undisturbed view d d' \<and>
        (\<forall>source. dv_program view d p source \<longrightarrow> r = 0 \<longrightarrow> (\<exists>ptx. dv_ptx view source ptx \<and> dv_compiled view d' p ptx))) \<and>
     (\<forall>p. queries_program view p (\<lambda>_ _. True) (nvrtcGetProgramLogSize drv p) \<and>
          queries_program view p (\<lambda>_ _. True) (nvrtcGetProgramLog drv p) \<and>
          queries_program view p (\<lambda>ptx n. n = length ptx + 1) (nvrtcGetPTXSize drv p) \<and>
          queries_program view p (\<lambda>ptx written. take (length ptx) written = ptx) (nvrtcGetPTX drv p)) \<and>
     (\<forall>p. touches view {} (nvrtcDestroyProgram drv p)) \<and>
     (\<forall>ptx d m d'. cuModuleLoadData drv ptx d = ((CUDA_SUCCESS, m), d') \<longrightarrow> undisturbed view d d' \<and>
        (\<forall>source. dv_ptx view source ptx \<longrightarrow> dv_module view d' m source)) \<and>
     (\<forall>m name d f d'. cuModuleGetFunction drv m name d = ((CUDA_SUCCESS, f), d') \<longrightarrow> undisturbed view d d' \<and>
        (\<forall>source. dv_module view d m source \<longrightarrow> dv_kernel view d' f source name))"

text \<open>
  Launches of the function of stage \<open>i\<close> of the program generated for a key in \<open>K\<close>, with the arguments of a job of that key: the
  text executes as \<open>launch_stage\<close>. Both buffers belong to the stream, and the frame is small enough for the
  kernel's \<open>int\<close> indices.
\<close>

definition stage_block :: "kernel_key \<Rightarrow> stage \<Rightarrow> nat" where
  "stage_block key st = (if st_has_stencil st \<and> 0 < key_tile_size key then nat (key_tile_size key) else 16)"

definition shaped_like :: "image \<Rightarrow> frame_job \<Rightarrow> bool" where
  "shaped_like img job \<longleftrightarrow> image_wf img \<and> im_width img = job_width job \<and> im_height img = job_height job \<and>
     im_channels img = job_channels job"

definition launch_ready :: "'d device_view \<Rightarrow> frame_job \<Rightarrow> nat \<Rightarrow> nat \<Rightarrow> nat \<Rightarrow> image \<Rightarrow> 'd \<Rightarrow> bool" where
  "launch_ready view job s source destination src d \<longleftrightarrow> source \<noteq> destination \<and> shaped_like src job \<and> byte_count src < 2 ^ 31 \<and>
     dv_holds view d s source (im_pixels src) \<and>
     (\<exists>n \<ge> byte_count src. dv_own view d s (Buffer source) n \<and> dv_own view d s (Buffer destination) n)"

definition kernels_run :: "'d cuda_driver \<Rightarrow> (rat \<Rightarrow> rat) \<Rightarrow> 'd device_view \<Rightarrow> kernel_key set \<Rightarrow> bool" where
  "kernels_run drv expf view K \<longleftrightarrow> (\<forall>key \<in> K. \<forall>program job i f s source destination src d u d'.
     emit_cuda_source expf key = Inr program \<longrightarrow> job_chain job = key_chain key \<longrightarrow> job_channels job = key_channels key \<longrightarrow>
     i < length (gp_stages program) \<longrightarrow> dv_kernel view d f (gp_source program) (gs_kernel_name (gp_stages program ! i)) \<longrightarrow>
     launch_ready view job s source destination src d \<longrightarrow>
     (let st = plan_stages (key_chain key) ! i; block = stage_block key st
      in cuLaunchKernel drv f (grid_dim (nat (job_width job)) block, grid_dim (nat (job_height job)) block) (block, block) s
           (stage_arguments expf job (gp_stages program ! i) source destination) d = ((CUDA_SUCCESS, u), d') \<longrightarrow>
         leaves view {s} {Buffer source, Buffer destination} d d' \<and>
         (\<exists>garbage dst. image_wf dst \<and> same_shape dst src \<and> dv_holds view d' s destination
            (im_pixels (launch_stage expf (nat (key_tile_size key)) garbage st src dst)))))"

definition executes :: "'d cuda_driver \<Rightarrow> (rat \<Rightarrow> rat) \<Rightarrow> 'd device_view \<Rightarrow> kernel_key set \<Rightarrow> bool" where
  "executes drv expf view K \<longleftrightarrow> allocation_works drv view \<and> copies_work drv view \<and> events_work drv view \<and>
     compiler_works drv view \<and> kernels_run drv expf view K"

section \<open>One stage, one frame\<close>

lemma emitted_stages:
  assumes "canonical_chain (key_chain key)" "emit_cuda_source expf key = Inr program"
  shows "supported_key key"
    "gp_stages program = map (\<lambda>i. stage_description key i (plan_stages (key_chain key) ! i)) [0..<length (plan_stages (key_chain key))]"
proof -
  show k: "supported_key key" using assms(2) by (auto simp: emit_cuda_source_def supported_key_def split: if_splits)
  show "gp_stages program = map (\<lambda>i. stage_description key i (plan_stages (key_chain key) ! i)) [0..<length (plan_stages (key_chain key))]"
    using emit_cuda_source_ok [OF assms(1) k, of expf] assms(2) by auto
qed

lemma stage_block_eq: "supported_key key \<Longrightarrow> nat (gs_block_dim (stage_description key i st)) = stage_block key st"
  by (auto simp: stage_description_def stage_block_def supported_key_def is_supported_tile_def kNaiveBlockDim_def Let_def split: if_splits)

text \<open>What the cache knows of an entry: the functions are those of the program, loaded.\<close>

definition entry_loaded :: "'d device_view \<Rightarrow> 'd \<Rightarrow> compiled_chain \<Rightarrow> bool" where
  "entry_loaded view d entry \<longleftrightarrow> (\<forall>i < length (ch_stage_functions entry). dv_kernel view d (ch_stage_functions entry ! i)
     (gp_source (ch_program entry)) (gs_kernel_name (gp_stages (ch_program entry) ! i)))"

lemma entry_loaded_leaves: "entry_loaded view d entry \<Longrightarrow> leaves view S R d d' \<Longrightarrow> entry_loaded view d' entry"
  by (simp add: entry_loaded_def leavesD(4) [of view S R d d'])

lemma byte_count_frame: "image_wf img \<Longrightarrow> byte_count img = nat (im_width img) * nat (im_channels img) * nat (im_height img)"
  by (simp add: byte_count_def image_wf_def)

lemma shaped_like_mid:
  assumes "shaped_like src job" "apply_chain expf src chain = Inr mid"
  shows "shaped_like mid job" "same_shape mid src" "byte_count mid = byte_count src"
proof -
  have src: "image_wf src" using assms(1) by (simp add: shaped_like_def)
  have "keeps_frame src mid" using apply_chain_frame [OF src, of expf chain] assms(2) by auto
  then have m: "image_wf mid" and sh: "same_shape mid src" by (simp_all add: keeps_frame_def)
  show "same_shape mid src" by (rule sh)
  show "shaped_like mid job" using m sh assms(1) by (simp add: shaped_like_def same_shape_def)
  show "byte_count mid = byte_count src" using m sh src by (simp add: byte_count_frame same_shape_def)
qed

text \<open>One launch turns the source image into the next one, in the other buffer.\<close>

lemma launch_one:
  assumes run: "kernels_run drv expf view K" and key: "key \<in> K" "canonical_chain (key_chain key)" "emit_cuda_source expf key = Inr program"
    and job: "job_chain job = key_chain key" "job_channels job = key_channels key"
    and i: "i < length (gp_stages program)" "dv_kernel view d f (gp_source program) (gs_kernel_name (gp_stages program ! i))"
    and ready: "launch_ready view job s source destination src d"
    and mid: "apply_chain expf src (map pl_op (stage_ops (plan_stages (key_chain key) ! i))) = Inr mid"
    and call: "cuLaunchKernel drv f (grid_dim (nat (job_width job)) (nat (gs_block_dim (gp_stages program ! i))),
        grid_dim (nat (job_height job)) (nat (gs_block_dim (gp_stages program ! i))))
        (nat (gs_block_dim (gp_stages program ! i)), nat (gs_block_dim (gp_stages program ! i))) s
        (stage_arguments expf job (gp_stages program ! i) source destination) d = ((CUDA_SUCCESS, u), d')"
  shows "leaves view {s} {Buffer source, Buffer destination} d d'" "launch_ready view job s destination source mid d'"
proof -
  define st where "st = plan_stages (key_chain key) ! i"
  note e = emitted_stages [OF key(2,3)]
  have n: "i < length (plan_stages (key_chain key))" using i(1) e(2) by simp
  then have "gp_stages program ! i = stage_description key i st" using e(2) by (simp add: st_def)
  then have block: "nat (gs_block_dim (gp_stages program ! i)) = stage_block key st" using stage_block_eq [OF e(1)] by simp
  note eff = run [unfolded kernels_run_def, rule_format, OF key(1,3) job i ready, unfolded Let_def, folded st_def, rule_format,
      OF call [unfolded block]]
  then show l: "leaves view {s} {Buffer source, Buffer destination} d d'" by simp
  obtain garbage dst where g: "image_wf dst" "same_shape dst src"
      "dv_holds view d' s destination (im_pixels (launch_stage expf (nat (key_tile_size key)) garbage st src dst))"
    using eff by blast
  have "st \<in> set (plan_stages (key_chain key))" using n by (simp add: st_def)
  note ok = plan_stages_member(1) [OF key(2) this]
  have sh: "shaped_like src job" using ready by (simp add: launch_ready_def)
  then have "launch_stage expf (nat (key_tile_size key)) garbage st src dst = mid"
    using mid g by (intro launch_stage_run ok) (simp_all add: st_def shaped_like_def)
  with g(3) have h: "dv_holds view d' s destination (im_pixels mid)" by simp
  note m = shaped_like_mid [OF sh mid]
  obtain k where "byte_count src \<le> k" "dv_own view d s (Buffer source) k" "dv_own view d s (Buffer destination) k"
    using ready by (auto simp: launch_ready_def)
  then have "\<exists>k \<ge> byte_count mid. dv_own view d' s (Buffer destination) k \<and> dv_own view d' s (Buffer source) k"
    using leavesD(1) [OF l] m(3) by (metis insertCI)
  then show "launch_ready view job s destination source mid d'"
    using ready h m by (simp add: launch_ready_def)
qed

lemma launch_stages_run:
  assumes run: "kernels_run drv expf view K" and key: "key \<in> K" "canonical_chain (key_chain key)"
      "emit_cuda_source expf key = Inr (ch_program entry)"
    and job: "job_chain job = key_chain key" "job_channels job = key_channels key"
    and len: "length (ch_stage_functions entry) = length (gp_stages (ch_program entry))"
  shows "launch_stages drv expf job s (drop k (zip (ch_stage_functions entry) (gp_stages (ch_program entry)))) source destination d = (Inr final, d') \<Longrightarrow>
    k \<le> length (gp_stages (ch_program entry)) \<Longrightarrow> entry_loaded view d entry \<Longrightarrow> launch_ready view job s source destination src d \<Longrightarrow>
    apply_chain expf src (map pl_op (concat (map stage_ops (drop k (plan_stages (key_chain key)))))) = Inr out \<Longrightarrow>
    dv_holds view d' s final (im_pixels out) \<and> leaves view {s} {Buffer source, Buffer destination} d d'"
proof (induction "length (gp_stages (ch_program entry)) - k" arbitrary: k source destination d src)
  case 0
  then have "length (gp_stages (ch_program entry)) \<le> k" by simp
  moreover have "length (plan_stages (key_chain key)) = length (gp_stages (ch_program entry))" using emitted_stages(2) [OF key(2,3)] by simp
  ultimately show ?case using 0 by (auto simp: launch_ready_def)
next
  case (Suc m)
  let ?fs = "ch_stage_functions entry" and ?gs = "gp_stages (ch_program entry)" and ?st = "plan_stages (key_chain key)"
  have n: "length ?st = length ?gs" using emitted_stages(2) [OF key(2,3)] by simp
  have k: "k < length ?gs" using Suc.hyps(2) by simp
  then have split: "drop k (zip ?fs ?gs) = (?fs ! k, ?gs ! k) # drop (Suc k) (zip ?fs ?gs)" "drop k ?st = ?st ! k # drop (Suc k) ?st"
    using len n by (simp_all add: Cons_nth_drop_Suc [symmetric])
  from Suc.prems(1) [unfolded split(1)] obtain u d1
    where c: "cuLaunchKernel drv (?fs ! k) (grid_dim (nat (job_width job)) (nat (gs_block_dim (?gs ! k))),
        grid_dim (nat (job_height job)) (nat (gs_block_dim (?gs ! k)))) (nat (gs_block_dim (?gs ! k)), nat (gs_block_dim (?gs ! k))) s
        (stage_arguments expf job (?gs ! k) source destination) d = ((CUDA_SUCCESS, u), d1)"
      and rest: "launch_stages drv expf job s (drop (Suc k) (zip ?fs ?gs)) destination source d1 = (Inr final, d')"
    by (auto simp: Let_def CUDA_SUCCESS_def elim!: then_act_cases dest!: CU_CHECK_returns)
  obtain mid where mid: "apply_chain expf src (map pl_op (stage_ops (?st ! k))) = Inr mid"
      "apply_chain expf mid (map pl_op (concat (map stage_ops (drop (Suc k) ?st)))) = Inr out"
    using Suc.prems(5) by (auto simp: split(2) apply_chain_append bind_result_eq_Inr)
  have "dv_kernel view d (?fs ! k) (gp_source (ch_program entry)) (gs_kernel_name (?gs ! k))"
    using Suc.prems(3) k len by (simp add: entry_loaded_def)
  note one = launch_one [OF run key job k this Suc.prems(4) mid(1) c]
  have "m = length ?gs - Suc k" using Suc.hyps(2) by simp
  from Suc.hyps(1) [OF this rest _ entry_loaded_leaves [OF Suc.prems(3) one(1)] one(2) mid(2)] k
  have "dv_holds view d' s final (im_pixels out) \<and> leaves view {s} {Buffer source, Buffer destination} d1 d'"
    by (simp add: insert_commute)
  then show ?case using leaves_trans [OF one(1)] by simp
qed

text \<open>What a stream slot holds, with the sizes it needs, and that its own stream may use all of it.\<close>

definition slot_needs :: "nat \<Rightarrow> stream_slot \<Rightarrow> (resource \<times> nat) list" where
  "slot_needs bytes slot = [(Event (ss_done slot), 0), (Event (ss_kernels_begin slot), 0), (Event (ss_kernels_end slot), 0),
     (Buffer (ss_front slot), bytes), (Buffer (ss_back slot), bytes), (Pinned (ss_staging slot), bytes)]"

definition slot_resources :: "stream_slot \<Rightarrow> resource list" where
  "slot_resources slot = map fst (slot_needs 0 slot)"

definition slot_owned :: "'d device_view \<Rightarrow> 'd \<Rightarrow> nat \<Rightarrow> stream_slot \<Rightarrow> bool" where
  "slot_owned view d bytes slot \<longleftrightarrow> (\<forall>(r, n) \<in> set (slot_needs bytes slot). dv_own view d (ss_stream slot) r n)"

lemma slot_owned_own:
  assumes "slot_owned view d bytes slot"
  shows "dv_own view d (ss_stream slot) (Buffer (ss_front slot)) bytes" "dv_own view d (ss_stream slot) (Buffer (ss_back slot)) bytes"
    "dv_own view d (ss_stream slot) (Pinned (ss_staging slot)) bytes" "dv_own view d (ss_stream slot) (Event (ss_done slot)) 0"
  using assms by (simp_all add: slot_owned_def slot_needs_def)

lemma slot_owned_leaves:
  assumes "slot_owned view d bytes slot" "leaves view S R d d'" "ss_stream slot \<in> S \<or> set (slot_resources slot) \<inter> R = {}"
  shows "slot_owned view d' bytes slot"
  unfolding slot_owned_def
proof (intro ballI, clarify)
  fix r n
  assume r: "(r, n) \<in> set (slot_needs bytes slot)"
  then have own: "dv_own view d (ss_stream slot) r n" using assms(1) by (auto simp: slot_owned_def)
  have "r \<in> set (slot_resources slot)" using r by (auto simp: slot_resources_def slot_needs_def)
  then show "dv_own view d' (ss_stream slot) r n" using leavesD(1) [OF assms(2) own] assms(3) by blast
qed

text \<open>
  The frame: copied in, run through the stages, copied out, recorded. Its answer is due with the slot's event,
  and no other slot is touched.
\<close>

lemma event_recorded:
  assumes "events_work drv view" "cuEventRecord drv e s d = ((CUDA_SUCCESS, u), d')"
  shows "leaves view {s} {Event e} d d'" "dv_holds view d s p bytes \<Longrightarrow> dv_holds view d' s p bytes"
    "dv_own view d s (Event e) 0 \<Longrightarrow> dv_copied view d s q bytes \<Longrightarrow> dv_due view d' e q bytes"
  using assms(1) [unfolded events_work_def, THEN conjunct1, rule_format, OF assms(2)] by simp_all

lemma copied_in:
  assumes "copies_work drv view" "cuMemcpyHtoDAsync drv p input n s d = ((CUDA_SUCCESS, u), d')"
    "dv_own view d s (Buffer p) m" "n \<le> m" "n \<le> length input"
  shows "dv_holds view d' s p (take n input)" "leaves view {s} {Buffer p} d d'"
  using assms(1) [unfolded copies_work_def, THEN conjunct1, rule_format, OF assms(2-5)] by simp_all

lemma copied_out:
  assumes "copies_work drv view" "cuMemcpyDtoHAsync drv q p (length bytes) s d = ((CUDA_SUCCESS, u), d')"
    "dv_own view d s (Pinned q) m" "length bytes \<le> m" "dv_holds view d s p bytes"
  shows "dv_copied view d' s q bytes" "leaves view {s} {Pinned q} d d'"
  using assms(1) [unfolded copies_work_def, THEN conjunct2, rule_format, OF assms(2-5)] by simp_all

lemma queue_frame_due:
  assumes ex: "executes drv expf view K" and key: "key \<in> K" "canonical_chain (key_chain key)"
      "emit_cuda_source expf key = Inr (ch_program entry)" "job_chain job = key_chain key" "job_channels job = key_channels key"
    and entry: "length (ch_stage_functions entry) = length (gp_stages (ch_program entry))" "entry_loaded view d entry"
    and slot: "slot_owned view d capacity slot" "ss_front slot \<noteq> ss_back slot" "bytes \<le> capacity" "bytes < 2 ^ 31"
    and job: "job_input job = Some input" "bytes \<le> length input" "bytes = nat (job_width job) * nat (job_channels job) * nat (job_height job)"
      "job_stride job = nat (job_width job) * nat (job_channels job)" "cpu_process expf job = Inr out"
    and run: "queue_frame drv expf job entry input bytes slot d = (Inr u, d')"
  shows "dv_due view d' (ss_done slot) (ss_staging slot) (im_pixels out)" "shaped_like out job"
    "leaves view {ss_stream slot} (set (slot_resources slot)) d d'"
proof -
  define s where "s = ss_stream slot"
  let ?L = "leaves view {s} (set (slot_resources slot))"
  have parts: "copies_work drv view" "events_work drv view" "kernels_run drv expf view K" using ex by (simp_all add: executes_def)
  obtain src where src: "image_from_bytes (job_width job) (job_height job) (job_channels job) input (nat (job_width job) * nat (job_channels job)) = Inr src"
      "apply_chain expf src (job_chain job) = Inr out"
    using job(1,4,5) by (auto simp: cpu_process_def bind_result_eq_Inr)
  have shape: "shaped_like src job" using image_from_bytes_Inr [OF src(1)] by (simp add: shaped_like_def)
  have pix: "im_pixels src = take bytes input" using image_from_bytes_prefix [OF src(1)] job(2,3) by simp
  note fin = shaped_like_mid [OF shape src(2)]
  show "shaped_like out job" by (rule fin(1))
  have size: "byte_count src = bytes" using pix job(2) by (simp add: byte_count_def)
  have mono: "leaves view {s} R a b \<Longrightarrow> R \<subseteq> set (slot_resources slot) \<Longrightarrow> ?L a b" for R a b by (erule leaves_mono) simp_all
  have in_slot: "{Buffer (ss_front slot)} \<subseteq> set (slot_resources slot)" "{Event (ss_kernels_begin slot)} \<subseteq> set (slot_resources slot)"
      "{Buffer (ss_front slot), Buffer (ss_back slot)} \<subseteq> set (slot_resources slot)" "{Event (ss_kernels_end slot)} \<subseteq> set (slot_resources slot)"
      "{Pinned (ss_staging slot)} \<subseteq> set (slot_resources slot)" "{Event (ss_done slot)} \<subseteq> set (slot_resources slot)"
    by (simp_all add: slot_resources_def slot_needs_def)
  obtain u1 d1 u2 d2 final d3 u4 d4 u5 d5 where
      c1: "cuMemcpyHtoDAsync drv (ss_front slot) input bytes s d = ((CUDA_SUCCESS, u1), d1)"
    and c2: "cuEventRecord drv (ss_kernels_begin slot) s d1 = ((CUDA_SUCCESS, u2), d2)"
    and c3: "launch_stages drv expf job s (zip (ch_stage_functions entry) (gp_stages (ch_program entry))) (ss_front slot) (ss_back slot) d2 = (Inr final, d3)"
    and c4: "cuEventRecord drv (ss_kernels_end slot) s d3 = ((CUDA_SUCCESS, u4), d4)"
    and c5: "cuMemcpyDtoHAsync drv (ss_staging slot) final bytes s d4 = ((CUDA_SUCCESS, u5), d5)"
    and c6: "cuEventRecord drv (ss_done slot) s d5 = ((CUDA_SUCCESS, u), d')"
    using run unfolding queue_frame_def Let_def s_def [symmetric] CUDA_SUCCESS_def
    by (elim then_act_cases) (auto dest!: CU_CHECK_returns)
  note own = slot_owned_own [OF slot(1), folded s_def]
  note h1 = copied_in [OF parts(1) c1 own(1) slot(3) job(2)]
  note e2 = event_recorded [OF parts(2) c2]
  have l2: "?L d d2" using leaves_trans [OF mono [OF h1(2) in_slot(1)] mono [OF e2(1) in_slot(2)]] .
  note own2 = slot_owned_own [OF slot_owned_leaves [OF slot(1) l2], folded s_def, simplified]
  have ready: "launch_ready view job s (ss_front slot) (ss_back slot) src d2"
    using slot(2-4) shape size e2(2) [OF h1(1)] own2 by (auto simp: launch_ready_def pix)
  have stages: "apply_chain expf src (map pl_op (concat (map stage_ops (drop 0 (plan_stages (key_chain key)))))) = Inr out"
    using src(2) key(4) plan_stages_ok [of "key_chain key"] by (simp add: plan_ok_def)
  from launch_stages_run [OF parts(3) key entry(1), of s 0 "ss_front slot" "ss_back slot" d2 final d3 src out] c3
    entry_loaded_leaves [OF entry(2) l2] ready stages
  have h3: "dv_holds view d3 s final (im_pixels out)" "leaves view {s} {Buffer (ss_front slot), Buffer (ss_back slot)} d2 d3" by simp_all
  note e4 = event_recorded [OF parts(2) c4]
  have l4: "?L d d4" using leaves_trans [OF leaves_trans [OF l2 mono [OF h3(2) in_slot(3)]] mono [OF e4(1) in_slot(4)]] .
  note own4 = slot_owned_own [OF slot_owned_leaves [OF slot(1) l4], folded s_def, simplified]
  have "bytes = length (im_pixels out)" using fin(3) size by (simp add: byte_count_def)
  then have out_bytes: "length (im_pixels out) = bytes" by simp
  note h5 = copied_out [OF parts(1), of "ss_staging slot" final "im_pixels out", unfolded out_bytes, OF c5 own4(3) slot(3) e4(2) [OF h3(1)]]
  note l5 = leaves_trans [OF l4 mono [OF h5(2) in_slot(5)]]
  note own5 = slot_owned_own [OF slot_owned_leaves [OF slot(1) l5], folded s_def, simplified]
  note e6 = event_recorded [OF parts(2) c6]
  show "dv_due view d' (ss_done slot) (ss_staging slot) (im_pixels out)" by (rule e6(3) [OF own5(4) h5(1)])
  show "leaves view {ss_stream slot} (set (slot_resources slot)) d d'"
    using leaves_trans [OF l5 mono [OF e6(1) in_slot(6)]] by (simp add: s_def)
qed

section \<open>Compiling a chain\<close>

lemma undisturbed_order: "reflp (undisturbed view)" "transp (undisturbed view)"
  by (auto simp: reflp_def transp_def intro: leaves_trans)

lemma NVRTC_CHECK_state: "snd (NVRTC_CHECK drv expr file line call d) = snd (call d)"
  by (simp add: NVRTC_CHECK_def case_prod_unfold)

lemma touches_keeps: "touches view {} operation \<Longrightarrow> keeps (undisturbed view) (CU_CHECK drv expr file line operation)"
  by (simp add: touches_def keeps_def CU_CHECK_state)

lemma query_keeps: "queries_program view p answer operation \<Longrightarrow> keeps (undisturbed view) (NVRTC_CHECK drv expr file line operation)"
  unfolding queries_program_def keeps_def NVRTC_CHECK_state by (metis surj_pair snd_conv)

lemma query_answers:
  assumes "queries_program view p answer operation" "NVRTC_CHECK drv expr file line operation d = (Inr v, d')" "dv_compiled view d p ptx"
  shows "dv_compiled view d' p ptx" "answer ptx v"
  using assms(1) [unfolded queries_program_def, rule_format, OF NVRTC_CHECK_returns [OF assms(2)]] assms(3) by simp_all

lemma read_sized_keeps: "keeps (undisturbed view) getter \<Longrightarrow> keeps (undisturbed view) (read_sized n getter)"
  by (auto simp: read_sized_def intro!: keeps_then keeps_return undisturbed_order)

lemma compiler_queries:
  assumes "compiler_works drv view"
  shows "queries_program view p (\<lambda>_ _. True) (nvrtcGetProgramLogSize drv p)" "queries_program view p (\<lambda>_ _. True) (nvrtcGetProgramLog drv p)"
    "queries_program view p (\<lambda>ptx n. n = length ptx + 1) (nvrtcGetPTXSize drv p)"
    "queries_program view p (\<lambda>ptx written. take (length ptx) written = ptx) (nvrtcGetPTX drv p)"
    "touches view {} (nvrtcDestroyProgram drv p)"
  using assms unfolding compiler_works_def by simp_all

lemma read_sized_compiled:
  assumes "read_sized n (NVRTC_CHECK drv expr file line operation) d = (Inr ptx', d')" "queries_program view p answer operation"
    "dv_compiled view d p ptx"
  shows "dv_compiled view d' p ptx"
  using assms(1) query_answers(1) [OF assms(2) _ assms(3)] assms(3)
  by (auto simp: read_sized_def split: if_splits elim!: then_act_cases)

lemma nvrtc_results_compiled:
  assumes works: "compiler_works drv view" and run: "nvrtc_results drv p name arch 0 d = (Inr ptx', d')" and c: "dv_compiled view d p ptx"
  shows "ptx' = ptx"
proof -
  note q = compiler_queries [OF works, of p]
  obtain n d1 log d2 size d3 where
      a: "NVRTC_CHECK drv ''nvrtcGetProgramLogSize(program.get(), &log_size)'' kNvrtcFile 69 (nvrtcGetProgramLogSize drv p) d = (Inr n, d1)"
    and b: "read_sized n (NVRTC_CHECK drv ''nvrtcGetProgramLog(program.get(), out)'' kNvrtcFile 71 (nvrtcGetProgramLog drv p)) d1 = (Inr log, d2)"
    and s: "NVRTC_CHECK drv ''nvrtcGetPTXSize(program.get(), &ptx_size)'' kNvrtcFile 79 (nvrtcGetPTXSize drv p) d2 = (Inr size, d3)"
    and g: "read_sized size (NVRTC_CHECK drv ''nvrtcGetPTX(program.get(), out)'' kNvrtcFile 81 (nvrtcGetPTX drv p)) d3 = (Inr ptx', d')"
    using run unfolding nvrtc_results_def by (auto elim!: then_act_cases)
  have c2: "dv_compiled view d2 p ptx" by (rule read_sized_compiled [OF b q(2) query_answers(1) [OF q(1) a c]])
  note size = query_answers [OF q(3) s c2]
  show ?thesis
  proof (cases "ptx = []")
    case True
    then show ?thesis using g size(2) by (simp add: read_sized_def)
  next
    case False
    obtain written where w: "NVRTC_CHECK drv ''nvrtcGetPTX(program.get(), out)'' kNvrtcFile 81 (nvrtcGetPTX drv p) d3 = (Inr written, d')"
        "ptx' = butlast (take size (written @ replicate (size - length written) (CHR 0x00)))"
      using g size(2) False by (auto simp: read_sized_def elim!: then_act_cases)
    have t: "take (length ptx) written = ptx" by (rule query_answers(2) [OF q(4) w(1) size(1)])
    then have "length ptx \<le> length written" by (metis length_take min.cobounded1 nat_le_linear min_def)
    then consider "length written = length ptx" | "size \<le> length written" using size(2) by linarith
    then show ?thesis using w(2) size(2) t by cases (simp_all add: butlast_append butlast_take)
  qed
qed

lemma nvrtc_results_keeps: "compiler_works drv view \<Longrightarrow> keeps (undisturbed view) (nvrtc_results drv p name arch c)"
  unfolding nvrtc_results_def
  by (auto intro!: keeps_then keeps_throw undisturbed_order read_sized_keeps query_keeps compiler_queries)

lemma compile_to_ptx_effect:
  assumes works: "compiler_works drv view" and run: "compile_to_ptx drv source name arch d = (r, d')"
  shows "undisturbed view d d'" "r = Inr ptx \<Longrightarrow> dv_ptx view source ptx"
proof -
  let ?create = "NVRTC_CHECK drv ''nvrtcCreateProgram(&program_, source.c_str(), name, 0, nullptr, nullptr)'' kNvrtcFile 24 (nvrtcCreateProgram drv source name)"
  obtain r1 d1 where c: "?create d = (r1, d1)" by fastforce
  note create = works [unfolded compiler_works_def, THEN conjunct1, rule_format]
  have u1: "undisturbed view d d1" using create c by (metis NVRTC_CHECK_state snd_conv surj_pair)
  have "undisturbed view d d' \<and> (\<forall>ptx. r = Inr ptx \<longrightarrow> dv_ptx view source ptx)"
  proof (cases r1)
    case (Inl e)
    then show ?thesis using run c u1 by (auto simp: compile_to_ptx_def)
  next
    case (Inr p)
    have p: "dv_program view d1 p source" using create NVRTC_CHECK_returns [OF c [unfolded Inr]] by blast
    obtain k u d2 where k: "nvrtcCompileProgram drv p [''--gpu-architecture='' @ arch] d1 = ((k, u), d2)" by (metis surj_pair)
    note compile = works [unfolded compiler_works_def, THEN conjunct2, THEN conjunct1, rule_format, OF k]
    obtain d3 where o: "nvrtc_results drv p name arch k d2 = (r, d3)" and d': "d' = (if p \<noteq> 0 then snd (nvrtcDestroyProgram drv p d3) else d3)"
      using run c Inr k by (auto simp: compile_to_ptx_def nvrtc_outputs_def split: prod.splits)
    have u2: "undisturbed view d1 d2" using compile by simp
    have u3: "undisturbed view d2 d3" using nvrtc_results_keeps [OF works, of p name arch k] o unfolding keeps_def by (metis snd_conv)
    have u4: "undisturbed view d3 d'" using compiler_queries(5) [OF works, of p] d' by (simp add: touches_def)
    note u = leaves_trans [OF leaves_trans [OF leaves_trans [OF u1 u2] u3] u4]
    have "dv_ptx view source ptx" if "r = Inr ptx" for ptx
    proof -
      have k0: "k = 0"
      proof (rule ccontr)
        assume "k \<noteq> 0"
        then show False using o that unfolding nvrtc_results_def by (auto elim!: then_act_cases)
      qed
      then obtain ptx' where "dv_ptx view source ptx'" "dv_compiled view d2 p ptx'" using compile p by blast
      then show ?thesis using nvrtc_results_compiled [OF works o [unfolded k0 that]] by simp
    qed
    with u show ?thesis by blast
  qed
  then show "undisturbed view d d'" "r = Inr ptx \<Longrightarrow> dv_ptx view source ptx" by simp_all
qed

text \<open>
  A compiled entry is loaded. A failure before the driver was asked for a module is an exception of NVRTC or of the generator and
  leaves everything as it was; one after it is a driver error.
\<close>

lemma load_functions_loaded:
  assumes works: "compiler_works drv view"
  shows "get_functions drv m stages d = (Inr fs, d') \<Longrightarrow> dv_module view d m source \<Longrightarrow>
    undisturbed view d d' \<and> (\<forall>i < length stages. dv_kernel view d' (fs ! i) source (gs_kernel_name (stages ! i)))"
proof (induction stages arbitrary: fs d)
  case (Cons stage stages)
  obtain f d1 fs' where f: "get_function drv m (gs_kernel_name stage) d = (Inr f, d1)" "get_functions drv m stages d1 = (Inr fs', d')" "fs = f # fs'"
    using Cons.prems(1) by (auto elim!: then_act_cases)
  have c: "cuModuleGetFunction drv m (gs_kernel_name stage) d = ((CUDA_SUCCESS, f), d1)"
    using f(1) by (auto simp: get_function_def CUDA_SUCCESS_def dest: CU_CHECK_returns)
  have one: "undisturbed view d d1" "dv_kernel view d1 f source (gs_kernel_name stage)"
    using works [unfolded compiler_works_def, THEN conjunct2, THEN conjunct2, THEN conjunct2, THEN conjunct2, THEN conjunct2, rule_format, OF c] Cons.prems(2)
    by simp_all
  note rest = Cons.IH [OF f(2) leavesD(3) [OF one(1) Cons.prems(2)]]
  have "dv_kernel view d' (fs ! i) source (gs_kernel_name ((stage # stages) ! i))" if "i < length (stage # stages)" for i
    using that rest one(2) leavesD(4) [of view "{}" "{}" d1 d'] by (cases i) (simp_all add: f(3))
  then show ?case using leaves_trans [OF one(1)] rest by blast
qed simp

lemma compile_entry_loaded:
  assumes works: "compiler_works drv view" and run: "compile_entry drv expf arch key d = (r, d')"
  shows "(\<exists>m. r = Inl (Cuda_error m)) \<or> undisturbed view d d' \<and> (\<forall>entry. r = Inr entry \<longrightarrow> entry_loaded view d' entry)"
proof (cases "emit_cuda_source expf key")
  case (Inl e)
  then show ?thesis using run by (auto simp: compile_entry_def)
next
  case (Inr program)
  obtain r1 d1 where c: "compile_to_ptx drv (gp_source program) ''imgjit_chain.cu'' arch d = (r1, d1)" by fastforce
  note ptx = compile_to_ptx_effect [OF works c]
  show ?thesis
  proof (cases r1)
    case (Inl e)
    then show ?thesis using run c Inr ptx(1) by (auto simp: compile_entry_def)
  next
    case ptx': (Inr ptx')
    have m: "then_act (CudaModule_new drv ptx') (\<lambda>m. load_functions drv program ptx' m) d1 = (r, d')"
      using run c Inr ptx' by (simp add: compile_entry_def)
    then show ?thesis
    proof (cases rule: then_act_cases)
      case (throws e)
      then show ?thesis using CU_CHECK_fails by (metis CudaModule_new_def)
    next
      case (continues m d2)
      have "cuModuleLoadData drv ptx' d1 = ((CUDA_SUCCESS, m), d2)"
        using continues(1) by (auto simp: CudaModule_new_def CUDA_SUCCESS_def dest: CU_CHECK_returns)
      from works [unfolded compiler_works_def, THEN conjunct2, THEN conjunct2, THEN conjunct2, THEN conjunct2, THEN conjunct1, rule_format, OF this] ptx(2) [OF ptx']
      have m: "undisturbed view d1 d2" "dv_module view d2 m (gp_source program)" by blast+
      obtain r3 d3 where g: "get_functions drv m (gp_stages program) d2 = (r3, d3)" by fastforce
      show ?thesis
      proof (cases r3)
        case (Inl e)
        have "throws_only is_cuda (get_functions drv m stages)" for stages
          by (induction stages) (simp add: throws_only_def, simp add: throws_only_then get_function_def)
        then have "is_cuda e" using g Inl by (metis fst_conv throws_onlyD)
        then show ?thesis using continues(2) g Inl by (auto simp: load_functions_def is_cuda_def split: cpp_exception.splits)
      next
        case fs: (Inr fs)
        note l = load_functions_loaded [OF works g [unfolded fs] m(2)]
        have r: "r = Inr \<lparr>ch_program = program, ch_ptx = ptx', ch_module = m, ch_stage_functions = fs\<rparr>" "d' = d3"
          using continues(2) g fs by (auto simp: load_functions_def)
        have "undisturbed view d d'" using leaves_trans [OF leaves_trans [OF ptx(1) m(1)]] l r(2) by blast
        moreover have "entry_loaded view d' \<lparr>ch_program = program, ch_ptx = ptx', ch_module = m, ch_stage_functions = fs\<rparr>"
          using l r(2) get_functions_length [OF g [unfolded fs]] by (simp add: entry_loaded_def)
        ultimately show ?thesis using r(1) by blast
      qed
    qed
  qed
qed

section \<open>Allocating a slot\<close>

text \<open>Members that are new: none of them was in use before, and every stream may use them.\<close>

definition new_resources :: "'d device_view \<Rightarrow> 'd \<Rightarrow> 'd \<Rightarrow> (resource \<times> nat) list \<Rightarrow> bool" where
  "new_resources view d d' rs \<longleftrightarrow> distinct (map fst rs) \<and> (\<forall>(q, n) \<in> set rs. unused view d q \<and> (\<forall>s. dv_own view d' s q n))"

definition member_works :: "'d device_view \<Rightarrow> (nat \<Rightarrow> (resource \<times> nat) list) \<Rightarrow> ('d, nat) action \<times> (nat \<Rightarrow> 'd \<Rightarrow> 'd) \<Rightarrow> bool" where
  "member_works view mk member \<longleftrightarrow>
     (\<forall>d r d'. fst member d = (r, d') \<longrightarrow> undisturbed view d d' \<and> (\<forall>h. r = Inr h \<longrightarrow> new_resources view d d' (mk h))) \<and>
     (\<forall>h d. leaves view {} (fst ` set (mk h)) d (snd member h d))"

lemma new_resources_append:
  assumes "undisturbed view d d1" "undisturbed view d1 d2" "new_resources view d d1 rs" "new_resources view d1 d2 qs"
  shows "new_resources view d d2 (rs @ qs)"
proof -
  have "q \<noteq> q'" if "(q, n) \<in> set rs" "(q', n') \<in> set qs" for q n q' n'
  proof
    assume "q = q'"
    moreover have "dv_own view d1 0 q n" using assms(3) that(1) by (auto simp: new_resources_def)
    moreover have "unused view d1 q'" using assms(4) that(2) by (auto simp: new_resources_def)
    ultimately show False by (simp add: unused_def)
  qed
  then have "distinct (map fst (rs @ qs))" using assms(3,4) by (auto simp: new_resources_def)
  moreover have "unused view d q \<and> (\<forall>s. dv_own view d2 s q n)" if "(q, n) \<in> set (rs @ qs)" for q n
  proof (cases "(q, n) \<in> set rs")
    case True
    then have "unused view d q" "\<forall>s. dv_own view d1 s q n" using assms(3) by (auto simp: new_resources_def)
    then show ?thesis using leavesD(1) [OF assms(2)] by simp
  next
    case False
    then have "unused view d1 q" "\<forall>s. dv_own view d2 s q n" using that assms(4) by (auto simp: new_resources_def)
    then show ?thesis using unused_back [OF assms(1)] by blast
  qed
  ultimately show ?thesis by (auto simp: new_resources_def)
qed

lemma construct_all_new:
  assumes "list_all2 (member_works view) mks members" "construct_all members d = (r, d')"
  shows "undisturbed view d d' \<and>
    (\<forall>hs. r = Inr hs \<longrightarrow> length hs = length mks \<and> new_resources view d d' (concat (map2 (\<lambda>mk h. mk h) mks hs)))"
  using assms
proof (induction mks members arbitrary: d r d' rule: list_all2_induct)
  case Nil
  then show ?case by (auto simp: new_resources_def)
next
  case (Cons mk mks member members)
  obtain build destroy where m: "member = (build, destroy)" by fastforce
  obtain r1 d1 where b: "build d = (r1, d1)" by fastforce
  have u1: "undisturbed view d d1" and new: "\<And>h. r1 = Inr h \<Longrightarrow> new_resources view d d1 (mk h)"
    and del: "\<And>h a. leaves view {} (fst ` set (mk h)) a (destroy h a)"
    using Cons.hyps(1) b unfolding m member_works_def by simp_all
  show ?case
  proof (cases r1)
    case (Inl e)
    then show ?thesis using Cons.prems b u1 by (auto simp: m)
  next
    case (Inr h)
    obtain r2 d2 where rest: "construct_all members d1 = (r2, d2)" by fastforce
    note IH = Cons.IH [OF rest]
    have u2: "undisturbed view d d2" using leaves_trans [OF u1] IH by blast
    show ?thesis
    proof (cases r2)
      case (Inl e)
      then have d': "d' = destroy h d2" "r = Inl e" using Cons.prems b Inr rest by (simp_all add: m)
      have "leaves view {} (fst ` set (mk h)) d d2" using u2 by (rule leaves_mono) simp_all
      from leaves_trans [OF this del] have "leaves view {} (fst ` set (mk h)) d d'" by (simp add: d')
      moreover have "\<forall>q \<in> fst ` set (mk h). unused view d q" using new [OF Inr] by (auto simp: new_resources_def)
      ultimately have "undisturbed view d d'" by (rule leaves_unused)
      then show ?thesis by (simp add: d'(2))
    next
      case hs: (Inr hs)
      then have d': "d' = d2" "r = Inr (h # hs)" using Cons.prems b Inr rest by (simp_all add: m)
      have "new_resources view d d2 (mk h @ concat (map2 (\<lambda>mk h. mk h) mks hs))"
        using IH hs by (intro new_resources_append [OF u1 _ new [OF Inr]]) simp_all
      then show ?thesis using u2 IH hs by (simp add: d')
    qed
  qed
qed

lemma allocation_laws:
  assumes "allocation_works drv view"
  shows "creates view Buffer n (cuMemAlloc drv n)" "creates view Pinned n (cuMemAllocHost drv n)" "creates view Event 0 (cuEventCreate drv timing)"
    "touches view {} (cuStreamCreate drv)" "touches view {Buffer h} (cuMemFree drv h)" "touches view {Pinned h} (cuMemFreeHost drv h)"
    "touches view {Event h} (cuEventDestroy drv h)" "touches view {} (cuStreamDestroy drv h)"
    "touches view {} (cuMemHostRegister drv h n)" "undisturbed view d (snd (operator_new drv n k d))"
  using assms by (simp_all add: allocation_works_def)

lemma raii_delete_touches: "touches view R (destroy h) \<Longrightarrow> leaves view {} R d (snd (raii_reset destroy h d))"
  by (simp add: raii_reset_def CU_CHECK_NOTHROW_def touches_def)

lemma creates_member:
  assumes "creates view mk n create" "\<And>h. touches view {mk h} (destroy h)"
  shows "member_works view (\<lambda>h. [(mk h, n)]) (CU_CHECK drv expr file line create, \<lambda>h d. snd (raii_reset destroy h d))"
proof -
  have "undisturbed view d d' \<and> (\<forall>h. r = Inr h \<longrightarrow> new_resources view d d' [(mk h, n)])"
    if run: "CU_CHECK drv expr file line create d = (r, d')" for d r d'
  proof -
    obtain k v where c: "create d = ((k, v), d')" using run by (auto simp: CU_CHECK_def split: prod.splits)
    note eff = assms(1) [unfolded creates_def, rule_format, OF c]
    have "k = CUDA_SUCCESS" "v = h" if "r = Inr h" for h
      using run [unfolded that] c by (auto simp: CUDA_SUCCESS_def dest: CU_CHECK_returns)
    with eff show ?thesis by (auto simp: new_resources_def)
  qed
  moreover have "leaves view {} {mk h} d (snd (raii_reset destroy h d))" for h d
    using assms(2) by (rule raii_delete_touches)
  ultimately show ?thesis by (simp add: member_works_def)
qed

lemma slot_members_work:
  assumes "allocation_works drv view"
  shows "list_all2 (member_works view)
    [\<lambda>h. [], \<lambda>h. [(Event h, 0)], \<lambda>h. [(Event h, 0)], \<lambda>h. [(Event h, 0)], \<lambda>h. [(Buffer h, bytes)], \<lambda>h. [(Buffer h, bytes)], \<lambda>h. [(Pinned h, bytes)]]
    (slot_members drv bytes)"
proof -
  note laws = allocation_laws [OF assms]
  have "member_works view (\<lambda>h. []) (CudaStream_new drv, CudaStream_delete drv)"
    using touches_keeps [OF laws(4)] raii_delete_touches [OF laws(8)]
    by (auto simp: member_works_def new_resources_def CudaStream_new_def CudaStream_delete_def keeps_def) (metis snd_conv)
  moreover have "member_works view (\<lambda>h. [(Event h, 0)]) (CudaEvent_new drv timing, CudaEvent_delete drv)" for timing
    unfolding CudaEvent_new_def CudaEvent_delete_def [abs_def] by (rule creates_member [OF laws(3,7)])
  moreover have "member_works view (\<lambda>h. [(Buffer h, bytes)]) (DeviceBuffer_new drv bytes, DeviceBuffer_delete drv)"
    unfolding DeviceBuffer_new_def DeviceBuffer_delete_def [abs_def] by (rule creates_member [OF laws(1,5)])
  moreover have "member_works view (\<lambda>h. [(Pinned h, bytes)]) (PinnedHostBuffer_new drv bytes, PinnedHostBuffer_delete drv)"
    unfolding PinnedHostBuffer_new_def PinnedHostBuffer_delete_def [abs_def] by (rule creates_member [OF laws(2,6)])
  ultimately show ?thesis by (simp add: slot_members_def)
qed

lemma StreamSlot_new_resources:
  assumes "allocation_works drv view" "StreamSlot_new drv bytes d = (r, d')"
  shows "undisturbed view d d' \<and> (\<forall>slot. r = Inr slot \<longrightarrow> new_resources view d d' (slot_needs bytes slot))"
proof -
  obtain r1 d1 where c: "construct_all (slot_members drv bytes) d = (r1, d1)" by fastforce
  note new = construct_all_new [OF slot_members_work [OF assms(1)] c]
  show ?thesis
  proof (cases r1)
    case (Inl e)
    then show ?thesis using assms(2) c new by (auto simp: StreamSlot_new_def)
  next
    case (Inr hs)
    then have "length hs = 7" using new by simp
    then obtain a b c d e f g where "hs = [a, b, c, d, e, f, g]"
      by (auto simp: numeral_eq_Suc length_Suc_conv)
    then show ?thesis using assms(2) c new Inr by (auto simp: StreamSlot_new_def slot_needs_def)
  qed
qed

end
