(* ===== verification/Cuda_Correct.thy ===== *)
theory Cuda_Correct
  imports Cuda_Device
begin

text \<open>
  The CUDA backend computes what the CPU oracle computes, on a driver that \<open>executes\<close>. The invariant \<open>device_ok\<close> ties the
  slots, the cache and the completions to the driver state; a driver error costs the part that speaks of the driver
  and leaves \<open>answers_ok\<close>, from which recovery rebuilds all of it.
\<close>

text \<open>The configuration of a backend as a key.\<close>

abbreviation config_key :: "tile_variant \<Rightarrow> int \<Rightarrow> constants_mode \<Rightarrow> kernel_key" where
  "config_key tile tile_size constants \<equiv>
     \<lparr>key_chain = [], key_channels = 0, key_tile = tile, key_tile_size = tile_size, key_constants = constants\<rparr>"

section \<open>The invariant\<close>

text \<open>
  \<open>cfg\<close> is the configuration of the backend as a key (its chain and channels do not matter), \<open>capacity\<close> the size of its
  device buffers, \<open>jobs\<close> what was submitted under which handle.
\<close>

definition answers_ok :: "(rat \<Rightarrow> rat) \<Rightarrow> kernel_key \<Rightarrow> nat \<Rightarrow> (job_handle \<times> frame_job) set \<Rightarrow> 'd cuda_backend \<Rightarrow> bool" where
  "answers_ok expf cfg capacity jobs b \<longleftrightarrow> key_for (key_chain cfg) (key_channels cfg) b = cfg \<and> bk_slot_bytes b = capacity \<and>
     capacity < 2 ^ 31 \<and>
     (\<forall>c \<in> set (bk_completed b). cp_status c = job_kOk \<longrightarrow>
        (\<exists>job. (cp_handle c, job) \<in> jobs \<and> cpu_process expf job = Inr (cp_output c)))"

definition frame_due :: "'d device_view \<Rightarrow> (rat \<Rightarrow> rat) \<Rightarrow> (job_handle \<times> frame_job) set \<Rightarrow> 'd \<Rightarrow> stream_slot \<Rightarrow> bool" where
  "frame_due view expf jobs d slot \<longleftrightarrow> (\<exists>job out. (ss_handle slot, job) \<in> jobs \<and> cpu_process expf job = Inr out \<and> image_wf out \<and>
     im_width out = ss_width slot \<and> im_height out = ss_height slot \<and> im_channels out = ss_channels slot \<and>
     dv_due view d (ss_done slot) (ss_staging slot) (im_pixels out))"

definition slots_ok :: "'d device_view \<Rightarrow> (rat \<Rightarrow> rat) \<Rightarrow> nat \<Rightarrow> (job_handle \<times> frame_job) set \<Rightarrow> 'd \<Rightarrow> stream_slot list \<Rightarrow> bool" where
  "slots_ok view expf capacity jobs d slots \<longleftrightarrow> distinct (concat (map slot_resources slots)) \<and>
     (\<forall>slot \<in> set slots. slot_owned view d capacity slot \<and> (ss_busy slot \<longrightarrow> frame_due view expf jobs d slot))"

definition cache_loaded :: "'d device_view \<Rightarrow> (rat \<Rightarrow> rat) \<Rightarrow> 'd \<Rightarrow> kernel_cache \<Rightarrow> bool" where
  "cache_loaded view expf d cache \<longleftrightarrow> cache_inv expf cache \<and> (\<forall>entry \<in> snd ` set (kc_entries cache). entry_loaded view d entry)"

definition device_ok :: "'d device_view \<Rightarrow> (rat \<Rightarrow> rat) \<Rightarrow> kernel_key \<Rightarrow> nat \<Rightarrow> (job_handle \<times> frame_job) set \<Rightarrow> 'd cuda_backend \<Rightarrow> bool" where
  "device_ok view expf cfg capacity jobs b \<longleftrightarrow> answers_ok expf cfg capacity jobs b \<and>
     slots_ok view expf capacity jobs (bk_driver b) (bk_streams b) \<and> cache_loaded view expf (bk_driver b) (bk_cache b)"

text \<open>What a call that returned \<open>r\<close> guarantees.\<close>

definition settled_ok :: "'d device_view \<Rightarrow> (rat \<Rightarrow> rat) \<Rightarrow> kernel_key \<Rightarrow> nat \<Rightarrow> (job_handle \<times> frame_job) set \<Rightarrow> 'd \<Rightarrow> 'a result \<Rightarrow> 'd cuda_backend \<Rightarrow> bool" where
  "settled_ok view expf cfg capacity jobs d r b \<longleftrightarrow>
     (if \<exists>m. r = Inl (Cuda_error m) then answers_ok expf cfg capacity jobs b
      else device_ok view expf cfg capacity jobs b \<and> undisturbed view d (bk_driver b))"

lemma device_ok_answers: "device_ok view expf cfg capacity jobs b \<Longrightarrow> answers_ok expf cfg capacity jobs b"
  by (simp add: device_ok_def)

lemma settled_answers: "settled_ok view expf cfg capacity jobs d r b \<Longrightarrow> answers_ok expf cfg capacity jobs b"
  by (auto simp: settled_ok_def device_ok_def split: if_splits)

lemma answers_ok_mono: "answers_ok expf cfg capacity jobs b \<Longrightarrow> jobs \<subseteq> jobs' \<Longrightarrow> answers_ok expf cfg capacity jobs' b"
  unfolding answers_ok_def by blast

lemma device_ok_mono:
  assumes "device_ok view expf cfg capacity jobs b" "jobs \<subseteq> jobs'"
  shows "device_ok view expf cfg capacity jobs' b"
proof -
  have "slots_ok view expf capacity jobs' (bk_driver b) (bk_streams b)"
    using assms unfolding device_ok_def slots_ok_def frame_due_def by blast
  then show ?thesis using assms answers_ok_mono by (auto simp: device_ok_def)
qed

lemma frame_due_leaves:
  assumes "frame_due view expf jobs d slot" "leaves view S R d d'" "set (slot_resources slot) \<inter> R = {}"
  shows "frame_due view expf jobs d' slot"
proof -
  have "Event (ss_done slot) \<notin> R" "Pinned (ss_staging slot) \<notin> R" using assms(3) by (auto simp: slot_resources_def slot_needs_def)
  then show ?thesis using assms(1) leavesD(2) [OF assms(2)] unfolding frame_due_def by blast
qed

lemma slots_ok_undisturbed:
  assumes "slots_ok view expf capacity jobs d slots" "undisturbed view d d'"
  shows "slots_ok view expf capacity jobs d' slots"
  using assms(1) slot_owned_leaves [OF _ assms(2)] frame_due_leaves [OF _ assms(2)] by (simp add: slots_ok_def)

lemma cache_loaded_leaves: "cache_loaded view expf d cache \<Longrightarrow> leaves view S R d d' \<Longrightarrow> cache_loaded view expf d' cache"
  using entry_loaded_leaves [of view d _ S R d'] by (simp add: cache_loaded_def)

lemma device_ok_driver:
  assumes "device_ok view expf cfg capacity jobs b" "undisturbed view (bk_driver b) d"
  shows "device_ok view expf cfg capacity jobs (b\<lparr>bk_driver := d\<rparr>)"
  using assms slots_ok_undisturbed [OF _ assms(2)] cache_loaded_leaves [OF _ assms(2)]
  by (simp add: device_ok_def answers_ok_def key_for_def)

section \<open>Retiring frames\<close>

lemma on_driver_run:
  assumes "on_driver m b = (r, b')"
  obtains d where "m (bk_driver b) = (r, d)" "b' = b\<lparr>bk_driver := d\<rparr>"
  using assms by (auto simp: on_driver_def split: prod.splits)

lemma answers_ok_same:
  assumes "answers_ok expf cfg capacity jobs b" "bk_tile b' = bk_tile b" "bk_tile_size b' = bk_tile_size b" "bk_constants b' = bk_constants b"
    "bk_slot_bytes b' = bk_slot_bytes b" "bk_completed b' = bk_completed b"
  shows "answers_ok expf cfg capacity jobs b'"
  using assms by (simp add: answers_ok_def key_for_def)

lemma slots_ok_idle:
  assumes "slots_ok view expf capacity jobs d slots" "i < length slots"
  shows "slots_ok view expf capacity jobs d (slots[i := (slots ! i)\<lparr>ss_busy := False\<rparr>])"
proof -
  have "slot_resources ((slots ! i)\<lparr>ss_busy := False\<rparr>) = slot_resources (slots ! i)" by (simp add: slot_resources_def slot_needs_def)
  then have "map slot_resources (slots[i := (slots ! i)\<lparr>ss_busy := False\<rparr>]) = map slot_resources slots"
    using assms(2) by (simp add: map_update list_update_same_conv)
  moreover have "slot_owned view d capacity ((slots ! i)\<lparr>ss_busy := False\<rparr>) = slot_owned view d capacity (slots ! i)"
    by (simp add: slot_owned_def slot_needs_def)
  moreover have "slots ! i \<in> set slots" using assms(2) by simp
  ultimately show ?thesis using assms(1) set_update_subset_insert [of slots i "(slots ! i)\<lparr>ss_busy := False\<rparr>"]
    by (auto simp: slots_ok_def)
qed

lemma finish_slot_correct:
  assumes ev: "events_work drv view" and ok: "device_ok view expf cfg capacity jobs b" and i: "i < length (bk_streams b)"
    and out: "(ss_handle (bk_streams b ! i), job) \<in> jobs" "cpu_process expf job = Inr out" "image_wf out"
      "im_width out = ss_width (bk_streams b ! i)" "im_height out = ss_height (bk_streams b ! i)" "im_channels out = ss_channels (bk_streams b ! i)"
    and landed: "dv_landed view (bk_driver b) (ss_staging (bk_streams b ! i)) (im_pixels out)"
    and run: "finish_slot drv i ms b = (r, b')"
  shows "r = Inr () \<and> device_ok view expf cfg capacity jobs b' \<and> bk_driver b' = bk_driver b"
proof -
  define slot where "slot = bk_streams b ! i"
  define memory where "memory = host_bytes drv (ss_staging slot) (bk_driver b)"
  have "take (length (im_pixels out)) memory = im_pixels out"
    using ev landed unfolding events_work_def memory_def slot_def by blast
  then have "memory = im_pixels out @ drop (length (im_pixels out)) memory" by (metis append_take_drop_id)
  then have "image_from_bytes (ss_width slot) (ss_height slot) (ss_channels slot) memory (nat (ss_width slot) * nat (ss_channels slot)) = Inr out"
    using image_from_bytes_same [OF out(3), of "drop (length (im_pixels out)) memory"] out(3-6) by (simp add: slot_def image_wf_def)
  then have b': "r = Inr ()" "bk_streams b' = (bk_streams b)[i := slot\<lparr>ss_busy := False\<rparr>]" "bk_driver b' = bk_driver b" "bk_cache b' = bk_cache b"
      "bk_completed b' = bk_completed b @ [\<lparr>cp_handle = ss_handle slot, cp_status = job_kOk, cp_output = out, cp_error = []\<rparr>]"
      "bk_slot_bytes b' = bk_slot_bytes b" "bk_tile b' = bk_tile b" "bk_tile_size b' = bk_tile_size b" "bk_constants b' = bk_constants b"
    using run by (auto simp: finish_slot_def Let_def slot_def memory_def)
  have "answers_ok expf cfg capacity jobs b'" using ok out(1,2) by (auto simp: device_ok_def answers_ok_def key_for_def b' slot_def)
  moreover have "slots_ok view expf capacity jobs (bk_driver b) (bk_streams b')"
    unfolding b'(2) slot_def using ok i by (intro slots_ok_idle) (simp_all add: device_ok_def)
  ultimately show ?thesis using ok b'(1,3,4) by (simp add: device_ok_def)
qed

lemma event_queried:
  assumes "events_work drv view" "cuEventQuery drv e d = ((r, u), d')" "r = CUDA_SUCCESS \<or> r = CUDA_ERROR_NOT_READY"
  shows "undisturbed view d d'" "r = CUDA_SUCCESS \<Longrightarrow> dv_due view d e p bytes \<Longrightarrow> dv_landed view d' p bytes"
  using assms(1) [unfolded events_work_def, THEN conjunct2, THEN conjunct1, rule_format, OF assms(2,3)] by simp_all

lemma event_timed:
  assumes "events_work drv view" "cuEventElapsedTime drv e1 e2 d = ((CUDA_SUCCESS, ms), d')"
  shows "undisturbed view d d'" "dv_landed view d p bytes \<Longrightarrow> dv_landed view d' p bytes"
  using assms(1) [unfolded events_work_def, THEN conjunct2, THEN conjunct2, THEN conjunct1, rule_format, OF assms(2)] by simp_all

lemma event_synchronized:
  assumes "events_work drv view" "cuEventSynchronize drv e d = ((CUDA_SUCCESS, u), d')"
  shows "undisturbed view d d'"
  using assms(1) [unfolded events_work_def, THEN conjunct2, THEN conjunct2, THEN conjunct2, THEN conjunct1, rule_format, OF assms(2)] .

lemma settled_driver:
  assumes "device_ok view expf cfg capacity jobs b" "undisturbed view (bk_driver b) d"
  shows "settled_ok view expf cfg capacity jobs (bk_driver b) (Inr x) (b\<lparr>bk_driver := d\<rparr>)"
  using device_ok_driver [OF assms] assms(2) by (simp add: settled_ok_def)

lemma settled_failed: "answers_ok expf cfg capacity jobs b \<Longrightarrow> settled_ok view expf cfg capacity jobs d (Inl (Cuda_error m)) b"
  by (simp add: settled_ok_def)

lemma settled_trans:
  assumes "undisturbed view d d1" "settled_ok view expf cfg capacity jobs d1 r b"
  shows "settled_ok view expf cfg capacity jobs d r b"
  using assms leaves_trans [OF assms(1)] by (simp add: settled_ok_def split: if_splits)

lemma retire_slot_correct:
  assumes ev: "events_work drv view" and ok: "device_ok view expf cfg capacity jobs b" and i: "i < length (bk_streams b)"
    and run: "retire_slot drv i b = (r, b')"
  shows "settled_ok view expf cfg capacity jobs (bk_driver b) r b'"
  using run
proof (cases rule: retire_slot_cases)
  case idle
  then show ?thesis using settled_driver [OF ok leaves_refl] by (simp add: settled_ok_def)
next
  case (waiting u d)
  then show ?thesis using settled_driver [OF ok event_queried(1) [OF ev waiting(4)]] by simp
next
  case (failed e status u d)
  then obtain m where "e = Cuda_error m" by (auto simp: cu_check_def split: if_splits)
  then show ?thesis using failed answers_ok_same [OF device_ok_answers [OF ok], of b'] by (simp add: settled_failed)
next
  case (retiring status u d)
  define slot where "slot = bk_streams b ! i"
  note q = event_queried [OF ev retiring(2) disjI1 [OF retiring(3)]]
  have "frame_due view expf jobs (bk_driver b) slot" using ok i retiring(1) by (simp add: device_ok_def slots_ok_def slot_def)
  then obtain job out where out: "(ss_handle slot, job) \<in> jobs" "cpu_process expf job = Inr out" "image_wf out" "im_width out = ss_width slot"
      "im_height out = ss_height slot" "im_channels out = ss_channels slot" "dv_due view (bk_driver b) (ss_done slot) (ss_staging slot) (im_pixels out)"
    unfolding frame_due_def by blast
  from retiring(4) show ?thesis
  proof (cases rule: then_act_cases)
    case (throws e)
    from throws(1) obtain d' where d': "slot_kernel_ms drv slot d = (Inl e, d')" "b' = b\<lparr>bk_driver := d'\<rparr>"
      unfolding slot_def by (rule on_driver_run) simp
    obtain m where "e = Cuda_error m" using CU_CHECK_fails [OF d'(1) [unfolded slot_kernel_ms_def]] by blast
    then show ?thesis using throws(2) d'(2) answers_ok_same [OF device_ok_answers [OF ok], of b'] by (simp add: settled_failed)
  next
    case (continues ms b2)
    from continues(1) obtain d2 where d2: "slot_kernel_ms drv slot d = (Inr ms, d2)" "b2 = b\<lparr>bk_driver := d2\<rparr>"
      unfolding slot_def by (rule on_driver_run) simp
    have "cuEventElapsedTime drv (ss_kernels_begin slot) (ss_kernels_end slot) d = ((CUDA_SUCCESS, ms), d2)"
      using CU_CHECK_returns [OF d2(1) [unfolded slot_kernel_ms_def]] by (simp add: CUDA_SUCCESS_def)
    note t = event_timed [OF ev this]
    have u: "undisturbed view (bk_driver b) d2" by (rule leaves_trans [OF q(1) t(1)])
    have "dv_landed view (bk_driver b2) (ss_staging slot) (im_pixels out)" using t(2) [OF q(2) [OF retiring(3) out(7) [unfolded slot_def]]] d2(2) by (simp add: slot_def)
    with finish_slot_correct [OF ev device_ok_driver [OF ok u] _ _ out(2,3) _ _ _ _ continues(2) [unfolded d2(2)]] i out
    have "r = Inr ()" "device_ok view expf cfg capacity jobs b'" "bk_driver b' = d2" by (simp_all add: d2(2) slot_def)
    then show ?thesis using u by (simp add: settled_ok_def)
  qed
qed

lemma retire_loop_correct:
  assumes ev: "events_work drv view"
  shows "retire_loop drv is b = (r, b') \<Longrightarrow> device_ok view expf cfg capacity jobs b \<Longrightarrow> \<forall>i \<in> set is. i < length (bk_streams b) \<Longrightarrow>
    settled_ok view expf cfg capacity jobs (bk_driver b) r b'"
proof (induction "is" arbitrary: b)
  case Nil
  then show ?case by (auto simp: settled_ok_def)
next
  case (Cons i "is")
  have i: "i < length (bk_streams b)" using Cons.prems(3) by simp
  from Cons.prems(1) show ?case unfolding retire_loop.simps
  proof (cases rule: then_act_cases)
    case (throws e)
    then show ?thesis using retire_slot_correct [OF ev Cons.prems(2) i throws(1)] by (simp add: settled_ok_def)
  next
    case (continues x b1)
    have one: "device_ok view expf cfg capacity jobs b1" "undisturbed view (bk_driver b) (bk_driver b1)"
      using retire_slot_correct [OF ev Cons.prems(2) i continues(1)] by (simp_all add: settled_ok_def)
    have "\<forall>i \<in> set is. i < length (bk_streams b1)" using Cons.prems(3) retire_slot_moved [OF i continues(1)] by (simp add: swept_def)
    from settled_trans [OF one(2) Cons.IH [OF continues(2) one(1) this]] show ?thesis .
  qed
qed

lemma retire_correct:
  assumes "events_work drv view" "device_ok view expf cfg capacity jobs b" "retire_ready_streams drv b = (r, b')"
  shows "settled_ok view expf cfg capacity jobs (bk_driver b) r b'"
  using assms(2,3) retire_loop_correct [OF assms(1), of "[0..<length (bk_streams b)]" b r b'] by (simp add: retire_ready_streams_def)

lemma wait_round_correct:
  assumes ev: "events_work drv view" and ok: "device_ok view expf cfg capacity jobs b" and run: "wait_round drv b = (r, b')"
  shows "settled_ok view expf cfg capacity jobs (bk_driver b) r b'"
proof -
  have ok1: "device_ok view expf cfg capacity jobs (count_stall b)" "bk_driver (count_stall b) = bk_driver b"
    using ok by (simp_all add: count_stall_def device_ok_def answers_ok_def key_for_def)
  from run [unfolded wait_round_def] show ?thesis
  proof (cases rule: then_act_cases)
    case (throws e)
    from throws(1) obtain d' where d': "CU_CHECK drv ''cuEventSynchronize(oldest->done.get())'' kBackendFile 295
        (cuEventSynchronize drv (ss_done (bk_streams b ! oldest_slot (bk_streams b)))) (bk_driver (count_stall b)) = (Inl e, d')"
        "b' = (count_stall b)\<lparr>bk_driver := d'\<rparr>" by (rule on_driver_run)
    obtain m where "e = Cuda_error m" using CU_CHECK_fails [OF d'(1)] by blast
    then show ?thesis using throws(2) answers_ok_same [OF device_ok_answers [OF ok1(1)], of b'] by (simp add: settled_failed d'(2))
  next
    case (continues x b1)
    from continues(1) obtain d1 where d1: "CU_CHECK drv ''cuEventSynchronize(oldest->done.get())'' kBackendFile 295
        (cuEventSynchronize drv (ss_done (bk_streams b ! oldest_slot (bk_streams b)))) (bk_driver (count_stall b)) = (Inr x, d1)"
        "b1 = (count_stall b)\<lparr>bk_driver := d1\<rparr>" by (rule on_driver_run)
    have u: "undisturbed view (bk_driver b) d1"
      using event_synchronized [OF ev CU_CHECK_returns [OF d1(1), folded CUDA_SUCCESS_def]] by (simp add: ok1(2))
    have "device_ok view expf cfg capacity jobs b1" using device_ok_driver [OF ok1(1)] u by (simp add: ok1(2) d1(2))
    from settled_trans [OF _ retire_correct [OF ev this continues(2)]] u show ?thesis by (simp add: d1(2))
  qed
qed

lemma claim_stream_correct:
  assumes ev: "events_work drv view" and ok: "device_ok view expf cfg capacity jobs b" and run: "claim_stream drv b = Some (r, b')"
  shows "settled_ok view expf cfg capacity jobs (bk_driver b) r b'"
proof -
  have "device_ok view expf cfg capacity jobs b \<longrightarrow> events_work drv view \<longrightarrow> settled_ok view expf cfg capacity jobs (bk_driver b) (fst y) (snd y)"
    if "claim_stream drv b = Some y" for y
    using that
  proof (induction rule: claim_stream.raw_induct [rotated 1, consumes 1])
    case (1 claim drv b y)
    show ?case
    proof (intro impI)
      assume ok: "device_ok view expf cfg capacity jobs b" and ev: "events_work drv view"
      show "settled_ok view expf cfg capacity jobs (bk_driver b) (fst y) (snd y)"
      proof (cases "first_idle (bk_streams b)")
        case (Some i)
        then show ?thesis using 1(2) ok by (auto simp: settled_ok_def)
      next
        case None
        obtain r1 b1 where w: "wait_round drv b = (r1, b1)" by fastforce
        note s = wait_round_correct [OF ev ok w]
        show ?thesis
        proof (cases r1)
          case (Inl e)
          then have "y = (Inl e, b1)" using 1(2) None w by simp
          then show ?thesis using s Inl by (simp add: settled_ok_def)
        next
          case (Inr x)
          then have "claim drv b1 = Some y" using 1(2) None w by simp
          moreover have "device_ok view expf cfg capacity jobs b1" "undisturbed view (bk_driver b) (bk_driver b1)"
            using s Inr by (simp_all add: settled_ok_def)
          ultimately show ?thesis using 1(1) [of drv b1 y] ev settled_trans [of view "bk_driver b" "bk_driver b1"] by simp
        qed
      qed
    qed
  qed
  from this [OF run] ok ev show ?thesis by simp
qed

section \<open>Recovery\<close>

text \<open>Without slots and entries nothing is asked of the driver.\<close>

lemma bare_device_ok:
  "answers_ok expf cfg capacity jobs b \<Longrightarrow> bk_streams b = [] \<Longrightarrow> kc_entries (bk_cache b) = [] \<Longrightarrow> device_ok view expf cfg capacity jobs b"
  by (simp add: device_ok_def slots_ok_def cache_loaded_def cache_inv_def)

lemma add_slot_correct:
  assumes ok: "device_ok view expf cfg capacity jobs b" and idle: "\<not> ss_busy slot"
    and new: "undisturbed view (bk_driver b) d" "new_resources view (bk_driver b) d (slot_needs capacity slot)"
  shows "device_ok view expf cfg capacity jobs (b\<lparr>bk_driver := d, bk_streams := bk_streams b @ [slot]\<rparr>)"
proof -
  have slots: "slots_ok view expf capacity jobs (bk_driver b) (bk_streams b)" using ok by (simp add: device_ok_def)
  have names: "map fst (slot_needs capacity slot) = slot_resources slot" by (simp add: slot_resources_def slot_needs_def)
  have mine: "slot_owned view d capacity slot" "distinct (slot_resources slot)" "\<forall>q \<in> set (slot_resources slot). unused view (bk_driver b) q"
    using new(2) by (auto simp: new_resources_def slot_owned_def simp flip: names)
  have "q \<notin> set (slot_resources slot)" if q: "q \<in> set (slot_resources s)" "s \<in> set (bk_streams b)" for q s
  proof -
    have "slot_owned view (bk_driver b) capacity s" using slots q(2) by (simp add: slots_ok_def)
    then have "\<exists>n. dv_own view (bk_driver b) (ss_stream s) q n" using q(1) by (auto simp: slot_owned_def slot_resources_def slot_needs_def)
    then show ?thesis using mine(3) by (auto simp: unused_def)
  qed
  then have "distinct (concat (map slot_resources (bk_streams b @ [slot])))"
    using slots mine(2) by (auto simp: slots_ok_def)
  then have "slots_ok view expf capacity jobs d (bk_streams b @ [slot])"
    using slots_ok_undisturbed [OF slots new(1)] mine(1) idle by (auto simp: slots_ok_def)
  then show ?thesis using ok cache_loaded_leaves [OF _ new(1)] by (simp add: device_ok_def answers_ok_def key_for_def)
qed

lemma emplace_slots_correct:
  assumes alloc: "allocation_works drv view"
  shows "device_ok view expf cfg capacity jobs b \<Longrightarrow> device_ok view expf cfg capacity jobs (snd (emplace_slots drv n b))"
proof (induction n arbitrary: b)
  case 0
  then show ?case by simp
next
  case (Suc n)
  have size: "bk_slot_bytes b = capacity" using Suc.prems by (simp add: device_ok_def answers_ok_def)
  obtain r b1 where o: "on_driver (StreamSlot_new drv (bk_slot_bytes b)) b = (r, b1)" by fastforce
  then obtain d where d: "StreamSlot_new drv capacity (bk_driver b) = (r, d)" "b1 = b\<lparr>bk_driver := d\<rparr>"
    unfolding size by (rule on_driver_run)
  note new = StreamSlot_new_resources [OF alloc d(1)]
  show ?case
  proof (cases r)
    case (Inl e)
    then show ?thesis using o device_ok_driver [OF Suc.prems] new by (simp add: d(2))
  next
    case (Inr slot)
    have "\<not> ss_busy slot" by (rule StreamSlot_new_idle [OF d(1) [unfolded Inr]])
    then have "device_ok view expf cfg capacity jobs (b\<lparr>bk_driver := d, bk_streams := bk_streams b @ [slot]\<rparr>)"
      using add_slot_correct [OF Suc.prems] new Inr by blast
    from Suc.IH [OF this] o Inr show ?thesis by (simp add: d(2))
  qed
qed

lemma build_stream_slots_correct:
  assumes "allocation_works drv view" "device_ok view expf cfg capacity jobs b" "bk_streams b = []"
  shows "device_ok view expf cfg capacity jobs (snd (build_stream_slots drv b))"
proof -
  have "clear_streams drv b = b" using assms(3) by (simp add: clear_streams_def)
  then show ?thesis using emplace_slots_correct [OF assms(1,2)] assms(2) by (simp add: build_stream_slots_def)
qed

lemma fail_job_answers: "answers_ok expf cfg capacity jobs b \<Longrightarrow> answers_ok expf cfg capacity jobs (fail_job handle reason b)"
  by (simp add: answers_ok_def fail_job_def key_for_def)

lemma fail_in_flight_answers:
  assumes "answers_ok expf cfg capacity jobs b"
  shows "answers_ok expf cfg capacity jobs (fail_in_flight reason b)"
proof -
  have "answers_ok expf cfg capacity jobs (fold (\<lambda>i b. if ss_busy (bk_streams b ! i)
      then (fail_job (ss_handle (bk_streams b ! i)) reason b)\<lparr>bk_streams := (bk_streams b)[i := (bk_streams b ! i)\<lparr>ss_busy := False\<rparr>]\<rparr>
      else b) is b)" for "is"
    using assms
  proof (induction "is" arbitrary: b)
    case (Cons i "is")
    have "answers_ok expf cfg capacity jobs ((fail_job (ss_handle (bk_streams b ! i)) reason b)
        \<lparr>bk_streams := (bk_streams b)[i := (bk_streams b ! i)\<lparr>ss_busy := False\<rparr>]\<rparr>)"
      by (rule answers_ok_same [OF fail_job_answers [OF Cons.prems]]) simp_all
    then show ?case using Cons by simp
  qed simp
  then show ?thesis by (simp add: fail_in_flight_def)
qed

lemma tear_down_bare:
  assumes "answers_ok expf cfg capacity jobs b"
  shows "answers_ok expf cfg capacity jobs (tear_down drv b) \<and> bk_streams (tear_down drv b) = [] \<and> kc_entries (bk_cache (tear_down drv b)) = []"
  using assms
  by (simp add: tear_down_def Let_def clear_streams_def cache_clear_def answers_ok_def key_for_def case_prod_unfold split: option.split)

lemma reattach_frame:
  "bk_streams (snd (reattach drv b)) = bk_streams b \<and> bk_cache (snd (reattach drv b)) = bk_cache b \<and>
   (answers_ok expf cfg capacity jobs b \<longrightarrow> answers_ok expf cfg capacity jobs (snd (reattach drv b)))"
  by (simp add: reattach_def answers_ok_def key_for_def case_prod_unfold split: option.split)

lemma recreate_correct:
  assumes alloc: "allocation_works drv view" and ok: "answers_ok expf cfg capacity jobs b"
  shows "device_ok view expf cfg capacity jobs (snd (recreate_context drv reason b))"
proof -
  define b1 where "b1 = tear_down drv (fail_in_flight reason b)"
  have b1: "answers_ok expf cfg capacity jobs b1" "bk_streams b1 = []" "kc_entries (bk_cache b1) = []"
    using tear_down_bare [OF fail_in_flight_answers [OF ok]] by (simp_all add: b1_def)
  obtain r b2 where o: "on_driver (CudaContext_new drv (bk_device_ordinal b1)) b1 = (r, b2)" by fastforce
  then obtain d where d: "b2 = b1\<lparr>bk_driver := d\<rparr>" by (rule on_driver_run)
  have b2: "answers_ok expf cfg capacity jobs b2" by (rule answers_ok_same [OF b1(1)]) (simp_all add: d)
  have run: "recreate_context drv reason b = then_act (on_driver (CudaContext_new drv (bk_device_ordinal b1))) (\<lambda>context b1.
         then_act (reattach drv) (\<lambda>_. build_stream_slots drv) (b1\<lparr>bk_context := Some context\<rparr>)) b1"
    by (simp add: recreate_context_def Let_def b1_def)
  show ?thesis
  proof (cases r)
    case (Inl e)
    then show ?thesis using run o bare_device_ok [OF b2] b1(2,3) by (simp add: d)
  next
    case (Inr ctx)
    define b3 where "b3 = b2\<lparr>bk_context := Some ctx\<rparr>"
    have b3: "answers_ok expf cfg capacity jobs b3" by (rule answers_ok_same [OF b2]) (simp_all add: b3_def)
    have e3: "bk_streams b3 = []" "kc_entries (bk_cache b3) = []" using b1(2,3) by (simp_all add: b3_def d)
    obtain r4 b4 where a: "reattach drv b3 = (r4, b4)" by fastforce
    with reattach_frame [of drv b3] b3 e3 have b4: "device_ok view expf cfg capacity jobs b4" "bk_streams b4 = []"
      by (simp_all add: bare_device_ok)
    have "snd (recreate_context drv reason b) = (case r4 of Inl e \<Rightarrow> b4 | Inr _ \<Rightarrow> snd (build_stream_slots drv b4))"
      using run o Inr a by (auto simp: b3_def [symmetric] split: sum.split)
    then show ?thesis using b4 build_stream_slots_correct [OF alloc b4] by (simp split: sum.split)
  qed
qed

section \<open>Submitting frames\<close>

lemma cache_get_correct:
  assumes works: "compiler_works drv view" and ok: "cache_loaded view expf d cache" and chain: "canonical_chain (key_chain key)"
    and run: "cache_get drv expf key (cache, d) = (r, (cache', d'))"
  shows "(\<exists>m. r = Inl (Cuda_error m)) \<or> undisturbed view d d' \<and> cache_loaded view expf d' cache' \<and>
    (\<forall>entry. r = Inr entry \<longrightarrow> entry_loaded view d' entry \<and> emit_cuda_source expf key = Inr (ch_program entry) \<and>
       length (ch_stage_functions entry) = length (gp_stages (ch_program entry)))"
proof -
  have inv: "cache_inv expf cache" using ok by (simp add: cache_loaded_def)
  note inv' = cache_get_inv [OF inv chain run]
  have serves: "emit_cuda_source expf key = Inr (ch_program entry) \<and> length (ch_stage_functions entry) = length (gp_stages (ch_program entry))"
    if "r = Inr entry" for entry using cache_get_serves [OF inv chain run [unfolded that]] by blast
  from run show ?thesis
  proof (cases rule: cache_get_cases)
    case (hit k entry)
    then have "entry_loaded view d entry" using ok cache_find_Some [OF hit(1)] by (force simp: cache_loaded_def)
    then show ?thesis using ok serves hit by simp
  next
    case (failed e)
    then show ?thesis using compile_entry_loaded [OF works failed(4)] ok cache_loaded_leaves [OF ok, of "{}" "{}" d'] by auto
  next
    case (compiled entry)
    have l: "undisturbed view d d'" "entry_loaded view d' entry" using compile_entry_loaded [OF works compiled(3)] by simp_all
    then have "cache_loaded view expf d' cache'"
      using cache_loaded_leaves [OF ok l(1)] inv' compiled(4) by (auto simp: cache_loaded_def)
    then show ?thesis using l serves compiled(2) by simp
  qed
qed

text \<open>What preparing hands to the launch.\<close>

definition work_ok :: "'d device_view \<Rightarrow> (rat \<Rightarrow> rat) \<Rightarrow> kernel_key \<Rightarrow> nat \<Rightarrow> frame_job \<Rightarrow> 'd \<Rightarrow> compiled_chain \<times> u8 list \<times> nat \<Rightarrow> bool" where
  "work_ok view expf cfg capacity job d = (\<lambda>(entry, input, bytes).
     entry_loaded view d entry \<and>
     emit_cuda_source expf (cfg\<lparr>key_chain := job_chain job, key_channels := job_channels job\<rparr>) = Inr (ch_program entry) \<and>
     length (ch_stage_functions entry) = length (gp_stages (ch_program entry)) \<and> job_input job = Some input \<and>
     0 < job_width job \<and> 0 < job_height job \<and> is_supported_channel_count (job_channels job) \<and>
     job_stride job = nat (job_width job) * nat (job_channels job) \<and>
     bytes = nat (job_width job) * nat (job_channels job) * nat (job_height job) \<and> bytes \<le> capacity)"

lemma key_for_cfg:
  assumes "answers_ok expf cfg capacity jobs b"
  shows "key_for chain channels b = cfg\<lparr>key_chain := chain, key_channels := channels\<rparr>"
proof -
  have "cfg = key_for (key_chain cfg) (key_channels cfg) b" using assms by (simp add: answers_ok_def)
  then have "key_tile cfg = bk_tile b" "key_tile_size cfg = bk_tile_size b" "key_constants cfg = bk_constants b"
    unfolding key_for_def by (metis kernel_key.select_convs)+
  then show ?thesis by (simp add: key_for_def)
qed

lemma on_cache_run:
  assumes "on_cache m b = (r, b')"
  obtains cache d where "m (bk_cache b, bk_driver b) = (r, (cache, d))" "b' = b\<lparr>bk_cache := cache, bk_driver := d\<rparr>"
  using assms by (auto simp: on_cache_def split: prod.splits)

lemma on_cache_correct:
  assumes works: "compiler_works drv view" and ok: "device_ok view expf cfg capacity jobs b" and chain: "canonical_chain chain"
    and run: "on_cache (cache_get drv expf (key_for chain channels b)) b = (r, b')"
  shows "settled_ok view expf cfg capacity jobs (bk_driver b) r b' \<and> (\<forall>entry. r = Inr entry \<longrightarrow> entry_loaded view (bk_driver b') entry \<and>
    emit_cuda_source expf (cfg\<lparr>key_chain := chain, key_channels := channels\<rparr>) = Inr (ch_program entry) \<and>
    length (ch_stage_functions entry) = length (gp_stages (ch_program entry)))"
proof -
  obtain cache d where c: "cache_get drv expf (key_for chain channels b) (bk_cache b, bk_driver b) = (r, (cache, d))"
      "b' = b\<lparr>bk_cache := cache, bk_driver := d\<rparr>" using run by (rule on_cache_run)
  have "canonical_chain (key_chain (key_for chain channels b))" using chain by (simp add: key_for_def)
  from cache_get_correct [OF works _ this c(1)] ok
  have eff: "(\<exists>m. r = Inl (Cuda_error m)) \<or> undisturbed view (bk_driver b) d \<and> cache_loaded view expf d cache \<and>
      (\<forall>entry. r = Inr entry \<longrightarrow> entry_loaded view d entry \<and> emit_cuda_source expf (key_for chain channels b) = Inr (ch_program entry) \<and>
         length (ch_stage_functions entry) = length (gp_stages (ch_program entry)))" by (simp add: device_ok_def)
  have a: "answers_ok expf cfg capacity jobs b'" by (rule answers_ok_same [OF device_ok_answers [OF ok]]) (simp_all add: c(2))
  show ?thesis
  proof (cases "\<exists>m. r = Inl (Cuda_error m)")
    case True
    then show ?thesis using a by (auto simp: settled_failed)
  next
    case False
    with eff have e: "undisturbed view (bk_driver b) d" "cache_loaded view expf d cache" by simp_all
    have "slots_ok view expf capacity jobs d (bk_streams b)" using ok slots_ok_undisturbed [OF _ e(1)] by (simp add: device_ok_def)
    then have "device_ok view expf cfg capacity jobs b'" using a e(2) by (simp add: device_ok_def c(2))
    then show ?thesis using False eff e(1) by (simp add: settled_ok_def key_for_cfg [OF device_ok_answers [OF ok]] c(2))
  qed
qed

lemma settled_refl: "device_ok view expf cfg capacity jobs b \<Longrightarrow> settled_ok view expf cfg capacity jobs (bk_driver b) (Inr x) b"
  by (simp add: settled_ok_def)

lemma launch_prepare_correct:
  assumes works: "compiler_works drv view" and ok: "device_ok view expf cfg capacity jobs b" and chain: "canonical_chain (job_chain job)"
    and h: "(h, job) \<in> jobs" and run: "launch_prepare drv expf job h b = (r, b')"
  shows "settled_ok view expf cfg capacity jobs (bk_driver b) r b' \<and>
    (\<forall>work. r = Inr (Some work) \<longrightarrow> work_ok view expf cfg capacity job (bk_driver b') work)"
proof (cases "bk_context b = None \<or> job_input job = None \<or> job_width job \<le> 0 \<or> job_height job \<le> 0 \<or>
    \<not> is_supported_channel_count (job_channels job) \<or> job_stride job \<noteq> nat (job_width job) * nat (job_channels job)")
  case True
  then have "(\<exists>e. r = Inl e \<and> \<not> is_cuda e) \<and> b' = b"
    using run by (auto simp: launch_prepare_def Let_def is_cuda_def split: if_splits option.splits)
  then show ?thesis using ok by (auto simp: settled_ok_def is_cuda_def)
next
  case False
  then obtain input where i: "job_input job = Some input" by auto
  show ?thesis
  proof (cases "job_chain job = []")
    case True
    have nf: "0 < job_width job" "0 < job_height job" "is_supported_channel_count (job_channels job)"
        "job_stride job = nat (job_width job) * nat (job_channels job)" using False by auto
    then obtain out where out: "image_from_bytes (job_width job) (job_height job) (job_channels job) input (job_stride job) = Inr out"
      using image_from_bytes_ok by (metis order_refl)
    then have b': "r = Inr None" "b' = b\<lparr>bk_completed := bk_completed b @ [\<lparr>cp_handle = h, cp_status = job_kOk, cp_output = out, cp_error = []\<rparr>],
        bk_stats := (bk_stats b)\<lparr>frames_submitted := frames_submitted (bk_stats b) + 1\<rparr>\<rparr>"
      using run False i True by (auto simp: launch_prepare_def Let_def)
    have "cpu_process expf job = Inr out" using i out True by (simp add: cpu_process_def)
    then have "answers_ok expf cfg capacity jobs b'" using ok h unfolding b'(2) by (auto simp: device_ok_def answers_ok_def key_for_def)
    then have "device_ok view expf cfg capacity jobs b'" using ok unfolding b'(2) by (simp add: device_ok_def)
    then show ?thesis by (simp add: settled_ok_def b')
  next
    case nonempty: False
    define bytes where "bytes = nat (job_width job) * nat (job_channels job) * nat (job_height job)"
    define check where "check = (\<lambda>(compiled :: compiled_chain) b1. if bk_streams b1 = [] \<or> bk_slot_bytes b1 < bytes
        then (Inl (Logic_error (''CudaBackend: no device buffer for a '' @ show_nat bytes @ '' byte frame '' @ em_dash @
               '' allocate_slots() must be called at startup with at least that slot size'')), b1)
        else (Inr (Some (compiled, input, bytes)), b1 :: 'a cuda_backend))"
    have "launch_prepare drv expf job h b =
        then_act (on_cache (cache_get drv expf (key_for (job_chain job) (job_channels job) b))) check b"
      unfolding launch_prepare_def check_def bytes_def Let_def i option.case using False nonempty by auto
    with run have "then_act (on_cache (cache_get drv expf (key_for (job_chain job) (job_channels job) b))) check b = (r, b')" by simp
    then show ?thesis
    proof (cases rule: then_act_cases)
      case (throws e)
      then show ?thesis using on_cache_correct [OF works ok chain throws(1)] by (simp add: settled_ok_def)
    next
      case (continues compiled b1)
      note c = on_cache_correct [OF works ok chain continues(1)]
      have b1: "device_ok view expf cfg capacity jobs b1" "undisturbed view (bk_driver b) (bk_driver b1)" "bk_slot_bytes b1 = capacity"
        using c by (simp_all add: settled_ok_def device_ok_def answers_ok_def)
      have "b' = b1" "(\<exists>m. r = Inl (Logic_error m)) \<or> r = Inr (Some (compiled, input, bytes)) \<and> bytes \<le> capacity"
        using continues(2) b1(3) by (auto simp: check_def split: if_splits)
      then show ?thesis using b1 c False i by (auto simp: settled_ok_def work_ok_def bytes_def)
    qed
  qed
qed

lemma slot_disjoint:
  assumes "distinct (concat (map slot_resources slots))" "i < length slots" "j < length slots" "i \<noteq> j"
  shows "set (slot_resources (slots ! i)) \<inter> set (slot_resources (slots ! j)) = {}"
proof -
  have "[] \<notin> set (map slot_resources slots)" by (auto simp: slot_resources_def slot_needs_def)
  then have "distinct (map slot_resources slots)" using assms(1) by (simp add: distinct_concat_iff removeAll_id)
  then have "slot_resources (slots ! i) \<noteq> slot_resources (slots ! j)"
    using assms(2-4) nth_eq_iff_index_eq [of "map slot_resources slots" i j] by simp
  then show ?thesis using assms by (auto simp: distinct_concat_iff)
qed

text \<open>Work on one slot's stream leaves the other slots as they were.\<close>

lemma slots_ok_work:
  assumes ok: "slots_ok view expf capacity jobs d slots" and i: "i < length slots"
    and l: "leaves view {ss_stream (slots ! i)} (set (slot_resources (slots ! i))) d d'"
    and slot': "ss_stream slot' = ss_stream (slots ! i)" "\<And>n. slot_needs n slot' = slot_needs n (slots ! i)" "frame_due view expf jobs d' slot'"
  shows "slots_ok view expf capacity jobs d' (slots[i := slot'])"
proof -
  have res: "slot_resources slot' = slot_resources (slots ! i)" using slot'(2) by (simp add: slot_resources_def)
  have d: "distinct (concat (map slot_resources slots))" using ok by (simp add: slots_ok_def)
  have "map slot_resources (slots[i := slot']) = map slot_resources slots"
    using i by (simp add: map_update res list_update_same_conv)
  moreover have "slot_owned view d' capacity slot \<and> (ss_busy slot \<longrightarrow> frame_due view expf jobs d' slot)" if slot: "slot \<in> set (slots[i := slot'])" for slot
  proof -
    obtain j where j: "j < length slots" "slot = slots[i := slot'] ! j" using slot by (auto simp: in_set_conv_nth)
    have old: "slot_owned view d capacity (slots ! j)" "ss_busy (slots ! j) \<longrightarrow> frame_due view expf jobs d (slots ! j)"
      using ok j(1) by (simp_all add: slots_ok_def)
    show ?thesis
    proof (cases "j = i")
      case True
      have "slot_owned view d' capacity (slots ! i)" using slot_owned_leaves [OF old(1) l] True by simp
      then have "slot_owned view d' capacity slot'" by (simp add: slot_owned_def slot'(1,2))
      then show ?thesis using True j slot'(3) by simp
    next
      case False
      note apart = slot_disjoint [OF d j(1) i False]
      show ?thesis using False j(2) old slot_owned_leaves [OF old(1) l] frame_due_leaves [OF _ l apart] apart by simp
    qed
  qed
  ultimately show ?thesis using d by (simp add: slots_ok_def)
qed

text \<open>What a job must be for its frame to be computed: the pointer reads the whole frame, and its key is one the device runs.\<close>

definition job_runs :: "kernel_key \<Rightarrow> kernel_key set \<Rightarrow> frame_job \<Rightarrow> bool" where
  "job_runs cfg K job \<longleftrightarrow> canonical_chain (job_chain job) \<and>
     (job_chain job \<noteq> [] \<longrightarrow> cfg\<lparr>key_chain := job_chain job, key_channels := job_channels job\<rparr> \<in> K) \<and>
     (\<forall>input. job_input job = Some input \<longrightarrow>
        nat (job_width job) * nat (job_channels job) * nat (job_height job) \<le> length input)"

lemma queue_frame_throws: "throws_only is_cuda (queue_frame drv expf job compiled input bytes slot)"
proof -
  have "throws_only is_cuda (launch_stages drv expf job s stages source destination)" for s stages source destination
    by (induction stages arbitrary: source destination) (simp add: throws_only_def, auto simp: Let_def intro!: throws_only_then)
  then show ?thesis unfolding queue_frame_def Let_def by (intro throws_only_then) simp_all
qed

lemma launch_on_correct:
  assumes ex: "executes drv expf view K" and ok: "device_ok view expf cfg capacity jobs b" and h: "(h, job) \<in> jobs"
    and i: "i < length (bk_streams b)" and work: "work_ok view expf cfg capacity job (bk_driver b) work"
    and job: "job_runs cfg K job" "job_chain job \<noteq> []" and run: "launch_on drv expf job h work i b = (r, b')"
  shows "if \<exists>m. r = Inl (Cuda_error m) then answers_ok expf cfg capacity jobs b' else device_ok view expf cfg capacity jobs b'"
proof -
  obtain entry input bytes where w: "work = (entry, input, bytes)" by (cases work)
  define slot where "slot = bk_streams b ! i"
  have ws: "entry_loaded view (bk_driver b) entry"
      "emit_cuda_source expf (cfg\<lparr>key_chain := job_chain job, key_channels := job_channels job\<rparr>) = Inr (ch_program entry)"
      "length (ch_stage_functions entry) = length (gp_stages (ch_program entry))" "job_input job = Some input"
      "0 < job_width job" "0 < job_height job" "is_supported_channel_count (job_channels job)"
      "job_stride job = nat (job_width job) * nat (job_channels job)"
      "bytes = nat (job_width job) * nat (job_channels job) * nat (job_height job)" "bytes \<le> capacity"
    using work by (simp_all add: work_ok_def w)
  have slots: "slots_ok view expf capacity jobs (bk_driver b) (bk_streams b)" "capacity < 2 ^ 31"
    using ok by (simp_all add: device_ok_def answers_ok_def)
  have owned: "slot_owned view (bk_driver b) capacity slot" using slots(1) i by (simp add: slots_ok_def slot_def)
  have "distinct (slot_resources slot)" using slots(1) i by (auto simp: slots_ok_def slot_def distinct_concat_iff)
  then have apart: "ss_front slot \<noteq> ss_back slot" by (simp add: slot_resources_def slot_needs_def)
  from run [unfolded launch_on_def w prod.case slot_def [symmetric]] show ?thesis
  proof (cases rule: then_act_cases)
    case (throws e)
    from throws(1) obtain d where d: "queue_frame drv expf job entry input bytes slot (bk_driver b) = (Inl e, d)" "b' = b\<lparr>bk_driver := d\<rparr>"
      by (rule on_driver_run)
    have "is_cuda e" using throws_onlyD [OF queue_frame_throws] d(1) by (metis fst_conv)
    then obtain m where "e = Cuda_error m" by (auto simp: is_cuda_def split: cpp_exception.splits)
    then show ?thesis using throws(2) answers_ok_same [OF device_ok_answers [OF ok], of b'] by (simp add: d(2))
  next
    case (continues u b1)
    from continues(1) obtain d where d: "queue_frame drv expf job entry input bytes slot (bk_driver b) = (Inr u, d)" "b1 = b\<lparr>bk_driver := d\<rparr>"
      by (rule on_driver_run)
    obtain src where src: "image_from_bytes (job_width job) (job_height job) (job_channels job) input (job_stride job) = Inr src"
      using image_from_bytes_ok [OF ws(5-7)] ws(8) by (metis order_refl)
    obtain out where "apply_chain expf src (job_chain job) = Inr out"
      using apply_chain_frame [OF image_from_bytes_Inr(1) [OF src], of expf "job_chain job"] by blast
    then have out: "cpu_process expf job = Inr out" using src ws(4) by (simp add: cpu_process_def)
    note due = queue_frame_due [OF ex _ _ ws(2) _ _ ws(3,1) owned apart ws(10) _ ws(4) _ ws(9,8) out d(1)]
    have frame: "dv_due view d (ss_done slot) (ss_staging slot) (im_pixels out)" "shaped_like out job"
        "leaves view {ss_stream slot} (set (slot_resources slot)) (bk_driver b) d"
      by (rule due; use job ws(4,9,10) slots(2) in \<open>simp add: job_runs_def\<close>)+
    define slot' where "slot' = slot\<lparr>ss_busy := True, ss_handle := h, ss_submit_order := bk_next_submit_order b,
        ss_width := job_width job, ss_height := job_height job, ss_channels := job_channels job\<rparr>"
    have m: "r = Inr ()" "b' = mark_busy job h i b1" using continues(2) by simp_all
    have f: "bk_streams b' = (bk_streams b)[i := slot']" "bk_driver b' = d" "bk_cache b' = bk_cache b"
      by (simp_all add: m(2) mark_busy_def Let_def d(2) slot'_def slot_def)
    have "answers_ok expf cfg capacity jobs b'"
      by (rule answers_ok_same [OF device_ok_answers [OF ok]]) (simp_all add: m(2) mark_busy_def Let_def d(2))
    moreover have "frame_due view expf jobs d slot'"
      using h out frame(1,2) by (auto simp: frame_due_def slot'_def shaped_like_def)
    then have "slots_ok view expf capacity jobs d (bk_streams b')"
      unfolding f(1) using slots_ok_work [OF slots(1) i, of d slot'] frame(3) by (simp add: slot'_def slot_def slot_needs_def)
    moreover have "cache_loaded view expf d (bk_cache b)" using ok cache_loaded_leaves [OF _ frame(3)] by (simp add: device_ok_def)
    ultimately have "device_ok view expf cfg capacity jobs b'" by (simp add: device_ok_def f(2,3))
    then show ?thesis by (simp add: m(1))
  qed
qed

abbreviation ends_ok :: "'d device_view \<Rightarrow> (rat \<Rightarrow> rat) \<Rightarrow> kernel_key \<Rightarrow> nat \<Rightarrow> (job_handle \<times> frame_job) set \<Rightarrow> 'a result \<Rightarrow> 'd cuda_backend \<Rightarrow> bool" where
  "ends_ok view expf cfg capacity jobs r b \<equiv>
     (if \<exists>m. r = Inl (Cuda_error m) then answers_ok expf cfg capacity jobs b else device_ok view expf cfg capacity jobs b)"

lemma launch_correct:
  assumes ex: "executes drv expf view K" and ok: "device_ok view expf cfg capacity jobs b" and h: "(h, job) \<in> jobs"
    and job: "job_runs cfg K job" and run: "launch drv expf job h b = Some (r, b')"
  shows "ends_ok view expf cfg capacity jobs r b'"
proof -
  have parts: "compiler_works drv view" "events_work drv view" using ex by (simp_all add: executes_def)
  have chain: "canonical_chain (job_chain job)" using job by (simp add: job_runs_def)
  obtain r1 b1 where p: "launch_prepare drv expf job h b = (r1, b1)" by fastforce
  note prepared = launch_prepare_correct [OF parts(1) ok chain h p]
  consider e where "r1 = Inl e" | "r1 = Inr None" | work where "r1 = Inr (Some work)" by (metis option.exhaust sum.exhaust)
  then show ?thesis
  proof cases
    case (3 work)
    have b1: "device_ok view expf cfg capacity jobs b1" "work_ok view expf cfg capacity job (bk_driver b1) work"
      using prepared 3 by (simp_all add: settled_ok_def)
    have nonempty: "job_chain job \<noteq> []"
    proof
      assume "job_chain job = []"
      then show False using p 3 by (auto simp: launch_prepare_def Let_def split: if_splits option.splits sum.splits)
    qed
    obtain r2 b2 where c: "claim_stream drv b1 = Some (r2, b2)" using run p 3 by (auto simp: launch_def split: option.splits)
    note claimed = claim_stream_correct [OF parts(2) b1(1) c]
    show ?thesis
    proof (cases r2)
      case (Inl e)
      then have "r = Inl e" "b' = b2" using run p 3 c by (simp_all add: launch_def)
      then show ?thesis using claimed Inl by (simp add: settled_ok_def)
    next
      case (Inr i)
      have o: "launch_on drv expf job h work i b2 = (r, b')" using run p 3 c Inr by (simp add: launch_def)
      have b2: "device_ok view expf cfg capacity jobs b2" "undisturbed view (bk_driver b1) (bk_driver b2)"
        using claimed Inr by (simp_all add: settled_ok_def)
      have "work_ok view expf cfg capacity job (bk_driver b2) work"
        using b1(2) entry_loaded_leaves [OF _ b2(2)] by (auto simp: work_ok_def)
      from launch_on_correct [OF ex b2(1) h _ this job nonempty o] claim_stream_swept [OF c] Inr show ?thesis by simp
    qed
  qed (use run p prepared in \<open>auto simp: launch_def settled_ok_def\<close>)
qed

lemma fail_job_device_ok: "device_ok view expf cfg capacity jobs b \<Longrightarrow> device_ok view expf cfg capacity jobs (fail_job handle reason b)"
  using fail_job_answers [of expf cfg capacity jobs b handle reason] by (simp add: device_ok_def fail_job_def)

lemma settle_correct:
  assumes "allocation_works drv view" "ends_ok view expf cfg capacity jobs r b"
  shows "device_ok view expf cfg capacity jobs (settle drv handle r b)"
  using assms recreate_correct [OF assms(1) fail_job_answers] fail_job_device_ok
  by (auto simp: settle_def recover_def split: sum.splits cpp_exception.splits)

lemma cuda_submit_correct:
  assumes ex: "executes drv expf view K" and ok: "device_ok view expf cfg capacity jobs b" and job: "job_runs cfg K job"
    and run: "cuda_submit drv expf job b = Some (h, b')"
  shows "device_ok view expf cfg capacity (insert (h, job) jobs) b'"
proof -
  define b0 where "b0 = b\<lparr>bk_next_handle := bk_next_handle b + 1\<rparr>"
  obtain r b1 where l: "launch drv expf job h b0 = Some (r, b1)" "b' = settle drv h r b1"
    using run by (auto simp: cuda_submit_def Let_def b0_def)
  have "device_ok view expf cfg capacity (insert (h, job) jobs) b" by (rule device_ok_mono [OF ok subset_insertI])
  then have "device_ok view expf cfg capacity (insert (h, job) jobs) b0" by (simp add: device_ok_def answers_ok_def key_for_def b0_def)
  from launch_correct [OF ex this insertI1 job l(1)] show ?thesis
    unfolding l(2) using ex by (intro settle_correct) (simp_all add: executes_def)
qed

section \<open>Polling\<close>

lemma cuda_poll_correct:
  assumes ex: "executes drv expf view K" and ok: "device_ok view expf cfg capacity jobs b"
    and run: "cuda_poll_completions drv b = (Inr cs, b')"
  shows "device_ok view expf cfg capacity jobs b' \<and>
    (\<forall>c \<in> set cs. cp_status c = job_kOk \<longrightarrow> (\<exists>job. (cp_handle c, job) \<in> jobs \<and> cpu_process expf job = Inr (cp_output c)))"
proof -
  have parts: "allocation_works drv view" "events_work drv view" using ex by (simp_all add: executes_def)
  obtain r b1 where q: "retire_ready_streams drv b = (r, b1)" by fastforce
  note s = retire_correct [OF parts(2) ok q]
  have rec: "device_ok view expf cfg capacity jobs (recover drv reason b1)" for reason
    unfolding recover_def by (rule recreate_correct [OF parts(1) settled_answers [OF s]])
  obtain b2 where b2: "device_ok view expf cfg capacity jobs b2" "cs = bk_completed b2" "b' = b2\<lparr>bk_completed := []\<rparr>"
    using run q s rec by (cases r) (auto simp: cuda_poll_completions_def settled_ok_def split: cpp_exception.splits)
  then show ?thesis by (simp add: device_ok_def answers_ok_def key_for_def)
qed

text \<open>Between submissions the backend is polled, its context may be recreated, and chains may be warmed.\<close>

definition cuda_serves :: "'d cuda_driver \<Rightarrow> (rat \<Rightarrow> rat) \<Rightarrow> 'd cuda_backend \<Rightarrow> completion list \<Rightarrow> 'd cuda_backend \<Rightarrow> bool" where
  "cuda_serves drv expf b cs b' \<longleftrightarrow> cuda_poll_completions drv b = (Inr cs, b') \<or>
     cs = [] \<and> ((\<exists>reason. b' = snd (recreate_context drv reason b)) \<or>
       (\<exists>chain channels. canonical_chain chain \<and> prewarm drv expf chain channels b = (Inr (), b')))"

lemma prewarm_correct:
  assumes works: "compiler_works drv view" and ok: "device_ok view expf cfg capacity jobs b" and chain: "canonical_chain chain"
    and run: "prewarm drv expf chain channels b = (Inr (), b')"
  shows "device_ok view expf cfg capacity jobs b'"
proof (cases "chain = []")
  case True
  then show ?thesis using ok run by (simp add: prewarm_def)
next
  case False
  then obtain entry where "on_cache (cache_get drv expf (key_for chain channels b)) b = (Inr entry, b')"
    using run by (auto simp: prewarm_def elim!: then_act_cases)
  from on_cache_correct [OF works ok chain this] show ?thesis by (simp add: settled_ok_def)
qed

lemma cuda_serves_correct:
  assumes ex: "executes drv expf view K" and ok: "device_ok view expf cfg capacity jobs b" and run: "cuda_serves drv expf b cs b'"
  shows "device_ok view expf cfg capacity jobs b' \<and>
    (\<forall>c \<in> set cs. cp_status c = job_kOk \<longrightarrow> (\<exists>job. (cp_handle c, job) \<in> jobs \<and> cpu_process expf job = Inr (cp_output c)))"
proof -
  have parts: "allocation_works drv view" "compiler_works drv view" using ex by (simp_all add: executes_def)
  consider (poll) "cuda_poll_completions drv b = (Inr cs, b')" | (recreate) reason where "cs = []" "b' = snd (recreate_context drv reason b)"
    | (warm) chain channels where "cs = []" "canonical_chain chain" "prewarm drv expf chain channels b = (Inr (), b')"
    using run unfolding cuda_serves_def by blast
  then show ?thesis
  proof cases
    case poll
    then show ?thesis by (rule cuda_poll_correct [OF ex ok])
  next
    case (recreate reason)
    then show ?thesis using recreate_correct [OF parts(1) device_ok_answers [OF ok]] by simp
  next
    case (warm chain channels)
    then show ?thesis using prewarm_correct [OF parts(2) ok] by simp
  qed
qed

lemma cuda_serves_polls: "cuda_serves drv expf b cs b' \<Longrightarrow> cuda_polls drv expf b cs b'"
  unfolding cuda_serves_def cuda_polls_def by (metis snd_conv)

lemma history_correct:
  assumes ex: "executes drv expf view K" and ok: "device_ok view expf cfg capacity {} b1"
    and run: "backend_history (\<lambda>b job h b'. cuda_submit drv expf job b = Some (h, b')) (cuda_serves drv expf) b1 b submitted delivered"
    and jobs: "\<forall>job \<in> snd ` set submitted. job_runs cfg K job"
  shows "device_ok view expf cfg capacity (set submitted) b \<and>
    (\<forall>c \<in> set delivered. cp_status c = job_kOk \<longrightarrow> (\<exists>job. (cp_handle c, job) \<in> set submitted \<and> cpu_process expf job = Inr (cp_output c)))"
  using run jobs
proof (induction rule: backend_history.induct)
  case history_start
  show ?case using ok by simp
next
  case (history_submit b submitted delivered job h b')
  have IH: "device_ok view expf cfg capacity (set submitted) b" "\<forall>c \<in> set delivered. cp_status c = job_kOk \<longrightarrow>
      (\<exists>job. (cp_handle c, job) \<in> set submitted \<and> cpu_process expf job = Inr (cp_output c))"
    using history_submit.IH history_submit.prems by simp_all
  have "device_ok view expf cfg capacity (insert (h, job) (set submitted)) b'"
    by (rule cuda_submit_correct [OF ex IH(1) _ history_submit.hyps(2)]) (use history_submit.prems in simp)
  then show ?case using IH(2) by auto
next
  case (history_poll b submitted delivered cs b')
  then have "device_ok view expf cfg capacity (set submitted) b" by simp
  from cuda_serves_correct [OF ex this history_poll.hyps(2)] history_poll show ?case by auto
qed

section \<open>Start-up\<close>

lemma CudaBackend_new_correct:
  assumes "CudaBackend_new drv ordinal k tile tile_size constants d = (Inr b, d')"
  shows "device_ok view expf \<lparr>key_chain = [], key_channels = 0, key_tile = tile, key_tile_size = tile_size, key_constants = constants\<rparr> 0 {} b"
    "bk_streams b = []"
  using assms
  by (auto simp: CudaBackend_new_def new_kernel_cache_def answers_ok_def key_for_def intro!: bare_device_ok split: prod.splits sum.splits if_splits)

lemma touches_state:
  assumes "touches view {} operation" "CU_CHECK drv expr file line operation d = (r, d')"
  shows "undisturbed view d d'"
proof -
  have "d' = snd (operation d)" using arg_cong [OF assms(2), of snd] by (simp add: CU_CHECK_state)
  then show ?thesis using assms(1) by (simp add: touches_def)
qed

lemma RegisteredHostBuffer_new_leaves:
  assumes "allocation_works drv view" "RegisteredHostBuffer_new drv bytes d = (r, d')"
  shows "undisturbed view d d'"
proof -
  define rounded where "rounded = unat (round_up bytes (of_nat (page_size drv)))"
  obtain memory d1 where o: "operator_new drv rounded (page_size drv) d = (memory, d1)" by fastforce
  have u1: "undisturbed view d d1" using allocation_laws(10) [OF assms(1), of d rounded "page_size drv"] o by simp
  obtain r1 d2 where c: "CU_CHECK drv ''cuMemHostRegister(memory_, size_, 0)'' kRaiiFile 223 (cuMemHostRegister drv memory rounded) d1 = (r1, d2)"
    by fastforce
  have "undisturbed view d1 d2" using touches_state [OF allocation_laws(9) [OF assms(1)] c] .
  moreover have "d' = d2" using assms(2) c
    by (cases r1) (simp_all add: RegisteredHostBuffer_new_def Let_def rounded_def [symmetric] attach_def o)
  ultimately have "undisturbed view d1 d'" by simp
  with u1 show ?thesis by (rule leaves_trans)
qed

lemma allocate_slots_correct:
  assumes alloc: "allocation_works drv view" and ok: "device_ok view expf cfg capacity jobs b" "bk_streams b = []" and size: "unat bytes < 2 ^ 31"
    and run: "allocate_slots drv n bytes b = (r, b')"
  shows "\<exists>capacity'. device_ok view expf cfg capacity' jobs b' \<and> (\<forall>base. r = Inr base \<longrightarrow> capacity' = unat bytes)"
proof (cases "bk_host_slots b \<noteq> None \<or> n = 0 \<or> bytes = 0")
  case True
  then have "b' = b" "\<nexists>base. r = Inr base" using run by (auto simp: allocate_slots_def split: if_splits)
  then show ?thesis using ok by blast
next
  case False
  then have "then_act (on_driver (RegisteredHostBuffer_new drv (n * bytes))) (\<lambda>buffer b1.
           then_act (build_stream_slots drv) (\<lambda>_. return_act (rb_memory buffer))
             (b1\<lparr>bk_host_slots := Some buffer, bk_slot_bytes := unat bytes\<rparr>)) b = (r, b')"
    using run by (simp add: allocate_slots_def)
  then show ?thesis
  proof (cases rule: then_act_cases)
    case (throws e)
    from throws(1) obtain d where "RegisteredHostBuffer_new drv (n * bytes) (bk_driver b) = (Inl e, d)" "b' = b\<lparr>bk_driver := d\<rparr>"
      by (rule on_driver_run)
    then show ?thesis using device_ok_driver [OF ok(1)] RegisteredHostBuffer_new_leaves [OF alloc] throws(2) by blast
  next
    case (continues buffer b1)
    from continues(1) obtain d where d: "RegisteredHostBuffer_new drv (n * bytes) (bk_driver b) = (Inr buffer, d)" "b1 = b\<lparr>bk_driver := d\<rparr>"
      by (rule on_driver_run)
    have b1: "device_ok view expf cfg capacity jobs b1"
      using device_ok_driver [OF ok(1)] RegisteredHostBuffer_new_leaves [OF alloc d(1)] by (simp add: d(2))
    define b2 where "b2 = b1\<lparr>bk_host_slots := Some buffer, bk_slot_bytes := unat bytes\<rparr>"
    have b2: "device_ok view expf cfg (unat bytes) jobs b2" "bk_streams b2 = []"
      using b1 ok(2) size by (simp_all add: b2_def d(2) device_ok_def answers_ok_def key_for_def slots_ok_def)
    obtain r3 b3 where s: "build_stream_slots drv b2 = (r3, b3)" by fastforce
    have "b' = b3" using continues(2) s by (cases r3) (simp_all add: b2_def [symmetric])
    then show ?thesis using build_stream_slots_correct [OF alloc b2] s by auto
  qed
qed

section \<open>A device on which no call fails\<close>

definition succeeds :: "('d, 'a) cu_operation \<Rightarrow> bool" where
  "succeeds operation \<longleftrightarrow> (\<forall>d. fst (fst (operation d)) = 0)"

text \<open>The calls of a running backend all succeed; NVRTC needs to accept the programs generated for \<open>K\<close> only.\<close>

definition never_fails :: "'d cuda_driver \<Rightarrow> (rat \<Rightarrow> rat) \<Rightarrow> 'd device_view \<Rightarrow> kernel_key set \<Rightarrow> bool" where
  "never_fails drv expf view K \<longleftrightarrow>
     (\<forall>p input n s. succeeds (cuMemcpyHtoDAsync drv p input n s)) \<and>
     (\<forall>q p n s. succeeds (cuMemcpyDtoHAsync drv q p n s)) \<and> (\<forall>e s. succeeds (cuEventRecord drv e s)) \<and>
     (\<forall>e. succeeds (cuEventSynchronize drv e)) \<and> (\<forall>e1 e2. succeeds (cuEventElapsedTime drv e1 e2)) \<and>
     (\<forall>e d. fst (fst (cuEventQuery drv e d)) \<in> {CUDA_SUCCESS, CUDA_ERROR_NOT_READY}) \<and>
     (\<forall>f grid block s arguments. succeeds (cuLaunchKernel drv f grid block s arguments)) \<and>
     (\<forall>source name. succeeds (nvrtcCreateProgram drv source name)) \<and>
     (\<forall>p. succeeds (nvrtcGetProgramLogSize drv p) \<and> succeeds (nvrtcGetProgramLog drv p) \<and> succeeds (nvrtcGetPTXSize drv p) \<and>
          succeeds (nvrtcGetPTX drv p)) \<and>
     (\<forall>key \<in> K. \<forall>program p options d. emit_cuda_source expf key = Inr program \<longrightarrow> dv_program view d p (gp_source program) \<longrightarrow>
        fst (fst (nvrtcCompileProgram drv p options d)) = 0) \<and>
     (\<forall>ptx. succeeds (cuModuleLoadData drv ptx)) \<and> (\<forall>m name. succeeds (cuModuleGetFunction drv m name))"

definition returns :: "('d, 'a) action \<Rightarrow> bool" where
  "returns m \<longleftrightarrow> (\<forall>d. \<exists>v. fst (m d) = Inr v)"

lemma returnsD: "returns m \<Longrightarrow> m d = (r, d') \<Longrightarrow> \<exists>v. r = Inr v"
  unfolding returns_def by (metis fst_conv)

lemma returns_CU_CHECK: "succeeds call \<Longrightarrow> returns (CU_CHECK drv expr file line call)"
  by (auto simp: succeeds_def returns_def CU_CHECK_def cu_check_def CUDA_SUCCESS_def case_prod_unfold)

lemma returns_NVRTC_CHECK: "succeeds call \<Longrightarrow> returns (NVRTC_CHECK drv expr file line call)"
  by (auto simp: succeeds_def returns_def NVRTC_CHECK_def nvrtc_check_def case_prod_unfold)

lemma returns_then: "returns m \<Longrightarrow> (\<And>x. returns (f x)) \<Longrightarrow> returns (then_act m f)"
  unfolding returns_def then_act_def by (auto split: prod.splits sum.splits) (metis fst_conv Inr_not_Inl)

lemma returns_return [simp]: "returns (return_act x)"
  by (simp add: returns_def)

lemma returns_read_sized: "returns getter \<Longrightarrow> returns (read_sized n getter)"
  by (auto simp: read_sized_def intro!: returns_then)

lemma flawless_calls:
  assumes "never_fails drv expf view K"
  shows "succeeds (cuMemcpyHtoDAsync drv p input n s)" "succeeds (cuMemcpyDtoHAsync drv q p n s)" "succeeds (cuEventRecord drv e s)"
    "succeeds (cuEventSynchronize drv e)" "succeeds (cuEventElapsedTime drv e1 e2)" "succeeds (cuLaunchKernel drv f grid block s arguments)"
    "succeeds (nvrtcCreateProgram drv source name)" "succeeds (nvrtcGetProgramLogSize drv p)" "succeeds (nvrtcGetProgramLog drv p)"
    "succeeds (nvrtcGetPTXSize drv p)" "succeeds (nvrtcGetPTX drv p)" "succeeds (cuModuleLoadData drv ptx)"
    "succeeds (cuModuleGetFunction drv m name)"
  using assms by (cases grid; cases block; simp add: never_fails_def)+

lemma queue_frame_returns:
  assumes "never_fails drv expf view K"
  shows "returns (queue_frame drv expf job compiled input bytes slot)"
proof -
  note calls = returns_CU_CHECK [OF flawless_calls(1) [OF assms]] returns_CU_CHECK [OF flawless_calls(2) [OF assms]]
    returns_CU_CHECK [OF flawless_calls(3) [OF assms]] returns_CU_CHECK [OF flawless_calls(6) [OF assms]]
  have "returns (launch_stages drv expf job s stages source destination)" for s stages source destination
    by (induction stages arbitrary: source destination) (simp add: returns_def, auto simp: Let_def intro!: returns_then calls)
  then show ?thesis unfolding queue_frame_def Let_def by (intro returns_then calls)
qed

lemma compile_entry_returns:
  assumes nf: "never_fails drv expf view K" and works: "compiler_works drv view" and key: "key \<in> K" "emit_cuda_source expf key = Inr program"
    and run: "compile_entry drv expf arch key d = (r, d')"
  shows "\<exists>entry. r = Inr entry"
proof -
  note calls = flawless_calls [OF nf]
  let ?create = "NVRTC_CHECK drv ''nvrtcCreateProgram(&program_, source.c_str(), name, 0, nullptr, nullptr)'' kNvrtcFile 24
      (nvrtcCreateProgram drv (gp_source program) ''imgjit_chain.cu'')"
  obtain p d1 where c: "?create d = (Inr p, d1)" using returns_NVRTC_CHECK [OF calls(7)] unfolding returns_def by (metis surj_pair fst_conv)
  have p: "dv_program view d1 p (gp_source program)"
    using works [unfolded compiler_works_def, THEN conjunct1, rule_format, OF NVRTC_CHECK_returns [OF c]] by simp
  obtain k u d2 where k: "nvrtcCompileProgram drv p [''--gpu-architecture='' @ arch] d1 = ((k, u), d2)" by (metis surj_pair)
  have "fst (fst (nvrtcCompileProgram drv p [''--gpu-architecture='' @ arch] d1)) = 0" using nf key p unfolding never_fails_def by blast
  then have k0: "k = 0" unfolding k fst_conv .
  have "returns (nvrtc_results drv p ''imgjit_chain.cu'' arch 0)"
    unfolding nvrtc_results_def by (auto intro!: returns_then returns_read_sized returns_NVRTC_CHECK calls)
  then obtain ptx d3 where "nvrtc_results drv p ''imgjit_chain.cu'' arch k d2 = (Inr ptx, d3)" unfolding returns_def k0 by (metis surj_pair fst_conv)
  then have ptx: "compile_to_ptx drv (gp_source program) ''imgjit_chain.cu'' arch d = (Inr ptx, if p \<noteq> 0 then snd (nvrtcDestroyProgram drv p d3) else d3)"
    using c k by (simp add: compile_to_ptx_def nvrtc_outputs_def)
  have "returns (get_functions drv m stages)" for m stages
    by (induction stages) (simp add: returns_def, auto simp: get_function_def intro!: returns_then returns_CU_CHECK calls)
  then have "returns (load_functions drv program ptx m)" for m
    unfolding returns_def load_functions_def by (auto split: prod.splits sum.splits) (metis fst_conv Inr_not_Inl)
  then have "returns (then_act (CudaModule_new drv ptx) (\<lambda>m. load_functions drv program ptx m))"
    by (intro returns_then) (simp_all add: CudaModule_new_def returns_CU_CHECK calls)
  then show ?thesis using run ptx by (auto simp: compile_entry_def key(2) dest: returnsD)
qed

text \<open>Nothing was lost: the context is there, there are slots, and every completion so far is an answer.\<close>

definition calm :: "'d cuda_backend \<Rightarrow> bool" where
  "calm b \<longleftrightarrow> bk_context b \<noteq> None \<and> bk_streams b \<noteq> [] \<and> slots_valid b \<and>
     (\<forall>c \<in> set (bk_completed b). cp_status c = job_kOk \<and> cp_error c = [])"

definition job_fits :: "nat \<Rightarrow> frame_job \<Rightarrow> bool" where
  "job_fits capacity job \<longleftrightarrow> job_input job \<noteq> None \<and> 0 < job_width job \<and> 0 < job_height job \<and> is_supported_channel_count (job_channels job) \<and>
     job_stride job = nat (job_width job) * nat (job_channels job) \<and>
     nat (job_width job) * nat (job_channels job) * nat (job_height job) \<le> capacity"

lemma calm_driver [simp]: "calm (b\<lparr>bk_driver := d\<rparr>) = calm b" "calm (count_stall b) = calm b"
  by (simp_all add: calm_def slots_valid_def count_stall_def)

lemma on_driver_returns:
  assumes "returns m" "calm b"
  obtains v b' where "on_driver m b = (Inr v, b')" "calm b'" "bk_streams b' = bk_streams b"
proof -
  obtain v d where "m (bk_driver b) = (Inr v, d)" using assms(1) unfolding returns_def by (metis surj_pair fst_conv)
  then show thesis using assms(2) by (intro that [of v "b\<lparr>bk_driver := d\<rparr>"]) (simp_all add: on_driver_def)
qed

lemma finish_slot_calm:
  assumes "calm b" "i < length (bk_streams b)" "ss_busy (bk_streams b ! i)"
  shows "\<exists>b'. finish_slot drv i ms b = (Inr (), b') \<and> calm b' \<and> length (bk_streams b') = length (bk_streams b)"
proof -
  have valid: "slots_valid b" using assms(1) by (simp add: calm_def)
  obtain b' where b': "finish_slot drv i ms b = (Inr (), b')" using finish_slot_ok [OF valid assms(2,3)] by blast
  have m: "swept b b'" by (rule finish_slot_moved [OF assms(2,3) b'])
  have "bk_context b' = bk_context b \<and> (\<forall>c \<in> set (bk_completed b'). c \<in> set (bk_completed b) \<or> cp_status c = job_kOk \<and> cp_error c = [])"
    using b' by (auto simp: finish_slot_def Let_def split: sum.splits)
  then show ?thesis using assms(1) b' m valid by (auto simp: calm_def swept_def moved_def)
qed

lemma retire_slot_calm:
  assumes nf: "never_fails drv expf view K" and calm: "calm b" and i: "i < length (bk_streams b)"
  shows "\<exists>b'. retire_slot drv i b = (Inr (), b') \<and> calm b' \<and> length (bk_streams b') = length (bk_streams b)"
proof -
  obtain r b' where run: "retire_slot drv i b = (r, b')" by fastforce
  then show ?thesis
  proof (cases rule: retire_slot_cases)
    case (failed e status u d)
    have "fst (fst (cuEventQuery drv (ss_done (bk_streams b ! i)) (bk_driver b))) \<in> {CUDA_SUCCESS, CUDA_ERROR_NOT_READY}"
      using nf unfolding never_fails_def by blast
    then have "status = CUDA_SUCCESS" unfolding failed(6) fst_conv using failed(5) by simp
    then show ?thesis using failed(4) by (simp add: cu_check_def)
  next
    case (retiring status u d)
    obtain ms b2 where b2: "on_driver (slot_kernel_ms drv (bk_streams b ! i)) (b\<lparr>bk_driver := d\<rparr>) = (Inr ms, b2)" "calm b2"
        "bk_streams b2 = bk_streams b"
      using on_driver_returns [of "slot_kernel_ms drv (bk_streams b ! i)" "b\<lparr>bk_driver := d\<rparr>"] calm
        returns_CU_CHECK [OF flawless_calls(5) [OF nf]] by (auto simp: slot_kernel_ms_def)
    then show ?thesis using run retiring(4) finish_slot_calm [of b2 i drv ms] i retiring(1) by auto
  qed (use run calm in auto)
qed

lemma retire_loop_calm:
  assumes nf: "never_fails drv expf view K"
  shows "calm b \<Longrightarrow> \<forall>i \<in> set is. i < length (bk_streams b) \<Longrightarrow>
    \<exists>b'. retire_loop drv is b = (Inr (), b') \<and> calm b' \<and> length (bk_streams b') = length (bk_streams b)"
proof (induction "is" arbitrary: b)
  case (Cons i "is")
  then obtain b1 where b1: "retire_slot drv i b = (Inr (), b1)" "calm b1" "length (bk_streams b1) = length (bk_streams b)"
    using retire_slot_calm [OF nf] by (metis list.set_intros(1))
  from Cons.IH [OF b1(2)] Cons.prems(2) b1 show ?case by simp
qed simp

lemma retire_calm:
  assumes "never_fails drv expf view K" "calm b"
  shows "\<exists>b'. retire_ready_streams drv b = (Inr (), b') \<and> calm b'"
  using retire_loop_calm [OF assms, of "[0..<length (bk_streams b)]"] by (auto simp: retire_ready_streams_def)

lemma wait_round_calm:
  assumes nf: "never_fails drv expf view K" and "calm b"
  shows "\<exists>b'. wait_round drv b = (Inr (), b') \<and> calm b'"
proof -
  have "calm (count_stall b)" using assms(2) by simp
  then obtain v b1 where "on_driver (CU_CHECK drv ''cuEventSynchronize(oldest->done.get())'' kBackendFile 295
       (cuEventSynchronize drv (ss_done (bk_streams b ! oldest_slot (bk_streams b))))) (count_stall b) = (Inr v, b1)" "calm b1"
    using returns_CU_CHECK [OF flawless_calls(4) [OF nf]] by (blast elim: on_driver_returns)
  then show ?thesis using retire_calm [OF nf] by (auto simp: wait_round_def)
qed

lemma claim_stream_calm:
  assumes nf: "never_fails drv expf view K" and calm: "calm b" and run: "claim_stream drv b = Some (r, b')"
  shows "(\<exists>i. r = Inr i) \<and> calm b'"
proof -
  have "never_fails drv expf view K \<longrightarrow> calm b \<longrightarrow> (\<exists>i. fst y = Inr i) \<and> calm (snd y)" if "claim_stream drv b = Some y" for y
    using that
  proof (induction rule: claim_stream.raw_induct [rotated 1, consumes 1])
    case (1 claim drv b y)
    show ?case
    proof (intro impI)
      assume nf: "never_fails drv expf view K" and calm: "calm b"
      show "(\<exists>i. fst y = Inr i) \<and> calm (snd y)"
      proof (cases "first_idle (bk_streams b)")
        case (Some i)
        then show ?thesis using 1(2) calm by auto
      next
        case None
        obtain b1 where w: "wait_round drv b = (Inr (), b1)" "calm b1" using wait_round_calm [OF nf calm] by blast
        then have "claim drv b1 = Some y" using 1(2) None by simp
        then show ?thesis using 1(1) [of drv b1 y] nf w(2) by simp
      qed
    qed
  qed
  from this [OF run] nf calm show ?thesis by simp
qed

lemma launch_prepare_calm:
  assumes nf: "never_fails drv expf view K" and works: "compiler_works drv view" and ok: "device_ok view expf cfg capacity jobs b" and calm: "calm b"
    and job: "job_runs cfg K job" "job_fits capacity job" and cfg: "supported_key (cfg\<lparr>key_chain := [], key_channels := 1\<rparr>)"
    and run: "launch_prepare drv expf job h b = (r, b')"
  shows "(\<exists>x. r = Inr x) \<and> calm b'"
proof -
  obtain input where i: "job_input job = Some input" using job(2) by (auto simp: job_fits_def)
  have fits: "0 < job_width job" "0 < job_height job" "is_supported_channel_count (job_channels job)"
      "job_stride job = nat (job_width job) * nat (job_channels job)"
      "nat (job_width job) * nat (job_channels job) * nat (job_height job) \<le> capacity"
    using job(2) by (simp_all add: job_fits_def)
  have size: "bk_slot_bytes b = capacity" using ok by (simp add: device_ok_def answers_ok_def)
  have there: "bk_context b \<noteq> None" "bk_streams b \<noteq> []" using calm by (simp_all add: calm_def)
  show ?thesis
  proof (cases "job_chain job = []")
    case True
    obtain out where "image_from_bytes (job_width job) (job_height job) (job_channels job) input (job_stride job) = Inr out"
      using image_from_bytes_ok [OF fits(1-3)] fits(4) by (metis order_refl)
    then show ?thesis using run calm there(1) i fits(1-4) True by (auto simp: launch_prepare_def Let_def calm_def slots_valid_def)
  next
    case False
    define key where "key = key_for (job_chain job) (job_channels job) b"
    have key: "key = cfg\<lparr>key_chain := job_chain job, key_channels := job_channels job\<rparr>"
      using key_for_cfg [OF device_ok_answers [OF ok]] by (simp add: key_def)
    have "key \<in> K" "canonical_chain (key_chain key)" using job(1) False by (simp_all add: job_runs_def key)
    moreover have "supported_key key" using cfg fits(3) by (simp add: supported_key_def key)
    ultimately obtain program where program: "emit_cuda_source expf key = Inr program" using emit_cuda_source_ok by blast
    obtain r1 cache d where g: "cache_get drv expf key (bk_cache b, bk_driver b) = (r1, (cache, d))" by (metis surj_pair)
    have "\<exists>entry. r1 = Inr entry"
      using g by (cases rule: cache_get_cases) (auto dest: compile_entry_returns [OF nf works \<open>key \<in> K\<close> program])
    then obtain entry where "on_cache (cache_get drv expf key) b = (Inr entry, b\<lparr>bk_cache := cache, bk_driver := d\<rparr>)"
      using g by (auto simp: on_cache_def)
    moreover have "launch_prepare drv expf job h b = then_act (on_cache (cache_get drv expf key)) (\<lambda>compiled b1.
        if bk_streams b1 = [] \<or> bk_slot_bytes b1 < nat (job_width job) * nat (job_channels job) * nat (job_height job)
        then (Inl (Logic_error (''CudaBackend: no device buffer for a '' @
                 show_nat (nat (job_width job) * nat (job_channels job) * nat (job_height job)) @ '' byte frame '' @ em_dash @
               '' allocate_slots() must be called at startup with at least that slot size'')), b1)
        else (Inr (Some (compiled, input, nat (job_width job) * nat (job_channels job) * nat (job_height job))), b1)) b"
      unfolding launch_prepare_def Let_def i option.case key_def using there(1) fits(1-4) False by auto
    ultimately show ?thesis using run calm there(2) fits(5) size by (auto simp: calm_def slots_valid_def)
  qed
qed

lemma launch_on_calm:
  assumes nf: "never_fails drv expf view K" and calm: "calm b" and i: "i < length (bk_streams b)" "\<not> ss_busy (bk_streams b ! i)"
    and job: "job_fits capacity job" and run: "launch_on drv expf job h work i b = (r, b')"
  shows "r = Inr () \<and> calm b'"
proof -
  obtain entry input bytes where w: "work = (entry, input, bytes)" by (cases work)
  obtain v b1 where b1: "on_driver (queue_frame drv expf job entry input bytes (bk_streams b ! i)) b = (Inr v, b1)" "calm b1" "bk_streams b1 = bk_streams b"
    using queue_frame_returns [OF nf] calm by (blast elim: on_driver_returns)
  then have b': "r = Inr ()" "b' = mark_busy job h i b1" using run by (simp_all add: launch_on_def w)
  have "slots_valid b'"
    unfolding b'(2) by (rule mark_busy_adds(3)) (use b1 i job in \<open>simp_all add: job_fits_def calm_def\<close>)
  then show ?thesis using b1(2,3) i(1) by (auto simp: calm_def b' mark_busy_def Let_def)
qed

lemma cuda_submit_calm:
  assumes ex: "executes drv expf view K" and nf: "never_fails drv expf view K" and ok: "device_ok view expf cfg capacity jobs b" and calm: "calm b"
    and job: "job_runs cfg K job" "job_fits capacity job" and cfg: "supported_key (cfg\<lparr>key_chain := [], key_channels := 1\<rparr>)"
    and run: "cuda_submit drv expf job b = Some (h, b')"
  shows "calm b'"
proof -
  have works: "compiler_works drv view" using ex by (simp add: executes_def)
  define b0 where "b0 = b\<lparr>bk_next_handle := bk_next_handle b + 1\<rparr>"
  have b0: "device_ok view expf cfg capacity jobs b0" "calm b0"
    using ok calm by (simp_all add: b0_def device_ok_def answers_ok_def key_for_def calm_def slots_valid_def)
  obtain r b1 where l: "launch drv expf job h b0 = Some (r, b1)" "b' = settle drv h r b1"
    using run by (auto simp: cuda_submit_def Let_def b0_def)
  obtain r1 b2 where p: "launch_prepare drv expf job h b0 = (r1, b2)" by fastforce
  note prepared = launch_prepare_calm [OF nf works b0 job cfg p]
  then consider "r1 = Inr None" | work where "r1 = Inr (Some work)" by (metis option.exhaust)
  then have "(\<exists>x. r = Inr x) \<and> calm b1"
  proof cases
    case 1
    then show ?thesis using l(1) p prepared by (simp add: launch_def)
  next
    case (2 work)
    obtain r2 b3 where c: "claim_stream drv b2 = Some (r2, b3)" using l(1) p 2 by (auto simp: launch_def split: option.splits)
    have b2: "calm b2" using prepared by simp
    obtain i where i: "r2 = Inr i" "calm b3" using claim_stream_calm [OF nf b2 c] by blast
    have "launch_on drv expf job h work i b3 = (r, b1)" using l(1) p 2 c i(1) by (simp add: launch_def)
    from launch_on_calm [OF nf i(2) _ _ job(2) this] claim_stream_swept [OF c] i(1) show ?thesis by simp
  qed
  then show ?thesis by (auto simp: l(2) settle_def)
qed

lemma cuda_poll_calm:
  assumes "never_fails drv expf view K" "calm b" "cuda_poll_completions drv b = (Inr cs, b')"
  shows "calm b' \<and> (\<forall>c \<in> set cs. cp_status c = job_kOk \<and> cp_error c = [])"
proof -
  obtain b1 where "retire_ready_streams drv b = (Inr (), b1)" "calm b1" using retire_calm [OF assms(1,2)] by blast
  then show ?thesis using assms(3) by (auto simp: cuda_poll_completions_def calm_def slots_valid_def)
qed

lemma history_calm:
  assumes ex: "executes drv expf view K" and nf: "never_fails drv expf view K"
    and ok: "device_ok view expf cfg capacity {} b1" "calm b1" and cfg: "supported_key (cfg\<lparr>key_chain := [], key_channels := 1\<rparr>)"
    and run: "backend_history (\<lambda>b job h b'. cuda_submit drv expf job b = Some (h, b')) (\<lambda>b cs b'. cuda_poll_completions drv b = (Inr cs, b'))
      b1 b submitted delivered"
    and jobs: "\<forall>job \<in> snd ` set submitted. job_runs cfg K job \<and> job_fits capacity job"
  shows "device_ok view expf cfg capacity (set submitted) b \<and> calm b \<and>
    set delivered \<subseteq> (\<lambda>(h, job). completion_of h (cpu_process expf job)) ` set submitted"
  using run jobs
proof (induction rule: backend_history.induct)
  case history_start
  show ?case using ok by simp
next
  case (history_submit b submitted delivered job h b')
  then have IH: "device_ok view expf cfg capacity (set submitted) b" "calm b"
      "set delivered \<subseteq> (\<lambda>(h, job). completion_of h (cpu_process expf job)) ` set submitted"
    and j: "job_runs cfg K job" "job_fits capacity job" by simp_all
  have "device_ok view expf cfg capacity (insert (h, job) (set submitted)) b'"
    by (rule cuda_submit_correct [OF ex IH(1) j(1) history_submit.hyps(2)])
  moreover have "calm b'" by (rule cuda_submit_calm [OF ex nf IH(1,2) j cfg history_submit.hyps(2)])
  ultimately show ?case using IH(3) by auto
next
  case (history_poll b submitted delivered cs b')
  then have IH: "device_ok view expf cfg capacity (set submitted) b" "calm b"
      "set delivered \<subseteq> (\<lambda>(h, job). completion_of h (cpu_process expf job)) ` set submitted" by simp_all
  note p = cuda_poll_correct [OF ex IH(1) history_poll.hyps(2)] and q = cuda_poll_calm [OF nf IH(2) history_poll.hyps(2)]
  have "c \<in> (\<lambda>(h, job). completion_of h (cpu_process expf job)) ` set submitted" if c: "c \<in> set cs" for c
  proof -
    obtain job where job: "(cp_handle c, job) \<in> set submitted" "cpu_process expf job = Inr (cp_output c)" using p q c by blast
    have "c = completion_of (cp_handle c) (cpu_process expf job)" using q c by (simp add: job(2) completion_of_def)
    then show ?thesis by (intro rev_image_eqI [OF job(1)]) simp
  qed
  then show ?case using IH(3) p q by auto
qed

lemma emplace_slots_adds:
  "emplace_slots drv n b = (Inr u, b') \<Longrightarrow> length (bk_streams b') = length (bk_streams b) + n \<and> bk_context b' = bk_context b"
proof (induction n arbitrary: b)
  case (Suc n)
  then obtain slot b1 where b1: "on_driver (StreamSlot_new drv (bk_slot_bytes b)) b = (Inr slot, b1)"
      "emplace_slots drv n (b1\<lparr>bk_streams := bk_streams b1 @ [slot]\<rparr>) = (Inr u, b')"
    by (auto elim: then_act_cases)
  from b1(1) obtain d where "b1 = b\<lparr>bk_driver := d\<rparr>" by (rule on_driver_run)
  then show ?case using Suc.IH [OF b1(2)] by simp
qed auto

lemma started_calm:
  assumes fresh: "fresh_backend b0"
    and run: "allocate_slots drv n bytes b0 = (Inr base, b1)"
  shows "calm b1"
proof -
  have b0: "bk_context b0 \<noteq> None" "bk_streams b0 = []" "bk_completed b0 = []" "bk_stream_count b0 \<noteq> 0"
    using fresh by (simp_all add: fresh_backend_def)
  have guards: "bk_host_slots b0 = None" "n \<noteq> 0" "bytes \<noteq> 0" using run by (auto simp: allocate_slots_def split: if_splits)
  then have "then_act (on_driver (RegisteredHostBuffer_new drv (n * bytes))) (\<lambda>buffer b1.
           then_act (build_stream_slots drv) (\<lambda>_. return_act (rb_memory buffer))
             (b1\<lparr>bk_host_slots := Some buffer, bk_slot_bytes := unat bytes\<rparr>)) b0 = (Inr base, b1)"
    using run by (simp add: allocate_slots_def)
  then obtain buffer d2 u where s: "build_stream_slots drv (b0\<lparr>bk_driver := d2, bk_host_slots := Some buffer, bk_slot_bytes := unat bytes\<rparr>) = (Inr u, b1)"
    by (auto elim!: then_act_cases on_driver_run)
  have "clear_streams drv (b0\<lparr>bk_driver := d2, bk_host_slots := Some buffer, bk_slot_bytes := unat bytes\<rparr>) =
      b0\<lparr>bk_driver := d2, bk_host_slots := Some buffer, bk_slot_bytes := unat bytes\<rparr>" using b0(2) by (simp add: clear_streams_def)
  then have "emplace_slots drv (bk_stream_count b0) (b0\<lparr>bk_driver := d2, bk_host_slots := Some buffer, bk_slot_bytes := unat bytes\<rparr>) = (Inr u, b1)"
    using s guards(3) by (simp add: build_stream_slots_def unat_eq_zero)
  note e = emplace_slots_adds [OF this]
  have "cuda_ok b1" "cuda_handles b1 = []" using allocate_slots_fresh [OF fresh run] by simp_all
  then show "calm b1" using e b0 by (auto simp: calm_def cuda_ok_def cuda_handles_def)
qed

end
