(* ===== verification/Cuda_Oracle.thy ===== *)
theory Cuda_Oracle
  imports Cuda_Correct
begin

text \<open>
  The CUDA backend against the CPU backend: on a device that executes the generated kernels every answer is the CPU oracle's, and when no call fails
  every frame is answered. The predicate \<open>executes\<close> is not empty: for every key there is a device, defined here as a
  program, that satisfies it and on which no call fails.
\<close>

section \<open>A device as a program\<close>

text \<open>
  Every operation takes effect at once, so events are complete as soon as they are recorded. Handles are counted. PTX is the source text
  itself; a launch looks up the function in the program of one key and runs the stage it names.
\<close>

record virtual_device =
  vd_live :: "(resource \<times> nat) list"
  vd_device :: "nat \<Rightarrow> u8 list"
  vd_host :: "nat \<Rightarrow> u8 list"
  vd_programs :: "string list"
  vd_modules :: "string list"
  vd_functions :: "(string \<times> string) list"

definition new_virtual_device :: virtual_device where
  "new_virtual_device = \<lparr>vd_live = [], vd_device = (\<lambda>_. []), vd_host = (\<lambda>_. []), vd_programs = [], vd_modules = [], vd_functions = []\<rparr>"

definition entry_at :: "'a list \<Rightarrow> nat \<Rightarrow> 'a \<Rightarrow> bool" where
  "entry_at xs h x \<longleftrightarrow> 0 < h \<and> h \<le> length xs \<and> xs ! (h - 1) = x"

definition resource_id :: "resource \<Rightarrow> nat" where
  "resource_id r = (case r of Buffer p \<Rightarrow> p | Pinned p \<Rightarrow> p | Event p \<Rightarrow> p)"

definition vd_create :: "(nat \<Rightarrow> resource) \<Rightarrow> nat \<Rightarrow> (virtual_device, nat) cu_operation" where
  "vd_create mk n d =
     (let h = Suc (sum_list (map (resource_id \<circ> fst) (vd_live d))) in ((0, h), d\<lparr>vd_live := (mk h, n) # vd_live d\<rparr>))"

definition vd_destroy :: "resource \<Rightarrow> (virtual_device, unit) cu_operation" where
  "vd_destroy r d = ((0, ()), d\<lparr>vd_live := filter (\<lambda>q. fst q \<noteq> r) (vd_live d)\<rparr>)"

definition vd_load :: "string \<Rightarrow> (virtual_device, nat) cu_operation" where
  "vd_load ptx d = ((0, Suc (length (vd_modules d))), d\<lparr>vd_modules := vd_modules d @ [ptx]\<rparr>)"

definition vd_function :: "nat \<Rightarrow> string \<Rightarrow> (virtual_device, nat) cu_operation" where
  "vd_function m name d = ((0, Suc (length (vd_functions d))), d\<lparr>vd_functions := vd_functions d @ [(vd_modules d ! (m - 1), name)]\<rparr>)"

definition vd_program :: "string \<Rightarrow> (virtual_device, nat) cu_operation" where
  "vd_program source d = ((0, Suc (length (vd_programs d))), d\<lparr>vd_programs := vd_programs d @ [source]\<rparr>)"

definition vd_copy_in :: "nat \<Rightarrow> u8 list \<Rightarrow> nat \<Rightarrow> (virtual_device, unit) cu_operation" where
  "vd_copy_in p input n d = ((0, ()), d\<lparr>vd_device := (vd_device d)(p := take n input)\<rparr>)"

definition vd_copy_out :: "nat \<Rightarrow> nat \<Rightarrow> nat \<Rightarrow> (virtual_device, unit) cu_operation" where
  "vd_copy_out q p n d = ((0, ()), d\<lparr>vd_host := (vd_host d)(q := take n (vd_device d p))\<rparr>)"

definition vd_stage :: "(rat \<Rightarrow> rat) \<Rightarrow> kernel_key \<Rightarrow> nat \<Rightarrow> virtual_device \<Rightarrow> nat option" where
  "vd_stage expf key f d =
     (case emit_cuda_source expf key of
        Inl e \<Rightarrow> None
      | Inr program \<Rightarrow> find (\<lambda>i. entry_at (vd_functions d) f (gp_source program, gs_kernel_name (gp_stages program ! i)))
          [0..<length (gp_stages program)])"

definition vd_launch :: "(rat \<Rightarrow> rat) \<Rightarrow> kernel_key \<Rightarrow> nat \<Rightarrow> kernel_argument list \<Rightarrow> (virtual_device, unit) cu_operation" where
  "vd_launch expf key f arguments d =
     ((0, ()), case (vd_stage expf key f d, arguments) of
        (Some i, Pointer_Arg source # Pointer_Arg destination # Int_Arg width # Int_Arg height # parameters) \<Rightarrow>
          (let src = \<lparr>im_width = width, im_height = height, im_channels = key_channels key,
                      im_stride = nat width * nat (key_channels key), im_pixels = vd_device d source\<rparr>
           in d\<lparr>vd_device := (vd_device d)(destination := im_pixels
                 (launch_stage expf (nat (key_tile_size key)) (\<lambda>_ _. 0) (plan_stages (key_chain key) ! i) src src))\<rparr>)
      | _ \<Rightarrow> d)"

definition virtual_driver :: "(rat \<Rightarrow> rat) \<Rightarrow> kernel_key \<Rightarrow> virtual_device cuda_driver" where
  "virtual_driver expf key = \<lparr>cuGetErrorName = (\<lambda>_. None), cuGetErrorString = (\<lambda>_. None), cuInit = ok_call (), cuDeviceGet = (\<lambda>_. ok_call 1),
     cuDeviceGetAttribute = (\<lambda>_ _. ok_call 7), cuCtxCreate = (\<lambda>_. ok_call 1), cuCtxDestroy = (\<lambda>_. ok_call ()),
     cuModuleLoadData = vd_load, cuModuleGetFunction = vd_function, cuModuleUnload = (\<lambda>_. ok_call ()),
     cuMemAlloc = vd_create Buffer, cuMemFree = (\<lambda>h. vd_destroy (Buffer h)), cuMemAllocHost = vd_create Pinned,
     cuMemFreeHost = (\<lambda>h. vd_destroy (Pinned h)), cuMemHostRegister = (\<lambda>_ _. ok_call ()), cuMemHostUnregister = (\<lambda>_. ok_call ()),
     cuStreamCreate = ok_call 1, cuStreamDestroy = (\<lambda>_. ok_call ()), cuEventCreate = (\<lambda>_. vd_create Event 0),
     cuEventDestroy = (\<lambda>h. vd_destroy (Event h)), cuEventRecord = (\<lambda>_ _. ok_call ()), cuEventQuery = (\<lambda>_. ok_call ()),
     cuEventSynchronize = (\<lambda>_. ok_call ()), cuEventElapsedTime = (\<lambda>_ _. ok_call 1), cuMemcpyHtoDAsync = (\<lambda>p input n s. vd_copy_in p input n),
     cuMemcpyDtoHAsync = (\<lambda>q p n s. vd_copy_out q p n), cuLaunchKernel = (\<lambda>f _ _ _. vd_launch expf key f), host_bytes = (\<lambda>p d. vd_host d p),
     operator_new = (\<lambda>_ _ d. (4096, d)), operator_delete = (\<lambda>_ d. d), sysconf_page_size = 4096, nvrtcGetErrorString = (\<lambda>_. ''error''),
     nvrtcCreateProgram = (\<lambda>source _. vd_program source), nvrtcDestroyProgram = (\<lambda>_. ok_call ()), nvrtcCompileProgram = (\<lambda>_ _. ok_call ()),
     nvrtcGetProgramLogSize = (\<lambda>_. ok_call 1), nvrtcGetProgramLog = (\<lambda>_. ok_call ''''),
     nvrtcGetPTXSize = (\<lambda>p d. ((0, length (vd_programs d ! (p - 1)) + 1), d)), nvrtcGetPTX = (\<lambda>p d. ((0, vd_programs d ! (p - 1)), d))\<rparr>"

definition virtual_view :: "virtual_device device_view" where
  "virtual_view = \<lparr>dv_own = (\<lambda>d s r n. \<exists>m \<ge> n. (r, m) \<in> set (vd_live d)), dv_holds = (\<lambda>d s p bytes. vd_device d p = bytes),
     dv_copied = (\<lambda>d s q bytes. Pinned q \<in> fst ` set (vd_live d) \<and> take (length bytes) (vd_host d q) = bytes),
     dv_due = (\<lambda>d e q bytes. {Event e, Pinned q} \<subseteq> fst ` set (vd_live d) \<and> take (length bytes) (vd_host d q) = bytes),
     dv_landed = (\<lambda>d q bytes. take (length bytes) (vd_host d q) = bytes), dv_program = (\<lambda>d. entry_at (vd_programs d)),
     dv_compiled = (\<lambda>d. entry_at (vd_programs d)), dv_ptx = (=), dv_module = (\<lambda>d. entry_at (vd_modules d)),
     dv_kernel = (\<lambda>d f source name. entry_at (vd_functions d) f (source, name))\<rparr>"

lemma entry_at_append: "entry_at xs h x \<Longrightarrow> entry_at (xs @ ys) h x"
  by (auto simp: entry_at_def nth_append)

lemma entry_at_last [simp]: "entry_at (xs @ [x]) (Suc (length xs)) x"
  by (simp add: entry_at_def)

lemma virtual_leaves:
  assumes "\<And>r n. (r, n) \<in> set (vd_live d) \<Longrightarrow> r \<notin> R \<Longrightarrow> (r, n) \<in> set (vd_live d')" "S = {} \<or> set (vd_live d) \<subseteq> set (vd_live d')"
    "\<And>q. Pinned q \<notin> R \<Longrightarrow> vd_host d' q = vd_host d q"
    "\<exists>ys. vd_modules d' = vd_modules d @ ys" "\<exists>ys. vd_functions d' = vd_functions d @ ys"
  shows "leaves virtual_view S R d d'"
proof (rule leavesI)
  show "dv_own virtual_view d' s r n" if "dv_own virtual_view d s r n" "s \<in> S \<or> r \<notin> R" for s r n
    using that assms(1,2) by (auto simp: virtual_view_def)
  show "dv_due virtual_view d' e q bytes" if "dv_due virtual_view d e q bytes" "Event e \<notin> R" "Pinned q \<notin> R" for e q bytes
    using that assms(1,3) by (force simp: virtual_view_def)
qed (use assms(4,5) in \<open>auto simp: virtual_view_def intro: entry_at_append\<close>)

lemma virtual_creates:
  assumes "\<And>h. resource_id (mk h) = h"
  shows "creates virtual_view mk n (vd_create mk n)"
proof -
  have "undisturbed virtual_view d d' \<and> unused virtual_view d (mk h) \<and> (\<forall>s. dv_own virtual_view d' s (mk h) n)"
    if run: "vd_create mk n d = ((r, h), d')" for d r h d'
  proof -
    have d': "d' = d\<lparr>vd_live := (mk h, n) # vd_live d\<rparr>" and h: "h = Suc (sum_list (map (resource_id \<circ> fst) (vd_live d)))"
      using run by (auto simp: vd_create_def Let_def)
    have fresh: "mk h \<notin> fst ` set (vd_live d)"
    proof
      assume "mk h \<in> fst ` set (vd_live d)"
      then have "resource_id (mk h) \<in> resource_id ` fst ` set (vd_live d)" by (rule imageI)
      then have "resource_id (mk h) \<in> set (map (resource_id \<circ> fst) (vd_live d))" by (simp only: set_map image_comp)
      from member_le_sum_list [OF this] show False using assms h by simp
    qed
    have "undisturbed virtual_view d d'" by (rule virtual_leaves) (auto simp: d')
    moreover have "unused virtual_view d (mk h)" using fresh by (auto simp: unused_def virtual_view_def image_iff)
    moreover have "\<forall>s. dv_own virtual_view d' s (mk h) n" by (auto simp: virtual_view_def d')
    ultimately show ?thesis by blast
  qed
  then show ?thesis by (simp add: creates_def)
qed

lemma virtual_destroys: "touches virtual_view {r} (vd_destroy r)"
  unfolding touches_def vd_destroy_def by (auto intro!: virtual_leaves)

lemma virtual_touches: "touches virtual_view {} (ok_call v)"
  by (simp add: touches_def ok_call_def)

lemma virtual_allocation: "allocation_works (virtual_driver expf key) virtual_view"
  by (simp add: allocation_works_def virtual_driver_def virtual_creates virtual_destroys virtual_touches resource_id_def)

lemma virtual_copies: "copies_work (virtual_driver expf key) virtual_view"
proof -
  have "dv_holds virtual_view d' s p (take n input) \<and> leaves virtual_view {s} {Buffer p} d d'"
    if "vd_copy_in p input n d = ((CUDA_SUCCESS, u), d')" for p input n s d u d'
    using that by (auto simp: vd_copy_in_def virtual_view_def [THEN arg_cong [of _ _ dv_holds]] intro!: virtual_leaves)
  moreover have "dv_copied virtual_view d' s q bytes \<and> leaves virtual_view {s} {Pinned q} d d'"
    if "vd_copy_out q p n d = ((CUDA_SUCCESS, u), d')" "dv_own virtual_view d s (Pinned q) m" "dv_holds virtual_view d s p bytes" "n = length bytes"
    for q p n s d u d' m bytes
  proof -
    have d': "d' = d\<lparr>vd_host := (vd_host d)(q := bytes)\<rparr>" using that(1,3,4) by (auto simp: vd_copy_out_def virtual_view_def)
    have "Pinned q \<in> fst ` set (vd_live d)" using that(2) by (force simp: virtual_view_def)
    then have "dv_copied virtual_view d' s q bytes" by (simp add: virtual_view_def d')
    moreover have "leaves virtual_view {s} {Pinned q} d d'" by (rule virtual_leaves) (auto simp: d')
    ultimately show ?thesis by blast
  qed
  ultimately show ?thesis unfolding copies_work_def by (auto simp: virtual_driver_def)
qed

lemma virtual_events: "events_work (virtual_driver expf key) virtual_view"
  by (force simp: events_work_def virtual_driver_def ok_call_def virtual_view_def leaves_def image_iff)

lemma virtual_compiler: "compiler_works (virtual_driver expf key) virtual_view"
proof -
  have ld: "undisturbed virtual_view d (d\<lparr>vd_modules := vd_modules d @ [ptx]\<rparr>)" for d ptx by (rule virtual_leaves) auto
  have fn: "undisturbed virtual_view d (d\<lparr>vd_functions := vd_functions d @ [x]\<rparr>)" for d x by (rule virtual_leaves) auto
  have cr: "undisturbed virtual_view d (d\<lparr>vd_programs := vd_programs d @ [x]\<rparr>)" for d x by (rule virtual_leaves) auto
  show ?thesis
    unfolding compiler_works_def queries_program_def touches_def
    by (auto simp: virtual_driver_def ok_call_def vd_load_def vd_function_def vd_program_def ld fn cr)
       (auto simp: virtual_view_def entry_at_def)
qed

lemma virtual_stage:
  assumes chain: "canonical_chain (key_chain key)" and program: "emit_cuda_source expf key = Inr program"
    and i: "i < length (gp_stages program)" "dv_kernel virtual_view d f (gp_source program) (gs_kernel_name (gp_stages program ! i))"
  shows "vd_stage expf key f d = Some i"
proof -
  have name: "gs_kernel_name (gp_stages program ! j) = kStagePrefix @ show_nat j" if "j < length (gp_stages program)" for j
    using that emitted_stages(2) [OF chain program] by (simp add: stage_description_def Let_def)
  have "entry_at (vd_functions d) f (gp_source program, gs_kernel_name (gp_stages program ! j)) \<longleftrightarrow> j = i" if "j < length (gp_stages program)" for j
    using i that name [OF that] name [OF i(1)] by (auto simp: virtual_view_def entry_at_def)
  then have "find (\<lambda>j. entry_at (vd_functions d) f (gp_source program, gs_kernel_name (gp_stages program ! j))) [0..<length (gp_stages program)] = Some i"
    using i(1) by (auto simp: find_Some_iff)
  then show ?thesis by (simp add: vd_stage_def program)
qed

lemma virtual_kernels:
  assumes "canonical_chain (key_chain key)"
  shows "kernels_run (virtual_driver expf key) expf virtual_view {key}"
proof -
  have "leaves virtual_view {s} {Buffer source, Buffer destination} d d' \<and>
      (\<exists>garbage dst. image_wf dst \<and> same_shape dst src \<and> dv_holds virtual_view d' s destination
         (im_pixels (launch_stage expf (nat (key_tile_size key)) garbage (plan_stages (key_chain key) ! i) src dst)))"
    if "emit_cuda_source expf key = Inr program" "job_channels job = key_channels key" "i < length (gp_stages program)"
      "dv_kernel virtual_view d f (gp_source program) (gs_kernel_name (gp_stages program ! i))"
      "launch_ready virtual_view job s source destination src d"
      "vd_launch expf key f (stage_arguments expf job (gp_stages program ! i) source destination) d = ((CUDA_SUCCESS, u), d')"
    for program job i f s source destination src d u d'
  proof -
    have src: "image_wf src" "im_width src = job_width job" "im_height src = job_height job" "im_channels src = key_channels key"
        "vd_device d source = im_pixels src"
      using that(2,5) by (auto simp: launch_ready_def shaped_like_def virtual_view_def)
    then have "src = \<lparr>im_width = job_width job, im_height = job_height job, im_channels = key_channels key,
        im_stride = nat (job_width job) * nat (key_channels key), im_pixels = vd_device d source\<rparr>" by (simp add: image_wf_def)
    then have d': "d' = d\<lparr>vd_device := (vd_device d)(destination := im_pixels
        (launch_stage expf (nat (key_tile_size key)) (\<lambda>_ _. 0) (plan_stages (key_chain key) ! i) src src))\<rparr>"
      using that(6) by (simp add: vd_launch_def virtual_stage [OF assms that(1,3,4)] stage_arguments_def Let_def)
    have "leaves virtual_view {s} {Buffer source, Buffer destination} d d'" by (rule virtual_leaves) (auto simp: d')
    moreover have "dv_holds virtual_view d' s destination
        (im_pixels (launch_stage expf (nat (key_tile_size key)) (\<lambda>_ _. 0) (plan_stages (key_chain key) ! i) src src))"
      by (simp add: virtual_view_def d')
    ultimately show ?thesis using src(1) same_shape_refl by blast
  qed
  then show ?thesis by (simp add: kernels_run_def virtual_driver_def Let_def)
qed

lemma virtual_executes: "canonical_chain (key_chain key) \<Longrightarrow> executes (virtual_driver expf key) expf virtual_view {key}"
  by (simp add: executes_def virtual_allocation virtual_copies virtual_events virtual_compiler virtual_kernels)

lemma virtual_never_fails: "never_fails (virtual_driver expf key) expf virtual_view K"
  by (simp add: never_fails_def succeeds_def virtual_driver_def ok_call_def vd_copy_in_def vd_copy_out_def vd_launch_def vd_program_def vd_load_def
      vd_function_def CUDA_SUCCESS_def)

section \<open>One frame on the virtual device\<close>

text \<open>The start-up, a submission and a poll of one grey pixel under \<open>invert\<close>: the frame comes back.\<close>

definition pixel_key :: kernel_key where
  "pixel_key = \<lparr>key_chain = [\<lparr>kind = kInvert, param = 0\<rparr>], key_channels = 1, key_tile = kNaive, key_tile_size = 0, key_constants = kBaked\<rparr>"

definition pixel_job :: frame_job where
  "pixel_job = \<lparr>job_input = Some [10], job_width = 1, job_height = 1, job_channels = 1, job_stride = 1,
     job_chain = [\<lparr>kind = kInvert, param = 0\<rparr>]\<rparr>"

abbreviation pixel_driver :: "virtual_device cuda_driver" where
  "pixel_driver \<equiv> virtual_driver (\<lambda>x. 1) pixel_key"

lemma pixel_canonical: "canonical_chain (key_chain pixel_key)"
  using default_canonical [of kInvert] by (simp add: pixel_key_def kOpSpecs_def)

lemma pixel_job_runs: "job_runs (config_key kNaive 0 kBaked) {pixel_key} pixel_job" "job_fits 64 pixel_job"
  using pixel_canonical by (simp_all add: job_runs_def job_fits_def pixel_job_def pixel_key_def is_supported_channel_count_def)

lemma pixel_answer: "cpu_process (\<lambda>x. 1) pixel_job = Inr \<lparr>im_width = 1, im_height = 1, im_channels = 1, im_stride = 1, im_pixels = [245]\<rparr>"
  by code_simp

lemma idle_after_sweep:
  assumes ev: "events_complete drv (\<lambda>_ _. True)" and run: "retire_ready_streams drv b = (Inr u, b')"
  shows "filter ss_busy (bk_streams b') = []"
proof -
  have "length (bk_streams b') = length (bk_streams b)" using retire_moved [OF run] by (simp add: swept_def)
  moreover have "\<not> ss_busy (bk_streams b' ! k)" if "k < length (bk_streams b)" for k
    using retire_loop_frees [OF ev run [unfolded retire_ready_streams_def] _ that] that by simp
  ultimately show ?thesis by (auto simp: filter_empty_conv in_set_conv_nth)
qed

lemma pixel_backend:
  obtains b0 d where "CudaBackend_new pixel_driver 0 1 kNaive 0 kBaked new_virtual_device = (Inr b0, d)"
    "bk_host_slots b0 = None" "bk_streams b0 = []" "bk_stream_count b0 = 1"
  by (simp add: CudaBackend_new_def CudaContext_new_def compute_arch_def then_act_def CU_CHECK_def cu_check_def virtual_driver_def ok_call_def
      CUDA_SUCCESS_def is_supported_tile_def is_supported_constants_def)

lemma pixel_slots:
  assumes b0: "bk_host_slots b0 = None" "bk_streams b0 = []" "bk_stream_count b0 = 1" and bytes: "bytes \<noteq> 0"
  obtains base b1 where "allocate_slots pixel_driver 1 bytes b0 = (Inr base, b1)"
proof -
  obtain buffer d1 where reg: "RegisteredHostBuffer_new pixel_driver bytes (bk_driver b0) = (Inr buffer, d1)"
    by (simp add: RegisteredHostBuffer_new_def Let_def attach_def CU_CHECK_def cu_check_def virtual_driver_def ok_call_def CUDA_SUCCESS_def)
  obtain slot d2 where slot: "StreamSlot_new pixel_driver (unat bytes) d1 = (Inr slot, d2)"
    by (simp add: StreamSlot_new_def slot_members_def CudaStream_new_def CudaEvent_new_def DeviceBuffer_new_def PinnedHostBuffer_new_def then_act_def
        CU_CHECK_def cu_check_def virtual_driver_def ok_call_def vd_create_def Let_def CUDA_SUCCESS_def)
  define b' where "b' = b0\<lparr>bk_driver := d1, bk_host_slots := Some buffer, bk_slot_bytes := unat bytes\<rparr>"
  have "clear_streams pixel_driver b' = b'" using b0(2) by (simp add: b'_def clear_streams_def)
  moreover have "on_driver (StreamSlot_new pixel_driver (bk_slot_bytes b')) b' = (Inr slot, b'\<lparr>bk_driver := d2\<rparr>)"
    using slot by (simp add: on_driver_def b'_def)
  ultimately have "build_stream_slots pixel_driver b' = (Inr (), b'\<lparr>bk_driver := d2, bk_streams := bk_streams b' @ [slot]\<rparr>)"
    using b0(3) bytes by (simp add: build_stream_slots_def Let_def) (simp add: b'_def unat_eq_zero)
  moreover have "on_driver (RegisteredHostBuffer_new pixel_driver bytes) b0 = (Inr buffer, b0\<lparr>bk_driver := d1\<rparr>)"
    using reg by (simp add: on_driver_def)
  ultimately show thesis using that b0(1) bytes by (simp add: allocate_slots_def b'_def [symmetric])
qed

lemma pixel_serves:
  assumes b1: "cuda_ok b1" "cuda_handles b1 = []" "bk_next_handle b1 = 1"
    and ok: "device_ok virtual_view (\<lambda>x. 1) (config_key kNaive 0 kBaked) capacity {} b1" and calm: "calm b1"
    and job: "job_runs (config_key kNaive 0 kBaked) {pixel_key} job" "job_fits capacity job"
  obtains b2 b3 where "cuda_submit pixel_driver (\<lambda>x. 1) job b1 = Some (1, b2)"
    "cuda_poll_completions pixel_driver b2 = (Inr [completion_of 1 (cpu_process (\<lambda>x. 1) job)], b3)"
proof -
  let ?submits = "\<lambda>b job h b'. cuda_submit pixel_driver (\<lambda>x. 1) job b = Some (h, b')" and ?polls = "\<lambda>b cs b'. cuda_poll_completions pixel_driver b = (Inr cs, b')"
  have ev: "events_complete pixel_driver (\<lambda>_ _. True)"
    by (simp add: events_complete_def virtual_driver_def ok_call_def CUDA_ERROR_NOT_READY_def)
  have ex: "executes pixel_driver (\<lambda>x. 1) virtual_view {pixel_key}" by (rule virtual_executes [OF pixel_canonical])
  obtain b2 where s: "cuda_submit pixel_driver (\<lambda>x. 1) job b1 = Some (1, b2)" using cuda_submit_returns [OF ev] b1(3) by metis
  have h: "backend_history ?submits ?polls b1 b2 ([] @ [(1, job)]) []" by (rule history_submit [OF history_start]) (rule s)
  have key: "supported_key ((config_key kNaive 0 kBaked)\<lparr>key_chain := [], key_channels := 1\<rparr>)"
    by (simp add: supported_key_def is_supported_channel_count_def is_supported_tile_def is_supported_constants_def)
  have "calm b2" by (rule cuda_submit_calm [OF ex virtual_never_fails ok calm job key s])
  then obtain b3 where b3: "retire_ready_streams pixel_driver b2 = (Inr (), b3)" using retire_calm [OF virtual_never_fails] by blast
  have poll: "cuda_poll_completions pixel_driver b2 = (Inr (bk_completed b3), b3\<lparr>bk_completed := []\<rparr>)" by (simp add: cuda_poll_completions_def b3)
  have "cuda_ok b2" "set (cuda_handles b2) = {1}" using cuda_submit_law [OF b1(1) _ s] b1(2,3) by simp_all
  moreover have "moved b2 b3" using retire_moved [OF b3] by (simp add: swept_def)
  moreover have "cuda_handles b3 = map cp_handle (bk_completed b3)" by (simp add: cuda_handles_def idle_after_sweep [OF ev b3])
  ultimately have "distinct (map cp_handle (bk_completed b3))" "set (map cp_handle (bk_completed b3)) = {1}"
    using moved_handles [of b2 b3] by (simp_all add: cuda_ok_def)
  then obtain c where c: "bk_completed b3 = [c]" by (cases "bk_completed b3"; cases "tl (bk_completed b3)") auto
  have "backend_history ?submits ?polls b1 (b3\<lparr>bk_completed := []\<rparr>) [(1, job)] [c]" using history_poll [OF h poll] c by simp
  from history_calm [OF ex virtual_never_fails ok calm key this] job have "c = completion_of 1 (cpu_process (\<lambda>x. 1) job)" by simp
  then show thesis using that [OF s] poll c by simp
qed

lemma pixel_run:
  obtains b0 d base b1 b c where "CudaBackend_new pixel_driver 0 1 kNaive 0 kBaked new_virtual_device = (Inr b0, d)"
    "allocate_slots pixel_driver 1 64 b0 = (Inr base, b1)"
    "backend_history (\<lambda>b job h b'. cuda_submit pixel_driver (\<lambda>x. 1) job b = Some (h, b'))
       (\<lambda>b cs b'. cuda_poll_completions pixel_driver b = (Inr cs, b')) b1 b [(1, pixel_job)] [c]"
proof -
  obtain b0 d where new: "CudaBackend_new pixel_driver 0 1 kNaive 0 kBaked new_virtual_device = (Inr b0, d)"
      "bk_host_slots b0 = None" "bk_streams b0 = []" "bk_stream_count b0 = 1" by (rule pixel_backend)
  obtain base b1 where alloc: "allocate_slots pixel_driver 1 64 b0 = (Inr base, b1)" by (rule pixel_slots [OF new(2-4), of 64]) simp_all
  obtain capacity where "device_ok virtual_view (\<lambda>x. 1) (config_key kNaive 0 kBaked) capacity {} b1" "capacity = 64"
    using allocate_slots_correct [OF virtual_allocation CudaBackend_new_correct [OF new(1)] _ alloc] by auto
  then have ok: "device_ok virtual_view (\<lambda>x. 1) (config_key kNaive 0 kBaked) 64 {} b1" by simp
  note start = allocate_slots_start [OF new(1) alloc] and calm = started_calm [OF CudaBackend_new_fresh [OF new(1)] alloc]
  obtain b2 b3 c where s: "cuda_submit pixel_driver (\<lambda>x. 1) pixel_job b1 = Some (1, b2)"
      "cuda_poll_completions pixel_driver b2 = (Inr [c], b3)" by (rule pixel_serves [OF start ok calm pixel_job_runs])
  have h: "backend_history (\<lambda>b job h b'. cuda_submit pixel_driver (\<lambda>x. 1) job b = Some (h, b'))
       (\<lambda>b cs b'. cuda_poll_completions pixel_driver b = (Inr cs, b')) b1 b2 ([] @ [(1, pixel_job)]) []"
    by (rule history_submit [OF history_start]) (rule s(1))
  from history_poll [OF h s(2)] show thesis using that [OF new(1) alloc] by simp
qed

section \<open>Properties\<close>

lemma started_device_ok:
  assumes "executes drv expf view K" "CudaBackend_new drv ordinal k tile tile_size constants d = (Inr b0, d')"
    and "allocate_slots drv n bytes b0 = (r, b1)" "unat bytes < 2 ^ 31"
  obtains capacity where "device_ok view expf (config_key tile tile_size constants) capacity {} b1" "\<And>base. r = Inr base \<Longrightarrow> capacity = unat bytes"
proof -
  have "allocation_works drv view" using assms(1) by (simp add: executes_def)
  from allocate_slots_correct [OF this CudaBackend_new_correct [OF assms(2)] assms(4,3)] that show thesis by blast
qed

lemma served_history_polls:
  "backend_history submits (cuda_serves drv expf) b1 b submitted delivered \<Longrightarrow> backend_history submits (cuda_polls drv expf) b1 b submitted delivered"
  by (induction rule: backend_history.induct) (auto intro: backend_history.intros cuda_serves_polls)

lemma polled_history_serves:
  "backend_history submits (\<lambda>b cs b'. cuda_poll_completions drv b = (Inr cs, b')) b1 b submitted delivered \<Longrightarrow>
   backend_history submits (cuda_serves drv expf) b1 b submitted delivered"
  by (induction rule: backend_history.induct) (auto intro: backend_history.intros simp: cuda_serves_def)





end
