(* ===== verification/Cuda_Server.thy ===== *)
theory Cuda_Server
  imports Server_Run Server_Tool Cuda_Oracle
begin

text \<open>
  The server with the CUDA backend computes what it was asked. The worker's calls are a history of the backend, so what
  \<open>Cuda_Correct\<close> shows of every history holds of every response.
\<close>

section \<open>The worker as a client of the CUDA backend\<close>

interpretation cuda_server: accepting_server cuda_ok "\<lambda>b. unat (bk_next_handle b)" "\<lambda>b. set (cuda_handles b)"
    "\<lambda>job b. map_option (\<lambda>(h, b'). (Inr h, b')) (cuda_submit drv expf job b)" "cuda_poll_completions drv" for drv expf
  by unfold_locales auto

lemma cuda_calls:
  "(\<lambda>b job h b'. map_option (\<lambda>(h, b'). (Inr h, b')) (cuda_submit drv expf job b) = Some (Inr h :: job_handle result, b')) =
     (\<lambda>b job h b'. cuda_submit drv expf job b = Some (h, b'))"
  by (auto simp: fun_eq_iff)

lemma cuda_server_started:
  assumes "cuda_server_start config drv made = Inr s0"
  obtains b0 base where "made = Inr b0"
    "allocate_slots drv (of_nat (sc_num_slots config)) (of_nat (unat (sc_max_payload_bytes config))) b0 = (Inr base, sv_backend s0)"
proof -
  obtain b0 where b0: "made = Inr b0"
    using assms by (cases made) (simp_all add: cuda_server_start_def worker_main_start_def)
  obtain r b1 where r: "allocate_slots drv (of_nat (sc_num_slots config)) (of_nat (unat (sc_max_payload_bytes config))) b0 = (r, b1)"
    by fastforce
  obtain base pool where "r = Inr base" "s0 = new_server config pool b1"
    using assms b0 r by (auto simp: cuda_server_start_def worker_main_start_def bind_result_eq_Inr)
  then show thesis using that [OF b0] r by (simp add: new_server_def)
qed

lemma cuda_history_logged:
  assumes "\<And>b. made = Inr b \<Longrightarrow> fresh_backend b" "cuda_server_start config drv made = Inr s0"
    and "server_history (cuda_env config save drv expf) s0 s received"
    and "length (sv_connections s) < 2 ^ 64 - 1" "sv_submissions s < 2 ^ 64 - 2"
  shows "cuda_server.logged drv expf (cuda_env config save drv expf) (sv_backend s0) (set received) s"
proof (rule cuda_server.history_logged [OF assms(3)])
  show "worker_main_start (se_config (cuda_env config save drv expf)) (bind_result made (\<lambda>b. Inr (Some b)))
      (\<lambda>n bytes b. case allocate_slots drv (of_nat n) (of_nat bytes) b of (r, b') \<Rightarrow> bind_result r (\<lambda>base. Inr (Some base, b'))) = Inr s0"
    using assms(2) by (simp add: cuda_server_start_def cuda_env_def)
  fix b n bytes base b'
  assume m: "bind_result made (\<lambda>b. Inr (Some b)) = Inr (Some b)"
    and a: "(case allocate_slots drv (of_nat n) (of_nat bytes) b of (r, b') \<Rightarrow> bind_result r (\<lambda>base. Inr (Some base, b'))) = Inr (base, b')"
  have made: "made = Inr b" using m by (auto simp: bind_result_eq_Inr)
  obtain r where r: "allocate_slots drv (of_nat n) (of_nat bytes) b = (r, b')" using a by (auto simp: bind_result_eq_Inr split: prod.splits)
  show "cuda_ok b' \<and> unat (bk_next_handle b') = 1 \<and> set (cuda_handles b') = {}"
    using allocate_slots_fresh [OF assms(1) [OF made] r] by simp
qed (use assms(4,5) in \<open>simp_all add: cuda_env_def\<close>)

lemma arrival_jobsE:
  assumes "job \<in> arrival_jobs L"
  obtains a stale where "a \<in> L" "job = arrival_job a stale"
  using assms unfolding arrival_jobs_def mem_Collect_eq by (elim exE conjE)

text \<open>A frame that arrived gives the backend a job that its device runs.\<close>

lemma arrival_runs:
  assumes valid: "arrival_valid limits (k, header, chain, payload)"
    and key: "chain \<noteq> [] \<longrightarrow> cfg\<lparr>key_chain := chain, key_channels := uint (rq_channels header)\<rparr> \<in> K"
  shows "job_runs cfg K (arrival_job (k, header, chain, payload) stale)"
proof -
  have v: "validate_request_header header limits = kOk" "length payload = unat (rq_payload_len header)" "canonical_chain chain"
    using valid by (simp_all add: arrival_valid_def admitted_def)
  have "nat (sint (rq_width header)) * nat (uint (rq_channels header)) * nat (sint (rq_height header)) \<le> length payload"
  proof (cases "0 < sint (rq_width header) \<and> 0 < sint (rq_height header)")
    case True
    then have "image_wf (sent_image header payload)" using sent_image_wf [OF v(1,2)] by blast
    then show ?thesis by (simp add: image_wf_def sent_image_def ac_simps)
  qed (auto simp: not_less)
  then show ?thesis using v(3) key by (simp add: job_runs_def arrival_job_def job_of_def frame_of_def)
qed

section \<open>The factory of the program\<close>

lemma prewarm_all_correct:
  assumes "compiler_works drv view" "\<forall>entry \<in> set entries. canonical_chain (pw_chain entry)"
  shows "device_ok view expf cfg capacity J b \<Longrightarrow> prewarm_all drv expf entries b = (Inr (), b') \<Longrightarrow> device_ok view expf cfg capacity J b'"
  using assms(2)
proof (induction entries arbitrary: b)
  case (Cons entry entries)
  obtain b1 where b1: "prewarm drv expf (pw_chain entry) (pw_channels entry) b = (Inr (), b1)" "prewarm_all drv expf entries b1 = (Inr (), b')"
    using Cons.prems(2) by (auto elim!: then_act_cases)
  have "device_ok view expf cfg capacity J b1" using prewarm_correct [OF assms(1) Cons.prems(1) _ b1(1)] Cons.prems(3) by simp
  then show ?case using Cons.IH b1(2) Cons.prems(3) by simp
qed simp

lemma cuda_factory_correct:
  assumes "compiler_works drv view" "\<forall>entry \<in> set (so_prewarm options). canonical_chain (pw_chain entry)"
    and "fst (cuda_factory drv expf options d) = Inr b"
  shows "device_ok view expf (config_key (so_tile options) (so_tile_size options) (so_constants options)) 0 {} b"
proof -
  obtain bn dn arch b1 where new: "CudaBackend_new drv 0 (so_stream_count options) (so_tile options) (so_tile_size options) (so_constants options) d = (Inr bn, dn)"
      "on_driver (compute_arch drv (the (bk_context bn))) bn = (Inr arch, b1)" "prewarm_all drv expf (so_prewarm options) b1 = (Inr (), b)"
    using assms(3) by (auto simp: cuda_factory_def elim!: then_act_cases split: prod.splits sum.splits)
  obtain d1 where b1: "b1 = bn\<lparr>bk_driver := d1\<rparr>" using new(2) by (rule on_driver_run)
  have "device_ok view expf (config_key (so_tile options) (so_tile_size options) (so_constants options)) 0 {} bn" "bk_streams bn = []"
    by (rule CudaBackend_new_correct [OF new(1)])+
  moreover have "kc_entries (bk_cache bn) = []"
    using new(1) by (auto simp: CudaBackend_new_def new_kernel_cache_def split: prod.splits sum.splits if_splits)
  ultimately have "device_ok view expf (config_key (so_tile options) (so_tile_size options) (so_constants options)) 0 {} b1"
    unfolding b1 by (intro bare_device_ok) (auto simp: device_ok_def answers_ok_def key_for_def)
  from prewarm_all_correct [OF assms(1,2) this new(3)] show ?thesis .
qed

text \<open>What the running program did to its backend.\<close>

lemma program_history:
  assumes ex: "executes drv expf view K"
    and main: "server_main enable_cuda os make_dirs drv expf args d o1 = (Inr (Cuda_Server listener s0), o2)"
      "server_arguments enable_cuda args = Inr options"
    and size: "unat (sc_max_payload_bytes (so_config options)) < 2 ^ 31"
    and run: "server_history (cuda_env (so_config options) save drv expf) s0 s received"
    and keys: "\<forall>(k, header, chain, payload) \<in> set received. chain \<noteq> [] \<longrightarrow>
      \<lparr>key_chain = chain, key_channels = uint (rq_channels header), key_tile = so_tile options, key_tile_size = so_tile_size options,
       key_constants = so_constants options\<rparr> \<in> K"
    and room: "length (sv_connections s) < 2 ^ 64 - 1" "sv_submissions s < 2 ^ 64 - 2"
  obtains submitted delivered where "content_ok (cuda_env (so_config options) save drv expf) (set received) (set submitted) (set delivered) s"
    "distinct (map fst submitted)"
    "backend_history (\<lambda>b job h b'. cuda_submit drv expf job b = Some (h, b')) (\<lambda>b cs b'. cuda_poll_completions drv b = (Inr cs, b'))
       (sv_backend s0) (sv_backend s) submitted delivered"
    "device_ok view expf (config_key (so_tile options) (so_tile_size options) (so_constants options))
       (unat (sc_max_payload_bytes (so_config options))) {} (sv_backend s0)"
    "\<forall>job \<in> snd ` set submitted. job_runs (config_key (so_tile options) (so_tile_size options) (so_constants options)) K job"
    "snd ` set submitted \<subseteq> arrival_jobs (set received)" "calm (sv_backend s0)"
    "supported_key ((config_key (so_tile options) (so_tile_size options) (so_constants options))\<lparr>key_chain := [], key_channels := 1\<rparr>)"
proof -
  let ?cfg = "config_key (so_tile options) (so_tile_size options) (so_constants options)" and ?bytes = "sc_max_payload_bytes (so_config options)"
  have s0: "cuda_server_start (so_config options) drv (fst (cuda_factory drv expf options d)) = Inr s0"
    by (rule server_main_cuda [OF main(1)]) (use main(2) in simp)
  from cuda_server_started [OF this] obtain b0 base where b0: "fst (cuda_factory drv expf options d) = Inr b0"
      "allocate_slots drv (of_nat (sc_num_slots (so_config options))) (of_nat (unat ?bytes)) b0 = (Inr base, sv_backend s0)" by metis
  have fresh: "fresh_backend b0" by (rule cuda_factory_fresh [OF b0(1)])
  have parts: "allocation_works drv view" "compiler_works drv view" using ex by (simp_all add: executes_def)
  have bytes: "unat (of_nat (unat ?bytes) :: u64) = unat ?bytes" by (simp add: unat_ucast_up)
  have "device_ok view expf ?cfg 0 {} b0"
    by (rule cuda_factory_correct [OF parts(2) _ b0(1)]) (use server_arguments_accepted(1) [OF main(2)] in blast)
  from allocate_slots_correct [OF parts(1) this _ _ b0(2)] have dev: "device_ok view expf ?cfg (unat ?bytes) {} (sv_backend s0)"
    using fresh size bytes by (auto simp: fresh_backend_def)
  note start = allocate_slots_fresh [OF fresh b0(2)]
  have log: "cuda_server.logged drv expf (cuda_env (so_config options) save drv expf) (sv_backend s0) (set received) s"
    by (rule cuda_history_logged [OF cuda_factory_fresh s0 run room])
  have first: "set (cuda_handles (sv_backend s0)) = {}" "unat (bk_next_handle (sv_backend s0)) + sv_submissions s < 2 ^ 64"
    using start(2,3) room(2) by simp_all
  obtain submitted delivered where t: "cuda_server.served drv expf (sv_backend s0) (sv_backend s) submitted delivered"
      "length submitted = sv_submissions s" "snd ` set submitted \<subseteq> arrival_jobs (set received)" "distinct (map fst submitted)"
      "content_ok (cuda_env (so_config options) save drv expf) (set received) (set submitted) (set delivered) s"
    by (rule cuda_server.logged_responses [OF log start(1) first])
  have "job_runs ?cfg K job" if job: "job \<in> snd ` set submitted" for job
  proof -
    obtain a stale where a: "a \<in> set received" "job = arrival_job a stale" using subsetD [OF t(3) job] by (rule arrival_jobsE)
    obtain k header chain payload where q: "a = (k, header, chain, payload)" by (cases a)
    have key: "chain \<noteq> [] \<longrightarrow> ?cfg\<lparr>key_chain := chain, key_channels := uint (rq_channels header)\<rparr> \<in> K"
      using bspec [OF keys a(1)] by (simp add: q)
    show ?thesis unfolding a(2) q by (rule arrival_runs [OF content_parts(1) [OF t(5) a(1), unfolded q] key])
  qed
  moreover have "supported_key (?cfg\<lparr>key_chain := [], key_channels := 1\<rparr>)"
    using b0(1) by (auto simp: cuda_factory_def CudaBackend_new_def supported_key_def is_supported_channel_count_def split: prod.splits sum.splits if_splits)
  ultimately show thesis by (intro that [OF t(5,4) t(1) [unfolded cuda_calls] dev _ t(3) started_calm [OF fresh b0(2)]]) blast+
qed

section \<open>One frame on the virtual device\<close>

lemma slot_job_runs: "job_runs (config_key kNaive 0 kBaked) {pixel_key} slot_job" "job_fits 4 slot_job"
  using pixel_canonical by (simp_all add: job_runs_def job_fits_def slot_job_def pixel_key_def is_supported_channel_count_def)

lemma slot_job_answer: "cp_status (completion_of 1 (cpu_process (\<lambda>x. 1) slot_job)) = job_kOk"
proof -
  have "is_ok (cpu_process (\<lambda>x. 1) slot_job)" by code_simp
  then show ?thesis by (cases "cpu_process (\<lambda>x. 1) slot_job") (simp_all add: completion_of_def)
qed

lemma pixel_arch: "\<exists>arch. compute_arch pixel_driver ctx d = (Inr arch, d)"
  by (simp add: compute_arch_def then_act_def CU_CHECK_def cu_check_def virtual_driver_def ok_call_def CUDA_SUCCESS_def)

lemma pixel_program_run:
  obtains s0 s r where "server_main True open_os (\<lambda>_. return_act ()) pixel_driver (\<lambda>x. 1) small_args new_virtual_device () = (Inr (Cuda_Server 3 s0), ())"
    "server_history (cuda_env small_config (\<lambda>_ _. True) pixel_driver (\<lambda>x. 1)) s0 s [(0, pixel_header, invert_chain, [10])]"
    "length (sv_connections s) = 1" "sv_submissions s = 1" "co_taken (sv_connections s ! 0) = [r]" "re_status r = kOk"
proof -
  let ?env = "cuda_env small_config (\<lambda>_ _. True) pixel_driver (\<lambda>x. 1)"
  obtain b0 d where new: "CudaBackend_new pixel_driver 0 1 kNaive 0 kBaked new_virtual_device = (Inr b0, d)"
      "bk_host_slots b0 = None" "bk_streams b0 = []" "bk_stream_count b0 = 1" by (rule pixel_backend)
  have made: "fst (cuda_factory pixel_driver (\<lambda>x. 1) small_options new_virtual_device) = Inr b0"
    using pixel_arch [of "the (bk_context b0)" "bk_driver b0"]
    by (auto simp: cuda_factory_def new(1) on_driver_def then_act_def simp del: One_nat_def)
  obtain base b1 where alloc: "allocate_slots pixel_driver 1 4 b0 = (Inr base, b1)" by (rule pixel_slots [OF new(2-4), of 4]) simp_all
  obtain pool where pool: "new_slot_pool (Some base) 1 4 2 = Inr pool" by (simp add: new_slot_pool_def)
  have start: "cuda_server_start small_config pixel_driver (fst (cuda_factory pixel_driver (\<lambda>x. 1) small_options new_virtual_device)) =
      Inr (new_server small_config pool b1)"
    using alloc pool by (simp add: made cuda_server_start_def worker_main_start_def small_config_def default_config_def)
  obtain capacity where "device_ok virtual_view (\<lambda>x. 1) (config_key kNaive 0 kBaked) capacity {} b1" "capacity = 4"
    using allocate_slots_correct [OF virtual_allocation CudaBackend_new_correct [OF new(1)] _ alloc] by auto
  then have ok: "device_ok virtual_view (\<lambda>x. 1) (config_key kNaive 0 kBaked) 4 {} b1" by simp
  note fresh = allocate_slots_start [OF new(1) alloc] and calm = started_calm [OF CudaBackend_new_fresh [OF new(1)] alloc]
  obtain b2 b3 where served: "cuda_submit pixel_driver (\<lambda>x. 1) slot_job b1 = Some (1, b2)"
      "cuda_poll_completions pixel_driver b2 = (Inr [completion_of 1 (cpu_process (\<lambda>x. 1) slot_job)], b3)"
    by (rule pixel_serves [OF fresh ok calm slot_job_runs])
  have env: "se_config ?env = small_config" "se_submit ?env slot_job b1 = Some (Inr 1, b2)"
      "se_poll ?env b2 = (Inr [completion_of 1 (cpu_process (\<lambda>x. 1) slot_job)], b3)" "se_save ?env = (\<lambda>_ _. True)"
    using served by (simp_all add: cuda_env_def)
  define r where "r = response_of (entry_for (0, pixel_header, invert_chain, [10]) 0) (completion_of 1 (cpu_process (\<lambda>x. 1) slot_job))"
  obtain s where s: "server_history ?env (new_server small_config pool b1) s [(0, pixel_header, invert_chain, [10])]"
      "length (sv_connections s) = 1" "sv_submissions s = 1" "co_taken (sv_connections s ! 0) = [write_file_if_asked (\<lambda>_ _. True) (sc_output_dir small_config) 1 r]"
    using one_frame_run [OF env(1) pool env(2,3)] by (auto simp: env(4) r_def)
  moreover have "re_status (write_file_if_asked (\<lambda>_ _. True) (sc_output_dir small_config) 1 r) = kOk"
    by (simp add: write_file_if_asked_def r_def response_of_def slot_job_answer Let_def)
  ultimately show thesis using that [OF small_program [OF start]] by blast
qed

section \<open>Properties\<close>

lemma computed_frame:
  assumes valid: "arrival_valid limits (k, header, chain, payload)"
    and out: "cpu_process expf (arrival_job (k, header, chain, payload) stale) = Inr out"
  shows "image_wf (sent_image header payload) \<and> apply_chain expf (sent_image header payload) chain = Inr out"
proof -
  have v: "validate_request_header header limits = kOk" "length payload = unat (rq_payload_len header)"
    using valid by (simp_all add: arrival_valid_def admitted_def)
  note res = cpu_process_frame [OF v, of expf k chain 0 stale]
  have pos: "0 < sint (rq_width header) \<and> 0 < sint (rq_height header)"
  proof (rule ccontr)
    assume neg: "\<not> ?thesis"
    then obtain e where "new_image (sint (rq_width header)) (sint (rq_height header)) (uint (rq_channels header)) = Inl e"
      by (auto simp: new_image_def not_less)
    with out res show False unfolding if_not_P [OF neg] by (simp add: arrival_job_def)
  qed
  then show ?thesis using sent_image_wf [OF v] out res by (simp add: arrival_job_def)
qed

lemma arrival_fits:
  assumes valid: "arrival_valid (server_limits config) (k, header, chain, payload)"
    and pos: "0 < sint (rq_width header)" "0 < sint (rq_height header)"
  shows "job_fits (unat (sc_max_payload_bytes config)) (arrival_job (k, header, chain, payload) stale)"
proof -
  have v: "validate_request_header header (server_limits config) = kOk" "length payload = unat (rq_payload_len header)"
    using valid by (simp_all add: arrival_valid_def admitted_def)
  then have c: "is_supported_channel_count (uint (rq_channels header))" "rq_payload_len header \<le> sc_max_payload_bytes config"
    by (simp_all add: validate_ok_iff server_limits_def)
  have "image_wf (sent_image header payload)" by (rule sent_image_wf [OF v pos])
  then have "nat (sint (rq_width header)) * nat (uint (rq_channels header)) * nat (sint (rq_height header)) = length payload"
    by (simp add: image_wf_def sent_image_def ac_simps)
  moreover have "length payload \<le> unat (sc_max_payload_bytes config)" using v(2) c(2) by (simp add: word_le_nat_alt)
  moreover have "unat ((word_of_int (sint (rq_width header)) :: u64) * word_of_int (uint (rq_channels header))) =
      nat (sint (rq_width header)) * nat (uint (rq_channels header))"
    by (rule stride_exact [OF pos(1) positive_sint(2) [OF pos(1)]]) (use c(1) in \<open>simp add: is_supported_channel_count_def\<close>)
  ultimately show ?thesis using pos c(1) by (simp only: job_fits_def arrival_job_def job_of_def frame_of_def prod.case frame_job.simps queued_frame.simps) simp
qed





end
