(* ===== verification/Spec2Isabelle.thy ===== *)
theory Spec2Isabelle
  imports Cpp_Text Cpu_Ops Kernel_Key Protocol Slot_Pool Bounded_Queue Backend Codegen Kernel_Sem Cuda_Driver Kernel_Cache Cuda_Backend Socket_Io Client Server_Content
    Cli_Tool Client_Tool Server_Tool Spike Bench Cuda_Server
begin

text \<open>
  \<^bold>\<open>imgjit.\<close> A client sends frames (an image and a text that names a chain of image operations) over TCP; the server runs
  the chain, on the CPU or as CUDA kernels that it generates, compiles and caches at run time, and answers each frame by its sequence number. This
  development models the whole of the program's own C++ code and proves that a response is the chain applied to the
  frame that was sent, that every frame is answered exactly once whatever the threads, the clients, the kernel and the GPU driver do, and the
  contracts of the parts from which that follows.

  \<^bold>\<open>The parts, and the theories that model them.\<close> Paths are relative to the repository.

  \<^item> Shared vocabulary: \<open>Imgjit_Prelude\<close> (integer types, exceptions as \<open>cpp_exception + 'a\<close>, actions on a state that may throw,
    decimal text, loop facts), \<open>Cpp_Float\<close> (\<open>float\<close> and \<open>double\<close> as rationals with rounding to nearest even after every
    operation), \<open>Cpp_Text\<close> (\<open>strtof\<close> and \<open>%.9g\<close>).
  \<^item> Core: \<open>Image_Core\<close> (\<open>src/core/image.cpp\<close>), \<open>Op_Chain\<close> (\<open>src/core/op_chain.cpp\<close>: parser, quantization, canonical printer),
    \<open>Kernel_Key\<close> (\<open>src/core/kernel_key.cpp\<close>: equality and hash).
  \<^item> CPU side: \<open>Cpu_Ops\<close> (\<open>src/backend/cpu/ops.cpp\<close>, the oracle), \<open>Backend\<close> (\<open>backend.h\<close> as the locales \<open>job_ledger\<close>,
    \<open>backend\<close> and \<open>reference_backend\<close>, and \<open>src/backend/cpu/cpu_backend.cpp\<close>).
  \<^item> CUDA side, \<open>src/backend/cuda\<close>: \<open>Codegen\<close> (\<open>codegen.cpp\<close>, \<open>kernel_prelude.h\<close>: the fusion plan and the source text, character
    for character), \<open>Kernel_Sem\<close> (what that text computes, per thread and launch), \<open>Cuda_Driver\<close> (\<open>cuda_check.h\<close>, \<open>cuda_raii.h\<close>,
    \<open>nvrtc_compile.h\<close>), \<open>Kernel_Cache\<close> (\<open>kernel_cache.cpp\<close>), \<open>Cuda_Backend\<close> (\<open>cuda_backend.cpp\<close>: streams, submission, retiring,
    recovery from a lost context). The driver and NVRTC are a record of functions on a state of the driver, so the theorems
    hold for every way in which their calls succeed or fail. \<open>Cuda_Device\<close> states what a driver that keeps its documentation does with
    memory, events and launches, \<open>Cuda_Correct\<close> has the backend's invariant on such a driver, and \<open>Cuda_Oracle\<close> the comparison with the CPU backend and
    a device written as a program.
  \<^item> Utilities: \<open>Slot_Pool\<close> (\<open>src/util/slot_pool.cpp\<close>), \<open>Bounded_Queue\<close> (\<open>bounded_queue.h\<close>, locale \<open>closable_queue\<close>), \<open>Image_Io\<close>
    (\<open>src/util/image_io.cpp\<close> over a record for the stb codec).
  \<^item> Network, \<open>src/net\<close>: \<open>Protocol\<close> (\<open>protocol.cpp\<close>: headers as bytes, validation, dispositions; locale \<open>wire_codec\<close>), \<open>Socket_Io\<close>
    (\<open>socket.cpp\<close>), \<open>Client\<close> (\<open>client.cpp\<close>), and \<open>server.cpp\<close> in six theories: \<open>Server\<close> (outbox, and the handlers that read a
    request and write a response), \<open>Server_Steps\<close> (the threads), \<open>Server_Inv\<close> and \<open>Server_Correct\<close> (the invariant, that each step
    keeps it, and its two backends), \<open>Server_Spec\<close> and \<open>Server_Content\<close> (what follows). \<open>Server_Run\<close> is one frame step by step, and \<open>Cuda_Server\<close> joins
    the server to \<open>Cuda_Correct\<close>.
  \<^item> Programs: \<open>Tool_Args\<close> (the loop over \<open>argv\<close>, \<open>atoi\<close>, how a run ends), \<open>Cli_Tool\<close>, \<open>Client_Tool\<close>, \<open>Server_Tool\<close>, \<open>Spike\<close>
    (\<open>tools/*.cpp\<close>) and \<open>Bench\<close> (\<open>bench/imgjit-bench.cpp\<close>).

  \<^bold>\<open>How state and operations correspond.\<close> A class is a record with a field for each member, a member function is a definition of the
  same name (with a prefix where two classes share it) from the record to the record; a constructor that throws part of the way
  destroys what it had built, in the model as in the code. A call that may block returns \<open>Waits\<close> and is resumed when notified. A
  socket is the script of what the kernel will deliver or accept, cut in arbitrary pieces, with interruptions, errors and the end of the stream. The
  server is one record and a partial step function for each thread: a step is a critical section, or a call on the socket or
  the backend, and \<open>None\<close> means blocked or ended. \<open>server_reachable\<close> is what any interleaving of readers, writers, worker, acceptor and
  the thread that stops the server can reach. The fields \<open>co_asked\<close>, \<open>co_taken\<close> and \<open>sv_submissions\<close> only record what happened; no step reads
  them.

  \<^bold>\<open>What is shown.\<close>

  \<^item> \<open>Server_Content\<close>: over the CPU backend, every response the server writes is the answer to a frame that the same
    connection sent: the image is the chain applied by the CPU ops. \<open>Cuda_Server\<close>: the same of the CUDA server from the command line on, on a driver
    that executes the kernels, whatever calls fail; when none fails it answers like the CPU server. \<open>Server_Spec\<close>: each frame is answered exactly once, by both backends;
    no slot has two holders; stopping discards nothing that was admitted; and over the CPU backend the threads cannot all be blocked with work left. \<open>Server\<close>: requests and
    responses cross the wire unchanged, and after a rejected frame the stream is at the next header.
  \<^item> \<open>Kernel_Sem\<close>: running the fused kernels, naive or with any tile edge, gives the bytes of the CPU oracle. \<open>Codegen\<close>: every
    supported key generates. \<open>Kernel_Cache\<close>, \<open>Kernel_Key\<close>: one compile for each chain, and a hit is never another chain's kernel.
    \<open>Cuda_Backend\<close>: for an arbitrary driver no job is lost or delivered twice, submission returns, recovery keeps the slots.
    \<open>Cuda_Oracle\<close>: on a driver that executes the kernels each completion that is not an error is the CPU backend's, and all of them are when no call
    fails.
    \<open>Cuda_Driver\<close>: the wrappers free each resource once; compilation throws only its own exception.
  \<^item> \<open>Op_Chain\<close>: the parser yields canonical chains, inverts the printer, and equals a split at the commas followed by the tokens in
    turn. \<open>Cpu_Ops\<close>: a chain never fails on a well-formed image and keeps its shape and alpha; a blur keeps flat images; storing undoes
    loading on all samples. \<open>Image_Core\<close>, \<open>Image_Io\<close>: copying and files keep the samples.
  \<^item> \<open>Slot_Pool\<close>: the pool implements a finite map from slots to owners and loses none; \<open>Bounded_Queue\<close>: first in, first out, within
    the capacity; \<open>Protocol\<close>: the codecs are inverse, and what validation accepts and drains; \<open>Socket_Io\<close>: the transfer loops end and are
    exact.
  \<^item> Programs: from the command line on, the CUDA server answers each request exactly once for every driver; a warmed chain is a cache hit; the client matches responses in any order; the command line program saves the chain's result
    and its exit status says so; the benchmark keeps its window; the spike reports no mismatch on a device that works.

  \<^bold>\<open>Interfaces.\<close> \<open>job_ledger\<close> (handles are fresh and each is delivered once) is what the server relies on: \<open>server_backend\<close> extends
  it and is interpreted for the CPU backend and for the CUDA backend; \<open>accepting_server\<close> adds that no submission is
  refused, so that the worker's calls are a history of the backend, and is interpreted for both as well; \<open>reference_backend\<close> says that completions follow a
  function of the job and is interpreted for the CPU backend. \<open>closable_queue\<close> is interpreted for the work queue and the outbox, \<open>slot_allocator\<close> for the pool's claim and its
  resumption, \<open>wire_codec\<close> for both headers, \<open>hashed_key\<close> for kernel keys, \<open>sample_codec\<close> for the samples of CPU and GPU.

  \<^bold>\<open>Bounds and termination.\<close> Loops are structural or have a measure. The two loops that the code alone does not bound, waiting for
  a stream (\<open>claim_stream\<close>) and polling until a completion arrives (\<open>poll_until\<close>), are partial functions with \<open>None\<close> for not returning, and that they return is
  proved: for the first from the documented behaviour of events, for the second on the CPU backend. No fuel is used. The theorems on the server
  assume fewer than \<open>2 ^ 64 - 1\<close> connections and submissions, because ids are 64 bits wide; widths are kept wherever
  the code converts.

  \<^bold>\<open>Hypotheses on other people's code.\<close> \<open>std::exp\<close> is a parameter of the blur. \<open>events_complete\<close> (an event that was waited for is complete), \<open>decodes\<close> and
  \<open>stores\<close> (dimensions and sizes of a decoded file; a written file is read back), \<open>holds_invert\<close> (copies move the bytes and a launch runs
  each thread once), \<open>executes\<close> (copies on a stream, events, allocation and compilation do what the driver's documentation says, and a launch of a generated
  function does to the buffers what \<open>Kernel_Sem\<close> says its text means; a call that fails promises no bytes), \<open>never_fails\<close> (no call fails): each is used by
  name and has a concrete instance, for the last two the device of \<open>Cuda_Oracle\<close>. With \<open>executes\<close> the slots are below \<open>2 ^ 31\<close> bytes, because the
  generated kernels index with an \<open>int\<close>.

  \<^bold>\<open>Not modelled.\<close> Exhaustion of memory and failing thread creation; the C++ memory model below critical sections and atomics; progress
  and report lines on standard output, and messages of destructors; the clock, except as a list of readings; contraction of
  multiplications and additions by a compiler; \<open>src/util/stb_impl.cpp\<close>, which only instantiates the vendored stb headers; tests, scripts and
  build files.
\<close>

end
